(* ===== verification/Prelude.thy ===== *)
theory Prelude
  imports Main "HOL-Library.Word"
begin

text \<open>
  Shared vocabulary of the development: the machine integers of the Go code, run-time panics
  and the bind of computations that may panic, Go's slices and \<open>copy\<close> on lists, capacity-one
  signal channels, and the generic lemmas about them that the components use.
\<close>

section \<open>Machine integers\<close>

type_synonym u8 = "8 word"
type_synonym u16 = "16 word"
type_synonym u32 = "32 word"
type_synonym u64 = "64 word"
type_synonym bytes = "u8 list"

text \<open>The conversion of a string to its bytes.\<close>

definition ascii :: "string \<Rightarrow> bytes" where
  "ascii s = map (\<lambda>c. of_nat (of_char c)) s"

named_theorems go_simps \<open>rewrite rules of the panic monad and of slices\<close>
named_theorems cb_simps \<open>field equations of the circular buffer operations\<close>
named_theorems tcp_simps \<open>field equations of the TCP handlers\<close>

section \<open>Panics\<close>

text \<open>
  A Go run-time panic ends the process. A computation that may panic returns a sum: \<open>Inl\<close> the
  panic, \<open>Inr\<close> the result; \<open>FatalExit\<close> is the exit of \<open>log.Fatalln\<close>, \<open>LibraryPanic\<close> a
  panic that the standard library raises itself. Error values that a function returns are ordinary results.
\<close>

datatype go_panic =
    NilDereference
  | SliceOutOfRange
  | IndexOutOfRange
  | CloseOfClosedChannel
  | SendOnClosedChannel
  | FatalExit
  | LibraryPanic

definition go_bind :: "'e + 'a \<Rightarrow> ('a \<Rightarrow> 'e + 'b) \<Rightarrow> 'e + 'b" where
  "go_bind m f = (case m of Inl e \<Rightarrow> Inl e | Inr x \<Rightarrow> f x)"

lemma go_bind_Inr [simp, go_simps]: "go_bind (Inr x) f = f x"
  by (simp add: go_bind_def)

lemma go_bind_Inl [simp, go_simps]: "go_bind (Inl e) f = Inl e"
  by (simp add: go_bind_def)

lemma go_bind_eq_Inr: "go_bind m f = Inr y \<longleftrightarrow> (\<exists>x. m = Inr x \<and> f x = Inr y)"
  by (cases m) auto

lemma go_bind_eq_Inl:
  "go_bind m f = Inl e \<longleftrightarrow> m = Inl e \<or> (\<exists>x. m = Inr x \<and> f x = Inl e)"
  by (cases m) auto

lemma go_bindE:
  assumes "go_bind m f = Inr y"
  obtains x where "m = Inr x" and "f x = Inr y"
  using assms by (auto simp: go_bind_eq_Inr)

lemma go_bind_assoc: "go_bind (go_bind m f) g = go_bind m (\<lambda>x. go_bind (f x) g)"
  by (cases m) auto

text \<open>Dereferencing a pointer: \<open>nil\<close> is \<open>None\<close>.\<close>

definition deref :: "'a option \<Rightarrow> go_panic + 'a" where
  "deref p = (case p of None \<Rightarrow> Inl NilDereference | Some x \<Rightarrow> Inr x)"

lemma deref_simps [simp, go_simps]:
  "deref None = Inl NilDereference"
  "deref (Some x) = Inr x"
  by (simp_all add: deref_def)

lemma deref_eq_Inr [simp]: "deref p = Inr x \<longleftrightarrow> p = Some x"
  by (cases p) auto

section \<open>Signal channels\<close>

text \<open>
  A \<open>chan struct{}\<close> of capacity one holds at most one token. \<open>signal\<close> is the non-blocking
  send \<open>select { case ch <- struct{}{}: default: }\<close>: it leaves a full channel as it is and
  panics on a closed one. \<open>close_chan\<close> is the built-in \<open>close\<close>.
\<close>

datatype chan1 = ChanEmpty | ChanFull | ChanClosed

fun signal :: "chan1 \<Rightarrow> go_panic + chan1" where
  "signal ChanClosed = Inl SendOnClosedChannel"
| "signal _ = Inr ChanFull"

fun close_chan :: "chan1 \<Rightarrow> go_panic + chan1" where
  "close_chan ChanClosed = Inl CloseOfClosedChannel"
| "close_chan _ = Inr ChanClosed"

text \<open>
  A receive returns when a token is there or the channel is closed, and blocks otherwise.
\<close>

fun recv_ready :: "chan1 \<Rightarrow> bool" where
  "recv_ready ChanEmpty = False"
| "recv_ready _ = True"

fun recv_chan :: "chan1 \<Rightarrow> chan1" where
  "recv_chan ChanFull = ChanEmpty"
| "recv_chan c = c"

lemma signal_open [simp]: "c \<noteq> ChanClosed \<Longrightarrow> signal c = Inr ChanFull"
  by (cases c) auto

lemma close_open [simp]: "c \<noteq> ChanClosed \<Longrightarrow> close_chan c = Inr ChanClosed"
  by (cases c) auto

lemma signal_Inr_iff: "signal c = Inr d \<longleftrightarrow> c \<noteq> ChanClosed \<and> d = ChanFull"
  by (cases c) auto

section \<open>Slices\<close>

text \<open>
  \<open>subslice i n xs\<close> is \<open>xs[i : i+n]\<close>; \<open>blit i src dst\<close> is \<open>copy(dst[i : i+len(src)], src)\<close> for a
  source that fits.
\<close>

definition subslice :: "nat \<Rightarrow> nat \<Rightarrow> 'a list \<Rightarrow> 'a list" where
  "subslice i n xs = take n (drop i xs)"

definition blit :: "nat \<Rightarrow> 'a list \<Rightarrow> 'a list \<Rightarrow> 'a list" where
  "blit i src dst = take i dst @ src @ drop (i + length src) dst"

lemma length_blit [simp]: "i + length src \<le> length dst \<Longrightarrow> length (blit i src dst) = length dst"
  by (simp add: blit_def)

lemma blit_Nil [simp]: "blit i [] dst = dst"
  by (simp add: blit_def)

lemma nth_blit:
  "i + length src \<le> length dst \<Longrightarrow> j < length dst \<Longrightarrow>
    blit i src dst ! j = (if i \<le> j \<and> j < i + length src then src ! (j - i) else dst ! j)"
  by (auto simp: blit_def nth_append min_def)

lemma length_subslice [simp]: "length (subslice i n xs) = min n (length xs - i)"
  by (simp add: subslice_def min.commute)

lemma nth_subslice: "i + n \<le> length xs \<Longrightarrow> j < n \<Longrightarrow> subslice i n xs ! j = xs ! (i + j)"
  by (simp add: subslice_def)

lemma subslice_append:
  "subslice i m xs @ subslice (i + m) n xs = subslice i (m + n) xs"
  by (simp add: subslice_def take_add add.commute)

section \<open>Unsigned words\<close>

lemma unat_add_word: "unat (a :: 'a::len word) + unat b < 2 ^ LENGTH('a) \<Longrightarrow> unat (a + b) = unat a + unat b"
  by (simp add: unat_word_ariths)

lemma unat_of_nat_u32: "n < 2 ^ 32 \<Longrightarrow> unat (of_nat n :: u32) = n"
  by (simp add: unat_of_nat take_bit_nat_eq_self)

lemma unat_u32_lt: "unat (w :: u32) < 4294967296"
  using unsigned_less [of w] by simp

lemma unat_u16_lt: "unat (w :: u16) < 65536"
  using unsigned_less [of w] by simp

lemma unat_sub_word: "b \<le> (a :: 'a::len word) \<Longrightarrow> unat (a - b) = unat a - unat b"
  by (simp add: unat_sub)

lemma of_nat_eq_u32:
  assumes "m < 4294967296" and "n < 4294967296"
  shows "(of_nat m = (of_nat n :: u32)) \<longleftrightarrow> m = n"
proof
  assume "of_nat m = (of_nat n :: u32)"
  then have "unat (of_nat m :: u32) = unat (of_nat n :: u32)" by simp
  then show "m = n" using assms by (simp add: unat_of_nat_u32)
qed simp

end
