(* ===== verification/CircleBuf.thy ===== *)
theory CircleBuf
  imports Prelude
begin

text \<open>
  The circular buffer of \<open>src/pkg/tcpStack/circleBuf.go\<close>, used by both the send and the receive
  side of a connection. The first part translates the Go methods; the second proves that they
  implement a bounded FIFO window of a byte stream, for every position of the head in the ring
  and every value of the 32-bit sequence numbers. The locale \<open>stream_window\<close> states that
  contract, and the buffer is an interpretation of it.
\<close>

section \<open>The code\<close>

text \<open>\<open>MAX_WIN_SIZE\<close> is an untyped constant of types.go.\<close>

abbreviation (input) MAX_WIN_SIZE :: "'a::numeral" where
  "MAX_WIN_SIZE \<equiv> 65535"

record circle_buf =
  cb_buf :: bytes
  cb_maxSize :: u32
  cb_currSize :: u32
  cb_baseSeq :: u32
  cb_head :: nat

text \<open>The constructor ignores its size argument and always allocates \<open>MAX_WIN_SIZE\<close> bytes.\<close>

definition NewCircleBuf :: "u32 \<Rightarrow> u32 \<Rightarrow> circle_buf" where
  "NewCircleBuf maxSize baseSeq =
     \<lparr>cb_buf = replicate MAX_WIN_SIZE 0, cb_maxSize = MAX_WIN_SIZE, cb_currSize = 0,
      cb_baseSeq = baseSeq, cb_head = 0\<rparr>"

text \<open>
  \<open>int(seqNum - baseSeq)\<close> is the 32-bit difference read as a non-negative \<open>int\<close>. The divisor
  is positive, since \<open>maxSize\<close> is only ever set by the constructor.
\<close>

definition SeqNumToIndex :: "circle_buf \<Rightarrow> u32 \<Rightarrow> nat" where
  "SeqNumToIndex cb seqNum =
     (cb_head cb + unat (seqNum - cb_baseSeq cb)) mod unat (cb_maxSize cb)"

definition FreeSpace :: "circle_buf \<Rightarrow> u32" where
  "FreeSpace cb = cb_maxSize cb - cb_currSize cb"

definition IsEmpty :: "circle_buf \<Rightarrow> bool" where
  "IsEmpty cb \<longleftrightarrow> cb_currSize cb = 0"

definition WriteIntoBuf :: "circle_buf \<Rightarrow> u32 \<Rightarrow> bytes \<Rightarrow> go_panic + (circle_buf \<times> nat)" where
  "WriteIntoBuf cb seqNum data =
     (if data = [] then Inr (cb, 0)
      else let start = SeqNumToIndex cb seqNum in
        if length (cb_buf cb) < start then Inl SliceOutOfRange
        else let firstChunk = min (length data) (length (cb_buf cb) - start);
                 buf1 = blit start (take firstChunk data) (cb_buf cb);
                 remaining = length data - firstChunk in
          if length (cb_buf cb) < remaining then Inl SliceOutOfRange
          else Inr (cb\<lparr>cb_buf := blit 0 (drop firstChunk data) buf1,
                       cb_currSize := cb_currSize cb + of_nat (length data)\<rparr>, length data))"

text \<open>\<open>ReadFromBuf\<close> returns the destination slice after the copies and the byte count.\<close>

definition ReadFromBuf :: "circle_buf \<Rightarrow> u32 \<Rightarrow> bytes \<Rightarrow> u32 \<Rightarrow> go_panic + (bytes \<times> nat)" where
  "ReadFromBuf cb seqNum dest n =
     (if n < 1 \<or> dest = [] then Inr (dest, 0)
      else let n' = (if of_nat (length dest) < n then of_nat (length dest) else n);
               start = SeqNumToIndex cb seqNum in
        if length (cb_buf cb) < start then Inl SliceOutOfRange
        else let firstChunk = min (unat n') (length (cb_buf cb) - start);
                 dest1 = blit 0 (subslice start firstChunk (cb_buf cb)) dest;
                 remaining = unat n' - firstChunk in
          if length (cb_buf cb) < remaining then Inl SliceOutOfRange
          else Inr (blit firstChunk (subslice 0 remaining (cb_buf cb)) dest1, unat n'))"

definition SliceFrom :: "circle_buf \<Rightarrow> u32 \<Rightarrow> u32 \<Rightarrow> go_panic + bytes" where
  "SliceFrom cb seq n =
     (if n = 0 then Inr []
      else go_bind (ReadFromBuf cb seq (replicate (unat n) 0) n) (\<lambda>(out, _). Inr out))"

definition AdvanceBase :: "circle_buf \<Rightarrow> u32 \<Rightarrow> circle_buf" where
  "AdvanceBase cb numBytesAcked =
     (if numBytesAcked = 0 then cb
      else let n = (if cb_currSize cb < numBytesAcked then cb_currSize cb else numBytesAcked) in
        cb\<lparr>cb_baseSeq := cb_baseSeq cb + n, cb_currSize := cb_currSize cb - n,
           cb_head := (cb_head cb + unat n) mod unat (cb_maxSize cb)\<rparr>)"

section \<open>Rings\<close>

text \<open>
  \<open>ring_read buf h n\<close> reads \<open>n\<close> cells from index \<open>h\<close>, wrapping at the end. A read or a write in
  two chunks is a read or a write of the ring.
\<close>

definition ring_read :: "'a list \<Rightarrow> nat \<Rightarrow> nat \<Rightarrow> 'a list" where
  "ring_read buf h n = map (\<lambda>k. buf ! ((h + k) mod length buf)) [0..<n]"

lemma length_ring_read [simp]: "length (ring_read buf h n) = n"
  by (simp add: ring_read_def)

lemma nth_ring_read [simp]: "k < n \<Longrightarrow> ring_read buf h n ! k = buf ! ((h + k) mod length buf)"
  by (simp add: ring_read_def)

lemma ring_read_0 [simp]: "ring_read buf h 0 = []"
  by (simp add: ring_read_def)

lemma ring_read_mod: "ring_read buf (h mod length buf) n = ring_read buf h n"
  by (simp add: ring_read_def mod_add_left_eq)

lemma take_ring_read: "m \<le> n \<Longrightarrow> take m (ring_read buf h n) = ring_read buf h m"
  by (rule nth_equalityI) auto

lemma drop_ring_read: "m \<le> n \<Longrightarrow> drop m (ring_read buf h n) = ring_read buf (h + m) (n - m)"
  by (rule nth_equalityI) (auto simp: add.assoc)

lemma ring_read_chunks:
  assumes "h < length buf" and "n \<le> length buf"
  defines "f \<equiv> min n (length buf - h)"
  shows "subslice h f buf @ subslice 0 (n - f) buf = ring_read buf h n"
proof (rule nth_equalityI)
  show "length (subslice h f buf @ subslice 0 (n - f) buf) = length (ring_read buf h n)"
    using assms by (auto simp: f_def)
next
  fix k assume "k < length (subslice h f buf @ subslice 0 (n - f) buf)"
  then have k: "k < n" using assms by (auto simp: f_def)
  have f: "h + f \<le> length buf" and rest: "n - f \<le> length buf" using assms by (auto simp: f_def)
  show "(subslice h f buf @ subslice 0 (n - f) buf) ! k = ring_read buf h n ! k"
  proof (cases "k < f")
    case True
    with k f assms(1) show ?thesis by (simp add: nth_append nth_subslice)
  next
    case False
    with k assms have "f = length buf - h" by (auto simp: f_def)
    with k False assms have "(h + k) mod length buf = h + k - length buf" and "h + k - length buf = k - f"
      by (auto simp: mod_if)
    then have "(h + k) mod length buf = k - f" by simp
    with k False f rest show ?thesis by (simp add: nth_append nth_subslice)
  qed
qed

definition ring_write :: "nat \<Rightarrow> 'a list \<Rightarrow> 'a list \<Rightarrow> 'a list" where
  "ring_write h data buf =
     (let f = min (length data) (length buf - h)
      in blit 0 (drop f data) (blit h (take f data) buf))"

lemma length_ring_write [simp]:
  "h < length buf \<Longrightarrow> length data \<le> length buf \<Longrightarrow> length (ring_write h data buf) = length buf"
  by (simp add: ring_write_def Let_def)

lemma nth_ring_write:
  assumes "h < length buf" and "length data \<le> length buf" and "j < length buf"
  shows "ring_write h data buf ! j =
    (let k = (j + length buf - h) mod length buf in if k < length data then data ! k else buf ! j)"
proof -
  let ?f = "min (length data) (length buf - h)" and ?b1 = "blit h (take (min (length data) (length buf - h)) data) buf"
  have f: "h + ?f \<le> length buf" using assms(1) by linarith
  then have b1: "length ?b1 = length buf" by simp
  have take: "take ?f data ! (j - h) = data ! (j - h)" if "h \<le> j" "j < h + ?f"
    using that by (intro nth_take) linarith
  have one: "?b1 ! j = (if h \<le> j \<and> j < h + ?f then data ! (j - h) else buf ! j)"
    using f assms(3) by (subst nth_blit) (auto simp: take)
  have "length data - ?f \<le> length ?b1" using b1 assms(2) by linarith
  then have two: "ring_write h data buf ! j
      = (if j < length data - ?f then data ! (?f + j) else ?b1 ! j)"
    unfolding ring_write_def Let_def using assms(3) b1 by (subst nth_blit) auto
  show ?thesis
  proof (cases "h \<le> j")
    case True
    then have "(j + length buf - h) mod length buf = j - h"
      using assms(3) by (simp add: mod_if)
    moreover have "\<not> j < length data - ?f" using True assms(2,3) by linarith
    ultimately show ?thesis using True assms(3) by (auto simp: two one Let_def)
  next
    case False
    then have "(j + length buf - h) mod length buf = j + length buf - h"
      using assms(1) by (intro mod_less) linarith
    moreover have "?f + j = j + length buf - h" if "j < length data - ?f"
      using that False assms(1) by linarith
    ultimately show ?thesis using False assms(1) by (auto simp: two one Let_def)
  qed
qed

lemma ring_read_write:
  assumes "h < length buf" and "m + length data \<le> length buf"
  shows "ring_read (ring_write ((h + m) mod length buf) data buf) h (m + length data)
           = ring_read buf h m @ data"
    (is "?l = ?r")
proof (rule nth_equalityI)
  fix k assume "k < length ?l"
  then have k: "k < m + length data" by simp
  let ?L = "length buf" and ?w = "(h + m) mod length buf" and ?j = "(h + k) mod length buf"
  have L: "0 < ?L" using assms by linarith
  have w: "?w < ?L" and j: "?j < ?L" using L by simp_all
  have w_eq: "?w = (if h + m < ?L then h + m else h + m - ?L)"
    using assms by (simp add: mod_if)
  have j_eq: "?j = (if h + k < ?L then h + k else h + k - ?L)"
    using assms k by (simp add: mod_if)
  have idx: "(?j + ?L - ?w) mod ?L = (if k < m then k + ?L - m else k - m)"
  proof (cases "k < m")
    case True
    then have "?j + ?L - ?w = k + ?L - m \<or> ?j + ?L - ?w = (k + ?L - m) + ?L"
      unfolding w_eq j_eq using assms k by (auto split: if_splits)
    moreover have "(k + ?L - m) mod ?L = k + ?L - m" using True assms by (intro mod_less) linarith
    ultimately show ?thesis using True by auto
  next
    case False
    then have "?j + ?L - ?w = k - m \<or> ?j + ?L - ?w = (k - m) + ?L"
      unfolding w_eq j_eq using assms k by (simp split: if_split)
    moreover have "(k - m) mod ?L = k - m" using False assms k by (intro mod_less) linarith
    ultimately have "(?j + ?L - ?w) mod ?L = k - m" by (elim disjE) (simp_all only: mod_add_self2)
    then show ?thesis using False by simp
  qed
  have "length data \<le> ?L" using assms(2) by linarith
  then have "?l ! k = (if (?j + ?L - ?w) mod ?L < length data
      then data ! ((?j + ?L - ?w) mod ?L) else buf ! ?j)"
    using k w j by (simp add: nth_ring_write Let_def)
  also have "\<dots> = ?r ! k"
    unfolding idx using k assms(2) by (auto simp: nth_append)
  finally show "?l ! k = ?r ! k" .
qed simp

section \<open>Well-formedness and content\<close>

definition cb_ok :: "circle_buf \<Rightarrow> bool" where
  "cb_ok cb \<longleftrightarrow> length (cb_buf cb) = 65535 \<and> cb_maxSize cb = 65535
     \<and> cb_head cb < 65535 \<and> unat (cb_currSize cb) \<le> 65535"

text \<open>The bytes held, oldest first; the first has sequence number \<open>cb_baseSeq\<close>.\<close>

definition cb_content :: "circle_buf \<Rightarrow> bytes" where
  "cb_content cb = ring_read (cb_buf cb) (cb_head cb) (unat (cb_currSize cb))"

lemma cb_okD:
  assumes "cb_ok cb"
  shows "length (cb_buf cb) = 65535" and "cb_maxSize cb = 65535" and "unat (cb_maxSize cb) = 65535"
    and "cb_head cb < 65535" and "unat (cb_currSize cb) \<le> 65535" and "cb_currSize cb \<le> 65535"
  using assms by (auto simp: cb_ok_def word_le_nat_alt)

lemma length_cb_content [simp]: "length (cb_content cb) = unat (cb_currSize cb)"
  by (simp add: cb_content_def)

lemma cb_content_le: "cb_ok cb \<Longrightarrow> length (cb_content cb) \<le> 65535"
  by (simp add: cb_okD)

lemma cb_ok_New [simp, intro]: "cb_ok (NewCircleBuf n s)"
  by (simp add: cb_ok_def NewCircleBuf_def)

lemma cb_content_New [simp]: "cb_content (NewCircleBuf n s) = []"
  by (simp add: cb_content_def NewCircleBuf_def)

lemma New_fields [simp, cb_simps]:
  "cb_baseSeq (NewCircleBuf n s) = s" "cb_currSize (NewCircleBuf n s) = 0"
  by (simp_all add: NewCircleBuf_def)

lemma unat_FreeSpace: "cb_ok cb \<Longrightarrow> unat (FreeSpace cb) = 65535 - length (cb_content cb)"
  by (simp add: FreeSpace_def cb_okD unat_sub)

lemma IsEmpty_iff: "IsEmpty cb \<longleftrightarrow> cb_content cb = []"
  by (metis IsEmpty_def length_0_conv length_cb_content unat_eq_0)

section \<open>The operations implement a bounded FIFO\<close>

lemma SeqNumToIndex_less: "cb_ok cb \<Longrightarrow> SeqNumToIndex cb s < 65535"
  by (simp add: SeqNumToIndex_def cb_okD)

lemma SeqNumToIndex_base:
  "cb_ok cb \<Longrightarrow> k < 4294967296 \<Longrightarrow>
    SeqNumToIndex cb (cb_baseSeq cb + of_nat k) = (cb_head cb + k) mod 65535"
  by (simp add: SeqNumToIndex_def cb_okD unat_of_nat_u32)

lemma WriteIntoBuf_ring:
  assumes "cb_ok cb" and "length data \<le> 65535"
  shows "WriteIntoBuf cb s data =
    Inr (cb\<lparr>cb_buf := ring_write (SeqNumToIndex cb s) data (cb_buf cb),
            cb_currSize := cb_currSize cb + of_nat (length data)\<rparr>, length data)"
proof -
  have i: "SeqNumToIndex cb s < 65535" using assms(1) by (rule SeqNumToIndex_less)
  have "ring_write (SeqNumToIndex cb s) [] (cb_buf cb) = cb_buf cb"
    by (simp add: ring_write_def Let_def)
  moreover have "\<not> 65535 < length data - min (length data) (65535 - SeqNumToIndex cb s)"
    using assms(2) by linarith
  ultimately show ?thesis
    using assms(1) i by (simp add: WriteIntoBuf_def ring_write_def Let_def cb_okD)
qed

text \<open>Writing at the end of the content appends, if the data fits the free space.\<close>

lemma WriteIntoBuf_append:
  assumes ok: "cb_ok cb" and fits: "length (cb_content cb) + length data \<le> 65535"
    and s: "s = cb_baseSeq cb + cb_currSize cb"
  obtains cb' where "WriteIntoBuf cb s data = Inr (cb', length data)"
    and "cb_ok cb'" and "cb_content cb' = cb_content cb @ data"
    and "cb_baseSeq cb' = cb_baseSeq cb"
    and "cb_currSize cb' = cb_currSize cb + of_nat (length data)"
proof
  let ?i = "SeqNumToIndex cb s"
  let ?cb' = "cb\<lparr>cb_buf := ring_write ?i data (cb_buf cb),
                 cb_currSize := cb_currSize cb + of_nat (length data)\<rparr>"
  note L = cb_okD [OF ok]
  have i: "?i = (cb_head cb + unat (cb_currSize cb)) mod 65535"
    using ok s unat_u32_lt [of "cb_currSize cb"]
      SeqNumToIndex_base [of cb "unat (cb_currSize cb)"] by simp
  have size: "unat (cb_currSize cb + of_nat (length data)) = unat (cb_currSize cb) + length data"
    using fits by (subst unat_add_word) (auto simp: unat_of_nat_u32)
  show "WriteIntoBuf cb s data = Inr (?cb', length data)"
    using fits by (intro WriteIntoBuf_ring [OF ok]) simp
  have "?i < 65535" using i by simp
  then show "cb_ok ?cb'" using L fits size by (auto simp: cb_ok_def)
  show "cb_content ?cb' = cb_content cb @ data"
    using ring_read_write [of "cb_head cb" "cb_buf cb" "unat (cb_currSize cb)" data] L fits
    by (simp add: cb_content_def size i)
qed simp_all

text \<open>Reading inside the content returns the bytes at those stream positions.\<close>

lemma ReadFromBuf_content:
  assumes ok: "cb_ok cb" and le: "k + n \<le> length (cb_content cb)"
    and n: "0 < n" "n \<le> length dest" "length dest < 4294967296"
  shows "ReadFromBuf cb (cb_baseSeq cb + of_nat k) dest (of_nat n)
    = Inr (take n (drop k (cb_content cb)) @ drop n dest, n)"
proof -
  note L = cb_okD [OF ok]
  let ?h = "(cb_head cb + k) mod 65535" and ?B = "cb_buf cb"
  let ?f = "min n (65535 - ?h)"
  have kn: "k + n \<le> 65535" using le L by simp
  have un: "unat (of_nat n :: u32) = n" using kn by (intro unat_of_nat_u32) simp
  have i: "SeqNumToIndex cb (cb_baseSeq cb + of_nat k) = ?h"
    using ok kn by (intro SeqNumToIndex_base) auto
  have h: "?h < 65535" by simp
  have f: "?f \<le> n" "n - ?f \<le> 65535" "?h + ?f \<le> 65535" using kn h by linarith+
  have pos: "\<not> (of_nat n :: u32) < 1" using n un by (simp add: word_less_nat_alt)
  have d: "dest \<noteq> []" and "unat (of_nat (length dest) :: u32) = length dest"
    using n by (auto simp: unat_of_nat_u32)
  then have n': "\<not> of_nat (length dest) < (of_nat n :: u32)"
    using n un by (simp add: word_less_nat_alt)
  have read: "subslice ?h ?f ?B @ subslice 0 (n - ?f) ?B = take n (drop k (cb_content cb))"
    using ring_read_chunks [of ?h ?B n] kn L le
    by (simp add: cb_content_def drop_ring_read take_ring_read ring_read_mod [of ?B, unfolded L(1)])
  have two: "blit ?f (subslice 0 (n - ?f) ?B) (blit 0 (subslice ?h ?f ?B) dest)
      = subslice ?h ?f ?B @ subslice 0 (n - ?f) ?B @ drop n dest"
    using f n(2) L(1) by (simp add: blit_def)
  show ?thesis
    using pos d n' f(2) L h
    by (simp add: ReadFromBuf_def i un Let_def two flip: read)
qed

lemma SliceFrom_content:
  assumes ok: "cb_ok cb" and le: "k + n \<le> length (cb_content cb)"
  shows "SliceFrom cb (cb_baseSeq cb + of_nat k) (of_nat n) = Inr (take n (drop k (cb_content cb)))"
proof (cases "n = 0")
  case False
  have n: "n \<le> 65535" using le cb_content_le [OF ok] by simp
  then have un: "unat (of_nat n :: u32) = n" by (intro unat_of_nat_u32) simp
  then have "(of_nat n :: u32) \<noteq> 0" using False by (metis unat_0)
  then show ?thesis
    using ReadFromBuf_content [OF ok le, of "replicate n 0"] False n by (simp add: SliceFrom_def un)
qed (simp add: SliceFrom_def)

lemma AdvanceBase_drop:
  fixes n :: u32
  assumes ok: "cb_ok cb"
  defines "m \<equiv> min (unat n) (length (cb_content cb))"
  shows "cb_ok (AdvanceBase cb n)" and "cb_content (AdvanceBase cb n) = drop m (cb_content cb)"
    and "cb_baseSeq (AdvanceBase cb n) = cb_baseSeq cb + of_nat m"
    and "cb_currSize (AdvanceBase cb n) = cb_currSize cb - of_nat m"
proof -
  note L = cb_okD [OF ok]
  let ?n = "if cb_currSize cb < n then cb_currSize cb else n"
  have m: "unat ?n = m" by (simp add: m_def word_less_nat_alt min_def)
  have "of_nat (unat ?n) = ?n" by (simp only: of_nat_unat ucast_id)
  with m have m': "of_nat m = ?n" by (simp only:)
  have le: "?n \<le> cb_currSize cb" by (simp add: not_less)
  then have size: "unat (cb_currSize cb - ?n) = unat (cb_currSize cb) - m"
    by (simp only: unat_sub m)
  have eq: "AdvanceBase cb n = cb\<lparr>cb_baseSeq := cb_baseSeq cb + ?n, cb_currSize := cb_currSize cb - ?n,
      cb_head := (cb_head cb + m) mod 65535\<rparr>"
  proof (cases "n = 0")
    case True
    then have "m = 0" by (simp add: m_def)
    with True L show ?thesis by (simp add: AdvanceBase_def)
  next
    case False
    then show ?thesis using L m by (simp add: AdvanceBase_def Let_def)
  qed
  show "cb_ok (AdvanceBase cb n)"
    using L size unfolding eq by (auto simp: cb_ok_def simp del: if_split_asm)
  have "m \<le> unat (cb_currSize cb)" by (simp add: m_def)
  then show "cb_content (AdvanceBase cb n) = drop m (cb_content cb)"
    unfolding eq using L size
    by (simp add: cb_content_def drop_ring_read ring_read_mod [of "cb_buf cb", unfolded L(1)]
          del: if_split_asm cong: if_weak_cong)
  show "cb_baseSeq (AdvanceBase cb n) = cb_baseSeq cb + of_nat m"
    and "cb_currSize (AdvanceBase cb n) = cb_currSize cb - of_nat m"
    unfolding eq by (simp_all add: m')
qed

section \<open>The contract: a window of a byte stream\<close>

text \<open>
  \<open>is_window isn w r c b\<close>: of the bytes \<open>w\<close> ever written to a stream that starts at sequence
  number \<open>isn\<close>, the first \<open>r\<close> have been released and the content \<open>c\<close> is the rest, based at
  sequence number \<open>b\<close>. Positions are natural numbers, sequence numbers wrap.
\<close>

definition is_window :: "u32 \<Rightarrow> 'a list \<Rightarrow> nat \<Rightarrow> 'a list \<Rightarrow> u32 \<Rightarrow> bool" where
  "is_window isn w r c b \<longleftrightarrow> r \<le> length w \<and> c = drop r w \<and> b = isn + of_nat r"

locale stream_window =
  fixes inv :: "'b \<Rightarrow> bool" and content :: "'b \<Rightarrow> 'a list" and base :: "'b \<Rightarrow> u32"
    and put :: "'b \<Rightarrow> u32 \<Rightarrow> 'a list \<Rightarrow> go_panic + ('b \<times> nat)"
    and slice_from :: "'b \<Rightarrow> u32 \<Rightarrow> u32 \<Rightarrow> go_panic + 'a list"
    and advance :: "'b \<Rightarrow> u32 \<Rightarrow> 'b" and cap :: nat
  assumes content_cap: "inv b \<Longrightarrow> length (content b) \<le> cap"
    and write_appends: "inv b \<Longrightarrow> length (content b) + length d \<le> cap \<Longrightarrow>
      \<exists>b'. put b (base b + of_nat (length (content b))) d = Inr (b', length d) \<and> inv b'
        \<and> content b' = content b @ d \<and> base b' = base b"
    and slice_reads: "inv b \<Longrightarrow> k + n \<le> length (content b) \<Longrightarrow>
      slice_from b (base b + of_nat k) (of_nat n) = Inr (take n (drop k (content b)))"
    and advance_inv: "inv b \<Longrightarrow> inv (advance b m)"
    and advance_drops: "inv b \<Longrightarrow>
      content (advance b m) = drop (min (unat m) (length (content b))) (content b)"
    and advance_base: "inv b \<Longrightarrow>
      base (advance b m) = base b + of_nat (min (unat m) (length (content b)))"
begin

text \<open>The three operations in terms of absolute stream positions.\<close>

lemma window_write:
  assumes "inv b" and w: "is_window isn w r (content b) (base b)"
    and fits: "length (content b) + length d \<le> cap" and s: "s = isn + of_nat (length w)"
  obtains b' where "put b s d = Inr (b', length d)" and "inv b'"
    and "is_window isn (w @ d) r (content b') (base b')" and "content b' = content b @ d"
proof -
  have "base b + of_nat (length (content b)) = s"
    using w s by (simp add: is_window_def flip: of_nat_add)
  with write_appends [OF assms(1) fits] obtain b' where
    b': "put b s d = Inr (b', length d)" "inv b'" "content b' = content b @ d" "base b' = base b"
    by auto
  moreover have "is_window isn (w @ d) r (content b') (base b')"
    using w b' by (simp add: is_window_def)
  ultimately show thesis using that by blast
qed

lemma window_slice:
  assumes "inv b" and w: "is_window isn w r (content b) (base b)"
    and k: "r \<le> k" "k + n \<le> length w"
  shows "slice_from b (isn + of_nat k) (of_nat n) = Inr (take n (drop k w))"
proof -
  have "isn + of_nat k = base b + of_nat (k - r)" and "k - r + n \<le> length (content b)"
    using w k by (auto simp: is_window_def simp flip: of_nat_add)
  with slice_reads [OF assms(1), of "k - r" n] w k show ?thesis by (simp add: is_window_def)
qed

lemma window_advance:
  assumes "inv b" and w: "is_window isn w r (content b) (base b)"
  shows "is_window isn w (r + min (unat m) (length w - r)) (content (advance b m)) (base (advance b m))"
  using w advance_drops [OF assms(1), of m] advance_base [OF assms(1), of m]
  by (auto simp: is_window_def add.commute)

lemma window_advance_to:
  assumes "inv b" and w: "is_window isn w r (content b) (base b)"
    and r': "r \<le> r'" "r' \<le> length w" "unat m = r' - r"
  shows "is_window isn w r' (content (advance b m)) (base (advance b m))"
  using window_advance [OF assms(1,2), of m] r' by simp

end

interpretation cbw: stream_window cb_ok cb_content cb_baseSeq WriteIntoBuf SliceFrom AdvanceBase 65535
proof unfold_locales
  fix b :: circle_buf and d :: bytes
  assume b: "cb_ok b" "length (cb_content b) + length d \<le> 65535"
  show "\<exists>b'. WriteIntoBuf b (cb_baseSeq b + of_nat (length (cb_content b))) d
      = Inr (b', length d) \<and> cb_ok b' \<and> cb_content b' = cb_content b @ d \<and> cb_baseSeq b' = cb_baseSeq b"
    by (rule WriteIntoBuf_append [OF b refl]) auto
qed (simp_all add: cb_content_le SliceFrom_content AdvanceBase_drop del: length_cb_content)

text \<open>
  What VWrite, handlePayload and VRead do to a buffer: write as much as the free space allows at
  the end of the content, and release bytes at the front.
\<close>

datatype cb_op = CbWrite bytes | CbAdvance u32

fun cb_step :: "cb_op \<Rightarrow> circle_buf \<Rightarrow> go_panic + circle_buf" where
  "cb_step (CbWrite d) cb =
     go_bind (WriteIntoBuf cb (cb_baseSeq cb + cb_currSize cb) (take (unat (FreeSpace cb)) d))
       (\<lambda>(cb', _). Inr cb')"
| "cb_step (CbAdvance m) cb = Inr (AdvanceBase cb m)"

fun cb_run :: "cb_op list \<Rightarrow> circle_buf \<Rightarrow> go_panic + circle_buf" where
  "cb_run [] cb = Inr cb"
| "cb_run (x # xs) cb = go_bind (cb_step x cb) (cb_run xs)"

text \<open>The specification: a FIFO of capacity 65535 over the history (bytes accepted, bytes released).\<close>

fun fifo_step :: "cb_op \<Rightarrow> bytes \<times> nat \<Rightarrow> bytes \<times> nat" where
  "fifo_step (CbWrite d) (w, r) = (w @ take (65535 - (length w - r)) d, r)"
| "fifo_step (CbAdvance m) (w, r) = (w, r + min (unat m) (length w - r))"

lemma cb_step_fifo:
  assumes ok: "cb_ok cb" and w: "is_window isn w r (cb_content cb) (cb_baseSeq cb)"
  shows "\<exists>cb'. cb_step x cb = Inr cb' \<and> cb_ok cb' \<and>
    (case fifo_step x (w, r) of (w', r') \<Rightarrow> is_window isn w' r' (cb_content cb') (cb_baseSeq cb'))"
proof (cases x)
  case (CbWrite d)
  let ?d = "take (65535 - (length w - r)) d"
  have len: "length (cb_content cb) = length w - r" using w by (simp add: is_window_def)
  have free: "unat (FreeSpace cb) = 65535 - (length w - r)"
    using unat_FreeSpace [OF ok] len by simp
  have fits: "length (cb_content cb) + length ?d \<le> 65535"
    using cb_content_le [OF ok] len by simp
  have "length w = r + length (cb_content cb)" using w by (simp add: is_window_def)
  then have "cb_baseSeq cb + cb_currSize cb = isn + of_nat (length w)"
    using w by (simp add: is_window_def)
  then obtain cb' where "WriteIntoBuf cb (cb_baseSeq cb + cb_currSize cb) ?d = Inr (cb', length ?d)"
    and "cb_ok cb'" and "is_window isn (w @ ?d) r (cb_content cb') (cb_baseSeq cb')"
    by (rule cbw.window_write [OF ok w fits])
  then show ?thesis using CbWrite free by simp
next
  case (CbAdvance m)
  then show ?thesis using cbw.window_advance [OF ok w, of m] cbw.advance_inv [OF ok, of m] by simp
qed

lemma cb_run_fifo:
  assumes "cb_ok cb" and "is_window isn w r (cb_content cb) (cb_baseSeq cb)"
  shows "\<exists>cb'. cb_run xs cb = Inr cb' \<and> cb_ok cb' \<and>
    (case fold fifo_step xs (w, r) of (w', r') \<Rightarrow> is_window isn w' r' (cb_content cb') (cb_baseSeq cb'))"
  using assms
proof (induction xs arbitrary: cb w r)
  case (Cons x xs)
  obtain w' r' where f: "fifo_step x (w, r) = (w', r')" by (cases "fifo_step x (w, r)")
  from cb_step_fifo [OF Cons.prems, of x] f obtain cb' where
    "cb_step x cb = Inr cb'" "cb_ok cb'" "is_window isn w' r' (cb_content cb') (cb_baseSeq cb')"
    by auto
  with Cons.IH [of cb' w' r'] f show ?case by simp
qed simp

text \<open>
  C21. A circular buffer started at any sequence number and driven by any sequence of writes (cut to
  the free space, as VWrite and handlePayload cut them) and releases never panics and refines a
  bounded FIFO: it holds exactly the accepted bytes that were not released, in order, and its base
  sequence number is the initial one plus the number of bytes released, wrapping at 32 bits.
\<close>

theorem circle_buf_refines_fifo:
  "\<exists>cb. cb_run xs (NewCircleBuf n isn) = Inr cb \<and> cb_ok cb \<and>
     (case fold fifo_step xs ([], 0) of (w, r) \<Rightarrow>
        cb_content cb = drop r w \<and> cb_baseSeq cb = isn + of_nat r \<and> length w - r \<le> 65535)"
proof -
  have "is_window isn [] 0 (cb_content (NewCircleBuf n isn)) (cb_baseSeq (NewCircleBuf n isn))"
    by (simp add: is_window_def)
  from cb_run_fifo [OF cb_ok_New this, of xs] obtain cb where
    cb: "cb_run xs (NewCircleBuf n isn) = Inr cb" "cb_ok cb" and
    w: "case fold fifo_step xs ([], 0) of (w, r) \<Rightarrow> is_window isn w r (cb_content cb) (cb_baseSeq cb)"
    by auto
  obtain w r where f: "fold fifo_step xs ([], 0) = (w, r)" by fastforce
  with w have win: "is_window isn w r (cb_content cb) (cb_baseSeq cb)" by simp
  then have "length w - r \<le> 65535" using cb_content_le [OF cb(2)] by (simp add: is_window_def)
  then show ?thesis using cb win f by (simp add: is_window_def)
qed

text \<open>
  On a buffer that holds a window of a stream, SliceFrom at the sequence number of an absolute
  stream position returns exactly the bytes of the stream at that position, whether or not the
  range wraps at the end of the ring or the sequence numbers wrap at 32 bits.
\<close>

theorem SliceFrom_stream_position:
  assumes "cb_ok cb" and "is_window isn w r (cb_content cb) (cb_baseSeq cb)"
    and "r \<le> k" and "k + n \<le> length w"
  shows "SliceFrom cb (isn + of_nat k) (of_nat n) = Inr (take n (drop k w))"
  using assms by (rule cbw.window_slice)

text \<open>A buffer that starts three bytes before the sequence numbers wrap and holds five bytes.\<close>

theorem SliceFrom_stream_position_witness:
  "\<exists>cb. WriteIntoBuf (NewCircleBuf 0 4294967293) 4294967293 [1, 2, 3, 4, 5] = Inr (cb, 5)
     \<and> SliceFrom cb 0 2 = Inr [4, 5]"
proof -
  let ?isn = "4294967293 :: u32" and ?w = "[1, 2, 3, 4, 5] :: bytes"
  have "is_window ?isn [] 0 (cb_content (NewCircleBuf 0 ?isn)) (cb_baseSeq (NewCircleBuf 0 ?isn))"
    by (simp add: is_window_def)
  then obtain cb where cb: "WriteIntoBuf (NewCircleBuf 0 ?isn) ?isn ?w = Inr (cb, length ?w)" "cb_ok cb"
    and w: "is_window ?isn ([] @ ?w) 0 (cb_content cb) (cb_baseSeq cb)"
    by (rule cbw.window_write [OF cb_ok_New, of ?isn "[]" 0 _ ?isn ?w ?isn]) simp_all
  have "SliceFrom cb (?isn + of_nat 3) (of_nat 2) = Inr (take 2 (drop 3 ([] @ ?w)))"
    by (rule SliceFrom_stream_position [OF cb(2) w]) simp_all
  moreover have "?isn + of_nat 3 = 0" by code_simp
  ultimately have "SliceFrom cb 0 (of_nat 2) = Inr (take 2 (drop 3 ([] @ ?w)))" by (simp only:)
  then show ?thesis using cb by auto
qed

end
