(* ===== verification/EarlyArrivals.thy ===== *)
theory EarlyArrivals
  imports Prelude "HOL-Library.Multiset"
begin

text \<open>
  The heap of out-of-order segments of \<open>src/pkg/tcpStack/earlyArrivals.go\<close>, on top of the
  array-based binary heap of Go's \<open>container/heap\<close> (\<open>Push\<close>, \<open>Pop\<close>, \<open>up\<close>, \<open>down\<close>). The locale
  \<open>min_queue\<close> states what the receive path relies on; the Go heap is an interpretation of it.
\<close>

section \<open>Go's container/heap\<close>

text \<open>
  The library is generic over \<open>Less\<close>; here \<open>lt\<close> compares two elements, as
  \<open>EarlyArrivals.Less\<close> does through their indices. All indices are in range: a parent is at most
  its child, and \<open>down\<close> guards its children by \<open>n\<close>.
\<close>

definition heap_swap :: "'a list \<Rightarrow> nat \<Rightarrow> nat \<Rightarrow> 'a list" where
  "heap_swap xs i j = xs[i := xs ! j, j := xs ! i]"

text \<open>In Go \<open>(j - 1) / 2\<close> is 0 for \<open>j = 0\<close>, which truncated subtraction gives as well.\<close>

function heap_up :: "('a \<Rightarrow> 'a \<Rightarrow> bool) \<Rightarrow> 'a list \<Rightarrow> nat \<Rightarrow> 'a list" where
  "heap_up lt xs j =
     (let i = (j - 1) div 2 in
      if i = j \<or> \<not> lt (xs ! j) (xs ! i) then xs
      else heap_up lt (heap_swap xs i j) i)"
  by pat_completeness auto
termination
  by (relation "measure (\<lambda>(_, _, j). j)") auto

function heap_down :: "('a \<Rightarrow> 'a \<Rightarrow> bool) \<Rightarrow> 'a list \<Rightarrow> nat \<Rightarrow> nat \<Rightarrow> 'a list" where
  "heap_down lt xs i n =
     (let j1 = 2 * i + 1 in
      if n \<le> j1 then xs
      else let j2 = j1 + 1;
               j = (if j2 < n \<and> lt (xs ! j2) (xs ! j1) then j2 else j1) in
        if \<not> lt (xs ! j) (xs ! i) then xs
        else heap_down lt (heap_swap xs i j) j n)"
  by pat_completeness auto
termination
  by (relation "measure (\<lambda>(_, _, i, n). n - i)") auto

declare heap_up.simps [simp del] heap_down.simps [simp del]

definition heap_push :: "('a \<Rightarrow> 'a \<Rightarrow> bool) \<Rightarrow> 'a list \<Rightarrow> 'a \<Rightarrow> 'a list" where
  "heap_push lt xs x = heap_up lt (xs @ [x]) (length xs)"

definition heap_pop :: "('a \<Rightarrow> 'a \<Rightarrow> bool) \<Rightarrow> 'a list \<Rightarrow> 'a \<times> 'a list" where
  "heap_pop lt xs =
     (let n = length xs - 1;
          ys = heap_down lt (heap_swap xs 0 n) 0 n
      in (ys ! n, take n ys))"

section \<open>earlyArrivals.go\<close>

record early_arrival =
  ea_startSeq :: u32
  ea_endSeq :: u32
  ea_data :: bytes

definition ea_Less :: "early_arrival \<Rightarrow> early_arrival \<Rightarrow> bool" where
  "ea_Less x y \<longleftrightarrow> ea_startSeq x < ea_startSeq y"

definition MakeEarlyArrivals :: "early_arrival list" where
  "MakeEarlyArrivals = []"

definition PushSegment :: "early_arrival list \<Rightarrow> u32 \<Rightarrow> bytes \<Rightarrow> early_arrival list" where
  "PushSegment h startSeq data =
     (if data = [] then h
      else heap_push ea_Less h
        \<lparr>ea_startSeq = startSeq, ea_endSeq = startSeq + of_nat (length data), ea_data = data\<rparr>)"

definition PopMin :: "early_arrival list \<Rightarrow> early_arrival option \<times> early_arrival list" where
  "PopMin h =
     (if length h = 0 then (None, h)
      else let (x, h') = heap_pop ea_Less h in (Some x, h'))"

fun TotalDataLen :: "early_arrival list \<Rightarrow> u32" where
  "TotalDataLen [] = 0"
| "TotalDataLen (seg # h) = of_nat (length (ea_data seg)) + TotalDataLen h"

definition ea_Peek :: "early_arrival list \<Rightarrow> early_arrival option" where
  "ea_Peek h = (if length h = 0 then None else Some (h ! 0))"

section \<open>Binary heaps in arrays\<close>

abbreviation parent :: "nat \<Rightarrow> nat" where
  "parent j \<equiv> (j - 1) div 2"

definition is_heap :: "('a \<Rightarrow> 'k::linorder) \<Rightarrow> 'a list \<Rightarrow> nat \<Rightarrow> bool" where
  "is_heap key xs n \<longleftrightarrow> (\<forall>j<n. 0 < j \<longrightarrow> key (xs ! parent j) \<le> key (xs ! j))"

lemma length_heap_swap [simp]: "length (heap_swap xs i j) = length xs"
  by (simp add: heap_swap_def)

lemma mset_heap_swap [simp]:
  "i < length xs \<Longrightarrow> j < length xs \<Longrightarrow> mset (heap_swap xs i j) = mset xs"
  by (simp add: heap_swap_def mset_swap)

lemma nth_heap_swap:
  "i < length xs \<Longrightarrow> j < length xs \<Longrightarrow> k < length xs \<Longrightarrow>
    heap_swap xs i j ! k = (if k = j then xs ! i else if k = i then xs ! j else xs ! k)"
  by (auto simp: heap_swap_def nth_list_update)

lemma heap_up_perm:
  "j < length xs \<Longrightarrow> mset (heap_up lt xs j) = mset xs \<and> length (heap_up lt xs j) = length xs"
proof (induction lt xs j rule: heap_up.induct)
  case (1 lt xs j)
  show ?case
  proof (cases "parent j = j \<or> \<not> lt (xs ! j) (xs ! parent j)")
    case True
    then show ?thesis by (simp add: heap_up.simps [of lt xs j] Let_def)
  next
    case False
    have p: "parent j < length xs" using "1.prems" by linarith
    then have "mset (heap_up lt (heap_swap xs (parent j) j) (parent j))
        = mset (heap_swap xs (parent j) j) \<and>
      length (heap_up lt (heap_swap xs (parent j) j) (parent j)) = length (heap_swap xs (parent j) j)"
      using "1.IH" [OF refl False] by simp
    then show ?thesis using False p "1.prems" by (simp add: heap_up.simps [of lt xs j] Let_def)
  qed
qed

lemma heap_up_heap:
  fixes key :: "'a \<Rightarrow> 'k::linorder"
  defines "lt \<equiv> (\<lambda>x y. key x < key y)"
  assumes "j < length xs"
    and "\<And>k. k < length xs \<Longrightarrow> 0 < k \<Longrightarrow> k \<noteq> j \<Longrightarrow> key (xs ! parent k) \<le> key (xs ! k)"
    and "\<And>k. k < length xs \<Longrightarrow> 0 < j \<Longrightarrow> 0 < k \<Longrightarrow> parent k = j \<Longrightarrow> key (xs ! parent j) \<le> key (xs ! k)"
  shows "is_heap key (heap_up lt xs j) (length xs)"
  using assms(2-)
proof (induction j arbitrary: xs rule: less_induct)
  case (less j)
  show ?case
  proof (cases "parent j = j \<or> \<not> lt (xs ! j) (xs ! parent j)")
    case True
    then have "key (xs ! parent k) \<le> key (xs ! k)" if "k < length xs" "0 < k" for k
      using that less.prems(2) [of k] by (cases "k = j") (auto simp: lt_def)
    with True show ?thesis by (simp add: heap_up.simps [of lt xs j] Let_def is_heap_def)
  next
    case False
    let ?p = "parent j" and ?ys = "heap_swap xs (parent j) j"
    have p: "?p < j" "?p < length xs" using False less.prems(1) by linarith+
    then have j0: "0 < j" by simp
    have lt: "key (xs ! j) < key (xs ! ?p)" using False by (simp add: lt_def)
    note nth = nth_heap_swap [OF p(2) less.prems(1)]
    have "is_heap key (heap_up lt ?ys ?p) (length ?ys)"
    proof (rule less.IH [OF p(1)])
      show "?p < length ?ys" using p by simp
    next
      fix k assume k: "k < length ?ys" "0 < k" "k \<noteq> ?p"
      have pk: "parent k < length xs" using k by simp
      show "key (?ys ! parent k) \<le> key (?ys ! k)"
      proof (cases "k = j")
        case True
        then show ?thesis using nth [OF p(2)] nth [OF less.prems(1)] p lt by simp
      next
        case kj: False
        show ?thesis
        proof (cases "parent k = j")
          case True
          then have "key (xs ! ?p) \<le> key (xs ! k)" using less.prems(3) [of k] k j0 by simp
          then show ?thesis using True k kj nth [of k] nth [of j] less.prems(1) by simp
        next
          case False
          have "key (xs ! parent k) \<le> key (xs ! k)" using less.prems(2) [of k] k kj by simp
          then show ?thesis
            using False k kj nth [of k] nth [OF pk] lt by (cases "parent k = ?p") auto
        qed
      qed
    next
      fix k assume k: "k < length ?ys" "0 < ?p" "0 < k" "parent k = ?p"
      have pp: "parent ?p < length xs" "parent ?p \<noteq> ?p" "parent ?p \<noteq> j" using p k(2) by linarith+
      have a: "key (xs ! parent ?p) \<le> key (xs ! ?p)" using less.prems(2) [of ?p] p k by simp
      show "key (?ys ! parent ?p) \<le> key (?ys ! k)"
      proof (cases "k = j")
        case True
        then show ?thesis using a nth [of k] nth [OF pp(1)] pp less.prems(1) by simp
      next
        case False
        have "key (xs ! ?p) \<le> key (xs ! k)" using less.prems(2) [of k] k False by simp
        moreover have "k \<noteq> ?p" using k by linarith
        ultimately show ?thesis using False k a nth [of k] nth [OF pp(1)] pp by simp
      qed
    qed
    then show ?thesis using False by (simp add: heap_up.simps [of lt xs j] Let_def)
  qed
qed

text \<open>The smaller child, and the loop body in terms of it.\<close>

definition down_child :: "('a \<Rightarrow> 'a \<Rightarrow> bool) \<Rightarrow> 'a list \<Rightarrow> nat \<Rightarrow> nat \<Rightarrow> nat" where
  "down_child lt xs i n =
     (if 2 * i + 2 < n \<and> lt (xs ! (2 * i + 2)) (xs ! (2 * i + 1)) then 2 * i + 2 else 2 * i + 1)"

lemma heap_down_stop:
  "n \<le> 2 * i + 1 \<or> \<not> lt (xs ! down_child lt xs i n) (xs ! i) \<Longrightarrow> heap_down lt xs i n = xs"
  by (subst heap_down.simps) (auto simp: Let_def down_child_def)

lemma heap_down_move:
  "\<not> n \<le> 2 * i + 1 \<Longrightarrow> lt (xs ! down_child lt xs i n) (xs ! i) \<Longrightarrow>
    heap_down lt xs i n = heap_down lt (heap_swap xs i (down_child lt xs i n)) (down_child lt xs i n) n"
  by (subst heap_down.simps) (auto simp: Let_def down_child_def)

lemma down_child_bounds:
  "\<not> n \<le> 2 * i + 1 \<Longrightarrow> down_child lt xs i n < n \<and> i < down_child lt xs i n
     \<and> parent (down_child lt xs i n) = i"
  by (auto simp: down_child_def)

lemma heap_down_perm:
  "n \<le> length xs \<Longrightarrow> mset (heap_down lt xs i n) = mset xs
     \<and> length (heap_down lt xs i n) = length xs \<and> drop n (heap_down lt xs i n) = drop n xs"
proof (induction "n - i" arbitrary: xs i rule: less_induct)
  case (less i xs)
  let ?j = "down_child lt xs i n"
  show ?case
  proof (cases "n \<le> 2 * i + 1 \<or> \<not> lt (xs ! ?j) (xs ! i)")
    case True
    then show ?thesis by (simp add: heap_down_stop)
  next
    case False
    then have j: "?j < n" "i < ?j" "i < n" using down_child_bounds [of n i lt xs] by auto
    then have "drop n (heap_swap xs i ?j) = drop n xs"
      by (simp add: heap_swap_def)
    moreover have "n - ?j < n - i" using j by linarith
    ultimately show ?thesis
      using less.hyps [of ?j "heap_swap xs i ?j"] heap_down_move [of n i lt xs] False j less.prems by auto
  qed
qed

lemma heap_down_heap:
  fixes key :: "'a \<Rightarrow> 'k::linorder"
  defines "lt \<equiv> (\<lambda>x y. key x < key y)"
  assumes "n \<le> length xs"
    and "\<And>k. k < n \<Longrightarrow> 0 < k \<Longrightarrow> parent k \<noteq> i \<Longrightarrow> key (xs ! parent k) \<le> key (xs ! k)"
    and "\<And>k. k < n \<Longrightarrow> 0 < i \<Longrightarrow> 0 < k \<Longrightarrow> parent k = i \<Longrightarrow> key (xs ! parent i) \<le> key (xs ! k)"
  shows "is_heap key (heap_down lt xs i n) n"
  using assms(2-)
proof (induction "n - i" arbitrary: xs i rule: less_induct)
  case (less i xs)
  let ?l = "2 * i + 1" and ?r = "2 * i + 2"
  let ?j = "down_child lt xs i n"
  have children: "k = ?l \<or> k = ?r" if "0 < k" "parent k = i" for k using that by linarith
  show ?case
  proof (cases "n \<le> ?l \<or> \<not> lt (xs ! ?j) (xs ! i)")
    case True
    then have "heap_down lt xs i n = xs" by (rule heap_down_stop)
    moreover have "key (xs ! parent k) \<le> key (xs ! k)" if k: "k < n" "0 < k" for k
    proof (cases "parent k = i")
      case False
      then show ?thesis using less.prems(2) k by simp
    next
      case pk: True
      then have "k = ?l \<or> k = ?r" using children k by simp
      then show ?thesis using True pk k by (auto simp: lt_def down_child_def split: if_splits)
    qed
    ultimately show ?thesis by (simp add: is_heap_def)
  next
    case False
    let ?ys = "heap_swap xs i ?j"
    have j: "?j < n" "i < ?j" "parent ?j = i" "0 < ?j" using False down_child_bounds [of n i lt xs] by auto
    have lt: "key (xs ! ?j) < key (xs ! i)" using False by (simp add: lt_def)
    have jmin: "key (xs ! ?j) \<le> key (xs ! k)" if "k < n" "0 < k" "parent k = i" for k
      using children [OF that(2,3)] that(1) by (auto simp: lt_def down_child_def)
    have len: "i < length xs" "?j < length xs" using j less.prems(1) by linarith+
    note nth = nth_heap_swap [OF len]
    have "is_heap key (heap_down lt ?ys ?j n) n"
    proof (rule less.hyps)
      show "n - ?j < n - i" using j by linarith
      show "n \<le> length ?ys" using less.prems(1) by simp
    next
      fix k assume k: "k < n" "0 < k" "parent k \<noteq> ?j"
      have kl: "k < length xs" "parent k < length xs" "parent k < k" using k less.prems(1) by linarith+
      show "key (?ys ! parent k) \<le> key (?ys ! k)"
      proof (cases "parent k = i")
        case True
        then show ?thesis
          using nth [OF kl(1)] nth [OF kl(2)] jmin [OF k(1,2)] lt j kl by (cases "k = ?j") auto
      next
        case False
        then have "key (xs ! parent k) \<le> key (xs ! k)" "k \<noteq> ?j"
          using less.prems(2) [of k] k j by auto
        moreover have "key (xs ! parent i) \<le> key (xs ! ?j)" if "0 < i"
          using less.prems(3) [of ?j] j that by simp
        ultimately show ?thesis using nth [OF kl(1)] nth [OF kl(2)] False k by (cases "k = i") auto
      qed
    next
      fix k assume k: "k < n" "0 < ?j" "0 < k" "parent k = ?j"
      have kl: "k < length xs" "k \<noteq> i" "k \<noteq> ?j" using k j less.prems(1) by linarith+
      have "key (xs ! ?j) \<le> key (xs ! k)" using less.prems(2) [of k] k j by simp
      then show "key (?ys ! parent ?j) \<le> key (?ys ! k)"
        using nth [OF kl(1)] nth [OF len(1)] j kl by simp
    qed
    then show ?thesis using False heap_down_move [of n i lt xs] by simp
  qed
qed

subsection \<open>Push and Pop\<close>

lemma heap_root_min:
  assumes "is_heap key xs n" and "j < n"
  shows "key (xs ! 0) \<le> key (xs ! j)"
  using assms(2)
proof (induction j rule: less_induct)
  case (less j)
  show ?case
  proof (cases "j = 0")
    case False
    then have "parent j < j" by simp
    then have "key (xs ! 0) \<le> key (xs ! parent j)" using less by simp
    also have "\<dots> \<le> key (xs ! j)" using assms(1) less.prems False by (simp add: is_heap_def)
    finally show ?thesis .
  qed simp
qed

lemma heap_push_correct:
  fixes key :: "'a \<Rightarrow> 'k::linorder" and x :: 'a
  assumes "is_heap key xs (length xs)"
  defines "ys \<equiv> heap_push (\<lambda>x y. key x < key y) xs x"
  shows "mset ys = mset xs + {#x#}" and "is_heap key ys (length ys)"
proof -
  have len: "length xs < length (xs @ [x])" by simp
  note perm = heap_up_perm [OF len, of "\<lambda>x y. key x < key y"]
  then show "mset ys = mset xs + {#x#}" by (simp add: ys_def heap_push_def)
  have "is_heap key ys (length (xs @ [x]))"
    unfolding ys_def heap_push_def
  proof (rule heap_up_heap [OF len])
    fix k assume k: "k < length (xs @ [x])" "0 < k" "k \<noteq> length xs"
    then have "parent k < length xs" "k < length xs" by auto
    then show "key ((xs @ [x]) ! parent k) \<le> key ((xs @ [x]) ! k)"
      using assms(1) k by (simp add: nth_append is_heap_def)
  next
    fix k assume "k < length (xs @ [x])" "0 < k" "parent k = length xs"
    then show "key ((xs @ [x]) ! parent (length xs)) \<le> key ((xs @ [x]) ! k)" by simp
  qed
  then show "is_heap key ys (length ys)" using perm by (simp add: ys_def heap_push_def)
qed

lemma heap_pop_correct:
  fixes key :: "'a \<Rightarrow> 'k::linorder"
  assumes heap: "is_heap key xs (length xs)" and ne: "xs \<noteq> []"
    and pop: "heap_pop (\<lambda>x y. key x < key y) xs = (x, ys)"
  shows "mset xs = mset ys + {#x#}" and "is_heap key ys (length ys)" and "x = xs ! 0"
proof -
  let ?lt = "\<lambda>x y. key x < key y" and ?n = "length xs - 1"
  let ?sw = "heap_swap xs 0 ?n"
  let ?zs = "heap_down ?lt ?sw 0 ?n"
  have n: "?n < length xs" "0 < length xs" using ne by auto
  have zs: "mset ?zs = mset xs" "length ?zs = length xs" "drop ?n ?zs = drop ?n ?sw"
    using heap_down_perm [of ?n ?sw ?lt 0] n by auto
  have x: "x = ?zs ! ?n" and ys: "ys = take ?n ?zs" using pop by (auto simp: heap_pop_def Let_def)
  have last: "?zs = take ?n ?zs @ [?zs ! ?n]"
    using zs(2) n by (metis One_nat_def Suc_pred lessI take_Suc_conv_app_nth take_all_iff order_refl)
  then have "mset ?zs = mset (take ?n ?zs @ [?zs ! ?n])" by (simp only:)
  then show "mset xs = mset ys + {#x#}" using zs(1) x ys by simp
  have "drop ?n ?zs ! 0 = drop ?n ?sw ! 0" using zs(3) by simp
  then show "x = xs ! 0" using x n zs(2) nth_heap_swap [OF n(2,1) n(1)] by simp
  have "is_heap key ?zs ?n"
  proof (rule heap_down_heap)
    show "?n \<le> length ?sw" by simp
  next
    fix k assume k: "k < ?n" "0 < k" "parent k \<noteq> 0"
    then have "k < length xs" "parent k < length xs" "parent k \<noteq> ?n" "k \<noteq> ?n" by auto
    then show "key (?sw ! parent k) \<le> key (?sw ! k)"
      using heap k nth_heap_swap [OF n(2,1), of k] nth_heap_swap [OF n(2,1), of "parent k"]
      by (simp add: is_heap_def)
  qed simp
  then have "is_heap key ys ?n" using ys by (simp add: is_heap_def)
  then show "is_heap key ys (length ys)" using ys zs(2) n by simp
qed

section \<open>The contract: a queue ordered by a key\<close>

locale min_queue =
  fixes inv :: "'q \<Rightarrow> bool" and items :: "'q \<Rightarrow> 'a multiset"
    and push :: "'q \<Rightarrow> 'a \<Rightarrow> 'q" and peek :: "'q \<Rightarrow> 'a option"
    and pop :: "'q \<Rightarrow> 'a option \<times> 'q" and key :: "'a \<Rightarrow> 'k::linorder"
  assumes push_inv: "inv q \<Longrightarrow> inv (push q x)"
    and push_items: "inv q \<Longrightarrow> items (push q x) = items q + {#x#}"
    and peek_None: "inv q \<Longrightarrow> peek q = None \<longleftrightarrow> items q = {#}"
    and peek_min: "inv q \<Longrightarrow> peek q = Some x \<Longrightarrow> x \<in># items q \<and> (\<forall>y \<in># items q. key x \<le> key y)"
    and pop_None: "inv q \<Longrightarrow> peek q = None \<Longrightarrow> pop q = (None, q)"
    and pop_Some: "inv q \<Longrightarrow> peek q = Some x \<Longrightarrow>
      \<exists>q'. pop q = (Some x, q') \<and> inv q' \<and> items q = items q' + {#x#}"

fun pops :: "('q \<Rightarrow> 'a option \<times> 'q) \<Rightarrow> nat \<Rightarrow> 'q \<Rightarrow> 'a list" where
  "pops pop 0 q = []"
| "pops pop (Suc n) q = (case pop q of (None, _) \<Rightarrow> [] | (Some x, q') \<Rightarrow> x # pops pop n q')"

context min_queue
begin

text \<open>Popping until the queue is empty returns its items in order of their keys.\<close>

lemma pops_sorted:
  "inv q \<Longrightarrow> size (items q) \<le> n \<Longrightarrow> mset (pops pop n q) = items q \<and> sorted (map key (pops pop n q))"
proof (induction n arbitrary: q)
  case 0
  then show ?case by simp
next
  case (Suc n)
  show ?case
  proof (cases "peek q")
    case None
    then show ?thesis using Suc.prems pop_None peek_None by simp
  next
    case (Some x)
    from pop_Some [OF Suc.prems(1) Some] obtain q' where
      q': "pop q = (Some x, q')" "inv q'" "items q = items q' + {#x#}" by blast
    have IH: "mset (pops pop n q') = items q' \<and> sorted (map key (pops pop n q'))"
      using Suc.IH [OF q'(2)] Suc.prems(2) q'(3) by simp
    then have "set (pops pop n q') = set_mset (items q')" by (metis set_mset_mset)
    then have "\<forall>y \<in> set (pops pop n q'). key x \<le> key y"
      using peek_min [OF Suc.prems(1) Some] q'(3) by simp
    then show ?thesis using q' IH by simp
  qed
qed

lemma foldl_push:
  "inv q \<Longrightarrow> inv (foldl push q xs) \<and> items (foldl push q xs) = items q + mset xs"
  by (induction xs arbitrary: q) (auto simp: push_inv push_items)

end

abbreviation ea_heap :: "early_arrival list \<Rightarrow> bool" where
  "ea_heap h \<equiv> is_heap ea_startSeq h (length h)"

lemma ea_Less_key: "ea_Less = (\<lambda>x y. ea_startSeq x < ea_startSeq y)"
  by (simp add: ea_Less_def fun_eq_iff)

interpretation ea: min_queue ea_heap mset "heap_push ea_Less" ea_Peek PopMin ea_startSeq
proof unfold_locales
  fix q x assume q: "ea_heap q"
  show "ea_heap (heap_push ea_Less q x)" "mset (heap_push ea_Less q x) = mset q + {#x#}"
    using heap_push_correct [OF q] by (simp_all add: ea_Less_key)
  show "ea_Peek q = None \<longleftrightarrow> mset q = {#}" by (simp add: ea_Peek_def)
  show "PopMin q = (None, q)" if "ea_Peek q = None"
    using that by (simp add: ea_Peek_def PopMin_def split: if_splits)
  assume peek: "ea_Peek q = Some x"
  then have x: "q \<noteq> []" "x = q ! 0" by (auto simp: ea_Peek_def split: if_splits)
  then show "x \<in># mset q \<and> (\<forall>y \<in># mset q. ea_startSeq x \<le> ea_startSeq y)"
    using heap_root_min [OF q] by (auto simp: in_set_conv_nth)
  obtain x' q' where pop: "heap_pop ea_Less q = (x', q')" by (cases "heap_pop ea_Less q")
  with heap_pop_correct [OF q x(1)] x
  have "x' = x" "ea_heap q'" "mset q = mset q' + {#x#}" by (auto simp: ea_Less_key)
  then show "\<exists>q'. PopMin q = (Some x, q') \<and> ea_heap q' \<and> mset q = mset q' + {#x#}"
    using pop x(1) by (simp add: PopMin_def)
qed

lemma ea_heap_Make [simp]: "ea_heap MakeEarlyArrivals" "mset MakeEarlyArrivals = {#}"
  by (simp_all add: MakeEarlyArrivals_def is_heap_def)

definition segment_entry :: "u32 \<Rightarrow> bytes \<Rightarrow> early_arrival" where
  "segment_entry s d = \<lparr>ea_startSeq = s, ea_endSeq = s + of_nat (length d), ea_data = d\<rparr>"

lemma PushSegment_correct:
  assumes "ea_heap h"
  shows "ea_heap (PushSegment h s d)"
    and "mset (PushSegment h s d) = mset h + (if d = [] then {#} else {#segment_entry s d#})"
  using ea.push_inv [OF assms] ea.push_items [OF assms] assms
  by (auto simp: PushSegment_def segment_entry_def)

lemma set_PushSegment:
  assumes "ea_heap h"
  shows "set (PushSegment h s d) = set h \<union> (if d = [] then {} else {segment_entry s d})"
proof -
  have "set_mset (mset (PushSegment h s d))
      = set_mset (mset h + (if d = [] then {#} else {#segment_entry s d#}))"
    by (simp only: PushSegment_correct(2) [OF assms])
  then show ?thesis by simp
qed

fun push_segments :: "early_arrival list \<Rightarrow> (u32 \<times> bytes) list \<Rightarrow> early_arrival list" where
  "push_segments h [] = h"
| "push_segments h ((s, d) # xs) = push_segments (PushSegment h s d) xs"

definition segments_of :: "(u32 \<times> bytes) list \<Rightarrow> early_arrival list" where
  "segments_of xs = map (\<lambda>(s, d). segment_entry s d) (filter (\<lambda>(s, d). d \<noteq> []) xs)"

lemma push_segments_correct:
  "ea_heap h \<Longrightarrow> ea_heap (push_segments h xs) \<and>
    mset (push_segments h xs) = mset h + mset (segments_of xs)"
proof (induction xs arbitrary: h)
  case (Cons x xs)
  obtain s d where x: "x = (s, d)" by (cases x)
  from Cons.IH [OF PushSegment_correct(1) [OF Cons.prems], of s d]
  show ?case using PushSegment_correct(2) [OF Cons.prems, of s d] x
    by (simp add: segments_of_def ac_simps)
qed (simp add: segments_of_def)

text \<open>
  However out-of-order segments arrive, popping the early-arrivals heap until it is empty
  returns exactly the non-empty segments that were pushed, duplicates included, in non-decreasing
  order of their start sequence numbers (compared as unsigned 32-bit integers).
\<close>

theorem early_arrivals_drain_sorted:
  "mset (pops PopMin (length xs) (push_segments MakeEarlyArrivals xs)) = mset (segments_of xs)
    \<and> sorted (map ea_startSeq (pops PopMin (length xs) (push_segments MakeEarlyArrivals xs)))"
proof -
  let ?h = "push_segments MakeEarlyArrivals xs"
  have h: "ea_heap ?h" "mset ?h = mset (segments_of xs)"
    using push_segments_correct [of MakeEarlyArrivals xs] by simp_all
  have "size (mset ?h) = length (segments_of xs)" unfolding h(2) by simp
  then have "size (mset ?h) \<le> length xs" by (simp add: segments_of_def)
  from ea.pops_sorted [OF h(1) this] show ?thesis using h(2) by simp
qed

end
