(* ===== verification/TcpTypes.thy ===== *)
theory TcpTypes
  imports CircleBuf EarlyArrivals
begin

text \<open>
  The data of \<open>src/pkg/tcpStack/types.go\<close>: connection states, TCP header fields, send and
  receive buffers, the retransmission queue, sockets and socket table entries, with the helpers
  that build outgoing segments (\<open>sendPureAck\<close>, \<open>sendSegment\<close>, \<open>getAvailableWindow\<close>). Pointers that
  may be \<open>nil\<close> are options; mutexes are left out, since every handler is modelled as a sequence
  of critical sections and each critical section is one function.
\<close>

section \<open>Addresses and header fields\<close>

text \<open>\<open>netip.Addr\<close>: the zero value is the invalid address; the stack carries IPv4 only.\<close>

datatype netip_addr = NoAddr | IPv4 u32

text \<open>\<open>header.TCPFields\<close> of the netstack package, a plain struct, and its flag bits (RFC 9293).\<close>

record tcp_fields =
  SrcPort :: u16
  DstPort :: u16
  SeqNum :: u32
  AckNum :: u32
  DataOffset :: u8
  Flags :: u8
  WindowSize :: u16
  Checksum :: u16
  UrgentPointer :: u16

abbreviation (input) "TCPFlagFin \<equiv> (1 :: u8)"
abbreviation (input) "TCPFlagSyn \<equiv> (2 :: u8)"
abbreviation (input) "TCPFlagRst \<equiv> (4 :: u8)"
abbreviation (input) "TCPFlagPsh \<equiv> (8 :: u8)"
abbreviation (input) "TCPFlagAck \<equiv> (16 :: u8)"
abbreviation (input) "TCPFlagUrg \<equiv> (32 :: u8)"

text \<open>A flag is set when the mask leaves a non-zero byte: \<open>hdr.Flags & mask != 0\<close>.\<close>

unbundle bit_operations_syntax

definition has_flag :: "tcp_fields \<Rightarrow> u8 \<Rightarrow> bool" where
  "has_flag hdr f \<longleftrightarrow> Flags hdr AND f \<noteq> 0"

record send_request =
  sr_tcpHeader :: tcp_fields
  sr_data :: bytes
  sr_sourceIP :: netip_addr
  sr_destIP :: netip_addr

section \<open>States and constants\<close>

datatype tcp_state =
    CLOSED | LISTEN | SYN_SENT | SYN_RECEIVED | ESTABLISHED | FIN_WAIT_1
  | CLOSE_WAIT | LAST_ACK | FIN_WAIT_2 | TIME_WAIT | ERROR

text \<open>Durations are \<open>time.Duration\<close>: nanoseconds.\<close>

abbreviation (input) "Millisecond \<equiv> (1000000 :: int)"
abbreviation (input) "Second \<equiv> (1000000000 :: int)"

abbreviation (input) MAX_SEG_SIZE :: "'a::numeral" where "MAX_SEG_SIZE \<equiv> 1360"
abbreviation (input) MAX_SEGMENT_LATENCY :: int where "MAX_SEGMENT_LATENCY \<equiv> 3"
abbreviation (input) MAX_RETRANSMISSIONS :: int where "MAX_RETRANSMISSIONS \<equiv> 4"
abbreviation (input) HANDSHAKE_TIMEOUT :: int where "HANDSHAKE_TIMEOUT \<equiv> 2 * Second"
abbreviation (input) RTO_MIN :: int where "RTO_MIN \<equiv> 250 * Millisecond"
abbreviation (input) RTO_MAX :: int where "RTO_MAX \<equiv> 5 * Second"
abbreviation (input) RTO_INIT :: int where "RTO_INIT \<equiv> 1 * Second"

section \<open>Buffers\<close>

record send_buf =
  sb_cBuf :: circle_buf
  sb_base :: u32
  sb_nxt :: u32
  sb_lbw :: u32
  sb_una :: u32
  sb_otherSideWindow :: u16
  sb_dataWrittenToBuf :: chan1
  sb_spaceAvailable :: chan1
  sb_isProbing :: bool
  sb_otherSideWindowUpdated :: chan1
  sb_zwpTrigger :: chan1

record recv_buf =
  rb_cBuf :: circle_buf
  rb_lbr :: u32
  rb_nxt :: u32
  rb_earlyArrivals :: "early_arrival list"
  rb_dataToRead :: chan1
  rb_fin :: u32

text \<open>
  \<open>*time.Timer\<close> made by \<open>AfterFunc\<close>: nil, stopped or fired, or armed with its duration.
\<close>

datatype go_timer = NilTimer | StoppedTimer | Armed int

text \<open>
  The handshake timer also carries which retransmission its function runs; the one for the SYN-ACK
  has captured the peer's sequence number.
\<close>

datatype hs_callback = RetransSyn | RetransSynAck u32

datatype hs_timer = NoHsTimer | FiredHsTimer | ArmedHs int hs_callback

record retrans_entry =
  re_seqNum :: u32
  re_len :: u32
  re_flags :: u8
  re_sent :: int
  re_retransmitted :: bool
  re_numRetransmits :: int

record retrans_queue =
  rq_array :: "retrans_entry list"
  rq_rto :: int
  rq_srtt :: int
  rq_timer :: go_timer

section \<open>Sockets and table entries\<close>

text \<open>
  A normal socket. \<open>vc_packetChan\<close> is only ever made and closed, so its state is all that counts.
\<close>

record vtcp_conn =
  vc_packetChan :: chan1
  vc_sendBuf :: "send_buf option"
  vc_recvBuf :: "recv_buf option"
  vc_retransQueue :: "retrans_queue option"
  vc_socketID :: int

text \<open>
  A table entry. \<open>te_listenSocket\<close> is the socket ID of the listener the pointer refers to. The two
  function fields are represented by what they do: \<open>te_sendRequests\<close> collects, oldest first, the
  requests passed to \<open>sendPacketFunc\<close>, and \<open>te_removed\<close> says that \<open>removeSelf\<close> has deleted the
  entry from the table. \<open>te_establishedChan\<close> is \<open>None\<close> for nil, else the buffered state of a
  channel of capacity one. \<open>te_timeWaitTimer\<close> is the timer that \<open>timeWait\<close> starts.
\<close>

record table_entry =
  te_dropForRetrans :: bool
  te_receivedSyn :: bool
  te_receivedSynAck :: bool
  te_numSynRetransmissions :: int
  te_numSynAckRetransmissions :: int
  te_handshakeTimer :: hs_timer
  te_localPort :: u16
  te_localIP :: netip_addr
  te_destPort :: u16
  te_destIP :: netip_addr
  te_state :: tcp_state
  te_socketID :: int
  te_seqNum :: u32
  te_lastKnownAck :: u32
  te_normalSocket :: "vtcp_conn option"
  te_listenSocket :: "int option"
  te_establishedChan :: "tcp_state option option"
  te_sendRequests :: "send_request list"
  te_removed :: bool
  te_timeWaitTimer :: go_timer

text \<open>The zero values that composite literals start from; state 0 is \<open>CLOSED\<close>.\<close>

definition zero_conn :: vtcp_conn where
  "zero_conn = \<lparr>vc_packetChan = ChanEmpty, vc_sendBuf = None, vc_recvBuf = None,
     vc_retransQueue = None, vc_socketID = 0\<rparr>"

definition zero_entry :: table_entry where
  "zero_entry = \<lparr>te_dropForRetrans = False, te_receivedSyn = False, te_receivedSynAck = False,
     te_numSynRetransmissions = 0, te_numSynAckRetransmissions = 0, te_handshakeTimer = NoHsTimer,
     te_localPort = 0, te_localIP = NoAddr, te_destPort = 0, te_destIP = NoAddr, te_state = CLOSED,
     te_socketID = 0, te_seqNum = 0, te_lastKnownAck = 0, te_normalSocket = None,
     te_listenSocket = None, te_establishedChan = None, te_sendRequests = [], te_removed = False,
     te_timeWaitTimer = NilTimer\<rparr>"

record conn_info =
  ci_SocketID :: int
  ci_LocalIP :: netip_addr
  ci_LocalPort :: u16
  ci_RemoteIP :: netip_addr
  ci_RemotePort :: u16
  ci_State :: tcp_state

definition GetInfo :: "table_entry \<Rightarrow> conn_info" where
  "GetInfo e = \<lparr>ci_SocketID = te_socketID e, ci_LocalIP = te_localIP e, ci_LocalPort = te_localPort e,
     ci_RemoteIP = te_destIP e, ci_RemotePort = te_destPort e, ci_State = te_state e\<rparr>"

section \<open>Access through the pointers\<close>

text \<open>\<open>entry.normalSocket.recvBuf\<close> and its siblings, with the nil checks the run time makes.\<close>

definition get_conn :: "table_entry \<Rightarrow> go_panic + vtcp_conn" where
  "get_conn e = deref (te_normalSocket e)"

definition get_sendBuf :: "table_entry \<Rightarrow> go_panic + send_buf" where
  "get_sendBuf e = go_bind (get_conn e) (\<lambda>c. deref (vc_sendBuf c))"

definition get_recvBuf :: "table_entry \<Rightarrow> go_panic + recv_buf" where
  "get_recvBuf e = go_bind (get_conn e) (\<lambda>c. deref (vc_recvBuf c))"

definition get_retransQueue :: "table_entry \<Rightarrow> go_panic + retrans_queue" where
  "get_retransQueue e = go_bind (get_conn e) (\<lambda>c. deref (vc_retransQueue c))"

definition set_conn :: "(vtcp_conn \<Rightarrow> vtcp_conn) \<Rightarrow> table_entry \<Rightarrow> table_entry" where
  "set_conn f e = e\<lparr>te_normalSocket := map_option f (te_normalSocket e)\<rparr>"

definition set_sendBuf :: "send_buf \<Rightarrow> table_entry \<Rightarrow> table_entry" where
  "set_sendBuf sb = set_conn (\<lambda>c. c\<lparr>vc_sendBuf := Some sb\<rparr>)"

definition set_recvBuf :: "recv_buf \<Rightarrow> table_entry \<Rightarrow> table_entry" where
  "set_recvBuf rb = set_conn (\<lambda>c. c\<lparr>vc_recvBuf := Some rb\<rparr>)"

definition set_retransQueue :: "retrans_queue \<Rightarrow> table_entry \<Rightarrow> table_entry" where
  "set_retransQueue rq = set_conn (\<lambda>c. c\<lparr>vc_retransQueue := Some rq\<rparr>)"

section \<open>Helpers of doTcp.go that the handlers share\<close>

definition getBytesInFlight :: "send_buf \<Rightarrow> u32" where
  "getBytesInFlight sb = sb_nxt sb - sb_una sb"

text \<open>\<open>uint16(MAX_WIN_SIZE - currSize)\<close>: a 32-bit difference cut to 16 bits.\<close>

definition getAvailableWindow :: "recv_buf \<Rightarrow> u16" where
  "getAvailableWindow rb = ucast (MAX_WIN_SIZE - cb_currSize (rb_cBuf rb))"

definition send_packet :: "tcp_fields \<Rightarrow> bytes \<Rightarrow> table_entry \<Rightarrow> table_entry" where
  "send_packet hdr data e = e\<lparr>te_sendRequests := te_sendRequests e @
     [\<lparr>sr_tcpHeader = hdr, sr_data = data, sr_sourceIP = te_localIP e, sr_destIP = te_destIP e\<rparr>]\<rparr>"

definition sendPureAck :: "u32 \<Rightarrow> table_entry \<Rightarrow> go_panic + table_entry" where
  "sendPureAck otherSideSeq e =
     go_bind (get_recvBuf e) (\<lambda>rb.
       Inr (send_packet
         \<lparr>SrcPort = te_localPort e, DstPort = te_destPort e, SeqNum = te_seqNum e,
          AckNum = otherSideSeq, DataOffset = 20, Flags = TCPFlagAck,
          WindowSize = getAvailableWindow rb, Checksum = 0, UrgentPointer = 0\<rparr> [] e))"

definition sendSegment :: "bytes \<Rightarrow> u32 \<Rightarrow> u8 \<Rightarrow> table_entry \<Rightarrow> go_panic + table_entry" where
  "sendSegment segment seqNum flags e =
     go_bind (get_recvBuf e) (\<lambda>rb.
       Inr (send_packet
         \<lparr>SrcPort = te_localPort e, DstPort = te_destPort e, SeqNum = seqNum,
          AckNum = rb_nxt rb, DataOffset = 20, Flags = flags,
          WindowSize = getAvailableWindow rb, Checksum = 0, UrgentPointer = 0\<rparr> segment e))"

definition sendRST :: "table_entry \<Rightarrow> go_panic + table_entry" where
  "sendRST e =
     go_bind (get_recvBuf e) (\<lambda>rb.
       Inr (send_packet
         \<lparr>SrcPort = te_localPort e, DstPort = te_destPort e, SeqNum = te_seqNum e,
          AckNum = 0, DataOffset = 20, Flags = TCPFlagRst OR TCPFlagAck,
          WindowSize = getAvailableWindow rb, Checksum = 0, UrgentPointer = 0\<rparr> [] e))"

text \<open>
  \<open>initBufs\<close>: the local stream starts at the entry's sequence number, the remote one at
  \<open>otherSideSeq\<close>. The \<open>sendLoop\<close> goroutine that it starts is modelled by its critical sections.
\<close>

definition newSendBuf :: "u32 \<Rightarrow> send_buf" where
  "newSendBuf ourSeqNum =
     \<lparr>sb_cBuf = NewCircleBuf MAX_WIN_SIZE ourSeqNum, sb_base = 0, sb_nxt = ourSeqNum,
      sb_lbw = ourSeqNum - 1, sb_una = ourSeqNum, sb_otherSideWindow = MAX_WIN_SIZE,
      sb_dataWrittenToBuf = ChanEmpty, sb_spaceAvailable = ChanEmpty, sb_isProbing = False,
      sb_otherSideWindowUpdated = ChanEmpty, sb_zwpTrigger = ChanEmpty\<rparr>"

definition newRecvBuf :: "u32 \<Rightarrow> recv_buf" where
  "newRecvBuf otherSideSeq =
     \<lparr>rb_cBuf = NewCircleBuf MAX_WIN_SIZE otherSideSeq, rb_lbr = otherSideSeq - 1,
      rb_nxt = otherSideSeq, rb_earlyArrivals = MakeEarlyArrivals, rb_dataToRead = ChanEmpty,
      rb_fin = 0\<rparr>"

definition initBufs :: "u32 \<Rightarrow> table_entry \<Rightarrow> go_panic + table_entry" where
  "initBufs otherSideSeq e =
     go_bind (get_conn e) (\<lambda>_.
       Inr (set_sendBuf (newSendBuf (te_seqNum e)) (set_recvBuf (newRecvBuf otherSideSeq) e)))"

section \<open>Field equations\<close>

lemmas get_defs = get_conn_def get_sendBuf_def get_recvBuf_def get_retransQueue_def
lemmas set_defs = set_conn_def set_sendBuf_def set_recvBuf_def set_retransQueue_def

lemma get_recvBuf_eq: "get_recvBuf e = Inr rb \<longleftrightarrow>
    (\<exists>c. te_normalSocket e = Some c \<and> vc_recvBuf c = Some rb)"
  by (auto simp: get_defs go_bind_eq_Inr)

lemma get_sendBuf_eq: "get_sendBuf e = Inr sb \<longleftrightarrow>
    (\<exists>c. te_normalSocket e = Some c \<and> vc_sendBuf c = Some sb)"
  by (auto simp: get_defs go_bind_eq_Inr)

lemma get_retransQueue_eq: "get_retransQueue e = Inr rq \<longleftrightarrow>
    (\<exists>c. te_normalSocket e = Some c \<and> vc_retransQueue c = Some rq)"
  by (auto simp: get_defs go_bind_eq_Inr)

text \<open>Reading a buffer after writing one.\<close>

lemma get_set_same [simp]:
  "te_normalSocket e \<noteq> None \<Longrightarrow> get_recvBuf (set_recvBuf rb e) = Inr rb"
  "te_normalSocket e \<noteq> None \<Longrightarrow> get_sendBuf (set_sendBuf sb e) = Inr sb"
  "te_normalSocket e \<noteq> None \<Longrightarrow> get_retransQueue (set_retransQueue rq e) = Inr rq"
  by (auto simp: get_defs set_defs)

lemma get_set_other [simp]:
  "get_sendBuf (set_recvBuf rb e) = get_sendBuf e"
  "get_retransQueue (set_recvBuf rb e) = get_retransQueue e"
  "get_recvBuf (set_sendBuf sb e) = get_recvBuf e"
  "get_retransQueue (set_sendBuf sb e) = get_retransQueue e"
  "get_sendBuf (set_retransQueue rq e) = get_sendBuf e"
  "get_recvBuf (set_retransQueue rq e) = get_recvBuf e"
  by (cases "te_normalSocket e"; simp add: get_defs set_defs)+

lemma normalSocket_set [simp]:
  "te_normalSocket (set_recvBuf rb e) = None \<longleftrightarrow> te_normalSocket e = None"
  "te_normalSocket (set_sendBuf sb e) = None \<longleftrightarrow> te_normalSocket e = None"
  "te_normalSocket (set_retransQueue rq e) = None \<longleftrightarrow> te_normalSocket e = None"
  by (simp_all add: set_defs)

lemma normalSocket_get:
  "get_recvBuf e = Inr rb \<Longrightarrow> te_normalSocket e \<noteq> None"
  "get_sendBuf e = Inr sb \<Longrightarrow> te_normalSocket e \<noteq> None"
  "get_retransQueue e = Inr rq \<Longrightarrow> te_normalSocket e \<noteq> None"
  by (auto simp: get_recvBuf_eq get_sendBuf_eq get_retransQueue_eq)

lemma get_upd [simp]:
  "get_recvBuf (te_state_update f e) = get_recvBuf e"
  "get_sendBuf (te_state_update f e) = get_sendBuf e"
  "get_retransQueue (te_state_update f e) = get_retransQueue e"
  "get_recvBuf (te_seqNum_update g e) = get_recvBuf e"
  "get_sendBuf (te_seqNum_update g e) = get_sendBuf e"
  "get_retransQueue (te_seqNum_update g e) = get_retransQueue e"
  "get_recvBuf (te_timeWaitTimer_update h e) = get_recvBuf e"
  "get_sendBuf (te_timeWaitTimer_update h e) = get_sendBuf e"
  "get_retransQueue (te_timeWaitTimer_update h e) = get_retransQueue e"
  by (simp_all add: get_defs)

lemma get_send_packet [simp]:
  "get_recvBuf (send_packet hdr d e) = get_recvBuf e"
  "get_sendBuf (send_packet hdr d e) = get_sendBuf e"
  "get_retransQueue (send_packet hdr d e) = get_retransQueue e"
  by (simp_all add: get_defs send_packet_def)

lemma te_send_packet [simp]:
  "te_state (send_packet hdr d e) = te_state e"
  "te_seqNum (send_packet hdr d e) = te_seqNum e"
  "te_normalSocket (send_packet hdr d e) = te_normalSocket e"
  "te_removed (send_packet hdr d e) = te_removed e"
  "te_dropForRetrans (send_packet hdr d e) = te_dropForRetrans e"
  "te_timeWaitTimer (send_packet hdr d e) = te_timeWaitTimer e"
  by (simp_all add: send_packet_def)

lemma te_set [simp]:
  "te_state (set_recvBuf rb e) = te_state e" "te_seqNum (set_recvBuf rb e) = te_seqNum e"
  "te_state (set_sendBuf sb e) = te_state e" "te_seqNum (set_sendBuf sb e) = te_seqNum e"
  "te_state (set_retransQueue rq e) = te_state e" "te_seqNum (set_retransQueue rq e) = te_seqNum e"
  "te_sendRequests (set_recvBuf rb e) = te_sendRequests e"
  "te_sendRequests (set_sendBuf sb e) = te_sendRequests e"
  "te_sendRequests (set_retransQueue rq e) = te_sendRequests e"
  "te_removed (set_recvBuf rb e) = te_removed e"
  "te_removed (set_sendBuf sb e) = te_removed e"
  "te_removed (set_retransQueue rq e) = te_removed e"
  "te_dropForRetrans (set_recvBuf rb e) = te_dropForRetrans e"
  "te_timeWaitTimer (set_recvBuf rb e) = te_timeWaitTimer e"
  "te_timeWaitTimer (set_sendBuf sb e) = te_timeWaitTimer e"
  by (simp_all add: set_defs)

text \<open>The window a well-formed receive buffer advertises is its free space, without wrap-around.\<close>

lemma unat_getAvailableWindow:
  assumes "cb_ok (rb_cBuf rb)"
  shows "unat (getAvailableWindow rb) = 65535 - length (cb_content (rb_cBuf rb))"
proof -
  let ?s = "cb_currSize (rb_cBuf rb)"
  have "unat (65535 - ?s) = 65535 - unat ?s" using assms by (simp add: cb_okD unat_sub)
  then show ?thesis
    by (simp add: getAvailableWindow_def unsigned_ucast_eq take_bit_nat_eq_self)
qed

end
