(* ===== verification/Protocol.thy ===== *)
theory Protocol
  imports TcpTypes
begin

text \<open>
  \<open>src/pkg/protocol\<close>: parsing and checksumming of TCP segments, the IP checksum helpers, ephemeral
  ports and initial sequence numbers; and the byte order functions of \<open>encoding/binary\<close> that the
  packages use. The netstack package is not part of the repository, so its header accessors, its
  encoder and its checksum function are the fields of the parameter \<open>netstack\<close>.
\<close>

section \<open>Big-endian integers\<close>

text \<open>\<open>binary.BigEndian.PutUint16\<close>, \<open>PutUint32\<close> and their inverses.\<close>

definition be16 :: "u16 \<Rightarrow> bytes" where
  "be16 w = [ucast (drop_bit 8 w), ucast w]"

definition be32 :: "u32 \<Rightarrow> bytes" where
  "be32 w = [ucast (drop_bit 24 w), ucast (drop_bit 16 w), ucast (drop_bit 8 w), ucast w]"

definition word16 :: "u8 \<Rightarrow> u8 \<Rightarrow> u16" where
  "word16 a b = push_bit 8 (ucast a) OR ucast b"

definition word32 :: "u8 \<Rightarrow> u8 \<Rightarrow> u8 \<Rightarrow> u8 \<Rightarrow> u32" where
  "word32 a b c d = push_bit 24 (ucast a) OR push_bit 16 (ucast b) OR push_bit 8 (ucast c) OR ucast d"

lemma length_be [simp]: "length (be16 h) = 2" "length (be32 w) = 4"
  by (simp_all add: be16_def be32_def)

lemma be_nth [simp]:
  "be16 h ! 0 = ucast (drop_bit 8 h)" "be16 h ! Suc 0 = ucast h"
  by (simp_all add: be16_def)

lemma word16_be [simp]: "word16 (ucast (drop_bit 8 w)) (ucast w) = w"
  unfolding word16_def by (rule bit_word_eqI) (auto simp: bit_simps)

lemma word32_be [simp]:
  "word32 (ucast (drop_bit 24 w)) (ucast (drop_bit 16 w)) (ucast (drop_bit 8 w)) (ucast w) = w"
  unfolding word32_def
proof (rule bit_word_eqI)
  fix n assume n: "n < LENGTH(32)"
  consider "n < 8" | "8 \<le> n" "n < 16" | "16 \<le> n" "n < 24" | "24 \<le> n" by linarith
  then show "bit (push_bit 24 (ucast (ucast (drop_bit 24 w) :: u8)) OR push_bit 16 (ucast (ucast (drop_bit 16 w) :: u8))
      OR push_bit 8 (ucast (ucast (drop_bit 8 w) :: u8)) OR ucast (ucast w :: u8) :: u32) n = bit w n"
    by cases (use n in \<open>auto simp: bit_simps less_diff_conv2\<close>)
qed

lemma be_inj [simp]: "be16 v = be16 v' \<longleftrightarrow> v = v'" "be32 w = be32 w' \<longleftrightarrow> w = w'"
  unfolding be16_def be32_def by (metis word16_be list.inject) (metis word32_be list.inject)

section \<open>Addresses as bytes\<close>

text \<open>\<open>netip.Addr.AsSlice\<close>: four bytes for an IPv4 address, nil for the invalid one.\<close>

fun AsSlice :: "netip_addr \<Rightarrow> bytes" where
  "AsSlice NoAddr = []"
| "AsSlice (IPv4 w) = be32 w"

lemma length_AsSlice: "length (AsSlice a) \<le> 4"
  by (cases a) simp_all

section \<open>The netstack package\<close>

text \<open>
  The accessors of \<open>header.TCP\<close>, its \<open>Encode\<close> into a zeroed buffer of 20 bytes, and
  \<open>header.Checksum\<close> with its initial value. An accessor panics on a slice that is too short.
\<close>

record netstack =
  ns_SourcePort :: "bytes \<Rightarrow> go_panic + u16"
  ns_DestinationPort :: "bytes \<Rightarrow> go_panic + u16"
  ns_SequenceNumber :: "bytes \<Rightarrow> go_panic + u32"
  ns_AckNumber :: "bytes \<Rightarrow> go_panic + u32"
  ns_DataOffset :: "bytes \<Rightarrow> go_panic + u8"
  ns_Flags :: "bytes \<Rightarrow> go_panic + u8"
  ns_WindowSize :: "bytes \<Rightarrow> go_panic + u16"
  ns_GetChecksum :: "bytes \<Rightarrow> go_panic + u16"
  ns_Encode :: "tcp_fields \<Rightarrow> bytes"
  ns_Checksum :: "bytes \<Rightarrow> u16 \<Rightarrow> u16"

text \<open>The documented contract: a header without options is read back as it was encoded.\<close>

definition netstack_ok :: "netstack \<Rightarrow> bool" where
  "netstack_ok ns \<longleftrightarrow> (\<forall>h. length (ns_Encode ns h) = 20) \<and>
     (\<forall>h p. DataOffset h = 20 \<longrightarrow> (let b = ns_Encode ns h @ p in
        ns_SourcePort ns b = Inr (SrcPort h) \<and> ns_DestinationPort ns b = Inr (DstPort h)
      \<and> ns_SequenceNumber ns b = Inr (SeqNum h) \<and> ns_AckNumber ns b = Inr (AckNum h)
      \<and> ns_DataOffset ns b = Inr (DataOffset h) \<and> ns_Flags ns b = Inr (Flags h)
      \<and> ns_WindowSize ns b = Inr (WindowSize h) \<and> ns_GetChecksum ns b = Inr (Checksum h)))"

abbreviation (input) TcpHeaderLen :: nat where "TcpHeaderLen \<equiv> 20"
abbreviation (input) TcpPseudoHeaderLen :: nat where "TcpPseudoHeaderLen \<equiv> 12"
abbreviation (input) IpProtoTcp :: u8 where "IpProtoTcp \<equiv> 6"

section \<open>iptcp-headers\<close>

text \<open>\<open>ipv4header.IPv4Header\<close> of the course's package, a plain struct of \<open>int\<close>s.\<close>

record ipv4_header =
  ip_Version :: int
  ip_Len :: int
  ip_TOS :: int
  ip_TotalLen :: int
  ip_ID :: int
  ip_Flags :: int
  ip_FragOff :: int
  ip_TTL :: int
  ip_Protocol :: int
  ip_Checksum :: int
  ip_Src :: netip_addr
  ip_Dst :: netip_addr
  ip_Options :: bytes

section \<open>Random values\<close>

text \<open>The bytes that \<open>crypto/rand\<close> and the number that \<open>math/rand\<close> deliver are arguments.\<close>

definition GenerateNewSeq :: "u8 \<times> u8 \<times> u8 \<times> u8 \<Rightarrow> u32" where
  "GenerateNewSeq = (\<lambda>(a, b, c, d). word32 a b c d)"

definition RandomEphemeralPort :: "nat \<Rightarrow> u16" where
  "RandomEphemeralPort intn = of_nat (49152 + intn)"

section \<open>Checksums\<close>

definition ComputeTCPChecksum :: "netstack \<Rightarrow> tcp_fields \<Rightarrow> netip_addr \<Rightarrow> netip_addr \<Rightarrow> bytes \<Rightarrow> u16" where
  "ComputeTCPChecksum ns tcpHdr sourceIP destIP payload =
     (let pseudoHeaderBytes = replicate TcpPseudoHeaderLen 0;
          pseudoHeaderBytes = blit 0 (AsSlice sourceIP) pseudoHeaderBytes;
          pseudoHeaderBytes = blit 4 (AsSlice destIP) pseudoHeaderBytes;
          pseudoHeaderBytes = pseudoHeaderBytes[8 := 0, 9 := IpProtoTcp];
          totalLength = TcpHeaderLen + length payload;
          pseudoHeaderBytes = blit 10 (be16 (of_nat totalLength)) pseudoHeaderBytes;
          headerBytes = ns_Encode ns tcpHdr;
          pseudoHeaderChecksum = ns_Checksum ns pseudoHeaderBytes 0;
          headerChecksum = ns_Checksum ns headerBytes pseudoHeaderChecksum;
          fullChecksum = ns_Checksum ns payload headerChecksum
      in fullChecksum XOR 0xffff)"

definition ComputeIPChecksum :: "netstack \<Rightarrow> bytes \<Rightarrow> u16" where
  "ComputeIPChecksum ns b = ns_Checksum ns b 0 XOR 0xffff"

definition ValidateIPChecksum :: "netstack \<Rightarrow> bytes \<Rightarrow> u16 \<Rightarrow> u16" where
  "ValidateIPChecksum ns b fromHeader = ns_Checksum ns b fromHeader"

definition ComputeChecksum :: "netstack \<Rightarrow> bytes \<Rightarrow> u16" where
  "ComputeChecksum ns b = ns_Checksum ns b 0 XOR 0xffff"

definition ValidateChecksum :: "netstack \<Rightarrow> bytes \<Rightarrow> u16 \<Rightarrow> u16" where
  "ValidateChecksum ns b fromHeader = ns_Checksum ns b fromHeader"

section \<open>Parsing a segment\<close>

definition ParseTCPHeader :: "netstack \<Rightarrow> bytes \<Rightarrow> go_panic + tcp_fields" where
  "ParseTCPHeader ns b =
     go_bind (ns_SourcePort ns b) (\<lambda>sp.
     go_bind (ns_DestinationPort ns b) (\<lambda>dp.
     go_bind (ns_SequenceNumber ns b) (\<lambda>sq.
     go_bind (ns_AckNumber ns b) (\<lambda>ak.
     go_bind (ns_DataOffset ns b) (\<lambda>off.
     go_bind (ns_Flags ns b) (\<lambda>fl.
     go_bind (ns_WindowSize ns b) (\<lambda>win.
     go_bind (ns_GetChecksum ns b) (\<lambda>ck.
       Inr \<lparr>SrcPort = sp, DstPort = dp, SeqNum = sq, AckNum = ak, DataOffset = off, Flags = fl,
            WindowSize = win, Checksum = ck, UrgentPointer = 0\<rparr>))))))))"

text \<open>
  The result is the header with its checksum field cleared, the payload, and whether the checksum
  was right. Slicing off the payload panics when the data offset lies beyond the message.
\<close>

definition ParseAndValidateTCP :: "netstack \<Rightarrow> ipv4_header \<Rightarrow> bytes \<Rightarrow> go_panic + (tcp_fields \<times> bytes \<times> bool)" where
  "ParseAndValidateTCP ns hdr message =
     go_bind (ParseTCPHeader ns message) (\<lambda>tcpHdr.
     if length message < unat (DataOffset tcpHdr) then Inl SliceOutOfRange
     else
       let tcpPayload = drop (unat (DataOffset tcpHdr)) message;
           tcpChecksumFromHeader = Checksum tcpHdr;
           tcpHdr = tcpHdr\<lparr>Checksum := 0\<rparr>;
           tcpComputedChecksum = ComputeTCPChecksum ns tcpHdr (ip_Src hdr) (ip_Dst hdr) tcpPayload
       in Inr (tcpHdr, tcpPayload, tcpComputedChecksum = tcpChecksumFromHeader))"

section \<open>Flags as text\<close>

text \<open>
  \<open>TCPFlagsAsString\<close> ranges over a map, in whatever order \<open>order\<close> the run time picks.
\<close>

definition flag_names :: "(u8 \<times> string) list" where
  "flag_names = [(TCPFlagAck, ''ACK''), (TCPFlagFin, ''FIN''), (TCPFlagPsh, ''PSH''),
     (TCPFlagRst, ''RST''), (TCPFlagSyn, ''SYN''), (TCPFlagUrg, ''URG'')]"

fun strings_Join :: "string list \<Rightarrow> string \<Rightarrow> string" where
  "strings_Join [] sep = ''''"
| "strings_Join [s] sep = s"
| "strings_Join (s # ss) sep = s @ sep @ strings_Join ss sep"

definition TCPFlagsAsString :: "(u8 \<times> string) list \<Rightarrow> u8 \<Rightarrow> string" where
  "TCPFlagsAsString order flags =
     strings_Join (map snd (filter (\<lambda>(b, str). b AND flags = b) order)) ''+''"

section \<open>A concrete encoding\<close>

text \<open>
  The header layout of RFC 9293 with a byte sum for a checksum: an instance of the contract.
\<close>

definition at16 :: "nat \<Rightarrow> bytes \<Rightarrow> go_panic + u16" where
  "at16 i b = (if i + 1 < length b then Inr (word16 (b ! i) (b ! (i + 1))) else Inl IndexOutOfRange)"

definition at32 :: "nat \<Rightarrow> bytes \<Rightarrow> go_panic + u32" where
  "at32 i b = (if i + 3 < length b then Inr (word32 (b ! i) (b ! (i + 1)) (b ! (i + 2)) (b ! (i + 3)))
     else Inl IndexOutOfRange)"

definition at8 :: "nat \<Rightarrow> bytes \<Rightarrow> go_panic + u8" where
  "at8 i b = (if i < length b then Inr (b ! i) else Inl IndexOutOfRange)"

definition sample_netstack :: netstack where
  "sample_netstack = \<lparr>ns_SourcePort = at16 0, ns_DestinationPort = at16 2, ns_SequenceNumber = at32 4,
     ns_AckNumber = at32 8, ns_DataOffset = (\<lambda>b. go_bind (at8 12 b) (\<lambda>x. Inr (push_bit 2 (drop_bit 4 x)))),
     ns_Flags = at8 13, ns_WindowSize = at16 14, ns_GetChecksum = at16 16,
     ns_Encode = (\<lambda>h. be16 (SrcPort h) @ be16 (DstPort h) @ be32 (SeqNum h) @ be32 (AckNum h)
       @ [push_bit 4 (drop_bit 2 (DataOffset h)), Flags h] @ be16 (WindowSize h) @ be16 (Checksum h)
       @ be16 (UrgentPointer h)),
     ns_Checksum = (\<lambda>b init. init + sum_list (map ucast b))\<rparr>"

lemma sample_netstack_ok: "netstack_ok sample_netstack"
  unfolding netstack_ok_def sample_netstack_def
  by (simp add: at16_def at32_def at8_def be16_def be32_def Let_def)

section \<open>Segments on the wire\<close>

text \<open>The bytes that \<open>sendTCP\<close> builds from a request.\<close>

definition segment_bytes :: "netstack \<Rightarrow> send_request \<Rightarrow> bytes" where
  "segment_bytes ns req =
     (let hdr = sr_tcpHeader req;
          hdr = hdr\<lparr>Checksum := ComputeTCPChecksum ns hdr (sr_sourceIP req) (sr_destIP req) (sr_data req)\<rparr>
      in ns_Encode ns hdr @ sr_data req)"

lemma ParseTCPHeader_encode:
  "netstack_ok ns \<Longrightarrow> DataOffset h = 20 \<Longrightarrow>
   ParseTCPHeader ns (ns_Encode ns h @ p) = Inr (h\<lparr>UrgentPointer := 0\<rparr>)"
  by (simp add: netstack_ok_def ParseTCPHeader_def Let_def)

text \<open>
  C35. Round trip of a segment. Under the contract of the netstack package, the bytes that are sent
  for a request are parsed by the receiver to the same header and payload, with a valid checksum,
  when the IP header carries the addresses the checksum was computed with.
\<close>

theorem segment_roundtrip:
  assumes "netstack_ok ns" and "DataOffset (sr_tcpHeader req) = 20"
    and "Checksum (sr_tcpHeader req) = 0" and "UrgentPointer (sr_tcpHeader req) = 0"
    and "ip_Src hdr = sr_sourceIP req" and "ip_Dst hdr = sr_destIP req"
  shows "ParseAndValidateTCP ns hdr (segment_bytes ns req) = Inr (sr_tcpHeader req, sr_data req, True)"
proof -
  let ?h = "sr_tcpHeader req"
  let ?c = "ComputeTCPChecksum ns ?h (sr_sourceIP req) (sr_destIP req) (sr_data req)"
  have h: "?h\<lparr>Checksum := 0, UrgentPointer := 0\<rparr> = ?h"
    using assms(3,4) by (cases ?h) simp
  have "ParseTCPHeader ns (ns_Encode ns (?h\<lparr>Checksum := ?c\<rparr>) @ sr_data req)
      = Inr (?h\<lparr>Checksum := ?c, UrgentPointer := 0\<rparr>)"
    using ParseTCPHeader_encode [OF assms(1), of "?h\<lparr>Checksum := ?c\<rparr>" "sr_data req"] assms(2) by simp
  moreover have "?h\<lparr>Checksum := 0, UrgentPointer := 0, Checksum := 0\<rparr> = ?h" using h by (cases ?h) simp
  moreover have "length (ns_Encode ns (?h\<lparr>Checksum := ?c\<rparr>)) = 20" using assms(1) by (simp add: netstack_ok_def)
  ultimately show ?thesis
    using assms(2,5,6) h by (simp add: ParseAndValidateTCP_def segment_bytes_def Let_def)
qed

theorem segment_roundtrip_witness:
  "\<exists>hdr. ParseAndValidateTCP sample_netstack hdr (segment_bytes sample_netstack
      \<lparr>sr_tcpHeader = \<lparr>SrcPort = 80, DstPort = 5000, SeqNum = 7, AckNum = 9, DataOffset = 20, Flags = 16,
          WindowSize = 100, Checksum = 0, UrgentPointer = 0\<rparr>,
       sr_data = [1, 2, 3], sr_sourceIP = IPv4 1, sr_destIP = IPv4 2\<rparr>)
    = Inr (\<lparr>SrcPort = 80, DstPort = 5000, SeqNum = 7, AckNum = 9, DataOffset = 20, Flags = 16,
          WindowSize = 100, Checksum = 0, UrgentPointer = 0\<rparr>, [1, 2, 3], True)"
proof -
  let ?r = "\<lparr>sr_tcpHeader = \<lparr>SrcPort = 80, DstPort = 5000, SeqNum = 7, AckNum = 9, DataOffset = 20, Flags = 16,
      WindowSize = 100, Checksum = 0, UrgentPointer = 0\<rparr>, sr_data = [1, 2, 3],
      sr_sourceIP = IPv4 1, sr_destIP = IPv4 2\<rparr>"
  let ?i = "\<lparr>ip_Version = 4, ip_Len = 20, ip_TOS = 0, ip_TotalLen = 43, ip_ID = 0, ip_Flags = 0,
      ip_FragOff = 0, ip_TTL = 32, ip_Protocol = 6, ip_Checksum = 0, ip_Src = IPv4 1, ip_Dst = IPv4 2,
      ip_Options = []\<rparr>"
  show ?thesis by (rule exI [of _ ?i], insert segment_roundtrip [OF sample_netstack_ok, of ?r ?i]) simp
qed

text \<open>
  A malformed segment ends the process: when the data offset that the header announces lies
  beyond the message, parsing panics, before the checksum has been looked at.
\<close>

theorem bad_data_offset_panics:
  assumes "ParseTCPHeader ns message = Inr h" and "length message < unat (DataOffset h)"
  shows "ParseAndValidateTCP ns hdr message = Inl SliceOutOfRange"
  using assms by (simp add: ParseAndValidateTCP_def)

theorem bad_data_offset_panics_witness:
  "\<forall>hdr. ParseAndValidateTCP sample_netstack hdr (replicate 12 0 @ [0xF0] @ replicate 7 0) = Inl SliceOutOfRange"
proof -
  let ?m = "replicate 12 0 @ [0xF0 :: u8] @ replicate 7 0"
  let ?h = "\<lparr>SrcPort = 0, DstPort = 0, SeqNum = 0, AckNum = 0, DataOffset = 60, Flags = 0, WindowSize = 0,
      Checksum = 0, UrgentPointer = 0\<rparr>"
  have "ParseTCPHeader sample_netstack ?m = Inr ?h" by code_simp
  from bad_data_offset_panics [OF this] show ?thesis by simp
qed

end
