(* ===== verification/IpForward.thy ===== *)
theory IpForward
  imports Protocol
begin

text \<open>
  The IP layer of \<open>src/pkg/ipStack\<close>: interfaces and forwarding table, longest prefix match with
  recursive next hops, sending, validating and forwarding packets. A Go map is a partial map; the
  order in which a \<open>range\<close> statement visits it is not specified, so it is an argument. Datagrams
  handed to a UDP socket are collected in the state. The packages iptcp-headers (\<open>Marshal\<close>,
  \<open>ParseHeader\<close>) and netstack (\<open>Checksum\<close>) are parameters.
\<close>

section \<open>net/netip\<close>

record netip_prefix =
  pfx_Addr :: netip_addr
  pfx_Bits :: int

text \<open>\<open>PrefixFrom\<close> makes an invalid prefix, of \<open>Bits\<close> -1, from an invalid address or length.\<close>

definition PrefixFrom :: "netip_addr \<Rightarrow> int \<Rightarrow> netip_prefix" where
  "PrefixFrom ip bits = \<lparr>pfx_Addr = ip,
     pfx_Bits = (if ip \<noteq> NoAddr \<and> 0 \<le> bits \<and> bits \<le> 32 then bits else -1)\<rparr>"

text \<open>\<open>Contains\<close> compares the leading bits; it does not require the prefix to be masked.\<close>

fun prefix_Contains :: "netip_prefix \<Rightarrow> netip_addr \<Rightarrow> bool" where
  "prefix_Contains p NoAddr = False"
| "prefix_Contains p (IPv4 b) = (case pfx_Addr p of
     NoAddr \<Rightarrow> False
   | IPv4 a \<Rightarrow> 0 \<le> pfx_Bits p \<and> drop_bit (32 - nat (pfx_Bits p)) (a XOR b) = 0)"

section \<open>Data\<close>

record neighbour =
  nb_IP :: netip_addr
  nb_UDPAddr :: "netip_addr \<times> u16"

record iface =
  if_Name :: string
  if_Prefix :: netip_prefix
  if_IP :: netip_addr
  if_Neighbours :: "netip_addr \<rightharpoonup> neighbour"
  if_Up :: bool

datatype source_type = SourceTypeLocal | SourceTypeRIP | SourceTypeStatic

abbreviation (input) ProtocolTypeTest :: int where "ProtocolTypeTest \<equiv> 0"
abbreviation (input) ProtocolTypeRIP :: int where "ProtocolTypeRIP \<equiv> 200"
abbreviation (input) ProtocolTypeTCP :: int where "ProtocolTypeTCP \<equiv> 6"
abbreviation (input) TTLNew :: int where "TTLNew \<equiv> 32"
abbreviation (input) Infinity :: u32 where "Infinity \<equiv> 16"

record fwd_entry =
  fe_Prefix :: netip_prefix
  fe_NextHop :: netip_addr
  fe_InterfaceName :: string
  fe_Type :: source_type
  fe_Cost :: u32
  fe_LastUpdated :: int

type_synonym fwd_table = "netip_prefix \<rightharpoonup> fwd_entry"

record rip_neighbour =
  rn_RouterIP :: netip_addr
  rn_InterfaceName :: string

record rip_info =
  ri_Neighbors :: "rip_neighbour list"
  ri_RipTimeout :: int
  ri_RipUpdateRate :: int

text \<open>The three functions that the programs register as receive handlers.\<close>

datatype recv_handler = HandleTestMessage | HandleRipMessage_handler | HandleTCP_handler

text \<open>
  The stack; \<open>is_sent\<close> lists the datagrams written to the UDP sockets: interface, destination, bytes.
\<close>

record ip_stack =
  is_Interfaces :: "string \<rightharpoonup> iface"
  is_ForwardingTable :: fwd_table
  is_RipInfo :: rip_info
  is_recvHandlers :: "int \<rightharpoonup> recv_handler"
  is_sent :: "(string \<times> (netip_addr \<times> u16) \<times> bytes) list"

text \<open>The package iptcp-headers: \<open>None\<close> stands for a returned error.\<close>

record iptcp_headers =
  ih_Marshal :: "ipv4_header \<Rightarrow> bytes option"
  ih_ParseHeader :: "bytes \<Rightarrow> ipv4_header option"

section \<open>Registration and interface state\<close>

definition RegisterRecvHandler :: "int \<Rightarrow> recv_handler \<Rightarrow> ip_stack \<Rightarrow> ip_stack" where
  "RegisterRecvHandler protoNum handler st =
     st\<lparr>is_recvHandlers := (is_recvHandlers st)(protoNum \<mapsto> handler)\<rparr>"

text \<open>\<open>IFDown\<close> and \<open>IFUp\<close> set a flag; an unknown name is an error (\<open>False\<close>) and changes nothing.\<close>

definition set_up :: "bool \<Rightarrow> string \<Rightarrow> ip_stack \<Rightarrow> bool \<times> ip_stack" where
  "set_up up name st = (case is_Interfaces st name of
     None \<Rightarrow> (False, st)
   | Some i \<Rightarrow> (True, st\<lparr>is_Interfaces := (is_Interfaces st)(name \<mapsto> i\<lparr>if_Up := up\<rparr>)\<rparr>))"

definition IFDown :: "string \<Rightarrow> ip_stack \<Rightarrow> bool \<times> ip_stack" where
  "IFDown = set_up False"

definition IFUp :: "string \<Rightarrow> ip_stack \<Rightarrow> bool \<times> ip_stack" where
  "IFUp = set_up True"

text \<open>A write on a socket that is up succeeds; an interface that is down drops the packet.\<close>

definition LinkLayerSend :: "iface \<Rightarrow> netip_addr \<times> u16 \<Rightarrow> bytes \<Rightarrow> ip_stack \<Rightarrow> ip_stack" where
  "LinkLayerSend i udpDest b st =
     (if if_Up i then st\<lparr>is_sent := is_sent st @ [(if_Name i, udpDest, b)]\<rparr> else st)"

text \<open>
  One round of \<open>LinkLayerListen\<close>: what it passes to the IP layer of a datagram. The read fills a buffer
  of 1400 bytes; the rest of a longer datagram is lost.
\<close>

definition MaxMessageSize :: nat where "MaxMessageSize = 1400"

definition LinkLayerListen :: "iface \<Rightarrow> bytes \<Rightarrow> bytes option" where
  "LinkLayerListen i datagram = (let buffer = take MaxMessageSize datagram in if \<not> if_Up i then None else Some buffer)"

section \<open>Longest prefix match\<close>

text \<open>The loop over the table: the entry with the greatest prefix length, the first one met on a tie.\<close>

fun lpm_loop :: "netip_addr \<Rightarrow> (netip_prefix \<times> fwd_entry) list \<Rightarrow> int \<times> fwd_entry option \<Rightarrow> int \<times> fwd_entry option" where
  "lpm_loop dest [] (maxLen, best) = (maxLen, best)"
| "lpm_loop dest ((p, e) # xs) (maxLen, best) =
     lpm_loop dest xs (if prefix_Contains p dest \<and> maxLen < pfx_Bits p then (pfx_Bits p, Some e)
                       else (maxLen, best))"

text \<open>The pairs that a range over the table visits, in the order \<open>ks\<close>.\<close>

definition range_map :: "('k \<rightharpoonup> 'v) \<Rightarrow> 'k list \<Rightarrow> ('k \<times> 'v) list" where
  "range_map m ks = concat (map (\<lambda>k. case m k of None \<Rightarrow> [] | Some v \<Rightarrow> [(k, v)]) ks)"

datatype lpm_result = LpmFound fwd_entry netip_addr | LpmNotFound

text \<open>
  The recursion need not end, so it takes fuel: \<open>None\<close> means that the fuel was too little. The order of
  each call's range statement is \<open>ord\<close> of the fuel that is left.
\<close>

fun LongestPrefixMatch :: "(nat \<Rightarrow> netip_prefix list) \<Rightarrow> nat \<Rightarrow> fwd_table \<Rightarrow> netip_addr \<Rightarrow> lpm_result option" where
  "LongestPrefixMatch ord 0 tbl dest = None"
| "LongestPrefixMatch ord (Suc n) tbl dest =
     (case lpm_loop dest (range_map tbl (ord n)) (-1, None) of
        (maxLen, None) \<Rightarrow> Some LpmNotFound
      | (maxLen, Some e) \<Rightarrow>
          if fe_InterfaceName e \<noteq> '''' then Some (LpmFound e dest)
          else if Infinity \<le> fe_Cost e then Some LpmNotFound
          else LongestPrefixMatch ord n tbl (fe_NextHop e))"

section \<open>Packets\<close>

definition SerializePacket :: "iptcp_headers \<Rightarrow> netstack \<Rightarrow> netip_addr \<Rightarrow> netip_addr \<Rightarrow> bytes \<Rightarrow> int \<Rightarrow> int \<Rightarrow> bool \<Rightarrow> go_panic + bytes" where
  "SerializePacket ih ns source dest message protocol ttl isTtlNew =
     (let hdr = \<lparr>ip_Version = 4, ip_Len = 20, ip_TOS = 0, ip_TotalLen = 20 + int (length message),
            ip_ID = 0, ip_Flags = 0, ip_FragOff = 0, ip_TTL = TTLNew, ip_Protocol = protocol,
            ip_Checksum = 0, ip_Src = source, ip_Dst = dest, ip_Options = []\<rparr>;
          hdr = (if \<not> isTtlNew then hdr\<lparr>ip_TTL := ttl\<rparr> else hdr)
      in case ih_Marshal ih hdr of
           None \<Rightarrow> Inl FatalExit
         | Some headerBytes \<Rightarrow>
             let hdr = hdr\<lparr>ip_Checksum := uint (ComputeChecksum ns headerBytes)\<rparr>
             in case ih_Marshal ih hdr of
                  None \<Rightarrow> Inl FatalExit
                | Some headerBytes \<Rightarrow> Inr (headerBytes @ message))"

text \<open>
  The three results are the message, the header pointer and whether the error is nil. The branches
  for a bad checksum and for an expired TTL return the \<open>err\<close> of the parse, which is nil there.
\<close>

definition DeserializeAndValidatePacket :: "iptcp_headers \<Rightarrow> netstack \<Rightarrow> bytes \<Rightarrow> go_panic + (bytes \<times> ipv4_header option \<times> bool)" where
  "DeserializeAndValidatePacket ih ns msgBytes =
     (case ih_ParseHeader ih msgBytes of
        None \<Rightarrow> Inr ([], None, False)
      | Some hdr \<Rightarrow>
          let headerSize = ip_Len hdr in
          if headerSize < 0 \<or> int (length msgBytes) < headerSize then Inl SliceOutOfRange
          else
            let headerBytes = take (nat headerSize) msgBytes;
                checksumFromHeader = (word_of_int (ip_Checksum hdr) :: u16);
                computedChecksum = ValidateChecksum ns headerBytes checksumFromHeader
            in if computedChecksum \<noteq> checksumFromHeader then Inr ([], None, True)
               else if ip_TTL hdr \<le> 0 then Inr ([], None, True)
               else Inr (drop (nat headerSize) msgBytes, Some hdr, True))"

section \<open>Delivery and forwarding\<close>

definition SRCFilter :: "ipv4_header \<Rightarrow> netip_prefix \<Rightarrow> netip_prefix \<Rightarrow> bool" where
  "SRCFilter hdr s1 s2 \<longleftrightarrow>
     prefix_Contains s1 (ip_Src hdr) \<and> prefix_Contains s2 (ip_Dst hdr)
     \<or> prefix_Contains s2 (ip_Src hdr) \<and> prefix_Contains s1 (ip_Dst hdr)"

text \<open>\<open>netip.MustParsePrefix\<close> of the three literals of the filter.\<close>

definition ipv4_of :: "u8 \<Rightarrow> u8 \<Rightarrow> u8 \<Rightarrow> u8 \<Rightarrow> netip_addr" where
  "ipv4_of a b c d = IPv4 (word32 a b c d)"

definition schlaraffian_isps :: netip_prefix where
  "schlaraffian_isps = \<lparr>pfx_Addr = ipv4_of 10 75 0 0, pfx_Bits = 16\<rparr>"

definition y_com :: netip_prefix where
  "y_com = \<lparr>pfx_Addr = ipv4_of 10 33 7 0, pfx_Bits = 24\<rparr>"

definition xt_streaming :: netip_prefix where
  "xt_streaming = \<lparr>pfx_Addr = ipv4_of 10 7 7 0, pfx_Bits = 16\<rparr>"

datatype ip_outcome = Delivered recv_handler | NoHandler | Dropped | Forwarded | Diverges

text \<open>The part of \<open>ipForwarding\<close> that acts on the match, with the TTL already decremented.\<close>

definition forward_packet :: "iptcp_headers \<Rightarrow> netstack \<Rightarrow> ipv4_header \<Rightarrow> bytes \<Rightarrow> fwd_entry \<Rightarrow> netip_addr \<Rightarrow> ip_stack \<Rightarrow> go_panic + (ip_outcome \<times> ip_stack)" where
  "forward_packet ih ns hdr message entry nextDest st =
     (if Infinity \<le> fe_Cost entry then Inr (Dropped, st)
      else case fe_Type entry of
        SourceTypeLocal \<Rightarrow>
          go_bind (deref (is_Interfaces st (fe_InterfaceName entry))) (\<lambda>i.
          if \<not> if_Up i then Inr (Dropped, st)
          else case if_Neighbours i nextDest of
            None \<Rightarrow> Inr (Dropped, st)
          | Some n \<Rightarrow>
              go_bind (SerializePacket ih ns (ip_Src hdr) (ip_Dst hdr) message (ip_Protocol hdr) (ip_TTL hdr) False)
                (\<lambda>b. Inr (Forwarded, LinkLayerSend i (nb_UDPAddr n) b st)))
      | SourceTypeRIP \<Rightarrow> Inr (Dropped, st)
      | SourceTypeStatic \<Rightarrow> Inr (Dropped, st))"

definition ipForwarding :: "iptcp_headers \<Rightarrow> netstack \<Rightarrow> string list \<Rightarrow> (nat \<Rightarrow> netip_prefix list) \<Rightarrow> nat \<Rightarrow> ipv4_header \<Rightarrow> bytes \<Rightarrow> ip_stack \<Rightarrow> go_panic + (ip_outcome \<times> ip_stack)" where
  "ipForwarding ih ns ifOrd ord fuel hdr message st =
     (let finalDest = ip_Dst hdr in
      if \<exists>(n, i) \<in> set (range_map (is_Interfaces st) ifOrd). if_IP i = finalDest then
        (case is_recvHandlers st (ip_Protocol hdr) of
           None \<Rightarrow> Inr (NoHandler, st)
         | Some h \<Rightarrow> Inr (Delivered h, st))
      else if SRCFilter hdr schlaraffian_isps y_com then Inr (Dropped, st)
      else if SRCFilter hdr schlaraffian_isps xt_streaming then Inr (Dropped, st)
      else
        let hdr = hdr\<lparr>ip_TTL := ip_TTL hdr - 1\<rparr> in
        if ip_TTL hdr \<le> 0 then Inr (Dropped, st)
        else case LongestPrefixMatch ord fuel (is_ForwardingTable st) finalDest of
          None \<Rightarrow> Inr (Diverges, st)
        | Some LpmNotFound \<Rightarrow> Inr (Dropped, st)
        | Some (LpmFound entry nextDest) \<Rightarrow> forward_packet ih ns hdr message entry nextDest st)"

text \<open>One message of \<open>RunIPLayer\<close>: a nil header is dereferenced by \<open>ipForwarding\<close>.\<close>

definition RunIPLayer_step :: "iptcp_headers \<Rightarrow> netstack \<Rightarrow> string list \<Rightarrow> (nat \<Rightarrow> netip_prefix list) \<Rightarrow> nat \<Rightarrow> bytes \<Rightarrow> ip_stack \<Rightarrow> go_panic + (ip_outcome \<times> ip_stack)" where
  "RunIPLayer_step ih ns ifOrd ord fuel msgBytes st =
     go_bind (DeserializeAndValidatePacket ih ns msgBytes) (\<lambda>(message, hdr, ok).
       if \<not> ok then Inr (Dropped, st)
       else go_bind (deref hdr) (\<lambda>h. ipForwarding ih ns ifOrd ord fuel h message st))"

text \<open>\<open>SendIP\<close> returns an error (\<open>False\<close>) only when there is no route.\<close>

definition SendIP :: "iptcp_headers \<Rightarrow> netstack \<Rightarrow> (nat \<Rightarrow> netip_prefix list) \<Rightarrow> nat \<Rightarrow> netip_addr \<Rightarrow> bytes \<Rightarrow> int \<Rightarrow> ip_stack \<Rightarrow> go_panic + (bool option \<times> ip_stack)" where
  "SendIP ih ns ord fuel finalDest message protoNum st =
     (case LongestPrefixMatch ord fuel (is_ForwardingTable st) finalDest of
        None \<Rightarrow> Inr (None, st)
      | Some LpmNotFound \<Rightarrow> Inr (Some False, st)
      | Some (LpmFound entry nextDest) \<Rightarrow>
          (case fe_Type entry of
             SourceTypeLocal \<Rightarrow>
               go_bind (deref (is_Interfaces st (fe_InterfaceName entry))) (\<lambda>i.
               case if_Neighbours i nextDest of
                 None \<Rightarrow> Inr (Some True, st)
               | Some n \<Rightarrow>
                   go_bind (SerializePacket ih ns (if_IP i) finalDest message protoNum 0 True)
                     (\<lambda>b. Inr (Some True, LinkLayerSend i (nb_UDPAddr n) b st)))
           | _ \<Rightarrow> Inr (Some True, st)))"

end
