(* ===== verification/GoText.thy ===== *)
theory GoText
  imports IpForward
begin

text \<open>
  The text functions of the Go library that the configuration parser and the command lines use:
  \<open>strings.Fields\<close>, \<open>strings.Split\<close>, \<open>strconv\<close>, \<open>fmt.Fscanf\<close> with \<open>%s\<close>, \<open>bufio.Scanner\<close> and the
  parsers and printers of \<open>net/netip\<close>. A text is a list of characters, with the ASCII white space.
  The model has no IPv6 addresses, so the parsers have a result of its own, \<open>IPv6Text\<close>, for the texts
  that the library would hand to its IPv6 parser.
\<close>

section \<open>Splitting\<close>

definition is_space :: "char \<Rightarrow> bool" where
  "is_space c \<longleftrightarrow> (let n = (of_char c :: nat) in n = 32 \<or> 9 \<le> n \<and> n \<le> 13)"

text \<open>\<open>strings.Fields\<close>: the words of a text; \<open>w\<close> is the word read so far.\<close>

fun fields_from :: "string \<Rightarrow> string \<Rightarrow> string list" where
  "fields_from w [] = (if w = [] then [] else [w])"
| "fields_from w (c # cs) =
     (if is_space c then (if w = [] then [] else [w]) @ fields_from [] cs else fields_from (w @ [c]) cs)"

abbreviation Fields :: "string \<Rightarrow> string list" where "Fields \<equiv> fields_from []"

text \<open>\<open>strings.Split\<close> and \<open>strings.SplitN\<close> at a separator of one character.\<close>

fun split_from :: "string \<Rightarrow> char \<Rightarrow> string \<Rightarrow> string list" where
  "split_from w d [] = [w]"
| "split_from w d (c # cs) = (if c = d then w # split_from [] d cs else split_from (w @ [c]) d cs)"

abbreviation Split :: "char \<Rightarrow> string \<Rightarrow> string list" where "Split \<equiv> split_from []"

fun SplitN :: "nat \<Rightarrow> char \<Rightarrow> string \<Rightarrow> string list" where
  "SplitN 0 d s = []"
| "SplitN (Suc 0) d s = [s]"
| "SplitN (Suc (Suc n)) d s =
     (let w = takeWhile (\<lambda>c. c \<noteq> d) s in
      if length w = length s then [s] else w # SplitN (Suc n) d (drop (Suc (length w)) s))"

text \<open>The text before and after the last occurrence of a character.\<close>

definition split_last :: "char \<Rightarrow> string \<Rightarrow> (string \<times> string) option" where
  "split_last d s = (if d \<notin> set s then None else
     let t = rev (takeWhile (\<lambda>c. c \<noteq> d) (rev s)) in Some (take (length s - Suc (length t)) s, t))"

definition TrimSpace :: "string \<Rightarrow> string" where
  "TrimSpace s = rev (dropWhile is_space (rev (dropWhile is_space s)))"

lemma fields_from_word:
  "list_all (\<lambda>c. \<not> is_space c) v \<Longrightarrow> fields_from w (v @ s) = fields_from (w @ v) s"
  by (induction v arbitrary: w) auto

lemma Fields_word:
  assumes "v \<noteq> []" and "list_all (\<lambda>c. \<not> is_space c) v" and "is_space c"
  shows "Fields (v @ c # s) = v # Fields s"
  using fields_from_word [OF assms(2), of "[]" "c # s"] assms(1,3) by simp

lemma Fields_last: "v \<noteq> [] \<Longrightarrow> list_all (\<lambda>c. \<not> is_space c) v \<Longrightarrow> Fields v = [v]"
  using fields_from_word [of v "[]" "[]"] by simp

lemma fields_from_words: "u \<in> set (fields_from w s) \<Longrightarrow> list_all (\<lambda>c. \<not> is_space c) w \<Longrightarrow> u \<noteq> [] \<and> list_all (\<lambda>c. \<not> is_space c) u"
  by (induction w s rule: fields_from.induct) (auto split: if_splits)

lemma split_from_word:
  "d \<notin> set v \<Longrightarrow> split_from w d (v @ s) = split_from (w @ v) d s"
  by (induction v arbitrary: w) auto

lemma Split_word: "d \<notin> set v \<Longrightarrow> Split d (v @ d # s) = v # Split d s"
  using split_from_word [of d v "[]" "d # s"] by simp

lemma Split_last: "d \<notin> set v \<Longrightarrow> Split d v = [v]"
  using split_from_word [of d v "[]" "[]"] by simp

lemma split_last_word:
  assumes "d \<notin> set t"
  shows "split_last d (s @ d # t) = Some (s, t)"
proof -
  have "takeWhile (\<lambda>c. c \<noteq> d) (rev t @ d # rev s) = rev t"
    using assms by (simp add: takeWhile_append)
  then show ?thesis by (simp add: split_last_def)
qed

section \<open>Numbers\<close>

definition digit_value :: "char \<Rightarrow> nat option" where
  "digit_value c = (let n = (of_char c :: nat) in if 48 \<le> n \<and> n \<le> 57 then Some (n - 48) else None)"

fun parse_digits :: "nat \<Rightarrow> string \<Rightarrow> nat option" where
  "parse_digits acc [] = Some acc"
| "parse_digits acc (c # cs) = (case digit_value c of None \<Rightarrow> None | Some d \<Rightarrow> parse_digits (10 * acc + d) cs)"

text \<open>\<open>strconv.ParseUint (s, 10, 16)\<close>, and \<open>ParseInt (s, 10, 64)\<close>, the same as \<open>Atoi\<close> on 64 bits.\<close>

definition ParseUint16 :: "string \<Rightarrow> u16 option" where
  "ParseUint16 s = (if s = [] then None else case parse_digits 0 s of
     None \<Rightarrow> None | Some n \<Rightarrow> if n < 65536 then Some (of_nat n) else None)"

definition ParseInt :: "string \<Rightarrow> int option" where
  "ParseInt s =
     (let neg = (s \<noteq> [] \<and> hd s = CHR ''-'');
          ds = (if s \<noteq> [] \<and> (hd s = CHR ''-'' \<or> hd s = CHR ''+'') then tl s else s) in
      if ds = [] then None
      else case parse_digits 0 ds of
        None \<Rightarrow> None
      | Some n \<Rightarrow> if neg then (if n \<le> 2 ^ 63 then Some (- int n) else None)
                  else (if n < 2 ^ 63 then Some (int n) else None))"

text \<open>\<open>fmt.Sprint\<close> of a number that is not negative.\<close>

fun decimal :: "nat \<Rightarrow> string" where
  "decimal n = (if n < 10 then [char_of (48 + n)] else decimal (n div 10) @ [char_of (48 + n mod 10)])"

declare decimal.simps [simp del]

lemma digit_value_char: "d < 10 \<Longrightarrow> digit_value (char_of (48 + d :: nat)) = Some d"
  by (simp add: digit_value_def Let_def)

lemma parse_digits_append:
  "parse_digits acc (xs @ ys) = (case parse_digits acc xs of None \<Rightarrow> None | Some n \<Rightarrow> parse_digits n ys)"
  by (induction acc xs rule: parse_digits.induct) (auto split: option.splits)

lemma parse_decimal: "parse_digits 0 (decimal n) = Some n"
proof (induction n rule: decimal.induct)
  case (1 n)
  show ?case
  proof (cases "n < 10")
    case False
    then have "decimal n = decimal (n div 10) @ [char_of (48 + n mod 10)]" by (simp add: decimal.simps [of n])
    moreover have "10 * (n div 10) + n mod 10 = n" by simp
    ultimately show ?thesis using 1 [OF False] digit_value_char [of "n mod 10"] by (simp add: parse_digits_append)
  qed (simp add: decimal.simps [of n] digit_value_char)
qed

lemma decimal_not_Nil [simp]: "decimal n \<noteq> []"
  by (simp add: decimal.simps [of n])

lemma decimal_digits: "c \<in> set (decimal n) \<Longrightarrow> digit_value c \<noteq> None"
proof (induction n rule: decimal.induct)
  case (1 n)
  then show ?case using digit_value_char [of n] digit_value_char [of "n mod 10"]
    by (auto simp: decimal.simps [of n] split: if_splits)
qed

lemma digit_not_special:
  assumes "digit_value c \<noteq> None"
  shows "\<not> is_space c" "c \<noteq> CHR ''.''" "c \<noteq> CHR ''/''" "c \<noteq> CHR '':''" "c \<noteq> CHR ''-''" "c \<noteq> CHR ''+''"
    "c \<noteq> CHR ''%''" "c \<noteq> CHR ''[''"
  using assms by (auto simp: digit_value_def is_space_def Let_def split: if_splits)

lemma digit_zero: "digit_value c = Some 0 \<longleftrightarrow> c = CHR ''0''"
proof
  assume "digit_value c = Some 0"
  then have "(of_char c :: nat) = of_char (CHR ''0'')" by (simp add: digit_value_def Let_def split: if_splits)
  then show "c = CHR ''0''" by (simp only: of_char_eq_iff)
qed (simp add: digit_value_def)

lemma decimal_head: "digit_value (hd (decimal n)) = Some 0 \<longleftrightarrow> n = 0"
proof (induction n rule: decimal.induct)
  case (1 n)
  then show ?case by (cases "n < 10") (simp_all add: decimal.simps [of n] hd_append digit_value_char)
qed

lemma decimal_hd: "digit_value (hd (decimal n)) \<noteq> None"
  by (rule decimal_digits [of _ n]) simp

lemma length_decimal: "n < 10 ^ k \<Longrightarrow> 0 < k \<Longrightarrow> length (decimal n) \<le> k"
proof (induction k arbitrary: n)
  case (Suc k)
  show ?case
  proof (cases "n < 10")
    case False
    then have "0 < k" using Suc.prems(1) by (cases k) auto
    moreover have "n div 10 < 10 ^ k" using Suc.prems(1) by (simp add: less_mult_imp_div_less mult.commute)
    ultimately show ?thesis using Suc.IH [of "n div 10"] False by (simp add: decimal.simps [of n])
  qed (simp add: decimal.simps [of n])
qed simp

lemma ParseUint16_decimal: "ParseUint16 (decimal (unat p)) = Some p"
  using unat_u16_lt [of p] by (simp add: ParseUint16_def parse_decimal)

lemma ParseInt_decimal:
  assumes "n < 2 ^ 63"
  shows "ParseInt (decimal n) = Some (int n)"
proof -
  have "hd (decimal n) \<noteq> CHR ''-''" "hd (decimal n) \<noteq> CHR ''+''"
    by (rule digit_not_special [OF decimal_hd])+
  then show ?thesis using assms by (simp add: ParseInt_def parse_decimal Let_def)
qed

section \<open>Addresses\<close>

datatype text_error = BadText | IPv6Text

text \<open>
  \<open>netip.ParseAddr\<close> goes by the first of the characters dot, colon and percent. An IPv4 address
  has four numbers up to 255 without leading zeros.
\<close>

definition octet :: "string \<Rightarrow> u8 option" where
  "octet s = (if s = [] \<or> hd s = CHR ''0'' \<and> 1 < length s then None else case parse_digits 0 s of
     None \<Rightarrow> None | Some n \<Rightarrow> if n \<le> 255 then Some (of_nat n) else None)"

definition parseIPv4 :: "string \<Rightarrow> text_error + netip_addr" where
  "parseIPv4 s = (case map octet (Split (CHR ''.'') s) of
     [Some a, Some b, Some c, Some d] \<Rightarrow> Inr (ipv4_of a b c d)
   | _ \<Rightarrow> Inl BadText)"

definition ParseAddr :: "string \<Rightarrow> text_error + netip_addr" where
  "ParseAddr s = (case find (\<lambda>c. c = CHR ''.'' \<or> c = CHR '':'' \<or> c = CHR ''%'') s of
     None \<Rightarrow> Inl BadText
   | Some c \<Rightarrow> if c = CHR ''.'' then parseIPv4 s else if c = CHR '':'' then Inl IPv6Text else Inl BadText)"

text \<open>
  \<open>ParsePrefix\<close> takes a length of one digit, or of digits that do not start with 0. \<open>ParseAddrPort\<close>
  takes an IPv6 address in brackets only.
\<close>

definition ParsePrefix :: "string \<Rightarrow> text_error + netip_prefix" where
  "ParsePrefix s = (case split_last (CHR ''/'') s of
     None \<Rightarrow> Inl BadText
   | Some (a, b) \<Rightarrow> (case ParseAddr a of
       Inl e \<Rightarrow> Inl e
     | Inr ip \<Rightarrow>
         if 1 < length b \<and> (case digit_value (hd b) of None \<Rightarrow> True | Some d \<Rightarrow> d = 0) then Inl BadText
         else case ParseInt b of
           None \<Rightarrow> Inl BadText
         | Some bits \<Rightarrow> if bits < 0 \<or> 32 < bits then Inl BadText else Inr (PrefixFrom ip bits)))"

definition ParseAddrPort :: "string \<Rightarrow> text_error + (netip_addr \<times> u16)" where
  "ParseAddrPort s = (case split_last (CHR '':'') s of
     None \<Rightarrow> Inl BadText
   | Some (a, b) \<Rightarrow>
       if a = [] \<or> b = [] then Inl BadText
       else if hd a = CHR ''['' then
         (if length a < 2 \<or> last a \<noteq> CHR '']'' then Inl BadText
          else case ParseUint16 b of
            None \<Rightarrow> Inl BadText
          | Some p \<Rightarrow> (case ParseAddr (butlast (tl a)) of Inl e \<Rightarrow> Inl e | Inr _ \<Rightarrow> Inl BadText))
       else case ParseUint16 b of
         None \<Rightarrow> Inl BadText
       | Some p \<Rightarrow> (case ParseAddr a of Inl _ \<Rightarrow> Inl BadText | Inr ip \<Rightarrow> Inr (ip, p)))"

text \<open>\<open>Masked\<close> clears the bits after the length.\<close>

definition Masked :: "netip_prefix \<Rightarrow> netip_prefix" where
  "Masked p = (case pfx_Addr p of
     NoAddr \<Rightarrow> PrefixFrom NoAddr (pfx_Bits p)
   | IPv4 a \<Rightarrow> if pfx_Bits p < 0 then PrefixFrom NoAddr (-1)
       else PrefixFrom (IPv4 (push_bit (32 - nat (pfx_Bits p)) (drop_bit (32 - nat (pfx_Bits p)) a))) (pfx_Bits p))"

text \<open>\<open>String\<close> of the three types.\<close>

fun show_addr :: "netip_addr \<Rightarrow> string" where
  "show_addr NoAddr = ''invalid IP''"
| "show_addr (IPv4 w) =
     (let d = (\<lambda>n. decimal (unat (ucast (drop_bit n w) :: u8))) in
      d 24 @ ''.'' @ d 16 @ ''.'' @ d 8 @ ''.'' @ d 0)"

definition show_prefix :: "netip_prefix \<Rightarrow> string" where
  "show_prefix p = (if pfx_Bits p < 0 then ''invalid Prefix'' else show_addr (pfx_Addr p) @ ''/'' @ decimal (nat (pfx_Bits p)))"

definition show_addr_port :: "netip_addr \<times> u16 \<Rightarrow> string" where
  "show_addr_port = (\<lambda>(a, p). case a of NoAddr \<Rightarrow> ''invalid AddrPort'' | IPv4 _ \<Rightarrow> show_addr a @ '':'' @ decimal (unat p))"

lemma octet_decimal: "octet (decimal (unat (b :: u8))) = Some b"
proof -
  have "unat b < 256" using unsigned_less [of b] by simp
  moreover have "length (decimal 0) = 1" by (simp add: decimal.simps [of 0])
  ultimately show ?thesis using decimal_head [of "unat b"] digit_zero
    by (cases "b = 0") (auto simp: octet_def parse_decimal unat_eq_0)
qed

lemma decimal_free:
  "CHR ''.'' \<notin> set (decimal n)" "CHR '':'' \<notin> set (decimal n)" "CHR ''/'' \<notin> set (decimal n)"
  "CHR ''%'' \<notin> set (decimal n)" "list_all (\<lambda>c. \<not> is_space c) (decimal n)"
  using decimal_digits [of _ n] digit_not_special unfolding list_all_iff by blast+

lemma find_append: "find P (xs @ ys) = (case find P xs of None \<Rightarrow> find P ys | Some x \<Rightarrow> Some x)"
  by (induction xs) auto

lemma ParseAddr_show: "ParseAddr (show_addr (IPv4 w)) = Inr (IPv4 w)"
proof -
  let ?d = "\<lambda>n. decimal (unat (ucast (drop_bit n w) :: u8))"
  have s: "show_addr (IPv4 w) = ?d 24 @ CHR ''.'' # ?d 16 @ CHR ''.'' # ?d 8 @ CHR ''.'' # ?d 0"
    by (simp add: Let_def)
  have "find (\<lambda>c. c = CHR ''.'' \<or> c = CHR '':'' \<or> c = CHR ''%'') (show_addr (IPv4 w)) = Some (CHR ''.'')"
  proof -
    have "find (\<lambda>c. c = CHR ''.'' \<or> c = CHR '':'' \<or> c = CHR ''%'') (?d 24) = None"
      using decimal_free [of "unat (ucast (drop_bit 24 w) :: u8)"] by (auto simp: find_None_iff)
    then show ?thesis unfolding s by (simp add: find_append)
  qed
  moreover have "Split (CHR ''.'') (show_addr (IPv4 w)) = [?d 24, ?d 16, ?d 8, ?d 0]"
    unfolding s by (simp only: Split_word decimal_free(1) Split_last not_False_eq_True)
  ultimately show ?thesis
    using word32_be [of w] by (simp add: ParseAddr_def parseIPv4_def octet_decimal ipv4_of_def del: show_addr.simps)
qed

lemma show_addr_chars:
  "CHR '':'' \<notin> set (show_addr (IPv4 w))" "CHR ''/'' \<notin> set (show_addr (IPv4 w))"
  "list_all (\<lambda>c. \<not> is_space c) (show_addr (IPv4 w))" "show_addr (IPv4 w) \<noteq> []" "hd (show_addr (IPv4 w)) \<noteq> CHR ''[''"
proof -
  have "is_space (CHR ''.'') = False" by code_simp
  then show "list_all (\<lambda>c. \<not> is_space c) (show_addr (IPv4 w))"
    by (simp add: Let_def decimal_free list_all_append)
  have "hd (decimal n) \<noteq> CHR ''[''" for n by (rule digit_not_special [OF decimal_hd])
  then show "hd (show_addr (IPv4 w)) \<noteq> CHR ''[''" by (simp add: Let_def hd_append)
qed (simp_all add: Let_def decimal_free)

lemma ParsePrefix_show:
  assumes "n \<le> 32"
  shows "ParsePrefix (show_addr (IPv4 w) @ CHR ''/'' # decimal n) = Inr \<lparr>pfx_Addr = IPv4 w, pfx_Bits = int n\<rparr>"
proof -
  have "split_last (CHR ''/'') (show_addr (IPv4 w) @ CHR ''/'' # decimal n) = Some (show_addr (IPv4 w), decimal n)"
    by (rule split_last_word [OF decimal_free(3)])
  moreover have "\<not> (1 < length (decimal n) \<and> (case digit_value (hd (decimal n)) of None \<Rightarrow> True | Some d \<Rightarrow> d = 0))"
    using decimal_head [of n] decimal_hd [of n]
    by (cases "n = 0") (auto simp: decimal.simps [of 0] split: option.splits)
  ultimately show ?thesis using assms
    by (simp add: ParsePrefix_def ParseAddr_show ParseInt_decimal PrefixFrom_def del: show_addr.simps)
qed

lemma ParseAddrPort_show:
  "ParseAddrPort (show_addr (IPv4 w) @ CHR '':'' # decimal (unat p)) = Inr (IPv4 w, p)"
proof -
  have "split_last (CHR '':'') (show_addr (IPv4 w) @ CHR '':'' # decimal (unat p)) = Some (show_addr (IPv4 w), decimal (unat p))"
    by (rule split_last_word [OF decimal_free(2)])
  then show ?thesis using show_addr_chars [of w]
    by (simp add: ParseAddrPort_def ParseAddr_show ParseUint16_decimal del: show_addr.simps)
qed

lemma ParseAddr_valid: "ParseAddr s = Inr a \<Longrightarrow> a \<noteq> NoAddr"
  by (auto simp: ParseAddr_def parseIPv4_def ipv4_of_def split: option.splits if_splits list.splits)

lemma ParsePrefix_valid:
  "ParsePrefix s = Inr p \<Longrightarrow> pfx_Addr p \<noteq> NoAddr \<and> 0 \<le> pfx_Bits p \<and> pfx_Bits p \<le> 32"
  by (auto simp: ParsePrefix_def PrefixFrom_def dest: ParseAddr_valid split: option.splits sum.splits if_splits)

lemma ParseAddrPort_valid: "ParseAddrPort s = Inr ap \<Longrightarrow> fst ap \<noteq> NoAddr"
  by (auto simp: ParseAddrPort_def dest: ParseAddr_valid split: option.splits sum.splits if_splits prod.splits)

lemma drop_push_drop: "drop_bit k (push_bit k (drop_bit k (x :: 'a::len word))) = drop_bit k x"
  by (rule bit_word_eqI) (auto simp: bit_simps dest: bit_imp_le_length)

lemma Masked_contains:
  "0 \<le> pfx_Bits p \<Longrightarrow> pfx_Bits p \<le> 32 \<Longrightarrow> pfx_Addr p \<noteq> NoAddr \<Longrightarrow>
     pfx_Bits (Masked p) = pfx_Bits p \<and> prefix_Contains (Masked p) (pfx_Addr p)"
  by (cases "pfx_Addr p") (simp_all add: Masked_def PrefixFrom_def drop_push_drop drop_bit_xor)

section \<open>Scanning\<close>

text \<open>
  \<open>fmt.Fscanf\<close> on a line, with a format of literals, spaces and \<open>%s\<close>: spaces of the format need a
  space or the end of the input, \<open>%s\<close> skips spaces and takes a word, and what is left of the line is
  ignored. \<open>None\<close> stands for an error.
\<close>

lemma length_dropWhile_less [termination_simp]: "length (dropWhile P xs) < Suc (length xs)"
  by (simp add: le_imp_less_Suc length_dropWhile_le)

fun Fscanf :: "string \<Rightarrow> string \<Rightarrow> string list option" where
  "Fscanf [] inp = Some []"
| "Fscanf (f # fs) inp =
     (if is_space f then
        (if inp \<noteq> [] \<and> \<not> is_space (hd inp) then None
         else Fscanf (dropWhile is_space fs) (dropWhile is_space inp))
      else if f = CHR ''%'' then
        (let t = dropWhile is_space inp in
         if t = [] then None
         else map_option ((#) (takeWhile (\<lambda>c. \<not> is_space c) t)) (Fscanf (tl fs) (dropWhile (\<lambda>c. \<not> is_space c) t)))
      else if inp \<noteq> [] \<and> hd inp = f then Fscanf fs (tl inp)
      else None)"

declare Fscanf.simps(2) [simp del]

lemma Fscanf_literal:
  "list_all (\<lambda>c. \<not> is_space c \<and> c \<noteq> CHR ''%'') l \<Longrightarrow> Fscanf (l @ fs) (l @ inp) = Fscanf fs inp"
  by (induction l) (simp_all add: Fscanf.simps)

lemma Fscanf_space:
  "is_space f \<Longrightarrow> is_space c \<Longrightarrow> Fscanf (f # fs) (c # inp) = Fscanf (dropWhile is_space fs) (dropWhile is_space inp)"
  by (simp add: Fscanf.simps)

lemma Fscanf_word:
  assumes "w \<noteq> []" and "list_all (\<lambda>c. \<not> is_space c) w" and "inp = [] \<or> is_space (hd inp)"
  shows "Fscanf (CHR ''%'' # CHR ''s'' # fs) (w @ inp) = map_option ((#) w) (Fscanf fs inp)"
proof -
  have p: "\<not> is_space (CHR ''%'')" by code_simp
  have "takeWhile (\<lambda>c. \<not> is_space c) (w @ inp) = w" "dropWhile (\<lambda>c. \<not> is_space c) (w @ inp) = inp"
    "dropWhile is_space (w @ inp) = w @ inp"
    using assms by (cases inp; cases w; auto simp: takeWhile_append dropWhile_append list_all_iff)+
  then show ?thesis using p assms(1) by (simp add: Fscanf.simps)
qed

lemma Fscanf_words:
  "Fscanf fs inp = Some ws \<Longrightarrow> w \<in> set ws \<Longrightarrow> w \<noteq> [] \<and> list_all (\<lambda>c. \<not> is_space c) w"
proof (induction fs inp arbitrary: ws rule: Fscanf.induct)
  case (2 f fs inp)
  let ?t = "dropWhile is_space inp"
  have t: "takeWhile (\<lambda>c. \<not> is_space c) ?t \<noteq> []" if "?t \<noteq> []"
    using that hd_dropWhile [of is_space inp] by (cases ?t) auto
  have a: "list_all (\<lambda>c. \<not> is_space c) (takeWhile (\<lambda>c. \<not> is_space c) ?t)"
    by (auto simp: list_all_iff dest: set_takeWhileD)
  consider "is_space f" | "\<not> is_space f" "f = CHR ''%''" | "\<not> is_space f" "f \<noteq> CHR ''%''" by blast
  then show ?case
  proof cases
    case 2
    then show ?thesis using "2.prems" "2.IH"(2) [OF 2 refl] t a
      by (auto simp: Fscanf.simps(2) [of "CHR ''%''"] Let_def split: if_splits)
  qed (use "2.prems" "2.IH"(1,3) in \<open>auto simp: Fscanf.simps(2) [of f] split: if_splits\<close>)
qed simp

text \<open>
  \<open>bufio.Scanner\<close>: lines without their end, a carriage return before it dropped, and nothing after the
  last newline. A line that does not fit in the buffer of 64 KB ends the scan.
\<close>

definition drop_cr :: "string \<Rightarrow> string" where
  "drop_cr l = (if l \<noteq> [] \<and> last l = CHR 0x0D then butlast l else l)"

definition scan_lines :: "string \<Rightarrow> string list" where
  "scan_lines text =
     (let ls = Split (CHR 0x0A) text in
      map drop_cr (takeWhile (\<lambda>l. length l < 65536) (if last ls = [] then butlast ls else ls)))"

definition lines_text :: "string list \<Rightarrow> string" where
  "lines_text ls = concat (map (\<lambda>l. l @ [CHR 0x0A]) ls)"

lemma Split_lines: "\<forall>l \<in> set ls. CHR 0x0A \<notin> set l \<Longrightarrow> Split (CHR 0x0A) (lines_text ls) = ls @ [[]]"
  by (induction ls) (simp_all add: lines_text_def Split_word)

lemma scan_lines_text:
  assumes "\<forall>l \<in> set ls. CHR 0x0A \<notin> set l \<and> CHR 0x0D \<notin> set l \<and> length l < 65536"
  shows "scan_lines (lines_text ls) = ls"
proof -
  have "drop_cr l = l" if "l \<in> set ls" for l
    using that assms last_in_set by (fastforce simp: drop_cr_def)
  then have "map drop_cr ls = ls" by (simp add: map_idI)
  moreover have "takeWhile (\<lambda>l. length l < 65536) ls = ls" using assms by simp
  moreover have "Split (CHR 0x0A) (lines_text ls) = ls @ [[]]" by (rule Split_lines) (use assms in blast)
  ultimately show ?thesis by (simp only: scan_lines_def Let_def last_snoc butlast_snoc simp_thms if_True)
qed

end
