(* ===== verification/IpRouting.thy ===== *)
theory IpRouting
  imports IpForward
begin

text \<open>
  What the IP layer guarantees about routing: longest prefix match against its specification, when
  its recursion ends and when not, and the fate of a packet that is forwarded.
\<close>

section \<open>The loop over the table\<close>

lemma set_range_map: "set (range_map m ks) = {(k, v). k \<in> set ks \<and> m k = Some v}"
  by (auto simp: range_map_def split: option.splits)

lemma contains_bits: "prefix_Contains p a \<Longrightarrow> 0 \<le> pfx_Bits p"
  by (cases a) (auto split: netip_addr.splits)

lemma lpm_loop_cases:
  "lpm_loop dest xs (m, b) = (m', b') \<Longrightarrow>
    (m' = m \<and> b' = b \<and> (\<forall>(p, e) \<in> set xs. prefix_Contains p dest \<longrightarrow> pfx_Bits p \<le> m))
    \<or> (\<exists>p e. (p, e) \<in> set xs \<and> prefix_Contains p dest \<and> b' = Some e \<and> m' = pfx_Bits p \<and> m < m'
        \<and> (\<forall>(q, x) \<in> set xs. prefix_Contains q dest \<longrightarrow> pfx_Bits q \<le> m'))"
proof (induction xs arbitrary: m b)
  case (Cons x xs)
  obtain p e where x: "x = (p, e)" by (cases x)
  show ?case
  proof (cases "prefix_Contains p dest \<and> m < pfx_Bits p")
    case True
    then have "lpm_loop dest xs (pfx_Bits p, Some e) = (m', b')" using Cons.prems x by simp
    from Cons.IH [OF this] True x show ?thesis by fastforce
  next
    case False
    then have "lpm_loop dest xs (m, b) = (m', b')" using Cons.prems x by auto
    from Cons.IH [OF this] False x show ?thesis by fastforce
  qed
qed simp

section \<open>Specification\<close>

text \<open>\<open>p\<close> is a longest prefix of the table that contains \<open>dest\<close>.\<close>

definition best_match :: "fwd_table \<Rightarrow> netip_addr \<Rightarrow> netip_prefix \<Rightarrow> bool" where
  "best_match tbl dest p \<longleftrightarrow> p \<in> dom tbl \<and> prefix_Contains p dest
     \<and> (\<forall>q \<in> dom tbl. prefix_Contains q dest \<longrightarrow> pfx_Bits q \<le> pfx_Bits p)"

text \<open>
  The route of an address: follow next hops through entries without an interface until an entry
  with an interface, an entry that is offline, or no entry at all.
\<close>

inductive routes :: "fwd_table \<Rightarrow> netip_addr \<Rightarrow> lpm_result \<Rightarrow> bool" for tbl where
  no_match: "\<forall>q \<in> dom tbl. \<not> prefix_Contains q dest \<Longrightarrow> routes tbl dest LpmNotFound"
| on_interface: "best_match tbl dest p \<Longrightarrow> tbl p = Some e \<Longrightarrow> fe_InterfaceName e \<noteq> '''' \<Longrightarrow>
    routes tbl dest (LpmFound e dest)"
| offline: "best_match tbl dest p \<Longrightarrow> tbl p = Some e \<Longrightarrow> fe_InterfaceName e = '''' \<Longrightarrow>
    Infinity \<le> fe_Cost e \<Longrightarrow> routes tbl dest LpmNotFound"
| next_hop: "best_match tbl dest p \<Longrightarrow> tbl p = Some e \<Longrightarrow> fe_InterfaceName e = '''' \<Longrightarrow>
    fe_Cost e < Infinity \<Longrightarrow> routes tbl (fe_NextHop e) r \<Longrightarrow> routes tbl dest r"

text \<open>
  A masked prefix has no bits set after its length. Tables whose prefixes are masked have at most
  one best match.
\<close>

fun masked :: "netip_prefix \<Rightarrow> bool" where
  "masked p = (case pfx_Addr p of NoAddr \<Rightarrow> False
     | IPv4 a \<Rightarrow> 0 \<le> pfx_Bits p \<and> pfx_Bits p \<le> 32 \<and> take_bit (32 - nat (pfx_Bits p)) a = 0)"

definition masked_table :: "fwd_table \<Rightarrow> bool" where
  "masked_table tbl \<longleftrightarrow> (\<forall>p \<in> dom tbl. masked p)"

definition orders :: "(nat \<Rightarrow> 'k list) \<Rightarrow> ('k \<rightharpoonup> 'v) \<Rightarrow> bool" where
  "orders ord m \<longleftrightarrow> (\<forall>n. set (ord n) = dom m)"

lemma word_eq_take_drop:
  fixes a b :: "'a::len word"
  assumes "take_bit n a = take_bit n b" and "drop_bit n a = drop_bit n b"
  shows "a = b"
  using bits_ident [of n a] bits_ident [of n b] unfolding assms by (rule trans [OF sym])

lemma xor_eq_0: "a XOR b = (0 :: 'a::len word) \<Longrightarrow> a = b"
  by (metis xor.assoc xor.left_neutral xor.right_neutral xor_self_eq)

lemma masked_unique:
  assumes "masked p" "masked q" "pfx_Bits p = pfx_Bits q"
    and "prefix_Contains p dest" "prefix_Contains q dest"
  shows "p = q"
proof -
  obtain b where b: "dest = IPv4 b" using assms(4) by (cases dest) auto
  obtain a where a: "pfx_Addr p = IPv4 a" using assms(1) by (auto split: netip_addr.splits)
  obtain c where c: "pfx_Addr q = IPv4 c" using assms(2) by (auto split: netip_addr.splits)
  let ?k = "32 - nat (pfx_Bits p)"
  have "drop_bit ?k (a XOR b) = 0" "drop_bit ?k (c XOR b) = 0" using assms(3-5) a b c by simp_all
  then have "drop_bit ?k a = drop_bit ?k b" "drop_bit ?k c = drop_bit ?k b"
    unfolding drop_bit_xor by (blast intro: xor_eq_0)+
  moreover have "take_bit ?k a = 0" "take_bit ?k c = 0" using assms(1-3) a c by simp_all
  ultimately have "a = c" using word_eq_take_drop [of ?k a c] by simp
  then show ?thesis using a c assms(3) by (cases p; cases q) simp
qed

lemma best_match_unique:
  "masked_table tbl \<Longrightarrow> best_match tbl dest p \<Longrightarrow> best_match tbl dest q \<Longrightarrow> p = q"
  unfolding best_match_def masked_table_def by (metis masked_unique order_antisym)

lemma best_match_exists:
  assumes "orders ord tbl" and "p \<in> dom tbl" and "prefix_Contains p dest"
  shows "\<exists>q. best_match tbl dest q"
proof -
  have "finite (dom tbl)" using assms(1) by (metis List.finite_set orders_def)
  then have fin: "finite (pfx_Bits ` {q \<in> dom tbl. prefix_Contains q dest})" (is "finite (_ ` ?S)") by simp
  moreover have "pfx_Bits ` ?S \<noteq> {}" using assms(2,3) by blast
  ultimately have "Max (pfx_Bits ` ?S) \<in> pfx_Bits ` ?S" by (rule Max_in)
  then obtain q where q: "q \<in> ?S" "pfx_Bits q = Max (pfx_Bits ` ?S)" by fastforce
  have "pfx_Bits x \<le> pfx_Bits q" if "x \<in> ?S" for x
    unfolding q(2) by (rule Max_ge [OF fin]) (use that in blast)
  then show ?thesis using q(1) unfolding best_match_def by blast
qed

text \<open>What one call does with its table scan.\<close>

lemma lpm_scan:
  assumes "set ks = dom tbl"
  obtains (none) "lpm_loop dest (range_map tbl ks) (-1, None) = (-1, None)"
      and "\<forall>q \<in> dom tbl. \<not> prefix_Contains q dest"
  | (match) p e where "lpm_loop dest (range_map tbl ks) (-1, None) = (pfx_Bits p, Some e)"
      and "best_match tbl dest p" and "tbl p = Some e"
proof -
  obtain m b where r: "lpm_loop dest (range_map tbl ks) (-1, None) = (m, b)" by fastforce
  have set: "set (range_map tbl ks) = {(k, v). tbl k = Some v}" using assms by (auto simp: set_range_map)
  from lpm_loop_cases [OF r] show thesis
  proof (elim disjE exE conjE)
    assume "m = -1" "b = None" and all: "\<forall>(p, e) \<in> set (range_map tbl ks). prefix_Contains p dest \<longrightarrow> pfx_Bits p \<le> -1"
    moreover have "\<forall>q \<in> dom tbl. \<not> prefix_Contains q dest"
      using all set contains_bits by fastforce
    ultimately show thesis using r by (intro none) simp_all
  next
    fix p e
    assume "(p, e) \<in> set (range_map tbl ks)" "prefix_Contains p dest" "b = Some e" "m = pfx_Bits p"
      "\<forall>(q, x) \<in> set (range_map tbl ks). prefix_Contains q dest \<longrightarrow> pfx_Bits q \<le> m"
    then show thesis using r set by (intro match [of p e]) (auto simp: best_match_def)
  qed
qed

lemma lpm_sound:
  "orders ord tbl \<Longrightarrow> LongestPrefixMatch ord n tbl dest = Some r \<Longrightarrow> routes tbl dest r"
proof (induction n arbitrary: dest)
  case (Suc n)
  have "set (ord n) = dom tbl" using Suc.prems(1) by (simp add: orders_def)
  then show ?case
  proof (cases rule: lpm_scan [of "ord n" tbl dest])
    case none
    then show ?thesis using Suc.prems(2) by (auto intro: routes.no_match)
  next
    case (match p e)
    consider "fe_InterfaceName e \<noteq> ''''" | "fe_InterfaceName e = ''''" "Infinity \<le> fe_Cost e"
      | "fe_InterfaceName e = ''''" "fe_Cost e < Infinity" by fastforce
    then show ?thesis
    proof cases
      case 1
      then show ?thesis using Suc.prems(2) match by (auto intro: routes.on_interface)
    next
      case 2
      then show ?thesis using Suc.prems(2) match by (auto intro: routes.offline)
    next
      case 3
      then have "\<not> Infinity \<le> fe_Cost e" by simp
      then have "LongestPrefixMatch ord n tbl (fe_NextHop e) = Some r"
        using Suc.prems(2) match(1) 3(1) by simp
      from Suc.IH [OF Suc.prems(1) this] show ?thesis using 3 match(2,3) by (blast intro: routes.next_hop)
    qed
  qed
qed simp

lemma lpm_complete:
  "routes tbl dest r \<Longrightarrow> orders ord tbl \<Longrightarrow> masked_table tbl \<Longrightarrow>
    \<exists>n. \<forall>k \<ge> n. LongestPrefixMatch ord k tbl dest = Some r"
proof (induction rule: routes.induct)
  case (no_match dest)
  have "LongestPrefixMatch ord (Suc k) tbl dest = Some LpmNotFound" for k
  proof -
    have "set (ord k) = dom tbl" using no_match.prems(1) by (simp add: orders_def)
    then show ?thesis
    proof (cases rule: lpm_scan [of "ord k" tbl dest])
      case (match p e)
      then show ?thesis using no_match.hyps unfolding best_match_def by blast
    qed simp
  qed
  then show ?case by (metis Suc_le_D)
next
  case (on_interface dest p e)
  have "LongestPrefixMatch ord (Suc k) tbl dest = Some (LpmFound e dest)" for k
  proof -
    have "set (ord k) = dom tbl" using on_interface.prems(1) by (simp add: orders_def)
    then show ?thesis
    proof (cases rule: lpm_scan [of "ord k" tbl dest])
      case none
      then show ?thesis using on_interface.hyps(1) unfolding best_match_def by blast
    next
      case (match p' e')
      then have "e' = e" using on_interface best_match_unique [of tbl dest p p'] by simp
      then show ?thesis using match(1) on_interface.hyps(3) by simp
    qed
  qed
  then show ?case by (metis Suc_le_D)
next
  case (offline dest p e)
  have "LongestPrefixMatch ord (Suc k) tbl dest = Some LpmNotFound" for k
  proof -
    have "set (ord k) = dom tbl" using offline.prems(1) by (simp add: orders_def)
    then show ?thesis
    proof (cases rule: lpm_scan [of "ord k" tbl dest])
      case (match p' e')
      then have "e' = e" using offline best_match_unique [of tbl dest p p'] by simp
      then show ?thesis using match(1) offline.hyps by simp
    next
      case none
      then show ?thesis using offline.hyps(1) unfolding best_match_def by blast
    qed
  qed
  then show ?case by (metis Suc_le_D)
next
  case (next_hop dest p e r)
  then obtain n where n: "\<forall>k \<ge> n. LongestPrefixMatch ord k tbl (fe_NextHop e) = Some r" by blast
  have "LongestPrefixMatch ord (Suc k) tbl dest = Some r" if "n \<le> k" for k
  proof -
    have "set (ord k) = dom tbl" using next_hop.prems(1) by (simp add: orders_def)
    then show ?thesis
    proof (cases rule: lpm_scan [of "ord k" tbl dest])
      case none
      then show ?thesis using next_hop.hyps(1) unfolding best_match_def by blast
    next
      case (match p' e')
      then have "e' = e" using next_hop best_match_unique [of tbl dest p p'] by simp
      moreover have "\<not> Infinity \<le> fe_Cost e" using next_hop.hyps(4) by simp
      ultimately show ?thesis using match(1) next_hop.hyps(3) n that by simp
    qed
  qed
  then show ?case by (metis Suc_le_D Suc_le_mono)
qed

text \<open>A host's table: its own network and a default route through the router on it.\<close>

definition sample_net :: netip_prefix where
  "sample_net = \<lparr>pfx_Addr = ipv4_of 10 0 0 0, pfx_Bits = 24\<rparr>"

definition sample_default :: netip_prefix where
  "sample_default = \<lparr>pfx_Addr = ipv4_of 0 0 0 0, pfx_Bits = 0\<rparr>"

definition sample_local :: fwd_entry where
  "sample_local = \<lparr>fe_Prefix = sample_net, fe_NextHop = NoAddr, fe_InterfaceName = ''if0'',
     fe_Type = SourceTypeLocal, fe_Cost = 0, fe_LastUpdated = 0\<rparr>"

definition sample_static :: fwd_entry where
  "sample_static = \<lparr>fe_Prefix = sample_default, fe_NextHop = ipv4_of 10 0 0 1, fe_InterfaceName = '''',
     fe_Type = SourceTypeStatic, fe_Cost = 0, fe_LastUpdated = 0\<rparr>"

definition sample_table :: fwd_table where
  "sample_table = [sample_net \<mapsto> sample_local, sample_default \<mapsto> sample_static]"

lemma sample_masked: "masked sample_net" "masked sample_default" "sample_net \<noteq> sample_default"
  by code_simp+

lemma sample_contains:
  "prefix_Contains sample_net (ipv4_of 10 0 0 1)" "prefix_Contains sample_default (ipv4_of 10 0 0 1)"
  "\<not> prefix_Contains sample_net (ipv4_of 1 2 3 4)" "prefix_Contains sample_default (ipv4_of 1 2 3 4)"
  by code_simp+

lemma sample_table_facts:
  "masked_table sample_table" "orders (\<lambda>_. [sample_net, sample_default]) sample_table"
  "sample_table sample_net = Some sample_local" "sample_table sample_default = Some sample_static"
  using sample_masked by (auto simp: masked_table_def orders_def sample_table_def)

lemma sample_best_match: "best_match sample_table (ipv4_of 10 0 0 1) sample_net"
  using sample_contains by (auto simp: best_match_def sample_table_def sample_net_def sample_default_def)

text \<open>
  C20. Longest prefix match implements its specification. On a table of masked prefixes, whatever
  order each table scan visits the map in, the lookup returns a result exactly when following the
  longest matches through the next hops leads to it.
\<close>

theorem lpm_refines_routes:
  assumes "orders ord tbl" and "masked_table tbl"
  shows "(\<exists>n. LongestPrefixMatch ord n tbl dest = Some r) \<longleftrightarrow> routes tbl dest r"
  using lpm_sound [OF assms(1)] lpm_complete [OF _ assms] by blast

theorem lpm_refines_routes_witness:
  "routes sample_table (ipv4_of 1 2 3 4) (LpmFound sample_local (ipv4_of 10 0 0 1))"
proof -
  have "LongestPrefixMatch (\<lambda>_. [sample_net, sample_default]) 2 sample_table (ipv4_of 1 2 3 4)
      = Some (LpmFound sample_local (ipv4_of 10 0 0 1))" by code_simp
  then show ?thesis
    using lpm_refines_routes [OF sample_table_facts(2,1), of "ipv4_of 1 2 3 4"] by blast
qed



text \<open>
  The lookup of an address never ends when its best match is a live route without an interface
  whose own next hop has that same route as its best match: the recursion repeats forever.
\<close>

theorem lpm_diverges:
  assumes "orders ord tbl" and "masked_table tbl"
    and "best_match tbl dest p" and "tbl p = Some e" and "fe_InterfaceName e = ''''"
    and "fe_Cost e < Infinity" and "best_match tbl (fe_NextHop e) p"
  shows "LongestPrefixMatch ord n tbl dest = None"
proof -
  have "LongestPrefixMatch ord k tbl d = None" if "best_match tbl d p" for d k
    using that
  proof (induction k arbitrary: d)
    case (Suc k)
    have "set (ord k) = dom tbl" using assms(1) by (simp add: orders_def)
    then show ?case
    proof (cases rule: lpm_scan [of "ord k" tbl d])
      case none
      then show ?thesis using Suc.prems unfolding best_match_def by blast
    next
      case (match p' e')
      then have "e' = e" using Suc.prems assms(4) best_match_unique [OF assms(2), of d p p'] by simp
      moreover have "\<not> Infinity \<le> fe_Cost e" using assms(6) by simp
      ultimately show ?thesis using match(1) assms(5) Suc.IH [OF assms(7)] by simp
    qed
  qed simp
  then show ?thesis using assms(3) .
qed

theorem lpm_diverges_witness:
  "\<forall>n. LongestPrefixMatch (\<lambda>_. [sample_default]) n [sample_default \<mapsto> sample_static] (ipv4_of 1 2 3 4) = None"
proof (rule allI, rule lpm_diverges)
  let ?t = "[sample_default \<mapsto> sample_static]"
  show "orders (\<lambda>_. [sample_default]) ?t" "masked_table ?t" "?t sample_default = Some sample_static"
    using sample_masked by (simp_all add: orders_def masked_table_def)
  show "fe_InterfaceName sample_static = ''''" "fe_Cost sample_static < Infinity"
    by (simp_all add: sample_static_def)
  show "best_match ?t (ipv4_of 1 2 3 4) sample_default" "best_match ?t (fe_NextHop sample_static) sample_default"
    using sample_contains by (simp_all add: best_match_def sample_static_def)
qed

end
