(* ===== verification/LnxConfig.thy ===== *)
theory LnxConfig
  imports GoText IpRouting
begin

text \<open>
  The parser of the configuration files, \<open>src/pkg/lnxconfig/lnxconfig.go\<close>: one function per directive,
  the loop over the lines, and what the parser guarantees. A parse either panics, or gives an error with
  the number of the line, or the configuration.
\<close>

section \<open>Configurations\<close>

datatype routing_mode = RoutingTypeNone | RoutingTypeStatic | RoutingTypeRIP

record interface_config =
  ic_Name :: string
  ic_AssignedIP :: netip_addr
  ic_AssignedPrefix :: netip_prefix
  ic_UDPAddr :: "netip_addr \<times> u16"

record neighbor_config =
  nc_DestAddr :: netip_addr
  nc_UDPAddr :: "netip_addr \<times> u16"
  nc_InterfaceName :: string

text \<open>Durations are in nanoseconds, as signed 64-bit numbers.\<close>

record ip_config =
  cf_Interfaces :: "interface_config list"
  cf_Neighbors :: "neighbor_config list"
  cf_RoutingMode :: routing_mode
  cf_RipNeighbors :: "netip_addr list"
  cf_StaticRoutes :: "netip_prefix \<rightharpoonup> netip_addr"
  cf_OriginatingPrefixes :: "netip_prefix list"
  cf_RipPeriodicUpdateRate :: int
  cf_RipTimeoutThreshold :: int
  cf_TcpRtoMin :: int
  cf_TcpRtoMax :: int

abbreviation (input) "Microsecond \<equiv> (1000 :: int)"

definition int64 :: "int \<Rightarrow> int" where
  "int64 x = (x + 2 ^ 63) mod 2 ^ 64 - 2 ^ 63"

datatype config_error =
    ErrOpenFile
  | ErrUsage
  | ErrInteger
  | ErrUnrecognized
  | ErrNoMatchingPrefix
  | ErrNotANeighbor
  | ErrScan
  | ErrAddress text_error

type_synonym directive_result = "go_panic + (config_error + ip_config)"

section \<open>The directives\<close>

definition with_text :: "text_error + 'a \<Rightarrow> ('a \<Rightarrow> directive_result) \<Rightarrow> directive_result" where
  "with_text r f = (case r of Inl e \<Rightarrow> Inr (Inl (ErrAddress e)) | Inr x \<Rightarrow> f x)"

definition addOriginatingPrefix :: "ip_config \<Rightarrow> netip_prefix \<Rightarrow> config_error + ip_config" where
  "addOriginatingPrefix config prefix =
     (if prefix \<in> ic_AssignedPrefix ` set (cf_Interfaces config)
      then Inr (config\<lparr>cf_OriginatingPrefixes := cf_OriginatingPrefixes config @ [prefix]\<rparr>)
      else Inl ErrNoMatchingPrefix)"

definition addRipNeighbor :: "ip_config \<Rightarrow> netip_addr \<Rightarrow> config_error + ip_config" where
  "addRipNeighbor config neighbor =
     (if neighbor \<in> nc_DestAddr ` set (cf_Neighbors config)
      then Inr (config\<lparr>cf_RipNeighbors := cf_RipNeighbors config @ [neighbor]\<rparr>)
      else Inl ErrNotANeighbor)"

text \<open>A number of some unit as the argument of a command.\<close>

definition duration_arg :: "string list \<Rightarrow> int \<Rightarrow> (int \<Rightarrow> ip_config) \<Rightarrow> directive_result" where
  "duration_arg argTokens unit f =
     (case argTokens of
        [] \<Rightarrow> Inr (Inl ErrUsage)
      | t # _ \<Rightarrow> (case ParseInt t of
          None \<Rightarrow> Inr (Inl ErrInteger)
        | Some val \<Rightarrow> Inr (Inr (f (int64 (val * unit))))))"

text \<open>
  \<open>originate\<close> reads \<open>ripTokens[0]\<close> before it knows that there is one, and \<open>ripTokens[1]\<close> when the only
  word is \<open>prefix\<close>.
\<close>

definition parseRip :: "string \<Rightarrow> ip_config \<Rightarrow> directive_result" where
  "parseRip line config =
     (let tokens = Fields line in
      if length tokens < 2 then Inr (Inl ErrUsage)
      else
        let cmd = tokens ! 1; ripTokens = drop 2 tokens in
        if cmd = ''originate'' then
          (if length ripTokens < 2 \<and> ripTokens = [] then Inl IndexOutOfRange
           else if length ripTokens < 2 \<and> ripTokens ! 0 \<noteq> ''prefix'' then Inr (Inl ErrUsage)
           else if length ripTokens < 2 then Inl IndexOutOfRange
           else with_text (ParsePrefix (ripTokens ! 1)) (\<lambda>ripPrefix.
             Inr (addOriginatingPrefix config (Masked ripPrefix))))
        else if cmd = ''advertise-to'' then
          (if length ripTokens < 1 then Inr (Inl ErrUsage)
           else with_text (ParseAddr (ripTokens ! 0)) (\<lambda>addr. Inr (addRipNeighbor config addr)))
        else if cmd = ''periodic-update-rate'' then
          duration_arg ripTokens Millisecond (\<lambda>d. config\<lparr>cf_RipPeriodicUpdateRate := d\<rparr>)
        else if cmd = ''route-timeout-threshold'' then
          duration_arg ripTokens Millisecond (\<lambda>d. config\<lparr>cf_RipTimeoutThreshold := d\<rparr>)
        else Inr (Inl ErrUnrecognized))"

definition parseTcp :: "string \<Rightarrow> ip_config \<Rightarrow> directive_result" where
  "parseTcp line config =
     (let tokens = Fields line in
      if length tokens < 2 then Inr (Inl ErrUsage)
      else
        let cmd = tokens ! 1; argTokens = drop 2 tokens in
        if cmd = ''rto-min'' then duration_arg argTokens Microsecond (\<lambda>d. config\<lparr>cf_TcpRtoMin := d\<rparr>)
        else if cmd = ''rto-max'' then duration_arg argTokens Microsecond (\<lambda>d. config\<lparr>cf_TcpRtoMax := d\<rparr>)
        else Inr (Inl ErrUnrecognized))"

definition parseRouting :: "string \<Rightarrow> ip_config \<Rightarrow> directive_result" where
  "parseRouting line config =
     (let tokens = Fields line in
      if length tokens < 2 then Inr (Inl ErrUsage)
      else if tokens ! 1 = ''static'' then Inr (Inr (config\<lparr>cf_RoutingMode := RoutingTypeStatic\<rparr>))
      else if tokens ! 1 = ''rip'' then Inr (Inr (config\<lparr>cf_RoutingMode := RoutingTypeRIP\<rparr>))
      else Inr (Inl ErrUnrecognized))"

text \<open>A scan without an error has filled all its arguments, so the checks of their number never fail.\<close>

definition parseRoute :: "string \<Rightarrow> ip_config \<Rightarrow> directive_result" where
  "parseRoute line config =
     (case Fscanf ''route %s via %s'' line of
        Some [sPrefix, sAddr] \<Rightarrow>
          with_text (ParsePrefix sPrefix) (\<lambda>prefix.
          with_text (ParseAddr sAddr) (\<lambda>addr.
            Inr (Inr (config\<lparr>cf_StaticRoutes := (cf_StaticRoutes config)(prefix \<mapsto> addr)\<rparr>))))
      | _ \<Rightarrow> Inr (Inl ErrScan))"

definition parseInterface :: "string \<Rightarrow> ip_config \<Rightarrow> directive_result" where
  "parseInterface line config =
     (case Fscanf ''interface %s %s %s'' line of
        Some [sName, sPrefix, sBindAddr] \<Rightarrow>
          with_text (ParsePrefix sPrefix) (\<lambda>prefix.
          let addr = pfx_Addr prefix; prefix = Masked prefix in
          with_text (ParseAddrPort sBindAddr) (\<lambda>addrPort.
            let i = \<lparr>ic_Name = sName, ic_AssignedIP = addr, ic_AssignedPrefix = prefix, ic_UDPAddr = addrPort\<rparr>
            in Inr (Inr (config\<lparr>cf_Interfaces := cf_Interfaces config @ [i]\<rparr>))))
      | _ \<Rightarrow> Inr (Inl ErrScan))"

definition parseNeighbor :: "string \<Rightarrow> ip_config \<Rightarrow> directive_result" where
  "parseNeighbor line config =
     (case Fscanf ''neighbor %s at %s via %s'' line of
        Some [sDestAddr, sUDPAddr, sIfName] \<Rightarrow>
          with_text (ParseAddr sDestAddr) (\<lambda>destAddr.
          with_text (ParseAddrPort sUDPAddr) (\<lambda>udpAddr.
            let n = \<lparr>nc_DestAddr = destAddr, nc_UDPAddr = udpAddr, nc_InterfaceName = sIfName\<rparr>
            in Inr (Inr (config\<lparr>cf_Neighbors := cf_Neighbors config @ [n]\<rparr>))))
      | _ \<Rightarrow> Inr (Inl ErrScan))"

definition parseCommands :: "string \<Rightarrow> (string \<Rightarrow> ip_config \<Rightarrow> directive_result) option" where
  "parseCommands = map_of
     [(''interface'', parseInterface), (''neighbor'', parseNeighbor), (''routing'', parseRouting),
      (''route'', parseRoute), (''rip'', parseRip), (''tcp'', parseTcp)]"

section \<open>The file\<close>

definition parse_line :: "string \<Rightarrow> ip_config \<Rightarrow> directive_result" where
  "parse_line line config =
     (case Fields line of
        [] \<Rightarrow> Inr (Inr config)
      | head # _ \<Rightarrow>
          if hd head = CHR ''#'' then Inr (Inr config)
          else case parseCommands head of
            None \<Rightarrow> Inr (Inl ErrUnrecognized)
          | Some pf \<Rightarrow> pf line config)"

fun parse_lines :: "nat \<Rightarrow> string list \<Rightarrow> ip_config \<Rightarrow> go_panic + (nat \<times> config_error + ip_config)" where
  "parse_lines ln [] config = Inr (Inr config)"
| "parse_lines ln (line # rest) config =
     go_bind (parse_line line config) (\<lambda>r. case r of
       Inl e \<Rightarrow> Inr (Inl (Suc ln, e))
     | Inr config' \<Rightarrow> parse_lines (Suc ln) rest config')"

definition initial_config :: ip_config where
  "initial_config = \<lparr>cf_Interfaces = [], cf_Neighbors = [], cf_RoutingMode = RoutingTypeNone,
     cf_RipNeighbors = [], cf_StaticRoutes = Map.empty, cf_OriginatingPrefixes = [],
     cf_RipPeriodicUpdateRate = 5 * Second, cf_RipTimeoutThreshold = 12 * Second,
     cf_TcpRtoMin = 1 * Millisecond, cf_TcpRtoMax = 5 * Second\<rparr>"

text \<open>The file's contents, \<open>None\<close> when it cannot be opened.\<close>

definition ParseConfig :: "string option \<Rightarrow> go_panic + (nat \<times> config_error + ip_config)" where
  "ParseConfig file = (case file of
     None \<Rightarrow> Inr (Inl (0, ErrOpenFile))
   | Some text \<Rightarrow> parse_lines 0 (scan_lines text) initial_config)"

text \<open>The configuration of the package for tests.\<close>

definition static_LnxConfig :: ip_config where
  "static_LnxConfig = \<lparr>cf_Interfaces =
       [\<lparr>ic_Name = ''if0'', ic_AssignedIP = ipv4_of 10 1 0 1, ic_AssignedPrefix = \<lparr>pfx_Addr = ipv4_of 10 1 0 1, pfx_Bits = 24\<rparr>,
          ic_UDPAddr = (ipv4_of 127 0 0 1, 5000)\<rparr>,
        \<lparr>ic_Name = ''if1'', ic_AssignedIP = ipv4_of 10 10 1 1, ic_AssignedPrefix = \<lparr>pfx_Addr = ipv4_of 10 10 1 1, pfx_Bits = 24\<rparr>,
          ic_UDPAddr = (ipv4_of 127 0 0 1, 5001)\<rparr>],
     cf_Neighbors =
       [\<lparr>nc_DestAddr = ipv4_of 10 1 0 10, nc_UDPAddr = (ipv4_of 127 0 0 1, 6001), nc_InterfaceName = ''if0''\<rparr>,
        \<lparr>nc_DestAddr = ipv4_of 10 10 1 2, nc_UDPAddr = (ipv4_of 127 0 0 1, 5100), nc_InterfaceName = ''if1''\<rparr>],
     cf_RoutingMode = RoutingTypeStatic, cf_RipNeighbors = [ipv4_of 10 10 1 2], cf_StaticRoutes = Map.empty,
     cf_OriginatingPrefixes = [], cf_RipPeriodicUpdateRate = 5 * Second, cf_RipTimeoutThreshold = 12 * Second,
     cf_TcpRtoMin = 1 * Millisecond, cf_TcpRtoMax = 0\<rparr>"

section \<open>What a parsed configuration satisfies\<close>

definition config_ok :: "ip_config \<Rightarrow> bool" where
  "config_ok c \<longleftrightarrow>
     (\<forall>i \<in> set (cf_Interfaces c). ic_Name i \<noteq> [] \<and> ic_AssignedIP i \<noteq> NoAddr \<and> fst (ic_UDPAddr i) \<noteq> NoAddr
        \<and> masked (ic_AssignedPrefix i) \<and> prefix_Contains (ic_AssignedPrefix i) (ic_AssignedIP i))
     \<and> (\<forall>n \<in> set (cf_Neighbors c). nc_DestAddr n \<noteq> NoAddr \<and> fst (nc_UDPAddr n) \<noteq> NoAddr \<and> nc_InterfaceName n \<noteq> [])
     \<and> set (cf_RipNeighbors c) \<subseteq> nc_DestAddr ` set (cf_Neighbors c)
     \<and> set (cf_OriginatingPrefixes c) \<subseteq> ic_AssignedPrefix ` set (cf_Interfaces c)
     \<and> (\<forall>p a. cf_StaticRoutes c p = Some a \<longrightarrow>
          a \<noteq> NoAddr \<and> pfx_Addr p \<noteq> NoAddr \<and> 0 \<le> pfx_Bits p \<and> pfx_Bits p \<le> 32)
     \<and> finite (dom (cf_StaticRoutes c))"

lemma Masked_is_masked:
  "pfx_Addr p \<noteq> NoAddr \<Longrightarrow> 0 \<le> pfx_Bits p \<Longrightarrow> pfx_Bits p \<le> 32 \<Longrightarrow> masked (Masked p)"
  by (cases "pfx_Addr p") (auto simp: Masked_def PrefixFrom_def bit_simps intro!: bit_word_eqI)

lemma with_text_eq: "with_text r f = Inr (Inr y) \<longleftrightarrow> (\<exists>x. r = Inr x \<and> f x = Inr (Inr y))"
  by (cases r) (auto simp: with_text_def)

lemma duration_arg_eq:
  "duration_arg ts u f = Inr (Inr y) \<longleftrightarrow> (\<exists>t rest v. ts = t # rest \<and> ParseInt t = Some v \<and> y = f (int64 (v * u)))"
  by (auto simp: duration_arg_def split: list.splits option.splits)

lemma durations_ok:
  "config_ok (c\<lparr>cf_RipPeriodicUpdateRate := d\<rparr>) = config_ok c" "config_ok (c\<lparr>cf_RipTimeoutThreshold := d\<rparr>) = config_ok c"
  "config_ok (c\<lparr>cf_TcpRtoMin := d\<rparr>) = config_ok c" "config_ok (c\<lparr>cf_TcpRtoMax := d\<rparr>) = config_ok c"
  "config_ok (c\<lparr>cf_RoutingMode := m\<rparr>) = config_ok c"
  by (simp_all add: config_ok_def)

lemma parse_keeps_ok:
  assumes "config_ok c"
  shows "parseRip l c = Inr (Inr d) \<Longrightarrow> config_ok d" "parseTcp l c = Inr (Inr d) \<Longrightarrow> config_ok d"
    "parseRouting l c = Inr (Inr d) \<Longrightarrow> config_ok d" "parseRoute l c = Inr (Inr d) \<Longrightarrow> config_ok d"
    "parseInterface l c = Inr (Inr d) \<Longrightarrow> config_ok d" "parseNeighbor l c = Inr (Inr d) \<Longrightarrow> config_ok d"
proof -
  have o: "config_ok d" if "addOriginatingPrefix c p = Inr d" for p
  proof -
    from that have "p \<in> ic_AssignedPrefix ` set (cf_Interfaces c)" "d = c\<lparr>cf_OriginatingPrefixes := cf_OriginatingPrefixes c @ [p]\<rparr>"
      by (auto simp: addOriginatingPrefix_def split: if_splits)
    then show ?thesis using assms by (simp add: config_ok_def del: masked.simps)
  qed
  have n: "config_ok d" if "addRipNeighbor c a = Inr d" for a
  proof -
    from that have "a \<in> nc_DestAddr ` set (cf_Neighbors c)" "d = c\<lparr>cf_RipNeighbors := cf_RipNeighbors c @ [a]\<rparr>"
      by (auto simp: addRipNeighbor_def split: if_splits)
    then show ?thesis using assms by (simp add: config_ok_def del: masked.simps)
  qed
  show "parseRip l c = Inr (Inr d) \<Longrightarrow> config_ok d"
    using assms by (auto simp: parseRip_def Let_def with_text_eq duration_arg_eq durations_ok split: if_splits intro: o n)
  show "parseTcp l c = Inr (Inr d) \<Longrightarrow> config_ok d"
    using assms by (auto simp: parseTcp_def Let_def duration_arg_eq durations_ok split: if_splits)
  show "parseRouting l c = Inr (Inr d) \<Longrightarrow> config_ok d"
    using assms by (auto simp: parseRouting_def Let_def durations_ok split: if_splits)
  show "config_ok d" if parsed: "parseRoute l c = Inr (Inr d)"
  proof -
    obtain p a x y where "ParsePrefix x = Inr p" "ParseAddr y = Inr a" "d = c\<lparr>cf_StaticRoutes := (cf_StaticRoutes c)(p \<mapsto> a)\<rparr>"
      using parsed by (auto simp: parseRoute_def with_text_eq split: option.split_asm list.split_asm)
    then show ?thesis using assms ParsePrefix_valid [of x p] ParseAddr_valid [of y a] by (simp add: config_ok_def)
  qed
  show "config_ok d" if parsed: "parseInterface l c = Inr (Inr d)"
  proof -
    obtain n x y p ap where w: "Fscanf ''interface %s %s %s'' l = Some [n, x, y]" and p: "ParsePrefix x = Inr p"
      and ap: "ParseAddrPort y = Inr ap" and d: "d = c\<lparr>cf_Interfaces := cf_Interfaces c @
        [\<lparr>ic_Name = n, ic_AssignedIP = pfx_Addr p, ic_AssignedPrefix = Masked p, ic_UDPAddr = ap\<rparr>]\<rparr>"
      using parsed by (auto simp: parseInterface_def with_text_eq Let_def split: option.split_asm list.split_asm)
    have "n \<noteq> []" using Fscanf_words [OF w] by simp
    then show ?thesis using assms ParsePrefix_valid [OF p] ParseAddrPort_valid [OF ap] Masked_contains [of p] Masked_is_masked [of p]
      unfolding d by (simp add: config_ok_def del: masked.simps) blast
  qed
  show "config_ok d" if parsed: "parseNeighbor l c = Inr (Inr d)"
  proof -
    obtain n x y a ap where w: "Fscanf ''neighbor %s at %s via %s'' l = Some [x, y, n]" and a: "ParseAddr x = Inr a"
      and ap: "ParseAddrPort y = Inr ap" and d: "d = c\<lparr>cf_Neighbors := cf_Neighbors c @
        [\<lparr>nc_DestAddr = a, nc_UDPAddr = ap, nc_InterfaceName = n\<rparr>]\<rparr>"
      using parsed by (auto simp: parseNeighbor_def with_text_eq Let_def split: option.split_asm list.split_asm)
    have "n \<noteq> []" using Fscanf_words [OF w] by simp
    then show ?thesis using assms ParseAddr_valid [OF a] ParseAddrPort_valid [OF ap]
      unfolding d by (simp add: config_ok_def del: masked.simps) (meson imageI subsetD subset_trans subset_insertI image_mono)
  qed
qed

lemma parse_line_ok: "config_ok c \<Longrightarrow> parse_line l c = Inr (Inr d) \<Longrightarrow> config_ok d"
  using parse_keeps_ok [of c l d]
  by (auto simp: parse_line_def parseCommands_def split: list.splits if_splits option.splits)

lemma parse_lines_ok: "config_ok c \<Longrightarrow> parse_lines ln ls c = Inr (Inr d) \<Longrightarrow> config_ok d"
proof (induction ln ls c rule: parse_lines.induct)
  case (2 ln l rest c)
  obtain r where r: "parse_line l c = Inr r" using "2.prems"(2) by (auto simp: go_bind_eq_Inr)
  then obtain c' where "r = Inr c'" using "2.prems"(2) by (cases r) simp_all
  with r "2.prems" "2.IH" [of c'] parse_line_ok [of c l c'] show ?case by simp
qed simp

lemma initial_config_ok: "config_ok initial_config"
  by (simp add: config_ok_def initial_config_def)

section \<open>What the file means\<close>

text \<open>
  A configuration file as the list of its directives, with addresses as 32-bit numbers: how a directive
  is written, and what it adds to the configuration.
\<close>

datatype directive =
    DComment string
  | DInterface string u32 nat u32 u16
  | DNeighbor u32 u32 u16 string
  | DStatic
  | DRip
  | DRoute u32 nat u32
  | DOriginate u32 nat
  | DAdvertise u32
  | DUpdateRate nat
  | DTimeout nat
  | DRtoMin nat
  | DRtoMax nat

abbreviation show_ip :: "u32 \<Rightarrow> string" where "show_ip w \<equiv> show_addr (IPv4 w)"
abbreviation show_net :: "u32 \<Rightarrow> nat \<Rightarrow> string" where "show_net w n \<equiv> show_addr (IPv4 w) @ CHR ''/'' # decimal n"
abbreviation show_udp :: "u32 \<Rightarrow> u16 \<Rightarrow> string" where "show_udp w p \<equiv> show_addr (IPv4 w) @ CHR '':'' # decimal (unat p)"

fun show_directive :: "directive \<Rightarrow> string" where
  "show_directive (DComment s) = CHR ''#'' # s"
| "show_directive (DInterface n a b u p) = ''interface '' @ n @ CHR '' '' # show_net a b @ CHR '' '' # show_udp u p"
| "show_directive (DNeighbor a u p n) = ''neighbor '' @ show_ip a @ '' at '' @ show_udp u p @ '' via '' @ n"
| "show_directive DStatic = ''routing static''"
| "show_directive DRip = ''routing rip''"
| "show_directive (DRoute a b g) = ''route '' @ show_net a b @ '' via '' @ show_ip g"
| "show_directive (DOriginate a b) = ''rip originate prefix '' @ show_net a b"
| "show_directive (DAdvertise a) = ''rip advertise-to '' @ show_ip a"
| "show_directive (DUpdateRate n) = ''rip periodic-update-rate '' @ decimal n"
| "show_directive (DTimeout n) = ''rip route-timeout-threshold '' @ decimal n"
| "show_directive (DRtoMin n) = ''tcp rto-min '' @ decimal n"
| "show_directive (DRtoMax n) = ''tcp rto-max '' @ decimal n"

definition net :: "u32 \<Rightarrow> nat \<Rightarrow> netip_prefix" where
  "net a b = \<lparr>pfx_Addr = IPv4 a, pfx_Bits = int b\<rparr>"

fun apply_directive :: "directive \<Rightarrow> ip_config \<Rightarrow> config_error + ip_config" where
  "apply_directive (DComment s) c = Inr c"
| "apply_directive (DInterface n a b u p) c = Inr (c\<lparr>cf_Interfaces := cf_Interfaces c @
     [\<lparr>ic_Name = n, ic_AssignedIP = IPv4 a, ic_AssignedPrefix = Masked (net a b), ic_UDPAddr = (IPv4 u, p)\<rparr>]\<rparr>)"
| "apply_directive (DNeighbor a u p n) c = Inr (c\<lparr>cf_Neighbors := cf_Neighbors c @
     [\<lparr>nc_DestAddr = IPv4 a, nc_UDPAddr = (IPv4 u, p), nc_InterfaceName = n\<rparr>]\<rparr>)"
| "apply_directive DStatic c = Inr (c\<lparr>cf_RoutingMode := RoutingTypeStatic\<rparr>)"
| "apply_directive DRip c = Inr (c\<lparr>cf_RoutingMode := RoutingTypeRIP\<rparr>)"
| "apply_directive (DRoute a b g) c = Inr (c\<lparr>cf_StaticRoutes := (cf_StaticRoutes c)(net a b \<mapsto> IPv4 g)\<rparr>)"
| "apply_directive (DOriginate a b) c = addOriginatingPrefix c (Masked (net a b))"
| "apply_directive (DAdvertise a) c = addRipNeighbor c (IPv4 a)"
| "apply_directive (DUpdateRate n) c = Inr (c\<lparr>cf_RipPeriodicUpdateRate := int64 (int n * Millisecond)\<rparr>)"
| "apply_directive (DTimeout n) c = Inr (c\<lparr>cf_RipTimeoutThreshold := int64 (int n * Millisecond)\<rparr>)"
| "apply_directive (DRtoMin n) c = Inr (c\<lparr>cf_TcpRtoMin := int64 (int n * Microsecond)\<rparr>)"
| "apply_directive (DRtoMax n) c = Inr (c\<lparr>cf_TcpRtoMax := int64 (int n * Microsecond)\<rparr>)"

fun apply_directives :: "nat \<Rightarrow> directive list \<Rightarrow> ip_config \<Rightarrow> nat \<times> config_error + ip_config" where
  "apply_directives ln [] c = Inr c"
| "apply_directives ln (d # ds) c = (case apply_directive d c of
     Inl e \<Rightarrow> Inl (Suc ln, e) | Inr c' \<Rightarrow> apply_directives (Suc ln) ds c')"

definition a_word :: "string \<Rightarrow> bool" where
  "a_word w \<longleftrightarrow> w \<noteq> [] \<and> list_all (\<lambda>c. \<not> is_space c) w"

fun directive_ok :: "directive \<Rightarrow> bool" where
  "directive_ok (DComment s) = (CHR 0x0A \<notin> set s \<and> CHR 0x0D \<notin> set s \<and> length s < 65535)"
| "directive_ok (DInterface n a b u p) = (a_word n \<and> length n < 65000 \<and> b \<le> 32)"
| "directive_ok (DNeighbor a u p n) = (a_word n \<and> length n < 65000)"
| "directive_ok (DRoute a b g) = (b \<le> 32)"
| "directive_ok (DOriginate a b) = (b \<le> 32)"
| "directive_ok (DUpdateRate n) = (n < 2 ^ 63)"
| "directive_ok (DTimeout n) = (n < 2 ^ 63)"
| "directive_ok (DRtoMin n) = (n < 2 ^ 63)"
| "directive_ok (DRtoMax n) = (n < 2 ^ 63)"
| "directive_ok _ = True"

declare show_addr.simps [simp del]

lemma space_char: "is_space (CHR '' '')"
  by code_simp

lemma a_word_simps [simp]:
  "a_word (decimal n)" "a_word (show_ip a)" "a_word (show_net a b)" "a_word (show_udp a p)"
proof -
  have "\<not> is_space (CHR ''/'')" "\<not> is_space (CHR '':'')" by code_simp+
  then show "a_word (decimal n)" "a_word (show_ip a)" "a_word (show_net a b)" "a_word (show_udp a p)"
    using show_addr_chars(3,4) [of a] by (simp_all add: a_word_def decimal_free list_all_append)
qed

lemma Fields_a_word: "a_word w \<Longrightarrow> Fields (w @ CHR '' '' # s) = w # Fields s" "a_word w \<Longrightarrow> Fields w = [w]"
  unfolding a_word_def using Fields_word [OF _ _ space_char] Fields_last by blast+

lemma a_word_skip: "a_word w \<Longrightarrow> dropWhile is_space (w @ s) = w @ s" "a_word w \<Longrightarrow> dropWhile is_space w = w"
  by (cases w; simp add: a_word_def)+

lemma literal_words [simp]:
  "a_word ''interface''" "a_word ''neighbor''" "a_word ''routing''" "a_word ''route''" "a_word ''rip''" "a_word ''tcp''"
  "a_word ''at''" "a_word ''via''" "a_word ''static''" "a_word ''originate''" "a_word ''prefix''" "a_word ''advertise-to''"
  "a_word ''periodic-update-rate''" "a_word ''route-timeout-threshold''" "a_word ''rto-min''" "a_word ''rto-max''"
  by code_simp+

lemma Fscanf_end: "a_word w \<Longrightarrow> Fscanf ''%s'' w = Some [w]"
  using Fscanf_word [of w "[]" "[]"] by (simp add: a_word_def)

lemma Fscanf_next:
  assumes "a_word w" and "inp = [] \<or> \<not> is_space (hd inp)" and "fs = [] \<or> \<not> is_space (hd fs)"
  shows "Fscanf (CHR ''%'' # CHR ''s'' # CHR '' '' # fs) (w @ CHR '' '' # inp) = map_option ((#) w) (Fscanf fs inp)"
proof -
  have "dropWhile is_space inp = inp" "dropWhile is_space fs = fs" using assms(2,3) by (cases inp; cases fs; simp)+
  then show ?thesis
    using Fscanf_word [of w "CHR '' '' # inp" "CHR '' '' # fs"] Fscanf_space [OF space_char space_char, of fs inp] assms(1)
    by (simp add: a_word_def space_char)
qed

lemma Fscanf_keyword:
  assumes "list_all (\<lambda>c. \<not> is_space c \<and> c \<noteq> CHR ''%'') k" and "a_word w" and "fs = [] \<or> \<not> is_space (hd fs)"
  shows "Fscanf (k @ CHR '' '' # fs) (k @ CHR '' '' # w @ inp) = Fscanf fs (w @ inp)"
proof -
  have "dropWhile is_space fs = fs" using assms(3) by (cases fs) auto
  then show ?thesis using Fscanf_literal [OF assms(1), of "CHR '' '' # fs" "CHR '' '' # w @ inp"]
      Fscanf_space [OF space_char space_char, of fs "w @ inp"] a_word_skip(1) [OF assms(2)] by simp
qed

lemma a_word_hd: "a_word w \<Longrightarrow> \<not> is_space (hd (w @ s))"
  by (cases w) (auto simp: a_word_def)

lemma scan_interface:
  assumes "a_word a" "a_word b" "a_word c"
  shows "Fscanf ''interface %s %s %s'' (''interface '' @ a @ CHR '' '' # b @ CHR '' '' # c) = Some [a, b, c]"
proof -
  have p: "\<not> is_space (CHR ''%'')" by code_simp
  have k: "list_all (\<lambda>c. \<not> is_space c \<and> c \<noteq> CHR ''%'') ''interface''" by code_simp
  show ?thesis
    using Fscanf_keyword [OF k assms(1), of "''%s %s %s''" "CHR '' '' # b @ CHR '' '' # c"] p
      Fscanf_next [OF assms(1), of "b @ CHR '' '' # c" "''%s %s''"] a_word_hd [OF assms(2)]
      Fscanf_next [OF assms(2), of c "''%s''"] a_word_hd [OF assms(3), of "[]"] Fscanf_end [OF assms(3)]
    by simp
qed

lemma scan_route:
  assumes "a_word a" "a_word b"
  shows "Fscanf ''route %s via %s'' (''route '' @ a @ '' via '' @ b) = Some [a, b]"
proof -
  have p: "\<not> is_space (CHR ''%'')" "\<not> is_space (CHR ''v'')" by code_simp+
  have k: "list_all (\<lambda>c. \<not> is_space c \<and> c \<noteq> CHR ''%'') ''route''" "list_all (\<lambda>c. \<not> is_space c \<and> c \<noteq> CHR ''%'') ''via''"
    by code_simp+
  show ?thesis
    using Fscanf_keyword [OF k(1) assms(1), of "''%s via %s''" "'' via '' @ b"] p
      Fscanf_next [OF assms(1), of "''via '' @ b" "''via %s''"]
      Fscanf_keyword [OF k(2) assms(2), of "''%s''" "[]"] Fscanf_end [OF assms(2)]
    by simp
qed

lemma scan_neighbor:
  assumes "a_word a" "a_word b" "a_word c"
  shows "Fscanf ''neighbor %s at %s via %s'' (''neighbor '' @ a @ '' at '' @ b @ '' via '' @ c) = Some [a, b, c]"
proof -
  have p: "\<not> is_space (CHR ''%'')" "\<not> is_space (CHR ''v'')" "\<not> is_space (CHR ''a'')" by code_simp+
  have k: "list_all (\<lambda>c. \<not> is_space c \<and> c \<noteq> CHR ''%'') ''neighbor''" "list_all (\<lambda>c. \<not> is_space c \<and> c \<noteq> CHR ''%'') ''at''"
    "list_all (\<lambda>c. \<not> is_space c \<and> c \<noteq> CHR ''%'') ''via''"
    by code_simp+
  show ?thesis
    using Fscanf_keyword [OF k(1) assms(1), of "''%s at %s via %s''" "'' at '' @ b @ '' via '' @ c"] p
      Fscanf_next [OF assms(1), of "''at '' @ b @ '' via '' @ c" "''at %s via %s''"]
      Fscanf_keyword [OF k(2) assms(2), of "''%s via %s''" "'' via '' @ c"]
      Fscanf_next [OF assms(2), of "''via '' @ c" "''via %s''"]
      Fscanf_keyword [OF k(3) assms(3), of "''%s''" "[]"] Fscanf_end [OF assms(3)]
    by simp
qed

text \<open>The words of the lines that are split into fields.\<close>

lemma command_fields:
  assumes "a_word w"
  shows "Fields (''rip originate prefix '' @ w) = [''rip'', ''originate'', ''prefix'', w]"
    "Fields (''rip advertise-to '' @ w) = [''rip'', ''advertise-to'', w]"
    "Fields (''rip periodic-update-rate '' @ w) = [''rip'', ''periodic-update-rate'', w]"
    "Fields (''rip route-timeout-threshold '' @ w) = [''rip'', ''route-timeout-threshold'', w]"
    "Fields (''tcp rto-min '' @ w) = [''tcp'', ''rto-min'', w]"
    "Fields (''tcp rto-max '' @ w) = [''tcp'', ''rto-max'', w]"
  using Fields_a_word(1) [of "''rip''" "''originate prefix '' @ w"] Fields_a_word(1) [of "''originate''" "''prefix '' @ w"]
    Fields_a_word(1) [of "''prefix''" w] Fields_a_word(1) [of "''rip''" "''advertise-to '' @ w"]
    Fields_a_word(1) [of "''advertise-to''" w] Fields_a_word(1) [of "''rip''" "''periodic-update-rate '' @ w"]
    Fields_a_word(1) [of "''periodic-update-rate''" w] Fields_a_word(1) [of "''rip''" "''route-timeout-threshold '' @ w"]
    Fields_a_word(1) [of "''route-timeout-threshold''" w] Fields_a_word(1) [of "''tcp''" "''rto-min '' @ w"]
    Fields_a_word(1) [of "''rto-min''" w] Fields_a_word(1) [of "''tcp''" "''rto-max '' @ w"]
    Fields_a_word(1) [of "''rto-max''" w] Fields_a_word(2) [OF assms]
  by simp_all

lemma head_fields:
  "Fields (''interface '' @ s) = ''interface'' # Fields s" "Fields (''neighbor '' @ s) = ''neighbor'' # Fields s"
  "Fields (''route '' @ s) = ''route'' # Fields s"
  using Fields_a_word(1) [of "''interface''" s] Fields_a_word(1) [of "''neighbor''" s] Fields_a_word(1) [of "''route''" s]
  by simp_all

lemma comment_line: "parse_line (CHR ''#'' # s) c = Inr (Inr c)"
proof -
  have "\<exists>w ws. fields_from (CHR ''#'' # v) s = (CHR ''#'' # w) # ws" for v
    by (induction s arbitrary: v) auto
  from this [of "[]"] obtain w ws where "fields_from ''#'' s = (CHR ''#'' # w) # ws" by blast
  moreover have "\<not> is_space (CHR ''#'')" by code_simp
  ultimately show ?thesis by (simp add: parse_line_def)
qed

text \<open>A line whose fields are known.\<close>

lemma parse_fields_line:
  "Fields l = [''rip'', ''originate'', ''prefix'', show_net a b] \<Longrightarrow> b \<le> 32 \<Longrightarrow>
     parse_line l c = Inr (addOriginatingPrefix c (Masked (net a b)))"
  "Fields l = [''rip'', ''advertise-to'', show_ip a] \<Longrightarrow> parse_line l c = Inr (addRipNeighbor c (IPv4 a))"
  "Fields l = [''rip'', ''periodic-update-rate'', decimal n] \<Longrightarrow> n < 2 ^ 63 \<Longrightarrow>
     parse_line l c = Inr (Inr (c\<lparr>cf_RipPeriodicUpdateRate := int64 (int n * Millisecond)\<rparr>))"
  "Fields l = [''rip'', ''route-timeout-threshold'', decimal n] \<Longrightarrow> n < 2 ^ 63 \<Longrightarrow>
     parse_line l c = Inr (Inr (c\<lparr>cf_RipTimeoutThreshold := int64 (int n * Millisecond)\<rparr>))"
  "Fields l = [''tcp'', ''rto-min'', decimal n] \<Longrightarrow> n < 2 ^ 63 \<Longrightarrow>
     parse_line l c = Inr (Inr (c\<lparr>cf_TcpRtoMin := int64 (int n * Microsecond)\<rparr>))"
  "Fields l = [''tcp'', ''rto-max'', decimal n] \<Longrightarrow> n < 2 ^ 63 \<Longrightarrow>
     parse_line l c = Inr (Inr (c\<lparr>cf_TcpRtoMax := int64 (int n * Microsecond)\<rparr>))"
  "Fields l = [''routing'', ''static''] \<Longrightarrow> parse_line l c = Inr (Inr (c\<lparr>cf_RoutingMode := RoutingTypeStatic\<rparr>))"
  "Fields l = [''routing'', ''rip''] \<Longrightarrow> parse_line l c = Inr (Inr (c\<lparr>cf_RoutingMode := RoutingTypeRIP\<rparr>))"
  by (simp_all add: parse_line_def parseCommands_def parseRip_def parseTcp_def parseRouting_def duration_arg_def
      with_text_def ParseInt_decimal ParsePrefix_show ParseAddr_show net_def Let_def)

lemma parse_scanned_line:
  "Fields l = ''interface'' # ws \<Longrightarrow> Fscanf ''interface %s %s %s'' l = Some [n, show_net a b, show_udp u p] \<Longrightarrow> b \<le> 32 \<Longrightarrow>
     parse_line l c = Inr (apply_directive (DInterface n a b u p) c)"
  "Fields l = ''neighbor'' # ws \<Longrightarrow> Fscanf ''neighbor %s at %s via %s'' l = Some [show_ip a, show_udp u p, n] \<Longrightarrow>
     parse_line l c = Inr (apply_directive (DNeighbor a u p n) c)"
  "Fields l = ''route'' # ws \<Longrightarrow> Fscanf ''route %s via %s'' l = Some [show_net a b, show_ip g] \<Longrightarrow> b \<le> 32 \<Longrightarrow>
     parse_line l c = Inr (apply_directive (DRoute a b g) c)"
  by (simp_all add: parse_line_def parseCommands_def parseInterface_def parseNeighbor_def parseRoute_def with_text_def
      ParseAddr_show ParsePrefix_show ParseAddrPort_show net_def Let_def)

lemma parse_line_show:
  assumes "directive_ok d"
  shows "parse_line (show_directive d) c = Inr (apply_directive d c)"
proof (cases d)
  case (DComment s)
  then show ?thesis by (simp add: comment_line)
next
  case DStatic
  show ?thesis unfolding DStatic show_directive.simps apply_directive.simps by (rule parse_fields_line(7)) code_simp
next
  case DRip
  show ?thesis unfolding DRip show_directive.simps apply_directive.simps by (rule parse_fields_line(8)) code_simp
next
  case (DInterface n a b u p)
  show ?thesis unfolding DInterface show_directive.simps
    by (rule parse_scanned_line(1) [OF head_fields(1) scan_interface]) (use assms DInterface in simp_all)
next
  case (DNeighbor a u p n)
  show ?thesis unfolding DNeighbor show_directive.simps
    by (rule parse_scanned_line(2) [OF head_fields(2) scan_neighbor]) (use assms DNeighbor in simp_all)
next
  case (DRoute a b g)
  show ?thesis unfolding DRoute show_directive.simps
    by (rule parse_scanned_line(3) [OF head_fields(3) scan_route]) (use assms DRoute in simp_all)
next
  case (DOriginate a b)
  show ?thesis unfolding DOriginate show_directive.simps apply_directive.simps
    by (rule parse_fields_line(1) [OF command_fields(1)]) (use assms DOriginate in simp_all)
next
  case (DAdvertise a)
  show ?thesis unfolding DAdvertise show_directive.simps apply_directive.simps
    by (rule parse_fields_line(2) [OF command_fields(2)]) (use assms DAdvertise in simp_all)
next
  case (DUpdateRate n)
  show ?thesis unfolding DUpdateRate show_directive.simps apply_directive.simps
    by (rule parse_fields_line(3) [OF command_fields(3)]) (use assms DUpdateRate in simp_all)
next
  case (DTimeout n)
  show ?thesis unfolding DTimeout show_directive.simps apply_directive.simps
    by (rule parse_fields_line(4) [OF command_fields(4)]) (use assms DTimeout in simp_all)
next
  case (DRtoMin n)
  show ?thesis unfolding DRtoMin show_directive.simps apply_directive.simps
    by (rule parse_fields_line(5) [OF command_fields(5)]) (use assms DRtoMin in simp_all)
next
  case (DRtoMax n)
  show ?thesis unfolding DRtoMax show_directive.simps apply_directive.simps
    by (rule parse_fields_line(6) [OF command_fields(6)]) (use assms DRtoMax in simp_all)
qed

lemma parse_lines_show:
  "\<forall>d \<in> set ds. directive_ok d \<Longrightarrow> parse_lines ln (map show_directive ds) c = Inr (apply_directives ln ds c)"
  by (induction ds arbitrary: ln c) (auto simp: parse_line_show split: sum.splits)

lemma length_show_ip: "length (show_ip a) \<le> 15" "b \<le> 32 \<Longrightarrow> length (decimal b) \<le> 2" "length (decimal (unat (p :: u16))) \<le> 5"
proof -
  have "length (decimal (unat x)) \<le> 3" for x :: u8
  proof (rule length_decimal)
    have "unat x < 256" using unsigned_less [of x] by simp
    then show "unat x < 10 ^ 3" by simp
  qed simp
  from this [of "ucast (drop_bit 24 a)"] this [of "ucast (drop_bit 16 a)"] this [of "ucast (drop_bit 8 a)"] this [of "ucast a"]
  show "length (show_ip a) \<le> 15" by (simp add: show_addr.simps)
  show "b \<le> 32 \<Longrightarrow> length (decimal b) \<le> 2" by (rule length_decimal) simp_all
  show "length (decimal (unat p)) \<le> 5" using unat_u16_lt [of p] by (intro length_decimal) simp_all
qed

lemma a_word_no_break: "a_word w \<Longrightarrow> CHR 0x0A \<notin> set w \<and> CHR 0x0D \<notin> set w"
proof -
  have "is_space (CHR 0x0A)" "is_space (CHR 0x0D)" by code_simp+
  then show "a_word w \<Longrightarrow> CHR 0x0A \<notin> set w \<and> CHR 0x0D \<notin> set w" by (auto simp: a_word_def list_all_iff)
qed

lemma directive_line:
  assumes "directive_ok d"
  shows "CHR 0x0A \<notin> set (show_directive d) \<and> CHR 0x0D \<notin> set (show_directive d) \<and> length (show_directive d) < 65536"
proof -
  note b = a_word_no_break [OF a_word_simps(1)] a_word_no_break [OF a_word_simps(2)]
  have n: "n < 2 ^ 63 \<Longrightarrow> length (decimal n) \<le> 19" for n by (rule length_decimal) simp_all
  show ?thesis
  proof (cases d)
    case (DInterface n a k u p)
    with assms show ?thesis using b a_word_no_break [of n] length_show_ip(1) [of a] length_show_ip(1) [of u] length_show_ip(2) [of k] length_show_ip(3) [of p]
      by simp
  next
    case (DNeighbor a u p n)
    with assms show ?thesis using b a_word_no_break [of n] length_show_ip(1) [of a] length_show_ip(1) [of u] length_show_ip(3) [of p]
      by simp
  next
    case (DRoute a k g)
    with assms show ?thesis using b length_show_ip(1) [of a] length_show_ip(1) [of g] length_show_ip(2) [of k] by simp
  next
    case (DOriginate a k)
    with assms show ?thesis using b length_show_ip(1) [of a] length_show_ip(2) [of k] by simp
  next
    case (DAdvertise a)
    then show ?thesis using b length_show_ip(1) [of a] by simp
  qed (use assms b n in \<open>fastforce dest: n\<close>)+
qed

lemma ParseConfig_show:
  assumes "\<forall>d \<in> set ds. directive_ok d"
  shows "ParseConfig (Some (lines_text (map show_directive ds))) = Inr (apply_directives 0 ds initial_config)"
proof -
  have "scan_lines (lines_text (map show_directive ds)) = map show_directive ds"
    by (rule scan_lines_text) (use assms directive_line in auto)
  then show ?thesis by (simp add: ParseConfig_def parse_lines_show [OF assms])
qed

text \<open>
  C31. Round trip of a configuration. A file written as one directive per line, with comments, is read
  back as the directives applied in order to the defaults; the first directive that the configuration
  does not allow is reported with its line number.
\<close>

theorem config_file_roundtrip:
  assumes "\<forall>d \<in> set ds. directive_ok d"
  shows "ParseConfig (Some (lines_text (map show_directive ds))) = Inr (apply_directives 0 ds initial_config)"
  by (rule ParseConfig_show [OF assms])

definition sample_directives :: "directive list" where
  "sample_directives =
     [DComment '' one host'', DInterface ''if0'' 0x0A000001 24 0x7F000001 5000,
      DNeighbor 0x0A000002 0x7F000001 5001 ''if0'', DStatic, DRoute 0 0 0x0A000002, DUpdateRate 5000]"

lemma sample_directives_ok: "\<forall>d \<in> set sample_directives. directive_ok d"
  unfolding sample_directives_def by (simp add: a_word_def, code_simp)

theorem config_file_roundtrip_witness:
  "\<exists>c. ParseConfig (Some (lines_text (map show_directive sample_directives))) = Inr (Inr c)
     \<and> length (cf_Interfaces c) = 1 \<and> cf_StaticRoutes c (net 0 0) = Some (IPv4 0x0A000002)"
  using config_file_roundtrip [OF sample_directives_ok] by (simp add: sample_directives_def initial_config_def)

lemma ParseConfig_ok: "ParseConfig file = Inr (Inr c) \<Longrightarrow> config_ok c"
  using parse_lines_ok [OF initial_config_ok] by (auto simp: ParseConfig_def split: option.splits)

text \<open>The test configuration is not one of them: its prefixes are not masked, as no file could have them.\<close>

lemma static_config_not_parsed: "ParseConfig file \<noteq> Inr (Inr static_LnxConfig)"
proof
  assume "ParseConfig file = Inr (Inr static_LnxConfig)"
  from ParseConfig_ok [OF this] have "\<forall>i \<in> set (cf_Interfaces static_LnxConfig). masked (ic_AssignedPrefix i)"
    unfolding config_ok_def by blast
  then have "masked \<lparr>pfx_Addr = ipv4_of 10 1 0 1, pfx_Bits = 24\<rparr>" by (simp add: static_LnxConfig_def del: masked.simps)
  moreover have "\<not> masked \<lparr>pfx_Addr = ipv4_of 10 1 0 1, pfx_Bits = 24\<rparr>" by code_simp
  ultimately show False by contradiction
qed

text \<open>
  C34. Every configuration that the parser accepts is well formed, whatever the file holds: the address of an
  interface lies in its prefix, which is masked, all addresses are valid, RIP neighbours are neighbours,
  and prefixes to originate belong to interfaces.
\<close>

theorem parsed_config_ok:
  assumes "ParseConfig file = Inr (Inr c)"
  shows "config_ok c"
  by (rule ParseConfig_ok [OF assms])

theorem parsed_config_ok_witness:
  "\<exists>c. ParseConfig (Some (lines_text (map show_directive sample_directives))) = Inr (Inr c) \<and> config_ok c"
proof -
  obtain c where c: "ParseConfig (Some (lines_text (map show_directive sample_directives))) = Inr (Inr c)"
    using ParseConfig_show [OF sample_directives_ok] by (simp add: sample_directives_def)
  from parsed_config_ok [OF c] c show ?thesis by blast
qed

text \<open>\<open>rip originate\<close> without its arguments is an index out of range.\<close>

lemma rip_originate_panics:
  assumes "line = ''rip originate'' \<or> line = ''rip originate prefix''"
  shows "parse_line line c = Inl IndexOutOfRange"
proof -
  have "Fields ''rip originate'' = [''rip'', ''originate'']"
    "Fields ''rip originate prefix'' = [''rip'', ''originate'', ''prefix'']" by code_simp+
  then show ?thesis using assms by (auto simp: parse_line_def parseCommands_def parseRip_def Let_def simp del: fields_from.simps)
qed

end
