(* ===== verification/IpPackets.thy ===== *)
theory IpPackets
  imports IpRouting
begin

text \<open>
  Packets on the wire and packets that travel: the contract of the header package and of the
  Internet checksum, the round trip of \<open>SerializePacket\<close> and \<open>DeserializeAndValidatePacket\<close>, the
  packets that the validation mistreats, and what forwarding does to a packet.
\<close>

section \<open>The contracts\<close>

text \<open>The headers that \<open>SerializePacket\<close> builds: no options, all fields in range.\<close>

definition header_plain :: "ipv4_header \<Rightarrow> bool" where
  "header_plain h \<longleftrightarrow> ip_Version h = 4 \<and> ip_Len h = 20 \<and> ip_TOS h = 0 \<and> ip_ID h = 0 \<and> ip_Flags h = 0
     \<and> ip_FragOff h = 0 \<and> ip_Options h = [] \<and> 0 \<le> ip_TotalLen h \<and> ip_TotalLen h < 65536
     \<and> 0 \<le> ip_TTL h \<and> ip_TTL h < 256 \<and> 0 \<le> ip_Protocol h \<and> ip_Protocol h < 256
     \<and> 0 \<le> ip_Checksum h \<and> ip_Checksum h < 65536 \<and> ip_Src h \<noteq> NoAddr \<and> ip_Dst h \<noteq> NoAddr"

text \<open>
  iptcp-headers: a plain header is marshalled to 20 bytes with the checksum at offset 10 and is read
  back; a parsed header has a length of at least 20, its 8- and 16-bit
  fields in range and IPv4 addresses.
\<close>

definition iptcp_ok :: "iptcp_headers \<Rightarrow> bool" where
  "iptcp_ok ih \<longleftrightarrow>
     (\<forall>h. header_plain h \<longrightarrow> (\<exists>b. length b = 20 \<and> ih_Marshal ih h = Some b
        \<and> (\<forall>m. ih_ParseHeader ih (b @ m) = Some h)
        \<and> (\<forall>c. ih_Marshal ih (h\<lparr>ip_Checksum := uint (c :: u16)\<rparr>) = Some (blit 10 (be16 c) b))))
     \<and> (\<forall>b h. ih_ParseHeader ih b = Some h \<longrightarrow> 20 \<le> ip_Len h \<and> 0 \<le> ip_TTL h \<and> ip_TTL h < 256 \<and> 0 \<le> ip_Protocol h
        \<and> ip_Protocol h < 256 \<and> 0 \<le> ip_Checksum h \<and> ip_Checksum h < 65536
        \<and> ip_Src h \<noteq> NoAddr \<and> ip_Dst h \<noteq> NoAddr)"

text \<open>
  The Internet checksum of RFC 1071: the ones' complement sum of the 16-bit words. On naturals, the
  ones' complement sum is the residue modulo 65535, with 65535 instead of 0 unless the sum is 0.
\<close>

fun words16 :: "bytes \<Rightarrow> nat" where
  "words16 (a # b # bs) = unat (word16 a b) + words16 bs"
| "words16 [a] = unat (word16 a 0)"
| "words16 [] = 0"

definition ones_sum :: "nat \<Rightarrow> nat" where
  "ones_sum n = (if n = 0 then 0 else (n - 1) mod 65535 + 1)"

definition rfc1071 :: "netstack \<Rightarrow> bool" where
  "rfc1071 ns \<longleftrightarrow> (\<forall>b init. length b = 20 \<longrightarrow>
     ns_Checksum ns b init = of_nat (ones_sum (unat init + words16 b)))"

section \<open>Ones' complement arithmetic\<close>

lemma ones_sum_le: "ones_sum n \<le> 65535"
  by (simp add: ones_sum_def Suc_le_eq)

lemma ones_sum_pos: "0 < n \<Longrightarrow> 0 < ones_sum n"
  by (simp add: ones_sum_def)

lemma ones_sum_mod: "ones_sum n mod 65535 = n mod 65535"
proof (cases n)
  case (Suc k)
  then show ?thesis unfolding ones_sum_def by (simp add: mod_Suc_eq del: mod_Suc)
qed (simp add: ones_sum_def)

lemma ones_sum_id: "n \<le> 65535 \<Longrightarrow> ones_sum n = n"
  by (cases "n = 0") (auto simp: ones_sum_def)

text \<open>The sum is determined by its residue when that is not 0.\<close>

lemma ones_sum_eqI:
  assumes "n mod 65535 = c mod 65535" and "0 < c" and "c \<le> 65535" and "0 < n"
  shows "ones_sum n = c"
proof -
  have "ones_sum n mod 65535 = c mod 65535" using assms(1) ones_sum_mod by simp
  moreover have "0 < ones_sum n" "ones_sum n \<le> 65535" using assms(4) ones_sum_pos ones_sum_le by simp_all
  ultimately show ?thesis using assms(2,3)
    by (cases "c = 65535"; cases "ones_sum n = 65535") auto
qed

text \<open>A checksum field filled with the complement of the sum makes the sum of all words 65535.\<close>

lemma ones_sum_complement:
  assumes "c = 65535 - ones_sum s" and "0 < c"
  shows "ones_sum (c + (s + c)) = c"
proof (rule ones_sum_eqI)
  have le: "ones_sum s \<le> 65535" by (rule ones_sum_le)
  have "(c + (s + c)) mod 65535 = (c + (ones_sum s + c)) mod 65535"
    by (metis mod_add_cong ones_sum_mod)
  also have "ones_sum s + c = 65535" using assms(1) le by simp
  finally show "(c + (s + c)) mod 65535 = c mod 65535" by simp
qed (use assms in auto)

lemma word_complement: "unat (w XOR 0xffff :: u16) = 65535 - unat w"
proof -
  have "(0xffff :: u16) = -1" by simp
  then have "w XOR 0xffff = NOT w" by (metis bit.xor_one_right)
  also have "\<dots> = -1 - w" by (simp add: not_eq_complement)
  finally have "unat (w XOR 0xffff) = unat (-1 - w)" by (rule arg_cong)
  also have "\<dots> = unat (-1 :: u16) - unat w" by (rule unat_sub) simp
  also have "unat (-1 :: u16) = 65535" by (simp add: unsigned_minus_1_eq_mask mask_eq_exp_minus_1)
  finally show ?thesis .
qed

lemma take_numeral_Cons: "length (b :: 'a list) = 20 \<Longrightarrow> \<exists>b0 b1 b2 b3 b4 b5 b6 b7 b8 b9 b10 b11 b12 b13 b14 b15 b16 b17 b18 b19.
   b = [b0, b1, b2, b3, b4, b5, b6, b7, b8, b9, b10, b11, b12, b13, b14, b15, b16, b17, b18, b19]"
  by (auto simp: length_Suc_conv numeral_eq_Suc)

text \<open>Words of a header whose checksum field is replaced.\<close>

lemma words16_checksum:
  assumes "length b = 20"
  shows "words16 (blit 10 (be16 c) b) + unat (word16 (b ! 10) (b ! 11)) = words16 b + unat c"
  using take_numeral_Cons [OF assms] by (auto simp: blit_def be16_def)

section \<open>Round trip\<close>

definition new_header :: "netip_addr \<Rightarrow> netip_addr \<Rightarrow> bytes \<Rightarrow> int \<Rightarrow> int \<Rightarrow> u16 \<Rightarrow> ipv4_header" where
  "new_header source dest message protocol ttl c = \<lparr>ip_Version = 4, ip_Len = 20, ip_TOS = 0,
     ip_TotalLen = 20 + int (length message), ip_ID = 0, ip_Flags = 0, ip_FragOff = 0, ip_TTL = ttl,
     ip_Protocol = protocol, ip_Checksum = uint c, ip_Src = source, ip_Dst = dest, ip_Options = []\<rparr>"

text \<open>The arguments that the stacks call \<open>SerializePacket\<close> with; the first TTL is 32.\<close>

definition sendable :: "netip_addr \<Rightarrow> netip_addr \<Rightarrow> bytes \<Rightarrow> int \<Rightarrow> int \<Rightarrow> bool" where
  "sendable source dest message protocol ttl \<longleftrightarrow> source \<noteq> NoAddr \<and> dest \<noteq> NoAddr
     \<and> length message < 65516 \<and> 0 \<le> protocol \<and> protocol < 256 \<and> 0 \<le> ttl \<and> ttl < 256"

lemma uint_u16_less: "uint (c :: u16) < 65536"
  using uint_lt2p [of c] by simp

lemma new_header_plain: "sendable source dest message protocol ttl \<Longrightarrow>
    header_plain (new_header source dest message protocol ttl c)"
  by (auto simp: sendable_def header_plain_def new_header_def uint_u16_less)

lemma iptcp_okE:
  assumes "iptcp_ok ih" and "header_plain h"
  obtains b where "length b = 20" and "ih_Marshal ih h = Some b" and "\<And>m. ih_ParseHeader ih (b @ m) = Some h"
    and "\<And>c. ih_Marshal ih (h\<lparr>ip_Checksum := uint (c :: u16)\<rparr>) = Some (blit 10 (be16 c) b)"
  using assms unfolding iptcp_ok_def by blast

lemma SerializePacket_wire:
  assumes ih: "iptcp_ok ih" and ns: "rfc1071 ns" and snd: "sendable source dest message protocol t"
    and t: "t = (if new then TTLNew else ttl)"
  obtains b c s where "SerializePacket ih ns source dest message protocol ttl new = Inr (b @ message)"
    and "length b = 20" and "\<And>m. ih_ParseHeader ih (b @ m) = Some (new_header source dest message protocol t c)"
    and "ns_Checksum ns b c = of_nat (ones_sum (unat c + (s + unat c)))" and "unat c = 65535 - ones_sum s"
proof -
  let ?h = "new_header source dest message protocol t"
  have plain: "header_plain (?h c)" for c by (rule new_header_plain [OF snd])
  have upd: "(?h 0)\<lparr>ip_Checksum := uint c\<rparr> = ?h c" for c by (simp add: new_header_def)
  obtain b0 where b0: "length b0 = 20" "ih_Marshal ih (?h 0) = Some b0"
    "\<And>c. ih_Marshal ih (?h c) = Some (blit 10 (be16 c) b0)"
    by (rule iptcp_okE [OF ih plain [of 0]]) (simp only: upd)
  define c where "c = ComputeChecksum ns b0"
  define b where "b = blit 10 (be16 c) b0"
  have b: "length b = 20" "ih_Marshal ih (?h c) = Some b" using b0 by (simp_all add: b_def)
  have parse: "ih_ParseHeader ih (b @ m) = Some (?h c)" for m
    by (rule iptcp_okE [OF ih plain [of c]]) (use b(2) in simp)
  have "blit 10 (be16 0) b0 = b0" using b0(2) b0(3) [of 0] by simp
  then have "b0 ! 10 = be16 0 ! 0" "b0 ! 11 = be16 0 ! 1"
    using nth_blit [of 10 "be16 0" b0 10] nth_blit [of 10 "be16 0" b0 11] b0(1) by simp_all
  then have "word16 (b0 ! 10) (b0 ! 11) = 0" by (simp add: word16_def)
  then have w: "words16 b = words16 b0 + unat c"
    using words16_checksum [OF b0(1), of c] by (simp add: b_def)
  have s: "ones_sum (words16 b0) \<le> 65535" by (rule ones_sum_le)
  have "ns_Checksum ns b0 0 = of_nat (ones_sum (words16 b0))" using ns b0(1) by (simp add: rfc1071_def)
  then have "unat (ns_Checksum ns b0 0) = ones_sum (words16 b0)"
    using s by (simp add: unat_of_nat take_bit_nat_eq_self)
  then have "unat c = 65535 - ones_sum (words16 b0)" by (simp add: c_def ComputeChecksum_def word_complement)
  moreover have "ns_Checksum ns b c = of_nat (ones_sum (unat c + (words16 b0 + unat c)))"
    using ns b(1) w by (simp add: rfc1071_def)
  moreover have "SerializePacket ih ns source dest message protocol ttl new = Inr (b @ message)"
  proof -
    have "ih_Marshal ih (?h 0) = Some b0" "ih_Marshal ih (?h (ComputeChecksum ns b0)) = Some b"
      using b0(2) b(2) by (simp_all add: c_def)
    then show ?thesis using t by (cases new) (simp_all add: SerializePacket_def new_header_def)
  qed
  ultimately show thesis using that b(1) parse by blast
qed

text \<open>An instance of the contracts: the header layout of RFC 791 and the checksum itself.\<close>

definition sample_iptcp :: iptcp_headers where
  "sample_iptcp = \<lparr>ih_Marshal = (\<lambda>h. Some ([0x45, word_of_int (ip_TOS h)] @ be16 (word_of_int (ip_TotalLen h))
       @ be16 (word_of_int (ip_ID h)) @ be16 0 @ [word_of_int (ip_TTL h), word_of_int (ip_Protocol h)]
       @ be16 (word_of_int (ip_Checksum h)) @ AsSlice (ip_Src h) @ AsSlice (ip_Dst h))),
     ih_ParseHeader = (\<lambda>b. if length b < 20 then None else Some
       \<lparr>ip_Version = 4, ip_Len = 20, ip_TOS = uint (b ! 1), ip_TotalLen = uint (word16 (b ! 2) (b ! 3)),
        ip_ID = uint (word16 (b ! 4) (b ! 5)), ip_Flags = 0, ip_FragOff = 0, ip_TTL = uint (b ! 8),
        ip_Protocol = uint (b ! 9), ip_Checksum = uint (word16 (b ! 10) (b ! 11)),
        ip_Src = IPv4 (word32 (b ! 12) (b ! 13) (b ! 14) (b ! 15)),
        ip_Dst = IPv4 (word32 (b ! 16) (b ! 17) (b ! 18) (b ! 19)), ip_Options = []\<rparr>)\<rparr>"

definition sample_ns :: netstack where
  "sample_ns = sample_netstack\<lparr>ns_Checksum := (\<lambda>b init. of_nat (ones_sum (unat init + words16 b)))\<rparr>"

lemma sample_rfc1071: "rfc1071 sample_ns"
  by (simp add: rfc1071_def sample_ns_def)

lemma uint_word_of_int_small:
  "0 \<le> i \<Longrightarrow> i < 256 \<Longrightarrow> uint (word_of_int i :: u8) = i"
  "0 \<le> i \<Longrightarrow> i < 65536 \<Longrightarrow> uint (word_of_int i :: u16) = i"
  by (simp_all add: uint_word_of_int_eq take_bit_int_eq_self)

lemma word16_0 [simp]: "word16 0 0 = 0"
  by code_simp

lemma uint_u8_less: "uint (b :: u8) < 256"
  using uint_lt2p [of b] by simp

lemma sample_iptcp_ok: "iptcp_ok sample_iptcp"
  unfolding iptcp_ok_def
proof (intro conjI allI impI)
  fix h assume h: "header_plain h"
  then obtain v w where a: "ip_Src h = IPv4 v" "ip_Dst h = IPv4 w"
    unfolding header_plain_def by (metis netip_addr.exhaust)
  let ?b = "[0x45, word_of_int (ip_TOS h)] @ be16 (word_of_int (ip_TotalLen h))
       @ be16 (word_of_int (ip_ID h)) @ be16 0 @ [word_of_int (ip_TTL h), word_of_int (ip_Protocol h)]
       @ be16 (word_of_int (ip_Checksum h)) @ be32 v @ be32 w"
  have "ih_ParseHeader sample_iptcp (?b @ m) = Some h" for m
    using h a by (cases h) (simp add: header_plain_def sample_iptcp_def be16_def be32_def uint_word_of_int_small)
  moreover have "ih_Marshal sample_iptcp (h\<lparr>ip_Checksum := uint (c :: u16)\<rparr>) = Some (blit 10 (be16 c) ?b)" for c
    using a by (simp add: sample_iptcp_def be16_def be32_def blit_def)
  moreover have "ih_Marshal sample_iptcp h = Some ?b" using a by (simp add: sample_iptcp_def)
  moreover have "length ?b = 20" by simp
  ultimately show "\<exists>b. length b = 20 \<and> ih_Marshal sample_iptcp h = Some b
        \<and> (\<forall>m. ih_ParseHeader sample_iptcp (b @ m) = Some h)
        \<and> (\<forall>c. ih_Marshal sample_iptcp (h\<lparr>ip_Checksum := uint (c :: u16)\<rparr>) = Some (blit 10 (be16 c) b))"
    by blast
qed (auto simp: sample_iptcp_def uint_u8_less uint_u16_less split: if_splits)

text \<open>What the receiver makes of a packet, even of one whose end is cut off: the lengths are not compared.\<close>

lemma wire_prefix_accepted:
  assumes "iptcp_ok ih" and "rfc1071 ns" and "sendable source dest message protocol t"
    and "t = (if new then TTLNew else ttl)" and "0 < t"
    and "SerializePacket ih ns source dest message protocol ttl new = Inr wire"
    and "ih_ParseHeader ih wire = Some h" and "ip_Checksum h \<noteq> 0"
  shows "DeserializeAndValidatePacket ih ns (take (20 + k) wire) = Inr (take k message, Some h, True)
    \<and> (\<exists>c. h = new_header source dest message protocol t c) \<and> length wire = 20 + length message"
proof -
  obtain b c s where w: "SerializePacket ih ns source dest message protocol ttl new = Inr (b @ message)"
    "length b = 20" "\<And>m. ih_ParseHeader ih (b @ m) = Some (new_header source dest message protocol t c)"
    "ns_Checksum ns b c = of_nat (ones_sum (unat c + (s + unat c)))" "unat c = 65535 - ones_sum s"
    by (rule SerializePacket_wire [OF assms(1-4)]) blast
  have wire: "wire = b @ message" using w(1) assms(6) by simp
  then have h: "h = new_header source dest message protocol t c" using w(3) assms(7) by simp
  have "c \<noteq> 0" using assms(8) h by (auto simp: new_header_def)
  then have "0 < unat c" by (simp add: unat_gt_0)
  then have "ns_Checksum ns b c = c" using w(4) ones_sum_complement [OF w(5)] by simp
  then have "DeserializeAndValidatePacket ih ns (b @ take k message) = Inr (take k message, Some h, True)"
    using h w(2,3) assms(5) by (simp add: DeserializeAndValidatePacket_def ValidateChecksum_def new_header_def)
  then show ?thesis using h wire w(2) by auto
qed

lemma wire_accepted:
  assumes "iptcp_ok ih" and "rfc1071 ns" and "sendable source dest message protocol t"
    and "t = (if new then TTLNew else ttl)" and "0 < t"
    and "SerializePacket ih ns source dest message protocol ttl new = Inr wire"
    and "ih_ParseHeader ih wire = Some h" and "ip_Checksum h \<noteq> 0"
  shows "DeserializeAndValidatePacket ih ns wire = Inr (message, Some h, True)
    \<and> (\<exists>c. h = new_header source dest message protocol t c)"
proof -
  note w = wire_prefix_accepted [OF assms, of "length message"]
  then have t: "take (20 + length message) wire = wire" by simp
  show ?thesis using w unfolding t by simp
qed

lemmas sample_wire_defs = SerializePacket_def sample_iptcp_def sample_ns_def ComputeChecksum_def be16_def
  be32_def ipv4_of_def word16_def word32_def ones_sum_def push_bit_eq_mult drop_bit_eq_div



text \<open>
  A valid packet can crash its receiver: when the header checksum of a packet that the stack
  itself serialised comes out as zero, validation rejects it (it recomputes 0xffff) but returns the
  nil error of the parse, and the IP layer dereferences the nil header.
\<close>

theorem zero_checksum_panics:
  assumes "iptcp_ok ih" and "rfc1071 ns" and "sendable source dest message protocol t"
    and "t = (if new then TTLNew else ttl)"
    and "SerializePacket ih ns source dest message protocol ttl new = Inr wire"
    and "ih_ParseHeader ih wire = Some h" and "ip_Checksum h = 0"
  shows "RunIPLayer_step ih ns ifOrd ord fuel wire st = Inl NilDereference"
proof -
  obtain b c s where w: "SerializePacket ih ns source dest message protocol ttl new = Inr (b @ message)"
    "length b = 20" "\<And>m. ih_ParseHeader ih (b @ m) = Some (new_header source dest message protocol t c)"
    "ns_Checksum ns b c = of_nat (ones_sum (unat c + (s + unat c)))" "unat c = 65535 - ones_sum s"
    by (rule SerializePacket_wire [OF assms(1-4)]) blast
  have wire: "wire = b @ message" using w(1) assms(5) by simp
  then have h: "h = new_header source dest message protocol t c" using w(3) assms(6) by simp
  then have "uint c = 0" using assms(7) by (simp add: new_header_def)
  then have c: "c = 0" by (simp add: uint_0_iff)
  then have "ones_sum s = 65535" using w(5) ones_sum_le [of s] by simp
  then have "ns_Checksum ns b 0 = 65535" using w(4) c by simp
  then show ?thesis using wire h w(2,3) c
    by (simp add: RunIPLayer_step_def DeserializeAndValidatePacket_def ValidateChecksum_def new_header_def)
qed

theorem zero_checksum_panics_witness:
  "\<exists>wire. SerializePacket sample_iptcp sample_ns (ipv4_of 10 0 0 1) (ipv4_of 10 0 134 234) [] 0 0 True = Inr wire
    \<and> (\<forall>ifOrd ord fuel st. RunIPLayer_step sample_iptcp sample_ns ifOrd ord fuel wire st = Inl NilDereference)"
proof -
  let ?s = "SerializePacket sample_iptcp sample_ns (ipv4_of 10 0 0 1) (ipv4_of 10 0 134 234) [] 0 0 True"
  have snd: "sendable (ipv4_of 10 0 0 1) (ipv4_of 10 0 134 234) [] 0 32" by (simp add: sendable_def ipv4_of_def)
  have "case ?s of Inl _ \<Rightarrow> False | Inr wire \<Rightarrow> (case ih_ParseHeader sample_iptcp wire of None \<Rightarrow> False
      | Some h \<Rightarrow> ip_Checksum h = 0)" by (simp add: sample_wire_defs)
  then obtain wire h where w: "?s = Inr wire" "ih_ParseHeader sample_iptcp wire = Some h" "ip_Checksum h = 0"
    by (auto split: option.splits sum.splits)
  have "RunIPLayer_step sample_iptcp sample_ns ifOrd ord fuel wire st = Inl NilDereference" for ifOrd ord fuel st
    by (rule zero_checksum_panics [OF sample_iptcp_ok sample_rfc1071 snd _ w]) simp
  then show ?thesis using w(1) by blast
qed

section \<open>Bad packets\<close>

lemma if_either: "P \<or> Q \<Longrightarrow> (if P then x else if Q then x else y) = x"
  by auto

text \<open>
  Any packet that parses but has a wrong header checksum, or a TTL that is not positive, ends
  the process: both error branches return a nil error, so the nil header is dereferenced.
\<close>

theorem invalid_packet_panics:
  assumes "ih_ParseHeader ih msg = Some h" and "0 \<le> ip_Len h" and "ip_Len h \<le> int (length msg)"
    and "ValidateChecksum ns (take (nat (ip_Len h)) msg) (word_of_int (ip_Checksum h)) \<noteq> word_of_int (ip_Checksum h)
      \<or> ip_TTL h \<le> 0"
  shows "RunIPLayer_step ih ns ifOrd ord fuel msg st = Inl NilDereference"
proof -
  have "\<not> (ip_Len h < 0 \<or> int (length msg) < ip_Len h)" using assms(2,3) by simp
  then have "DeserializeAndValidatePacket ih ns msg = Inr ([], None, True)"
    unfolding DeserializeAndValidatePacket_def assms(1) option.case Let_def
    by (simp only: if_False if_either [OF assms(4)])
  then show ?thesis by (simp add: RunIPLayer_step_def)
qed

theorem invalid_packet_panics_witness:
  "\<forall>ifOrd ord fuel st. RunIPLayer_step sample_iptcp sample_ns ifOrd ord fuel (0x45 # replicate 19 0) st
    = Inl NilDereference"
proof (intro allI, rule invalid_packet_panics)
  let ?h = "new_header (IPv4 0) (IPv4 0) [] 0 0 0\<lparr>ip_TotalLen := 0\<rparr>"
  show "ih_ParseHeader sample_iptcp (0x45 # replicate 19 0) = Some ?h" by code_simp
qed (simp_all add: new_header_def)

section \<open>Forwarding\<close>

lemma forwardingE:
  assumes "ipForwarding ih ns ifOrd ord fuel hdr message st = Inr (Forwarded, st')"
  obtains entry nextDest i n b where
    "\<not> (\<exists>(n, i) \<in> set (range_map (is_Interfaces st) ifOrd). if_IP i = ip_Dst hdr)"
    and "\<not> SRCFilter hdr schlaraffian_isps y_com" and "\<not> SRCFilter hdr schlaraffian_isps xt_streaming"
    and "1 < ip_TTL hdr"
    and "LongestPrefixMatch ord fuel (is_ForwardingTable st) (ip_Dst hdr) = Some (LpmFound entry nextDest)"
    and "fe_Cost entry < Infinity" and "is_Interfaces st (fe_InterfaceName entry) = Some i" and "if_Up i"
    and "if_Neighbours i nextDest = Some n"
    and "SerializePacket ih ns (ip_Src hdr) (ip_Dst hdr) message (ip_Protocol hdr) (ip_TTL hdr - 1) False = Inr b"
    and "st' = st\<lparr>is_sent := is_sent st @ [(if_Name i, nb_UDPAddr n, b)]\<rparr>"
proof -
  let ?h = "hdr\<lparr>ip_TTL := ip_TTL hdr - 1\<rparr>"
  have mine: "\<not> (\<exists>(n, i) \<in> set (range_map (is_Interfaces st) ifOrd). if_IP i = ip_Dst hdr)"
    and filter: "\<not> SRCFilter hdr schlaraffian_isps y_com" "\<not> SRCFilter hdr schlaraffian_isps xt_streaming"
    and ttl: "1 < ip_TTL hdr"
    and fwd: "(case LongestPrefixMatch ord fuel (is_ForwardingTable st) (ip_Dst hdr) of
          None \<Rightarrow> Inr (Diverges, st) | Some LpmNotFound \<Rightarrow> Inr (Dropped, st)
        | Some (LpmFound entry nextDest) \<Rightarrow> forward_packet ih ns ?h message entry nextDest st)
      = Inr (Forwarded, st')"
    using assms unfolding ipForwarding_def Let_def
    by (auto split: if_split_asm option.split_asm)
  obtain entry nextDest where lpm: "LongestPrefixMatch ord fuel (is_ForwardingTable st) (ip_Dst hdr) = Some (LpmFound entry nextDest)"
    and fp: "forward_packet ih ns ?h message entry nextDest st = Inr (Forwarded, st')"
    using fwd by (auto split: option.split_asm lpm_result.split_asm)
  have "\<not> Infinity \<le> fe_Cost entry" using fp by (auto simp: forward_packet_def)
  then have cost: "fe_Cost entry < Infinity" by simp
  from fp obtain i n b where i: "is_Interfaces st (fe_InterfaceName entry) = Some i" "if_Up i"
    "if_Neighbours i nextDest = Some n"
    "SerializePacket ih ns (ip_Src hdr) (ip_Dst hdr) message (ip_Protocol hdr) (ip_TTL hdr - 1) False = Inr b"
    "st' = LinkLayerSend i (nb_UDPAddr n) b st"
    by (auto simp: forward_packet_def go_bind_eq_Inr split: if_split_asm source_type.split_asm option.split_asm)
  have "st' = st\<lparr>is_sent := is_sent st @ [(if_Name i, nb_UDPAddr n, b)]\<rparr>" using i(2,5) by (simp add: LinkLayerSend_def)
  with mine filter ttl lpm cost i(1-4) show thesis by (rule that)
qed

text \<open>
  C22. What is forwarded. A packet leaves through the interface of its route only if it is not for
  this node, is not filtered and has a TTL above one; the datagram carries its addresses, protocol
  and message unchanged, its TTL is one less, and nothing else in the stack changes.
\<close>

theorem forwarded_packet:
  assumes "ipForwarding ih ns ifOrd ord fuel hdr message st = Inr (Forwarded, st')"
    and "set ifOrd = dom (is_Interfaces st)" and "orders ord (is_ForwardingTable st)"
  shows "(\<forall>n i. is_Interfaces st n = Some i \<longrightarrow> if_IP i \<noteq> ip_Dst hdr)
    \<and> \<not> SRCFilter hdr schlaraffian_isps y_com \<and> \<not> SRCFilter hdr schlaraffian_isps xt_streaming
    \<and> 1 < ip_TTL hdr
    \<and> (\<exists>entry nextDest i n b. routes (is_ForwardingTable st) (ip_Dst hdr) (LpmFound entry nextDest)
        \<and> fe_Cost entry < Infinity \<and> is_Interfaces st (fe_InterfaceName entry) = Some i \<and> if_Up i
        \<and> if_Neighbours i nextDest = Some n
        \<and> SerializePacket ih ns (ip_Src hdr) (ip_Dst hdr) message (ip_Protocol hdr) (ip_TTL hdr - 1) False = Inr b
        \<and> st' = st\<lparr>is_sent := is_sent st @ [(if_Name i, nb_UDPAddr n, b)]\<rparr>)"
  using assms(1)
proof (rule forwardingE)
  fix entry nextDest i n b
  assume "\<not> (\<exists>(n, i) \<in> set (range_map (is_Interfaces st) ifOrd). if_IP i = ip_Dst hdr)"
  then have "\<forall>n i. is_Interfaces st n = Some i \<longrightarrow> if_IP i \<noteq> ip_Dst hdr"
    using assms(2) by (auto simp: set_range_map)
  moreover assume "LongestPrefixMatch ord fuel (is_ForwardingTable st) (ip_Dst hdr) = Some (LpmFound entry nextDest)"
  then have "routes (is_ForwardingTable st) (ip_Dst hdr) (LpmFound entry nextDest)" by (rule lpm_sound [OF assms(3)])
  moreover assume "\<not> SRCFilter hdr schlaraffian_isps y_com" "\<not> SRCFilter hdr schlaraffian_isps xt_streaming"
    "1 < ip_TTL hdr" "fe_Cost entry < Infinity" "is_Interfaces st (fe_InterfaceName entry) = Some i" "if_Up i"
    "if_Neighbours i nextDest = Some n"
    "SerializePacket ih ns (ip_Src hdr) (ip_Dst hdr) message (ip_Protocol hdr) (ip_TTL hdr - 1) False = Inr b"
    "st' = st\<lparr>is_sent := is_sent st @ [(if_Name i, nb_UDPAddr n, b)]\<rparr>"
  ultimately show ?thesis by blast
qed

text \<open>A router between two networks, and a packet for a neighbour on one of them.\<close>

definition sample_iface :: iface where
  "sample_iface = \<lparr>if_Name = ''if0'', if_Prefix = sample_net, if_IP = ipv4_of 10 0 0 1,
     if_Neighbours = [ipv4_of 10 0 0 2 \<mapsto> \<lparr>nb_IP = ipv4_of 10 0 0 2, nb_UDPAddr = (ipv4_of 127 0 0 1, 5000)\<rparr>],
     if_Up = True\<rparr>"

definition sample_router :: ip_stack where
  "sample_router = \<lparr>is_Interfaces = [''if0'' \<mapsto> sample_iface], is_ForwardingTable = [sample_net \<mapsto> sample_local],
     is_RipInfo = \<lparr>ri_Neighbors = [], ri_RipTimeout = 0, ri_RipUpdateRate = 0\<rparr>, is_recvHandlers = Map.empty,
     is_sent = []\<rparr>"

lemma sample_forwards:
  assumes "t < 256" and "1 < t"
  obtains st' b where "ipForwarding sample_iptcp sample_ns [''if0''] (\<lambda>_. [sample_net]) 1
      (new_header (ipv4_of 10 1 0 9) (ipv4_of 10 0 0 2) [7] 0 t c) [7] sample_router = Inr (Forwarded, st')"
    and "is_sent st' = [(''if0'', (ipv4_of 127 0 0 1, 5000), b)]"
    and "SerializePacket sample_iptcp sample_ns (ipv4_of 10 1 0 9) (ipv4_of 10 0 0 2) [7] 0 (t - 1) False = Inr b"
proof -
  let ?h = "new_header (ipv4_of 10 1 0 9) (ipv4_of 10 0 0 2) [7] 0 t c"
  have filter: "\<not> SRCFilter ?h schlaraffian_isps y_com" "\<not> SRCFilter ?h schlaraffian_isps xt_streaming"
    by code_simp+
  have lpm: "LongestPrefixMatch (\<lambda>_. [sample_net]) 1 [sample_net \<mapsto> sample_local] (ipv4_of 10 0 0 2)
      = Some (LpmFound sample_local (ipv4_of 10 0 0 2))" by code_simp
  have ne: "ipv4_of 10 0 0 1 \<noteq> ipv4_of 10 0 0 2" by code_simp
  have snd: "sendable (ipv4_of 10 1 0 9) (ipv4_of 10 0 0 2) [7] 0 (t - 1)"
    using assms by (simp add: sendable_def ipv4_of_def)
  obtain b where b: "SerializePacket sample_iptcp sample_ns (ipv4_of 10 1 0 9) (ipv4_of 10 0 0 2) [7] 0 (t - 1) False = Inr b"
    by (rule SerializePacket_wire [OF sample_iptcp_ok sample_rfc1071 snd, of False "t - 1"]) auto
  show thesis
  proof (rule that [OF _ _ b])
    show "ipForwarding sample_iptcp sample_ns [''if0''] (\<lambda>_. [sample_net]) 1 ?h [7] sample_router
        = Inr (Forwarded, sample_router\<lparr>is_sent := [(''if0'', (ipv4_of 127 0 0 1, 5000), b)]\<rparr>)"
      using filter lpm ne b assms
      by (simp add: ipForwarding_def sample_router_def range_map_def sample_iface_def forward_packet_def
        sample_local_def LinkLayerSend_def Let_def new_header_def del: LongestPrefixMatch.simps)
  qed simp
qed

theorem forwarded_packet_witness:
  "\<exists>st'. ipForwarding sample_iptcp sample_ns [''if0''] (\<lambda>_. [sample_net]) 1
      (new_header (ipv4_of 10 1 0 9) (ipv4_of 10 0 0 2) [7] 0 2 0) [7] sample_router = Inr (Forwarded, st')
    \<and> (\<exists>entry nextDest. routes (is_ForwardingTable sample_router) (ipv4_of 10 0 0 2) (LpmFound entry nextDest))"
proof -
  obtain st' b where f: "ipForwarding sample_iptcp sample_ns [''if0''] (\<lambda>_. [sample_net]) 1
      (new_header (ipv4_of 10 1 0 9) (ipv4_of 10 0 0 2) [7] 0 2 0) [7] sample_router = Inr (Forwarded, st')"
    by (rule sample_forwards [of 2 0]) auto
  have "set [''if0''] = dom (is_Interfaces sample_router)"
    "orders (\<lambda>_. [sample_net]) (is_ForwardingTable sample_router)"
    by (simp_all add: sample_router_def orders_def)
  from forwarded_packet [OF f this] f show ?thesis by (auto simp: new_header_def)
qed

section \<open>Hops\<close>

text \<open>
  A datagram relayed through a list of nodes: each one forwards the packet, and the datagram it sends
  reaches the next.
\<close>

fun relay :: "iptcp_headers \<Rightarrow> netstack \<Rightarrow> nat \<Rightarrow> bytes \<Rightarrow> (string list \<times> (nat \<Rightarrow> netip_prefix list) \<times> ip_stack) list \<Rightarrow> bool" where
  "relay ih ns fuel b [] = True"
| "relay ih ns fuel b ((ifOrd, ord, st) # rs) = (\<exists>st' n u b'.
     RunIPLayer_step ih ns ifOrd ord fuel b st = Inr (Forwarded, st')
     \<and> is_sent st' = is_sent st @ [(n, u, b')] \<and> relay ih ns fuel b' rs)"

lemma DeserializeE:
  assumes "RunIPLayer_step ih ns ifOrd ord fuel b st = Inr (Forwarded, st')"
  obtains h m where "ih_ParseHeader ih b = Some h" and "length m = length b - nat (ip_Len h)"
    and "ip_Len h \<le> int (length b)"
    and "ipForwarding ih ns ifOrd ord fuel h m st = Inr (Forwarded, st')"
proof -
  obtain m h where d: "DeserializeAndValidatePacket ih ns b = Inr (m, Some h, True)"
    and f: "ipForwarding ih ns ifOrd ord fuel h m st = Inr (Forwarded, st')"
    using assms by (auto simp: RunIPLayer_step_def go_bind_eq_Inr split: if_split_asm)
  from d have "ih_ParseHeader ih b = Some h" "length m = length b - nat (ip_Len h)" "ip_Len h \<le> int (length b)"
    unfolding DeserializeAndValidatePacket_def Let_def by (auto split: option.split_asm if_split_asm)
  with f show thesis by (intro that)
qed

text \<open>
  Packets do not circulate forever. Under the contracts of the header package and the checksum,
  a packet that is forwarded along any path, loops included, is forwarded fewer times than its TTL;
  a new packet, at most 31 times.
\<close>

theorem packet_dies_out:
  assumes "iptcp_ok ih" and "rfc1071 ns" and "ih_ParseHeader ih b = Some h" and "length b < 65536"
    and "relay ih ns fuel b rs" and "rs \<noteq> []"
  shows "int (length rs) < ip_TTL h"
  using assms(3-6)
proof (induction rs arbitrary: b h)
  case (Cons r rs)
  obtain ifOrd ord st where r: "r = (ifOrd, ord, st)" by (cases r)
  then obtain st' n u b' where s: "RunIPLayer_step ih ns ifOrd ord fuel b st = Inr (Forwarded, st')"
    "is_sent st' = is_sent st @ [(n, u, b')]" "relay ih ns fuel b' rs" using Cons.prems(3) by auto
  obtain h' m where d: "ih_ParseHeader ih b = Some h'" "length m = length b - nat (ip_Len h')"
    "ip_Len h' \<le> int (length b)" "ipForwarding ih ns ifOrd ord fuel h' m st = Inr (Forwarded, st')" by (rule DeserializeE [OF s(1)])
  have h: "h' = h" using d(1) Cons.prems(1) by simp
  have len: "length m + 20 \<le> length b"
    using assms(1) d(1-3) unfolding iptcp_ok_def by fastforce
  from d(4) have f': "1 < ip_TTL h
    \<and> SerializePacket ih ns (ip_Src h) (ip_Dst h) m (ip_Protocol h) (ip_TTL h - 1) False = Inr b'"
  proof (rule forwardingE)
    fix i n' b2
    assume "1 < ip_TTL h'" "SerializePacket ih ns (ip_Src h') (ip_Dst h') m (ip_Protocol h') (ip_TTL h' - 1) False = Inr b2"
      "st' = st\<lparr>is_sent := is_sent st @ [(if_Name i, nb_UDPAddr n', b2)]\<rparr>"
    then show ?thesis using s(2) h by simp
  qed
  then have f: "1 < ip_TTL h"
    "SerializePacket ih ns (ip_Src h) (ip_Dst h) m (ip_Protocol h) (ip_TTL h - 1) False = Inr b'" by blast+
  have "sendable (ip_Src h) (ip_Dst h) m (ip_Protocol h) (ip_TTL h - 1)"
    using assms(1) Cons.prems(1,2) len f(1) unfolding iptcp_ok_def sendable_def by fastforce
  then obtain bb c where "SerializePacket ih ns (ip_Src h) (ip_Dst h) m (ip_Protocol h) (ip_TTL h - 1) False = Inr (bb @ m)"
    "length bb = 20" "\<And>x. ih_ParseHeader ih (bb @ x)
      = Some (new_header (ip_Src h) (ip_Dst h) m (ip_Protocol h) (ip_TTL h - 1) c)"
    by (rule SerializePacket_wire [OF assms(1,2), of "ip_Src h" "ip_Dst h" m "ip_Protocol h" "ip_TTL h - 1" False
        "ip_TTL h - 1"]) (simp, rule that)
  with f(2) have b': "length b' = length m + 20"
    "ih_ParseHeader ih b' = Some (new_header (ip_Src h) (ip_Dst h) m (ip_Protocol h) (ip_TTL h - 1) c)" by auto
  show ?case
  proof (cases "rs = []")
    case True
    then show ?thesis using f(1) by simp
  next
    case False
    have "length b' < 65536" using b'(1) len Cons.prems(2) by simp
    from Cons.IH [OF b'(2) this s(3) False] show ?thesis by (simp add: new_header_def)
  qed
qed simp

theorem packet_dies_out_witness:
  "\<exists>wire h. ih_ParseHeader sample_iptcp wire = Some h \<and> ip_TTL h = 32
    \<and> relay sample_iptcp sample_ns 1 wire [([''if0''], \<lambda>_. [sample_net], sample_router)] \<and> 1 < ip_TTL h"
proof -
  let ?s = "SerializePacket sample_iptcp sample_ns (ipv4_of 10 1 0 9) (ipv4_of 10 0 0 2) [7] 0 0 True"
  have snd: "sendable (ipv4_of 10 1 0 9) (ipv4_of 10 0 0 2) [7] 0 32" by (simp add: sendable_def ipv4_of_def)
  have "case ?s of Inl _ \<Rightarrow> False | Inr wire \<Rightarrow> length wire < 65536 \<and> (case ih_ParseHeader sample_iptcp wire of
      None \<Rightarrow> False | Some h \<Rightarrow> ip_Checksum h \<noteq> 0)" by (simp add: sample_wire_defs)
  then obtain wire h where w: "?s = Inr wire" "ih_ParseHeader sample_iptcp wire = Some h" "ip_Checksum h \<noteq> 0"
    "length wire < 65536" by (auto split: option.splits sum.splits)
  from wire_accepted [OF sample_iptcp_ok sample_rfc1071 snd _ _ w(1-3)] obtain c where
    d: "DeserializeAndValidatePacket sample_iptcp sample_ns wire = Inr ([7], Some h, True)"
    "h = new_header (ipv4_of 10 1 0 9) (ipv4_of 10 0 0 2) [7] 0 32 c" by auto
  obtain st' b where f: "ipForwarding sample_iptcp sample_ns [''if0''] (\<lambda>_. [sample_net]) 1 h [7] sample_router
      = Inr (Forwarded, st')" "is_sent st' = [(''if0'', (ipv4_of 127 0 0 1, 5000), b)]"
    unfolding d(2) by (rule sample_forwards [of 32 c]) auto
  have "is_sent sample_router = []" by (simp add: sample_router_def)
  then have r: "relay sample_iptcp sample_ns 1 wire [([''if0''], \<lambda>_. [sample_net], sample_router)]"
    using d(1) f by (simp add: RunIPLayer_step_def)
  have t: "ip_TTL h = 32" using d(2) by (simp add: new_header_def)
  have "1 < ip_TTL h" using packet_dies_out [OF sample_iptcp_ok sample_rfc1071 w(2,4) r] by simp
  with w(2) t r show ?thesis by blast
qed

end
