(* ===== verification/Rip.thy ===== *)
theory Rip
  imports IpPackets
begin

text \<open>
  RIP as \<open>src/pkg/ipStack/rip.go\<close> implements it: messages and their wire format, the update of the
  forwarding table from a response, periodic updates with poisoned reverse, triggered updates and
  timeouts. The clock reading of a handler is its argument \<open>now\<close>.
\<close>

section \<open>Messages\<close>

abbreviation (input) RIPRequest :: u16 where "RIPRequest \<equiv> 1"
abbreviation (input) RIPResponse :: u16 where "RIPResponse \<equiv> 2"

record rip_entry =
  rp_Cost :: u32
  rp_Prefix :: netip_prefix

record rip_message =
  rm_Command :: u16
  rm_NumEntries :: u16
  rm_Entries :: "rip_entry list"

text \<open>
  \<open>net.CIDRMask(ones, 32)\<close> as a 32-bit word, nil for a length out of range, and \<open>IPMask.Size\<close>,
  which gives 0 for a mask that is not a prefix mask.
\<close>

definition CIDRMask :: "int \<Rightarrow> u32 option" where
  "CIDRMask ones = (if 0 \<le> ones \<and> ones \<le> 32 then Some (push_bit (32 - nat ones) (-1)) else None)"

definition mask_Size :: "u32 \<Rightarrow> int" where
  "mask_Size m = (case find (\<lambda>n. push_bit (32 - n) (-1) = m) [0..<33] of None \<Rightarrow> 0 | Some n \<Rightarrow> int n)"

text \<open>\<open>As4\<close> panics on the invalid address; \<open>Uint32\<close> of a nil mask is an index out of range.\<close>

definition marshal_entry :: "rip_entry \<Rightarrow> go_panic + bytes" where
  "marshal_entry entry = (case pfx_Addr (rp_Prefix entry) of
     NoAddr \<Rightarrow> Inl LibraryPanic
   | IPv4 addressUint \<Rightarrow> (case CIDRMask (pfx_Bits (rp_Prefix entry)) of
       None \<Rightarrow> Inl IndexOutOfRange
     | Some maskUint \<Rightarrow> Inr (be32 (rp_Cost entry) @ be32 addressUint @ be32 maskUint)))"

fun marshal_entries :: "rip_entry list \<Rightarrow> go_panic + bytes" where
  "marshal_entries [] = Inr []"
| "marshal_entries (e # es) = go_bind (marshal_entry e) (\<lambda>b. go_bind (marshal_entries es) (\<lambda>bs. Inr (b @ bs)))"

definition Marshal :: "rip_message \<Rightarrow> go_panic + bytes" where
  "Marshal m =
     (let numEntries = (of_nat (length (rm_Entries m)) :: u16) in
      go_bind (marshal_entries (rm_Entries m)) (\<lambda>bs. Inr (be16 (rm_Command m) @ be16 numEntries @ bs)))"

text \<open>\<open>binary.Read\<close> of an integer from a reader: an error when too few bytes are left.\<close>

fun read16 :: "bytes \<Rightarrow> (u16 \<times> bytes) option" where
  "read16 (a # b # r) = Some (word16 a b, r)"
| "read16 _ = None"

fun read32 :: "bytes \<Rightarrow> (u32 \<times> bytes) option" where
  "read32 (a # b # c # d # r) = Some (word32 a b c d, r)"
| "read32 _ = None"

definition read_entry :: "bytes \<Rightarrow> (rip_entry \<times> bytes) option" where
  "read_entry buf =
     Option.bind (read32 buf) (\<lambda>(cost, buf).
     Option.bind (read32 buf) (\<lambda>(addrUint, buf).
     Option.bind (read32 buf) (\<lambda>(maskUint, buf).
       Some (\<lparr>rp_Cost = cost, rp_Prefix = PrefixFrom (IPv4 addrUint) (mask_Size maskUint)\<rparr>, buf))))"

fun read_entries :: "nat \<Rightarrow> bytes \<Rightarrow> rip_entry list option" where
  "read_entries 0 buf = Some []"
| "read_entries (Suc n) buf =
     Option.bind (read_entry buf) (\<lambda>(e, buf). map_option ((#) e) (read_entries n buf))"

text \<open>The message read never has its \<open>NumEntries\<close> field set.\<close>

definition DeserializeRipMessage :: "bytes \<Rightarrow> rip_message option" where
  "DeserializeRipMessage data =
     Option.bind (read16 data) (\<lambda>(command, buf).
       if command = RIPRequest then Some \<lparr>rm_Command = command, rm_NumEntries = 0, rm_Entries = []\<rparr>
       else
         Option.bind (read16 buf) (\<lambda>(numEntries, buf).
         Option.bind (read_entries (unat numEntries) buf) (\<lambda>entries.
           Some \<lparr>rm_Command = command, rm_NumEntries = 0, rm_Entries = entries\<rparr>)))"

section \<open>Sending\<close>

definition SendRipMessage :: "iptcp_headers \<Rightarrow> netstack \<Rightarrow> rip_message \<Rightarrow> rip_neighbour \<Rightarrow> ip_stack \<Rightarrow> go_panic + ip_stack" where
  "SendRipMessage ih ns message neighbour st =
     go_bind (Marshal message) (\<lambda>bytes.
     go_bind (deref (is_Interfaces st (rn_InterfaceName neighbour))) (\<lambda>sourceInterface.
     let sourceIP = if_IP sourceInterface; destIP = rn_RouterIP neighbour in
     go_bind (deref (if_Neighbours sourceInterface destIP)) (\<lambda>n.
     go_bind (SerializePacket ih ns sourceIP destIP bytes ProtocolTypeRIP TTLNew True) (\<lambda>packet.
       Inr (LinkLayerSend sourceInterface (nb_UDPAddr n) packet st)))))"

text \<open>A loop over the neighbours that sends each its message.\<close>

fun send_all :: "iptcp_headers \<Rightarrow> netstack \<Rightarrow> (rip_neighbour \<Rightarrow> rip_message) \<Rightarrow> rip_neighbour list \<Rightarrow> ip_stack \<Rightarrow> go_panic + ip_stack" where
  "send_all ih ns msg [] st = Inr st"
| "send_all ih ns msg (n # neighbours) st =
     go_bind (SendRipMessage ih ns (msg n) n st) (send_all ih ns msg neighbours)"

definition sendRIPRequest :: "iptcp_headers \<Rightarrow> netstack \<Rightarrow> ip_stack \<Rightarrow> go_panic + ip_stack" where
  "sendRIPRequest ih ns st =
     send_all ih ns (\<lambda>_. \<lparr>rm_Command = RIPRequest, rm_NumEntries = 0, rm_Entries = []\<rparr>)
       (ri_Neighbors (is_RipInfo st)) st"

text \<open>Split horizon with poisoned reverse: a route through the neighbour is advertised as infinite.\<close>

definition advertised :: "rip_neighbour \<Rightarrow> fwd_entry \<Rightarrow> rip_entry" where
  "advertised neighbour entry =
     \<lparr>rp_Cost = (if fe_Type entry = SourceTypeRIP \<and> fe_NextHop entry = rn_RouterIP neighbour
                 then Infinity else fe_Cost entry), rp_Prefix = fe_Prefix entry\<rparr>"

text \<open>\<open>ord n\<close> is the order in which the table is visited for the neighbour \<open>n\<close>.\<close>

definition periodic_message :: "(rip_neighbour \<Rightarrow> netip_prefix list) \<Rightarrow> fwd_table \<Rightarrow> rip_neighbour \<Rightarrow> rip_message" where
  "periodic_message ord tbl neighbour =
     (let routesToSend = map (\<lambda>(p, e). advertised neighbour e) (range_map tbl (ord neighbour)) in
      \<lparr>rm_Command = RIPResponse, rm_NumEntries = of_nat (length routesToSend), rm_Entries = routesToSend\<rparr>)"

definition sendPeriodicUpdate :: "iptcp_headers \<Rightarrow> netstack \<Rightarrow> (rip_neighbour \<Rightarrow> netip_prefix list) \<Rightarrow> ip_stack \<Rightarrow> go_panic + ip_stack" where
  "sendPeriodicUpdate ih ns ord st =
     send_all ih ns (periodic_message ord (is_ForwardingTable st)) (ri_Neighbors (is_RipInfo st)) st"

definition SendTriggeredUpdate :: "iptcp_headers \<Rightarrow> netstack \<Rightarrow> rip_entry list \<Rightarrow> ip_stack \<Rightarrow> go_panic + ip_stack" where
  "SendTriggeredUpdate ih ns entries st =
     (let message = \<lparr>rm_Command = RIPResponse, rm_NumEntries = of_nat (length entries), rm_Entries = entries\<rparr>
      in send_all ih ns (\<lambda>_. message) (ri_Neighbors (is_RipInfo st)) st)"

section \<open>Timeouts\<close>

text \<open>
  \<open>CheckForTimeouts\<close> marks every stale RIP route as infinite and starts a goroutine that sends the
  list of them; the list is the first result, empty when no goroutine is started.
\<close>

definition timed_out :: "int \<Rightarrow> int \<Rightarrow> fwd_entry \<Rightarrow> bool" where
  "timed_out now ripTimeout entry \<longleftrightarrow> fe_Type entry = SourceTypeRIP
     \<and> ripTimeout \<le> now - fe_LastUpdated entry \<and> \<not> Infinity \<le> fe_Cost entry"

definition CheckForTimeouts :: "int \<Rightarrow> netip_prefix list \<Rightarrow> ip_stack \<Rightarrow> rip_entry list \<times> ip_stack" where
  "CheckForTimeouts now ord st =
     (let tbl = is_ForwardingTable st;
          late = timed_out now (ri_RipTimeout (is_RipInfo st));
          timedOutRipEntries = map (\<lambda>(p, e). \<lparr>rp_Cost = 16, rp_Prefix = p\<rparr>)
            (filter (\<lambda>(p, e). late e) (range_map tbl ord))
      in (timedOutRipEntries,
          st\<lparr>is_ForwardingTable := (\<lambda>p. map_option (\<lambda>e. if late e then e\<lparr>fe_Cost := Infinity\<rparr> else e) (tbl p))\<rparr>))"

section \<open>Receiving\<close>

definition UpdateForwardingTable :: "int \<Rightarrow> rip_entry \<Rightarrow> netip_addr \<Rightarrow> string \<Rightarrow> u32 \<Rightarrow> fwd_table \<Rightarrow> fwd_table" where
  "UpdateForwardingTable now ripEntry src ifaceName ripEntryCost tbl =
     tbl(rp_Prefix ripEntry \<mapsto> \<lparr>fe_Prefix = rp_Prefix ripEntry, fe_NextHop = src, fe_InterfaceName = ifaceName,
       fe_Type = SourceTypeRIP, fe_Cost = ripEntryCost, fe_LastUpdated = now\<rparr>)"

definition rip_entry_cost :: "rip_entry \<Rightarrow> u32" where
  "rip_entry_cost ripEntry = (if rp_Cost ripEntry < Infinity then rp_Cost ripEntry + 1 else Infinity)"

text \<open>The body of the loop over the entries of a response from \<open>src\<close>.\<close>

definition rip_update :: "int \<Rightarrow> netip_addr \<Rightarrow> rip_entry \<Rightarrow> fwd_table \<times> rip_entry list \<Rightarrow> fwd_table \<times> rip_entry list" where
  "rip_update now src ripEntry = (\<lambda>(tbl, changedEntries).
     let ripEntryCost = rip_entry_cost ripEntry;
         update = (UpdateForwardingTable now ripEntry src '''' ripEntryCost tbl, changedEntries @ [ripEntry])
     in case tbl (rp_Prefix ripEntry) of
          None \<Rightarrow> update
        | Some currFwdEntry \<Rightarrow>
            if fe_Type currFwdEntry \<noteq> SourceTypeRIP then (tbl, changedEntries)
            else if ripEntryCost < fe_Cost currFwdEntry then update
            else if fe_Cost currFwdEntry < ripEntryCost \<and> src = fe_NextHop currFwdEntry then update
            else if ripEntryCost = fe_Cost currFwdEntry \<and> src = fe_NextHop currFwdEntry then
              (tbl(rp_Prefix ripEntry \<mapsto> currFwdEntry\<lparr>fe_LastUpdated := now\<rparr>), changedEntries)
            else (tbl, changedEntries))"

definition HandleRipMessage :: "iptcp_headers \<Rightarrow> netstack \<Rightarrow> int \<Rightarrow> (rip_neighbour \<Rightarrow> netip_prefix list) \<Rightarrow> ipv4_header \<Rightarrow> bytes \<Rightarrow> ip_stack \<Rightarrow> go_panic + ip_stack" where
  "HandleRipMessage ih ns now ord hdr messageBytes st =
     (case DeserializeRipMessage messageBytes of
        None \<Rightarrow> Inr st
      | Some ripMsg \<Rightarrow>
          if rm_Command ripMsg = RIPRequest then sendPeriodicUpdate ih ns ord st
          else
            let (tbl, changedEntries) = fold (rip_update now (ip_Src hdr)) (rm_Entries ripMsg)
                  (is_ForwardingTable st, []);
                st1 = st\<lparr>is_ForwardingTable := tbl\<rparr>
            in if changedEntries \<noteq> [] then SendTriggeredUpdate ih ns changedEntries st1 else Inr st1)"

text \<open>
  \<open>initRIP\<close>, with the neighbours and times of the configuration: an unknown neighbour is an error
  (\<open>False\<close>), after the costs of the static routes have been set. \<open>ifOrd ip\<close> is the order in which the
  interfaces are searched for the neighbour \<open>ip\<close>.
\<close>

fun find_rip_neighbours :: "(netip_addr \<Rightarrow> string list) \<Rightarrow> (string \<rightharpoonup> iface) \<Rightarrow> netip_addr list \<Rightarrow> rip_neighbour list option" where
  "find_rip_neighbours ifOrd ifs [] = Some []"
| "find_rip_neighbours ifOrd ifs (ripIP # rest) =
     (case find (\<lambda>(n, i). if_Neighbours i ripIP \<noteq> None) (range_map ifs (ifOrd ripIP)) of
        None \<Rightarrow> None
      | Some (n, i) \<Rightarrow> map_option ((#) \<lparr>rn_RouterIP = ripIP, rn_InterfaceName = if_Name i\<rparr>)
          (find_rip_neighbours ifOrd ifs rest))"

definition initRIP :: "(netip_addr \<Rightarrow> string list) \<Rightarrow> netip_addr list \<Rightarrow> int \<Rightarrow> int \<Rightarrow> ip_stack \<Rightarrow> bool \<times> ip_stack" where
  "initRIP ifOrd ripNeighbors ripTimeoutThreshold ripPeriodicUpdateRate st =
     (let tbl = (\<lambda>p. map_option (\<lambda>e. if fe_Type e = SourceTypeStatic then e\<lparr>fe_Cost := 0\<rparr> else e)
                  (is_ForwardingTable st p));
          st1 = st\<lparr>is_ForwardingTable := tbl\<rparr>
      in case find_rip_neighbours ifOrd (is_Interfaces st1) ripNeighbors of
           None \<Rightarrow> (False, st1)
         | Some neighbours \<Rightarrow> (True, st1\<lparr>is_RipInfo := \<lparr>ri_Neighbors = neighbours,
             ri_RipTimeout = ripTimeoutThreshold, ri_RipUpdateRate = ripPeriodicUpdateRate\<rparr>\<rparr>))"

end
