(* ===== verification/RipConvergence.thy ===== *)
theory RipConvergence
  imports RipRouting
begin

text \<open>
  Invariants of the forwarding tables under RIP, and convergence: routers that exchange periodic
  updates with poisoned reverse, in any order, reach the shortest paths.
\<close>

section \<open>The table invariant\<close>

text \<open>
  Entries are stored under their own prefix, costs are at most infinity, and routes that are not
  learnt from RIP cost nothing.
\<close>

definition rip_ok :: "fwd_table \<Rightarrow> bool" where
  "rip_ok tbl \<longleftrightarrow> (\<forall>p e. tbl p = Some e \<longrightarrow> fe_Prefix e = p \<and> fe_Cost e \<le> Infinity
     \<and> (fe_Type e \<noteq> SourceTypeRIP \<longrightarrow> fe_Cost e = 0))"

text \<open>No route is lost, and the fixed ones stay as they are.\<close>

definition rip_grows :: "fwd_table \<Rightarrow> fwd_table \<Rightarrow> bool" where
  "rip_grows tbl tbl' \<longleftrightarrow> dom tbl \<subseteq> dom tbl'
     \<and> (\<forall>p e. tbl p = Some e \<and> fe_Type e \<noteq> SourceTypeRIP \<longrightarrow> tbl' p = Some e)"

lemma rip_grows_trans: "rip_grows a b \<Longrightarrow> rip_grows b c \<Longrightarrow> rip_grows a c"
  unfolding rip_grows_def by blast

lemma rip_entry_cost_le: "rip_entry_cost e \<le> 16"
  using unat_rip_entry_cost [of e] by (simp add: word_le_nat_alt)

lemma rip_update_keeps:
  assumes "rip_ok tbl"
  shows "rip_ok (fst (rip_update now src e (tbl, ch))) \<and> rip_grows tbl (fst (rip_update now src e (tbl, ch)))"
  using assms rip_entry_cost_le [of e]
  by (auto simp: rip_update_def UpdateForwardingTable_def Let_def rip_ok_def rip_grows_def split: option.split if_splits)

lemma fold_rip_update_keeps:
  "rip_ok (fst s) \<Longrightarrow> rip_ok (fst (fold (rip_update now src) es s))
     \<and> rip_grows (fst s) (fst (fold (rip_update now src) es s))"
proof (induction es arbitrary: s)
  case (Cons e es)
  obtain tbl ch where s: "s = (tbl, ch)" by (cases s)
  from Cons.prems rip_update_keeps [of tbl now src e ch] s
  have "rip_ok (fst (rip_update now src e s))" "rip_grows (fst s) (fst (rip_update now src e s))" by simp_all
  with Cons.IH [of "rip_update now src e s"] show ?case by (auto intro: rip_grows_trans)
qed (simp add: rip_grows_def)

text \<open>Sending only adds datagrams.\<close>

lemma SendRipMessage_frame:
  "SendRipMessage ih ns m n st = Inr st' \<Longrightarrow> \<exists>xs. st' = st\<lparr>is_sent := is_sent st @ xs\<rparr>"
proof -
  assume "SendRipMessage ih ns m n st = Inr st'"
  then obtain i u b where "st' = LinkLayerSend i u b st"
    unfolding SendRipMessage_def go_bind_eq_Inr Let_def by blast
  then show ?thesis
    by (intro exI [of _ "if if_Up i then [(if_Name i, u, b)] else []"]) (simp add: LinkLayerSend_def)
qed

lemma send_all_frame:
  "send_all ih ns msg nbrs st = Inr st' \<Longrightarrow> \<exists>xs. st' = st\<lparr>is_sent := is_sent st @ xs\<rparr>"
proof (induction nbrs arbitrary: st)
  case (Cons n nbrs)
  then obtain st1 where s: "SendRipMessage ih ns (msg n) n st = Inr st1" "send_all ih ns msg nbrs st1 = Inr st'"
    by (auto simp: go_bind_eq_Inr)
  from SendRipMessage_frame [OF s(1)] Cons.IH [OF s(2)] show ?case by auto
qed (auto intro: exI [of _ "[]"])

text \<open>
  The forwarding table under RIP messages: whatever message arrives, malformed ones included, if
  the handler returns, the table keeps its invariant (every entry under its own prefix, no cost above
  infinity, fixed routes at cost zero), no route disappears, local and static routes are untouched,
  and the interfaces and neighbours stay as they are.
\<close>

theorem rip_message_keeps_table:
  assumes "HandleRipMessage ih ns now ord hdr bytes st = Inr st'" and "rip_ok (is_ForwardingTable st)"
  shows "rip_ok (is_ForwardingTable st') \<and> rip_grows (is_ForwardingTable st) (is_ForwardingTable st')
    \<and> is_Interfaces st' = is_Interfaces st \<and> is_RipInfo st' = is_RipInfo st"
proof (cases "DeserializeRipMessage bytes")
  case None
  then show ?thesis using assms by (auto simp: HandleRipMessage_def rip_grows_def)
next
  case (Some m)
  show ?thesis
  proof (cases "rm_Command m = RIPRequest")
    case True
    then have "\<exists>xs. st' = st\<lparr>is_sent := is_sent st @ xs\<rparr>"
      using assms(1) Some send_all_frame by (simp add: HandleRipMessage_def sendPeriodicUpdate_def)
    then show ?thesis using assms(2) by (auto simp: rip_grows_def)
  next
    case False
    let ?s = "fold (rip_update now (ip_Src hdr)) (rm_Entries m) (is_ForwardingTable st, [])"
    have keep: "rip_ok (fst ?s)" "rip_grows (is_ForwardingTable st) (fst ?s)"
      using fold_rip_update_keeps [of "(is_ForwardingTable st, [])"] assms(2) by simp_all
    have "\<exists>xs. st' = st\<lparr>is_ForwardingTable := fst ?s, is_sent := is_sent st @ xs\<rparr>"
    proof (cases "snd ?s = []")
      case True
      then have "st' = st\<lparr>is_ForwardingTable := fst ?s\<rparr>"
        using assms(1) Some False by (simp add: HandleRipMessage_def split_beta Let_def)
      then show ?thesis by (intro exI [of _ "[]"]) simp
    next
      case changed: False
      then have "SendTriggeredUpdate ih ns (snd ?s) (st\<lparr>is_ForwardingTable := fst ?s\<rparr>) = Inr st'"
        using assms(1) Some False by (simp add: HandleRipMessage_def split_beta Let_def)
      from send_all_frame [OF this [unfolded SendTriggeredUpdate_def Let_def]] show ?thesis by simp
    qed
    then show ?thesis using keep by auto
  qed
qed

theorem rip_message_keeps_table_witness:
  "\<exists>st'. HandleRipMessage sample_iptcp sample_ns 5 (\<lambda>_. [])
      (new_header (ipv4_of 10 0 0 2) (ipv4_of 10 0 0 1) [] 200 32 0)
      (be16 2 @ be16 1 @ be32 3 @ be32 0 @ be32 0) sample_router = Inr st'
    \<and> rip_ok (is_ForwardingTable st') \<and> is_ForwardingTable st' sample_default \<noteq> None"
proof -
  let ?m = "be16 2 @ be16 1 @ be32 3 @ be32 0 @ be32 0"
  let ?h = "new_header (ipv4_of 10 0 0 2) (ipv4_of 10 0 0 1) [] 200 32 0"
  let ?t = "UpdateForwardingTable 5 \<lparr>rp_Cost = 3, rp_Prefix = sample_default\<rparr> (ipv4_of 10 0 0 2) '''' 4
    (is_ForwardingTable sample_router)"
  have "DeserializeRipMessage ?m = Some \<lparr>rm_Command = 2, rm_NumEntries = 0,
      rm_Entries = [\<lparr>rp_Cost = 3, rp_Prefix = sample_default\<rparr>]\<rparr>" by code_simp
  then have h: "HandleRipMessage sample_iptcp sample_ns 5 (\<lambda>_. []) ?h ?m sample_router
      = Inr (sample_router\<lparr>is_ForwardingTable := ?t\<rparr>)"
    using sample_masked(3)
    by (simp add: HandleRipMessage_def rip_update_def sample_router_def rip_entry_cost_def Let_def
      SendTriggeredUpdate_def new_header_def UpdateForwardingTable_def)
  have "rip_ok (is_ForwardingTable sample_router)"
    by (simp add: rip_ok_def sample_router_def sample_local_def)
  from rip_message_keeps_table [OF h this] h show ?thesis by (simp add: UpdateForwardingTable_def)
qed

section \<open>Timeouts\<close>

text \<open>
  A timeout check marks exactly the RIP routes that have not been refreshed within the timeout
  and are not marked yet: they get cost infinity and are announced once each, every other entry
  stays, and a second check at the same time does nothing.
\<close>

theorem timeouts_mark_stale_routes:
  assumes "distinct ord" and "set ord = dom (is_ForwardingTable st)" and "CheckForTimeouts now ord st = (es, st')"
  shows "(\<forall>p e. is_ForwardingTable st p = Some e \<longrightarrow> is_ForwardingTable st' p
        = Some (if timed_out now (ri_RipTimeout (is_RipInfo st)) e then e\<lparr>fe_Cost := Infinity\<rparr> else e))
    \<and> dom (is_ForwardingTable st') = dom (is_ForwardingTable st)
    \<and> (\<forall>p. length (filter (\<lambda>x. rp_Prefix x = p) es) = (case is_ForwardingTable st p of None \<Rightarrow> 0
        | Some e \<Rightarrow> if timed_out now (ri_RipTimeout (is_RipInfo st)) e then 1 else 0))
    \<and> (\<forall>x \<in> set es. rp_Cost x = Infinity)
    \<and> CheckForTimeouts now ord st' = ([], st')"
proof -
  let ?t = "is_ForwardingTable st" and ?late = "timed_out now (ri_RipTimeout (is_RipInfo st))"
  have es: "es = map (\<lambda>(p, e). \<lparr>rp_Cost = 16, rp_Prefix = p\<rparr>) (filter (\<lambda>(p, e). ?late e) (range_map ?t ord))"
    and st': "st' = st\<lparr>is_ForwardingTable := (\<lambda>p. map_option (\<lambda>e. if ?late e then e\<lparr>fe_Cost := Infinity\<rparr> else e) (?t p))\<rparr>"
    using assms(3) by (simp_all add: CheckForTimeouts_def Let_def)
  have marked: "\<not> ?late (e\<lparr>fe_Cost := Infinity\<rparr>)" for e by (simp add: timed_out_def)
  have idem: "\<not> ?late (if ?late e then e\<lparr>fe_Cost := Infinity\<rparr> else e)" for e by (simp add: timed_out_def)
  have count: "length (filter (\<lambda>x. rp_Prefix x = p) (map (\<lambda>(p, e). \<lparr>rp_Cost = 16, rp_Prefix = p\<rparr>)
      (filter (\<lambda>(p, e). ?late e) (range_map ?t ks))))
    = (case ?t p of None \<Rightarrow> 0 | Some e \<Rightarrow> if ?late e \<and> p \<in> set ks then 1 else 0)" if "distinct ks" for ks p
    using that by (induction ks) (auto simp: range_map_def split: option.splits)
  have "filter (\<lambda>(p, e). timed_out now (ri_RipTimeout (is_RipInfo st')) e) (range_map (is_ForwardingTable st') ord) = []"
    using marked idem by (auto simp: filter_empty_conv set_range_map st')
  then have "fst (CheckForTimeouts now ord st') = []" by (simp add: CheckForTimeouts_def Let_def)
  moreover have "snd (CheckForTimeouts now ord st') = st'"
    using idem by (simp add: CheckForTimeouts_def Let_def st' option.map_comp comp_def)
  moreover have "\<forall>p. length (filter (\<lambda>x. rp_Prefix x = p) es) = (case ?t p of None \<Rightarrow> 0
        | Some e \<Rightarrow> if ?late e then 1 else 0)"
    unfolding es using count [OF assms(1)] assms(2) by (auto split: option.splits)
  ultimately show ?thesis by (auto simp: es st' prod_eq_iff)
qed

theorem timeouts_mark_stale_routes_witness:
  "\<exists>es st'. CheckForTimeouts 10 [sample_net] sample_router = (es, st')
    \<and> CheckForTimeouts 10 [sample_net] st' = ([], st')"
proof -
  obtain es st' where r: "CheckForTimeouts 10 [sample_net] sample_router = (es, st')" by fastforce
  have "set [sample_net] = dom (is_ForwardingTable sample_router)" by (simp add: sample_router_def)
  from timeouts_mark_stale_routes [OF _ this r] r show ?thesis by simp
qed

section \<open>Triggered updates\<close>

text \<open>
  Triggered updates advertise the wrong cost. When a router learns a new route from a response,
  the update it triggers repeats the cost it received instead of the cost it now has; a router that
  learns the route from this update therefore believes to be as close to the destination as the
  router it learnt it from.
\<close>

theorem triggered_update_undercounts:
  assumes "DeserializeRipMessage bytes = Some m" and "rm_Command m \<noteq> RIPRequest" and "rm_Entries m = [e]"
    and "is_ForwardingTable st (rp_Prefix e) = None" and "rp_Cost e < Infinity - 1"
    and "tblB (rp_Prefix e) = None"
  shows "\<exists>st1. HandleRipMessage ih ns now ord hdr bytes st = SendTriggeredUpdate ih ns [e] st1
    \<and> map_option fe_Cost (is_ForwardingTable st1 (rp_Prefix e)) = Some (rp_Cost e + 1)
    \<and> map_option fe_Cost (fst (fold (rip_update now' ip) [e] (tblB, [])) (rp_Prefix e)) = Some (rp_Cost e + 1)"
proof -
  have "rp_Cost e < Infinity" using assms(5) by (simp add: word_less_nat_alt)
  then have "rip_entry_cost e = rp_Cost e + 1" by (simp add: rip_entry_cost_def)
  then show ?thesis using assms(1-4,6)
    by (simp add: HandleRipMessage_def rip_update_def UpdateForwardingTable_def Let_def)
      (rule exI, rule conjI [OF refl], simp)
qed

theorem triggered_update_undercounts_witness:
  "\<exists>m. DeserializeRipMessage (be16 2 @ be16 1 @ be32 3 @ be32 0 @ be32 0) = Some m
    \<and> map_option fe_Cost (fst (fold (rip_update 9 (ipv4_of 10 1 0 1)) (rm_Entries m) (Map.empty, [])) sample_default) = Some 4"
proof -
  let ?b = "be16 2 @ be16 1 @ be32 3 @ be32 0 @ be32 0" and ?e = "\<lparr>rp_Cost = 3, rp_Prefix = sample_default\<rparr>"
  let ?m = "\<lparr>rm_Command = 2, rm_NumEntries = 0, rm_Entries = [?e]\<rparr>"
  have d: "DeserializeRipMessage ?b = Some ?m" by code_simp
  have n: "is_ForwardingTable sample_router (rp_Prefix ?e) = None" using sample_masked(3) by (simp add: sample_router_def)
  from triggered_update_undercounts [OF d _ _ n, of Map.empty sample_iptcp sample_ns 0 "\<lambda>_. []"
      "new_header (ipv4_of 10 0 0 2) (ipv4_of 10 0 0 1) [] 200 32 0" 9 "ipv4_of 10 1 0 1"]
  have "map_option fe_Cost (fst (fold (rip_update 9 (ipv4_of 10 1 0 1)) [?e] (Map.empty, [])) (rp_Prefix ?e))
      = Some (rp_Cost ?e + 1)" by auto
  then show ?thesis using d by (intro exI [of _ ?m]) simp
qed

section \<open>A network of routers\<close>

text \<open>
  Every router has an address and a table. In an exchange, \<open>u\<close> sends its neighbour \<open>v\<close> a periodic
  update, which \<open>v\<close> processes; \<open>ord\<close> is the order in which \<open>u\<close> visits its table.
\<close>

type_synonym rip_net = "netip_addr \<Rightarrow> fwd_table"

definition as_neighbour :: "netip_addr \<Rightarrow> rip_neighbour" where
  "as_neighbour v = \<lparr>rn_RouterIP = v, rn_InterfaceName = ''''\<rparr>"

definition rip_exchange :: "int \<Rightarrow> netip_prefix list \<Rightarrow> netip_addr \<Rightarrow> netip_addr \<Rightarrow> rip_net \<Rightarrow> rip_net" where
  "rip_exchange now ord u v net = net(v := fst (fold (rip_update now u)
     (rm_Entries (periodic_message (\<lambda>_. ord) (net u) (as_neighbour v))) (net v, [])))"

text \<open>Exchanges along the links of the network, in the order of the list.\<close>

inductive rip_run :: "(netip_addr \<Rightarrow> netip_addr set) \<Rightarrow> rip_net \<Rightarrow> (netip_addr \<times> netip_addr) list \<Rightarrow> rip_net \<Rightarrow> bool"
  for links where
  rip_run_nil: "rip_run links net [] net"
| rip_run_cons: "v \<in> links u \<Longrightarrow> distinct ord \<Longrightarrow> set ord = dom (net u) \<Longrightarrow>
    rip_run links (rip_exchange now ord u v net) es net' \<Longrightarrow> rip_run links net ((u, v) # es) net'"

inductive_cases rip_run_NilE: "rip_run links net [] net'"
inductive_cases rip_run_ConsE: "rip_run links net (x # es) net'"

text \<open>What \<open>u\<close> advertises to \<open>v\<close> for a prefix it has the given route to.\<close>

fun advert :: "netip_addr \<Rightarrow> route \<Rightarrow> nat option" where
  "advert v Unknown = None"
| "advert v Fixed = Some 0"
| "advert v (Via d nh) = Some (if nh = v then 16 else d)"

lemma map_of_range_map:
  "distinct ks \<Longrightarrow> map_of (map (\<lambda>(p, e). (p, f e)) (range_map m ks)) p
     = (if p \<in> set ks then map_option f (m p) else None)"
  by (induction ks) (auto simp: range_map_def split: option.splits)

lemma offer_periodic:
  assumes "rip_ok tbl" and "distinct ord" and "set ord = dom tbl"
  shows "offer (rm_Entries (periodic_message (\<lambda>_. ord) tbl (as_neighbour v))) p = advert v (route_of (tbl p))"
    and "distinct (map rp_Prefix (rm_Entries (periodic_message (\<lambda>_. ord) tbl (as_neighbour v))))"
proof -
  have pfx: "fe_Prefix e = q" if "(q, e) \<in> set (range_map tbl ord)" for q e
    using that assms(1) by (simp add: set_range_map rip_ok_def)
  have "offer (rm_Entries (periodic_message (\<lambda>_. ord) tbl (as_neighbour v))) p
      = map_of (map (\<lambda>(q, e). (q, unat (rp_Cost (advertised (as_neighbour v) e)))) (range_map tbl ord)) p"
    unfolding offer_def periodic_message_def Let_def rip_message.select_convs map_map
    by (intro arg_cong [where f = "\<lambda>l. map_of l p"] map_cong refl) (auto simp: pfx advertised_def)
  also have "\<dots> = map_option (\<lambda>e. unat (rp_Cost (advertised (as_neighbour v) e))) (tbl p)"
    unfolding map_of_range_map [OF assms(2)] assms(3) by (cases "tbl p") auto
  also have "\<dots> = advert v (route_of (tbl p))"
    using assms(1) by (auto simp: advertised_def as_neighbour_def route_of_def rip_ok_def split: option.split)
  finally show "offer (rm_Entries (periodic_message (\<lambda>_. ord) tbl (as_neighbour v))) p = advert v (route_of (tbl p))" .
  have "map rp_Prefix (rm_Entries (periodic_message (\<lambda>_. ord) tbl (as_neighbour v))) = map fst (range_map tbl ord)"
    by (auto simp: periodic_message_def Let_def advertised_def pfx)
  moreover have "distinct (map fst (range_map tbl ks))" if "distinct ks" for ks
    using that by (induction ks) (auto simp: range_map_def split: option.splits)
  ultimately show "distinct (map rp_Prefix (rm_Entries (periodic_message (\<lambda>_. ord) tbl (as_neighbour v))))"
    using assms(2) by simp
qed

lemma rip_exchange_route:
  assumes "rip_ok (net u)" and "distinct ord" and "set ord = dom (net u)"
  shows "route_of (rip_exchange now ord u v net w p) = (if w = v then
      (case advert v (route_of (net u p)) of None \<Rightarrow> route_of (net v p) | Some c \<Rightarrow> relax u c (route_of (net v p)))
      else route_of (net w p))"
  using fold_rip_update_route [OF offer_periodic(2) [OF assms], of now u v "(net v, [])" p]
    offer_periodic(1) [OF assms, of v p] unfolding fst_conv by (simp add: rip_exchange_def)

lemma rip_exchange_ok: "\<forall>w. rip_ok (net w) \<Longrightarrow> \<forall>w. rip_ok (rip_exchange now ord u v net w)"
  using fold_rip_update_keeps [of "(net v, [])" now u] by (simp add: rip_exchange_def)

section \<open>Distances\<close>

text \<open>\<open>path links F k v\<close>: there is a path of \<open>k\<close> links from a router in \<open>F\<close> to \<open>v\<close>.\<close>

inductive path :: "(netip_addr \<Rightarrow> netip_addr set) \<Rightarrow> netip_addr set \<Rightarrow> nat \<Rightarrow> netip_addr \<Rightarrow> bool" for links F where
  path_here: "v \<in> F \<Longrightarrow> path links F 0 v"
| path_link: "path links F k u \<Longrightarrow> v \<in> links u \<Longrightarrow> path links F (Suc k) v"

inductive_cases path_0E: "path links F 0 v"
inductive_cases path_SucE: "path links F (Suc k) v"

fun cost_of :: "route \<Rightarrow> nat option" where
  "cost_of Unknown = None"
| "cost_of Fixed = Some 0"
| "cost_of (Via d nh) = Some d"

text \<open>
  Every finite cost is the length of a real path, and the next hop is strictly closer.
\<close>

definition routes_ok :: "(netip_addr \<Rightarrow> netip_addr set) \<Rightarrow> netip_addr set \<Rightarrow> (netip_addr \<Rightarrow> route) \<Rightarrow> bool" where
  "routes_ok links F r \<longleftrightarrow> (\<forall>v. r v = Fixed \<longrightarrow> v \<in> F) \<and> (\<forall>v d nh. r v = Via d nh \<longrightarrow> d \<le> 16 \<and>
     (d < 16 \<longrightarrow> path links F d v \<and> (\<exists>c. cost_of (r nh) = Some c \<and> c < d)))"

definition closer :: "(netip_addr \<Rightarrow> route) \<Rightarrow> (netip_addr \<Rightarrow> route) \<Rightarrow> bool" where
  "closer r r' \<longleftrightarrow> (\<forall>v c. cost_of (r v) = Some c \<longrightarrow> (\<exists>c' \<le> c. cost_of (r' v) = Some c'))"

lemma closer_trans: "closer a b \<Longrightarrow> closer b c \<Longrightarrow> closer a c"
  unfolding closer_def by (meson le_trans)

text \<open>One exchange on the routes of one prefix.\<close>

definition xroutes :: "netip_addr \<Rightarrow> netip_addr \<Rightarrow> (netip_addr \<Rightarrow> route) \<Rightarrow> netip_addr \<Rightarrow> route" where
  "xroutes u v r = (case advert v (r u) of None \<Rightarrow> r | Some c \<Rightarrow> r(v := relax u c (r v)))"

lemma advert_cases:
  assumes "routes_ok links F r" and "advert v (r u) = Some c" and "c < 16"
  shows "cost_of (r u) = Some c" and "path links F c u"
  using assms by (cases "r u"; auto simp: routes_ok_def intro: path_here split: if_splits)+

lemma poisoned:
  assumes "routes_ok links F r" and "r v = Via d u" and "d < 16" and "advert v (r u) = Some c"
  shows "c < d"
proof -
  obtain k where k: "cost_of (r u) = Some k" "k < d" using assms(1-3) unfolding routes_ok_def by blast
  have "r u \<noteq> Via k v"
  proof
    assume u: "r u = Via k v"
    then have "\<exists>c. cost_of (r v) = Some c \<and> c < k" using assms(1,3) k(2) unfolding routes_ok_def by fastforce
    then show False using assms(2) k(2) by simp
  qed
  then show ?thesis using k assms(4) by (cases "r u") (auto split: if_splits)
qed

lemma xroutes_closer:
  assumes ok: "routes_ok links F r"
  shows "closer r (xroutes u v r)"
proof (cases "advert v (r u)")
  case (Some c)
  have "\<exists>c' \<le> k. cost_of (relax u c (r v)) = Some c'" if "cost_of (r v) = Some k" for k
  proof (cases "r v")
    case (Via d nh)
    then have d: "d = k" "d \<le> 16" using that ok by (auto simp: routes_ok_def)
    show ?thesis
    proof (cases "nh = u \<and> d < 16")
      case True
      then have "c < d" using poisoned [OF ok _ _ Some] Via by blast
      then show ?thesis using Via d True by auto
    next
      case False
      then show ?thesis using Via d by auto
    qed
  qed (use that in auto)
  then show ?thesis using Some by (simp add: xroutes_def closer_def)
qed (simp add: xroutes_def closer_def)

lemma xroutes_ok:
  assumes ok: "routes_ok links F r" and uv: "v \<in> links u" "u \<noteq> v"
  shows "routes_ok links F (xroutes u v r)"
proof (cases "advert v (r u)")
  case (Some c)
  let ?r = "r(v := relax u c (r v))"
  have r: "xroutes u v r = ?r" using Some by (simp add: xroutes_def)
  have near: "\<exists>c. cost_of (?r nh) = Some c \<and> c < d" if "\<exists>c. cost_of (r nh) = Some c \<and> c < d" for nh d
    using that xroutes_closer [OF ok, of u v] unfolding r closer_def by (meson le_less_trans)
  have new: "min 16 (c + 1) < 16 \<Longrightarrow> path links F (min 16 (c + 1)) v \<and> cost_of (?r u) = Some c"
    using advert_cases [OF ok Some] uv by (auto simp: min_def intro: path_link)
  have "d \<le> 16 \<and> (d < 16 \<longrightarrow> path links F d w \<and> (\<exists>c. cost_of (?r nh) = Some c \<and> c < d))"
    if w: "?r w = Via d nh" for w d nh
  proof (cases "w = v \<and> relax u c (r v) \<noteq> r v")
    case True
    then have "d = min 16 (c + 1)" "nh = u" using w by (cases "r v"; auto split: if_splits)+
    then show ?thesis using new True by (auto simp: min_def split: if_splits)
  next
    case False
    then have "r w = Via d nh" using w by (auto split: if_splits)
    then show ?thesis using ok near unfolding routes_ok_def by blast
  qed
  moreover have "\<forall>w. ?r w = Fixed \<longrightarrow> w \<in> F"
    using ok by (cases "r v") (auto simp: routes_ok_def)
  ultimately show ?thesis unfolding r routes_ok_def by blast
qed (use ok in \<open>simp add: xroutes_def\<close>)

lemma xroutes_reach:
  assumes ok: "routes_ok links F r" and u: "cost_of (r u) = Some c" "c \<le> k"
  shows "\<exists>d. cost_of (xroutes u v r v) = Some d \<and> d \<le> min 16 (k + 1)"
proof -
  obtain a where a: "advert v (r u) = Some a" using u by (cases "r u") auto
  show ?thesis
  proof (cases "a = c")
    case True
    then show ?thesis using a u(2) ok
      by (cases "r v") (auto simp: xroutes_def routes_ok_def min_def split: if_splits)
  next
    case False
    then have p: "r u = Via c v" "a = 16" using a u by (cases "r u"; auto split: if_splits)+
    show ?thesis
    proof (cases "c < 16")
      case True
      then obtain d where "cost_of (r v) = Some d" "d < c" using ok p unfolding routes_ok_def by blast
      moreover from this obtain d' where "cost_of (xroutes u v r v) = Some d'" "d' \<le> d"
        using xroutes_closer [OF ok, of u v] unfolding closer_def by blast
      ultimately show ?thesis using True u(2) by (intro exI [of _ d']) simp
    next
      case c: False
      then show ?thesis using a p u(2) ok
        by (cases "r v") (auto simp: xroutes_def routes_ok_def min_def split: if_splits)
    qed
  qed
qed

section \<open>Rounds\<close>

lemma rip_exchange_xroutes:
  assumes "\<forall>w. rip_ok (net w)" and "distinct ord" and "set ord = dom (net u)"
  shows "(\<lambda>w. route_of (rip_exchange now ord u v net w p)) = xroutes u v (\<lambda>w. route_of (net w p))"
  using rip_exchange_route [where net = net and u = u, OF assms(1) [rule_format] assms(2,3), of now v _ p]
  by (auto simp: xroutes_def fun_eq_iff split: option.split)

lemma rip_run_routes:
  assumes "rip_run links net es net'" and "\<forall>w. rip_ok (net w)" and "\<forall>u. u \<notin> links u"
    and "routes_ok links F (\<lambda>w. route_of (net w p))"
  shows "(\<forall>w. rip_ok (net' w)) \<and> routes_ok links F (\<lambda>w. route_of (net' w p))
    \<and> closer (\<lambda>w. route_of (net w p)) (\<lambda>w. route_of (net' w p))
    \<and> (\<forall>(u, v) \<in> set es. \<forall>c i. cost_of (route_of (net u p)) = Some c \<and> c \<le> i \<longrightarrow>
        (\<exists>d. cost_of (route_of (net' v p)) = Some d \<and> d \<le> min 16 (i + 1)))"
  using assms
proof (induction rule: rip_run.induct)
  case (rip_run_nil net)
  then show ?case by (auto simp: closer_def)
next
  case (rip_run_cons v u ord net now es net')
  let ?r = "\<lambda>w. route_of (net w p)" and ?net1 = "rip_exchange now ord u v net"
  have x: "(\<lambda>w. route_of (?net1 w p)) = xroutes u v ?r"
    by (rule rip_exchange_xroutes [OF rip_run_cons.prems(1) rip_run_cons.hyps(2,3)])
  have uv: "u \<noteq> v" using rip_run_cons.prems(2) rip_run_cons.hyps(1) by blast
  have ok1: "\<forall>w. rip_ok (?net1 w)" by (rule rip_exchange_ok [OF rip_run_cons.prems(1)])
  have r1: "routes_ok links F (\<lambda>w. route_of (?net1 w p))" "closer ?r (\<lambda>w. route_of (?net1 w p))"
    unfolding x using xroutes_ok [OF rip_run_cons.prems(3) rip_run_cons.hyps(1) uv]
      xroutes_closer [OF rip_run_cons.prems(3)] by blast+
  note ih = rip_run_cons.IH [OF ok1 rip_run_cons.prems(2) r1(1)]
  have reach: "\<exists>d. cost_of (route_of (net' b p)) = Some d \<and> d \<le> min 16 (i + 1)"
    if ab: "(a, b) \<in> set ((u, v) # es)" and c: "cost_of (?r a) = Some c" "c \<le> i" for a b c i
  proof (cases "(a, b) = (u, v)")
    case True
    then obtain d where "cost_of (xroutes u v ?r v) = Some d" "d \<le> min 16 (i + 1)"
      using xroutes_reach [OF rip_run_cons.prems(3), of u c i v] c by auto
    moreover have "xroutes u v ?r v = route_of (?net1 v p)" using fun_cong [OF x, of v] by simp
    ultimately show ?thesis using ih True unfolding closer_def by (metis Pair_inject order_trans)
  next
    case False
    obtain c' where "cost_of (route_of (?net1 a p)) = Some c'" "c' \<le> c" using r1(2) c(1) unfolding closer_def by blast
    then show ?thesis using ih False ab c(2) by fastforce
  qed
  have "closer ?r (\<lambda>w. route_of (net' w p))" using closer_trans [OF r1(2)] ih by blast
  then show ?case using ih reach by blast
qed

text \<open>A round is a run that uses every link at least once.\<close>

inductive rip_rounds :: "(netip_addr \<Rightarrow> netip_addr set) \<Rightarrow> nat \<Rightarrow> rip_net \<Rightarrow> rip_net \<Rightarrow> bool" for links where
  rounds_none: "rip_rounds links 0 net net"
| rounds_next: "rip_rounds links k net net1 \<Longrightarrow> rip_run links net1 es net2 \<Longrightarrow>
    \<forall>u. \<forall>v \<in> links u. (u, v) \<in> set es \<Longrightarrow> rip_rounds links (Suc k) net net2"

lemma rip_rounds_reach:
  assumes "rip_rounds links k net net'" and "\<forall>w. rip_ok (net w)" and "\<forall>u. u \<notin> links u"
    and "routes_ok links F (\<lambda>w. route_of (net w p))" and "\<forall>w \<in> F. route_of (net w p) = Fixed"
  shows "(\<forall>w. rip_ok (net' w)) \<and> routes_ok links F (\<lambda>w. route_of (net' w p))
    \<and> (\<forall>j v. j \<le> k \<and> path links F j v \<longrightarrow> (\<exists>c. cost_of (route_of (net' v p)) = Some c \<and> c \<le> min 16 j))"
  using assms
proof (induction rule: rip_rounds.induct)
  case (rounds_none net)
  then show ?case by (auto elim!: path_0E)
next
  case (rounds_next k net net1 es net2)
  note ih = rounds_next.IH [OF rounds_next.prems]
  have ok1: "\<forall>w. rip_ok (net1 w)" "routes_ok links F (\<lambda>w. route_of (net1 w p))" using ih by blast+
  note run = rip_run_routes [OF rounds_next.hyps(2) ok1(1) rounds_next.prems(2) ok1(2)]
  have "\<exists>c. cost_of (route_of (net2 v p)) = Some c \<and> c \<le> min 16 j" if j: "j \<le> Suc k" "path links F j v" for j v
  proof (cases "j \<le> k")
    case True
    then obtain c where "cost_of (route_of (net1 v p)) = Some c" "c \<le> min 16 j" using ih j(2) by blast
    then show ?thesis using run unfolding closer_def by (meson order_trans)
  next
    case False
    then have "j = Suc k" using j(1) by simp
    then obtain u where u: "path links F k u" "v \<in> links u" using j(2) by (auto elim: path_SucE)
    then obtain c where "cost_of (route_of (net1 u p)) = Some c" "c \<le> k" using ih by fastforce
    then show ?thesis using run u(2) rounds_next.hyps(3) \<open>j = Suc k\<close> by fastforce
  qed
  then show ?case using run by blast
qed


text \<open>Two routers, the first of which is on the network \<open>sample_net\<close>.\<close>

abbreviation "router_a \<equiv> IPv4 1"
abbreviation "router_b \<equiv> IPv4 2"

definition sample_links :: "netip_addr \<Rightarrow> netip_addr set" where
  "sample_links u = (if u = router_a then {router_b} else if u = router_b then {router_a} else {})"

definition sample_start :: rip_net where
  "sample_start = (\<lambda>_. Map.empty)(router_a := [sample_net \<mapsto> sample_local])"

lemma sample_round: "\<exists>net'. rip_rounds sample_links 1 sample_start net'"
proof -
  let ?n1 = "rip_exchange 0 [sample_net] router_a router_b sample_start"
  let ?n2 = "rip_exchange 0 [sample_net] router_b router_a ?n1"
  have "dom (?n1 router_b) = {sample_net}"
    by (simp add: rip_exchange_def sample_start_def periodic_message_def range_map_def advertised_def
      as_neighbour_def rip_update_def UpdateForwardingTable_def Let_def sample_local_def)
  moreover have "dom (sample_start router_a) = {sample_net}" by (simp add: sample_start_def)
  ultimately have "rip_run sample_links sample_start [(router_a, router_b), (router_b, router_a)] ?n2"
    by (intro rip_run_cons [where ord = "[sample_net]" and now = 0] rip_run_nil) (simp_all add: sample_links_def)
  then have "rip_rounds sample_links (Suc 0) sample_start ?n2"
    by (intro rounds_next [OF rounds_none]) (auto simp: sample_links_def)
  then show ?thesis by auto
qed


end
