(* ===== verification/IpInit.thy ===== *)
theory IpInit
  imports LnxConfig RipConvergence
begin

text \<open>
  Start-up: the stack built from a configuration (\<open>InitIPStackFromConfig\<close>, \<open>init\<close> and
  \<open>initFwdTable\<close> of \<open>src/pkg/ipStack/ipStack.go\<close>) and the wiring of the programs
  \<open>src/cmd/vhost/main.go\<close> and \<open>src/cmd/vrouter/main.go\<close>. Whether the UDP socket of the n-th
  interface can be opened is an argument, \<open>listens\<close>.
\<close>

section \<open>Interfaces, neighbours, table\<close>

text \<open>One interface after the other; \<open>None\<close> is the error of \<open>net.ListenUDP\<close>.\<close>

fun init_interfaces :: "(nat \<Rightarrow> bool) \<Rightarrow> nat \<Rightarrow> interface_config list \<Rightarrow> (string \<rightharpoonup> iface) \<Rightarrow> (string \<rightharpoonup> iface) option" where
  "init_interfaces listens k [] ifs = Some ifs"
| "init_interfaces listens k (ifx # rest) ifs =
     (if \<not> listens k then None
      else init_interfaces listens (Suc k) rest (ifs(ic_Name ifx \<mapsto>
        \<lparr>if_Name = ic_Name ifx, if_Prefix = ic_AssignedPrefix ifx, if_IP = ic_AssignedIP ifx,
         if_Neighbours = Map.empty, if_Up = True\<rparr>)))"

text \<open>A neighbour on an unknown interface is logged, and then the nil interface is dereferenced.\<close>

fun init_neighbours :: "neighbor_config list \<Rightarrow> (string \<rightharpoonup> iface) \<Rightarrow> go_panic + (string \<rightharpoonup> iface)" where
  "init_neighbours [] ifs = Inr ifs"
| "init_neighbours (n # rest) ifs =
     go_bind (deref (ifs (nc_InterfaceName n))) (\<lambda>i.
       init_neighbours rest (ifs(nc_InterfaceName n \<mapsto>
         i\<lparr>if_Neighbours := (if_Neighbours i)(nc_DestAddr n \<mapsto> \<lparr>nb_IP = nc_DestAddr n, nb_UDPAddr = nc_UDPAddr n\<rparr>)\<rparr>)))"

text \<open>The table; the interfaces are visited in the order \<open>ifOrd\<close>, the static routes in the order \<open>rtOrd\<close>.\<close>

definition local_route :: "iface \<Rightarrow> fwd_entry" where
  "local_route i = \<lparr>fe_Prefix = if_Prefix i, fe_NextHop = NoAddr, fe_InterfaceName = if_Name i,
     fe_Type = SourceTypeLocal, fe_Cost = 0, fe_LastUpdated = 0\<rparr>"

definition static_route :: "netip_prefix \<times> netip_addr \<Rightarrow> fwd_entry" where
  "static_route = (\<lambda>(prefix, address). \<lparr>fe_Prefix = prefix, fe_NextHop = address, fe_InterfaceName = '''',
     fe_Type = SourceTypeStatic, fe_Cost = 0, fe_LastUpdated = 0\<rparr>)"

definition add_route :: "fwd_entry \<Rightarrow> fwd_table \<Rightarrow> fwd_table" where
  "add_route e tbl = tbl(fe_Prefix e \<mapsto> e)"

definition initFwdTable :: "string list \<Rightarrow> netip_prefix list \<Rightarrow> ip_config \<Rightarrow> (string \<rightharpoonup> iface) \<Rightarrow> fwd_table" where
  "initFwdTable ifOrd rtOrd config ifs =
     fold add_route (map static_route (range_map (cf_StaticRoutes config) rtOrd))
       (fold add_route (map (\<lambda>(n, i). local_route i) (range_map ifs ifOrd)) Map.empty)"

definition empty_stack :: ip_stack where
  "empty_stack = \<lparr>is_Interfaces = Map.empty, is_ForwardingTable = Map.empty,
     is_RipInfo = \<lparr>ri_Neighbors = [], ri_RipTimeout = 0, ri_RipUpdateRate = 0\<rparr>,
     is_recvHandlers = Map.empty, is_sent = []\<rparr>"

definition init_stack :: "(nat \<Rightarrow> bool) \<Rightarrow> string list \<Rightarrow> netip_prefix list \<Rightarrow> ip_config \<Rightarrow> go_panic + ip_stack option" where
  "init_stack listens ifOrd rtOrd config =
     (case init_interfaces listens 0 (cf_Interfaces config) Map.empty of
        None \<Rightarrow> Inr None
      | Some ifs \<Rightarrow> go_bind (init_neighbours (cf_Neighbors config) ifs) (\<lambda>ifs'.
          Inr (Some (empty_stack\<lparr>is_Interfaces := ifs', is_ForwardingTable := initFwdTable ifOrd rtOrd config ifs'\<rparr>))))"

text \<open>The error of \<open>initRIP\<close> is not looked at.\<close>

datatype start_error = BadConfig nat config_error | NoSocket

definition InitIPStackFromConfig :: "(nat \<Rightarrow> bool) \<Rightarrow> string list \<Rightarrow> netip_prefix list \<Rightarrow> (netip_addr \<Rightarrow> string list) \<Rightarrow> string option \<Rightarrow> go_panic + (start_error + ip_stack)" where
  "InitIPStackFromConfig listens ifOrd rtOrd ripOrd file =
     go_bind (ParseConfig file) (\<lambda>r. case r of
       Inl (ln, e) \<Rightarrow> Inr (Inl (BadConfig ln e))
     | Inr config \<Rightarrow> go_bind (init_stack listens ifOrd rtOrd config) (\<lambda>st. case st of
         None \<Rightarrow> Inr (Inl NoSocket)
       | Some ipStack \<Rightarrow> Inr (Inr (
           if cf_RoutingMode config = RoutingTypeRIP
           then snd (initRIP ripOrd (cf_RipNeighbors config) (cf_RipTimeoutThreshold config) (cf_RipPeriodicUpdateRate config) ipStack)
           else ipStack))))"

section \<open>The programs\<close>

text \<open>
  \<open>vhost\<close> registers the handlers of the test protocol and of TCP; \<open>vrouter\<close> the one of RIP, and runs
  the two RIP loops when there is an update rate.
\<close>

definition vhost_main :: "ip_stack \<Rightarrow> ip_stack" where
  "vhost_main st = RegisterRecvHandler 6 HandleTCP_handler (RegisterRecvHandler 0 HandleTestMessage st)"

definition vrouter_main :: "ip_stack \<Rightarrow> ip_stack \<times> bool" where
  "vrouter_main st =
     (let st' = RegisterRecvHandler 200 HandleRipMessage_handler st in (st', 0 < ri_RipUpdateRate (is_RipInfo st')))"

section \<open>What a started stack satisfies\<close>

definition interface_from :: "ip_config \<Rightarrow> string \<Rightarrow> iface \<Rightarrow> bool" where
  "interface_from c n i \<longleftrightarrow> if_Name i = n \<and> if_Up i \<and>
     (\<exists>x \<in> set (cf_Interfaces c). ic_Name x = n \<and> if_Prefix i = ic_AssignedPrefix x \<and> if_IP i = ic_AssignedIP x)"

lemma init_interfaces_spec:
  assumes "init_interfaces listens k xs ifs = Some ifs'"
    and "\<forall>n i. ifs n = Some i \<longrightarrow> interface_from c n i" and "set xs \<subseteq> set (cf_Interfaces c)"
  shows "(\<forall>n i. ifs' n = Some i \<longrightarrow> interface_from c n i) \<and> dom ifs' = dom ifs \<union> ic_Name ` set xs"
  using assms
proof (induction listens k xs ifs rule: init_interfaces.induct)
  case (2 listens k ifx rest ifs)
  let ?ifs = "ifs(ic_Name ifx \<mapsto> \<lparr>if_Name = ic_Name ifx, if_Prefix = ic_AssignedPrefix ifx, if_IP = ic_AssignedIP ifx,
         if_Neighbours = Map.empty, if_Up = True\<rparr>)"
  have "\<forall>n i. ?ifs n = Some i \<longrightarrow> interface_from c n i"
    using "2.prems"(2,3) by (auto simp: interface_from_def)
  moreover have "init_interfaces listens (Suc k) rest ?ifs = Some ifs'" "listens k"
    using "2.prems"(1) by (simp_all del: fun_upd_apply split: if_splits)
  ultimately show ?case using "2.IH" "2.prems"(3) by (simp del: fun_upd_apply)
qed simp

lemma init_neighbours_spec:
  assumes "init_neighbours ns ifs = Inr ifs'" and "\<forall>n i. ifs n = Some i \<longrightarrow> interface_from c n i"
  shows "(\<forall>n i. ifs' n = Some i \<longrightarrow> interface_from c n i) \<and> dom ifs' = dom ifs
     \<and> (\<forall>n i a. ifs n = Some i \<and> if_Neighbours i a \<noteq> None \<longrightarrow> (\<exists>j. ifs' n = Some j \<and> if_Neighbours j a \<noteq> None))
     \<and> (\<forall>x \<in> set ns. \<exists>i. ifs' (nc_InterfaceName x) = Some i \<and> if_Neighbours i (nc_DestAddr x) \<noteq> None)"
  using assms
proof (induction ns ifs rule: init_neighbours.induct)
  case (2 n rest ifs)
  from "2.prems"(1) obtain i where i: "ifs (nc_InterfaceName n) = Some i" by (cases "ifs (nc_InterfaceName n)") auto
  let ?j = "i\<lparr>if_Neighbours := (if_Neighbours i)(nc_DestAddr n \<mapsto> \<lparr>nb_IP = nc_DestAddr n, nb_UDPAddr = nc_UDPAddr n\<rparr>)\<rparr>"
  let ?ifs = "ifs(nc_InterfaceName n \<mapsto> ?j)"
  have "\<forall>m x. ?ifs m = Some x \<longrightarrow> interface_from c m x"
    using "2.prems"(2) i by (auto simp: interface_from_def)
  moreover have "init_neighbours rest ?ifs = Inr ifs'" using "2.prems"(1) i by (simp del: fun_upd_apply)
  ultimately have IH: "\<forall>m x. ifs' m = Some x \<longrightarrow> interface_from c m x" "dom ifs' = dom ?ifs"
    "\<And>m x a. ?ifs m = Some x \<Longrightarrow> if_Neighbours x a \<noteq> None \<Longrightarrow> \<exists>j. ifs' m = Some j \<and> if_Neighbours j a \<noteq> None"
    "\<forall>x \<in> set rest. \<exists>i. ifs' (nc_InterfaceName x) = Some i \<and> if_Neighbours i (nc_DestAddr x) \<noteq> None"
    using "2.IH" [of i] by blast+
  have "\<exists>j. ifs' m = Some j \<and> if_Neighbours j a \<noteq> None" if "ifs m = Some x" "if_Neighbours x a \<noteq> None" for m x a
  proof (cases "m = nc_InterfaceName n")
    case True
    then show ?thesis using IH(3) [of m ?j a] that i by simp
  qed (use IH(3) [of m x a] that in simp)
  moreover have "\<exists>j. ifs' (nc_InterfaceName n) = Some j \<and> if_Neighbours j (nc_DestAddr n) \<noteq> None"
    by (rule IH(3) [of _ ?j]) simp_all
  ultimately show ?case using IH i by auto
qed simp

lemma init_neighbours_panics:
  "init_neighbours ns ifs = Inl e \<longleftrightarrow> e = NilDereference \<and> \<not> nc_InterfaceName ` set ns \<subseteq> dom ifs"
proof (induction ns ifs rule: init_neighbours.induct)
  case (2 n rest ifs)
  show ?case
  proof (cases "ifs (nc_InterfaceName n)")
    case (Some i)
    then have "insert (nc_InterfaceName n) (dom ifs) = dom ifs" by blast
    then show ?thesis using "2.IH" [of i] Some by (simp del: fun_upd_apply) blast
  qed auto
qed simp

lemma fold_add_route:
  "fold add_route es tbl p = (case find (\<lambda>e. fe_Prefix e = p) (rev es) of None \<Rightarrow> tbl p | Some e \<Rightarrow> Some e)"
  by (induction es arbitrary: tbl) (auto simp: add_route_def find_append split: option.splits)

definition started :: "ip_config \<Rightarrow> ip_stack \<Rightarrow> bool" where
  "started c st \<longleftrightarrow>
     (\<forall>n i. is_Interfaces st n = Some i \<longrightarrow> interface_from c n i)
     \<and> dom (is_Interfaces st) = ic_Name ` set (cf_Interfaces c)
     \<and> (\<forall>x \<in> set (cf_Neighbors c). \<exists>i. is_Interfaces st (nc_InterfaceName x) = Some i \<and> if_Neighbours i (nc_DestAddr x) \<noteq> None)
     \<and> (\<forall>p e. is_ForwardingTable st p = Some e \<longrightarrow> fe_Prefix e = p \<and> fe_Cost e = 0
         \<and> (case cf_StaticRoutes c p of
              Some a \<Rightarrow> fe_Type e = SourceTypeStatic \<and> fe_InterfaceName e = '''' \<and> fe_NextHop e = a
            | None \<Rightarrow> fe_Type e = SourceTypeLocal
                \<and> (\<exists>i. is_Interfaces st (fe_InterfaceName e) = Some i \<and> if_Prefix i = p)))
     \<and> dom (is_ForwardingTable st) = {if_Prefix i | n i. is_Interfaces st n = Some i} \<union> dom (cf_StaticRoutes c)
     \<and> is_sent st = [] \<and> is_recvHandlers st = Map.empty"

lemma find_Some_ex: "find P xs = Some x \<Longrightarrow> P x \<and> x \<in> set xs"
  by (induction xs) (auto split: if_splits)

lemma initFwdTable_eq:
  assumes "set ifOrd = dom ifs" and "set rtOrd = dom (cf_StaticRoutes c)"
  shows "initFwdTable ifOrd rtOrd c ifs p = (case cf_StaticRoutes c p of
      Some a \<Rightarrow> Some (static_route (p, a))
    | None \<Rightarrow> find (\<lambda>e. fe_Prefix e = p) (rev (map (\<lambda>(n, i). local_route i) (range_map ifs ifOrd))))"
proof -
  let ?R = "map static_route (range_map (cf_StaticRoutes c) rtOrd)"
  have R: "e \<in> set ?R \<longleftrightarrow> (\<exists>q a. cf_StaticRoutes c q = Some a \<and> e = static_route (q, a))" for e
    using assms(2) by (auto simp: set_range_map image_iff)
  have "find (\<lambda>e. fe_Prefix e = p) (rev ?R) = map_option (\<lambda>a. static_route (p, a)) (cf_StaticRoutes c p)"
  proof (cases "find (\<lambda>e. fe_Prefix e = p) (rev ?R)")
    case None
    then have "fe_Prefix e \<noteq> p" if "e \<in> set ?R" for e using that by (auto simp: find_None_iff)
    then have "fe_Prefix (static_route (q, a)) \<noteq> p" if "cf_StaticRoutes c q = Some a" for q a using that R by blast
    then have "cf_StaticRoutes c p = None" by (cases "cf_StaticRoutes c p") (auto simp: static_route_def)
    with None show ?thesis by simp
  next
    case (Some e)
    from find_Some_ex [OF this] have "fe_Prefix e = p" "e \<in> set ?R" by simp_all
    then obtain q a where "cf_StaticRoutes c q = Some a" "e = static_route (q, a)" "fe_Prefix e = p" unfolding R by blast
    with Some show ?thesis by (simp add: static_route_def)
  qed
  then show ?thesis unfolding initFwdTable_def fold_add_route by (simp split: option.split)
qed

lemma init_stack_started:
  assumes "init_stack listens ifOrd rtOrd c = Inr (Some st)"
    and "set ifOrd = ic_Name ` set (cf_Interfaces c)" and "set rtOrd = dom (cf_StaticRoutes c)"
  shows "started c st \<and> is_RipInfo st = is_RipInfo empty_stack"
proof -
  obtain ifs ifs' where ifs: "init_interfaces listens 0 (cf_Interfaces c) Map.empty = Some ifs"
    and ifs': "init_neighbours (cf_Neighbors c) ifs = Inr ifs'"
    and st: "st = empty_stack\<lparr>is_Interfaces := ifs', is_ForwardingTable := initFwdTable ifOrd rtOrd c ifs'\<rparr>"
    using assms(1) by (auto simp: init_stack_def go_bind_eq_Inr split: option.splits)
  have 1: "\<forall>n i. ifs n = Some i \<longrightarrow> interface_from c n i" "dom ifs = ic_Name ` set (cf_Interfaces c)"
    using init_interfaces_spec [OF ifs, of c] by simp_all
  note 2 = init_neighbours_spec [OF ifs' 1(1)]
  have dom': "set ifOrd = dom ifs'" using 2 1(2) assms(2) by simp
  note tbl = initFwdTable_eq [OF dom' assms(3)]
  let ?L = "map (\<lambda>(n, i). local_route i) (range_map ifs' ifOrd)"
  have L: "e \<in> set ?L \<longleftrightarrow> (\<exists>n i. ifs' n = Some i \<and> e = local_route i)" for e
    using dom' by (auto simp: set_range_map image_iff)
  have entry: "fe_Prefix e = p \<and> fe_Cost e = 0 \<and> (case cf_StaticRoutes c p of
        Some a \<Rightarrow> fe_Type e = SourceTypeStatic \<and> fe_InterfaceName e = '''' \<and> fe_NextHop e = a
      | None \<Rightarrow> fe_Type e = SourceTypeLocal \<and> (\<exists>i. ifs' (fe_InterfaceName e) = Some i \<and> if_Prefix i = p))"
    if "initFwdTable ifOrd rtOrd c ifs' p = Some e" for p e
  proof (cases "cf_StaticRoutes c p")
    case None
    with that tbl have "find (\<lambda>e. fe_Prefix e = p) (rev ?L) = Some e" by simp
    from find_Some_ex [OF this] have "fe_Prefix e = p" "e \<in> set ?L" by simp_all
    then obtain n i where "ifs' n = Some i" "e = local_route i" "fe_Prefix e = p" unfolding L by blast
    moreover have "if_Name i = n" using 2 \<open>ifs' n = Some i\<close> by (auto simp: interface_from_def)
    ultimately show ?thesis using None by (simp add: local_route_def)
  next
    case (Some a)
    with that tbl show ?thesis by (auto simp: static_route_def)
  qed
  have locals: "(\<exists>e \<in> set ?L. fe_Prefix e = p) \<longleftrightarrow> (\<exists>n i. ifs' n = Some i \<and> if_Prefix i = p)" for p
  proof
    assume "\<exists>n i. ifs' n = Some i \<and> if_Prefix i = p"
    then obtain n i where "ifs' n = Some i" "fe_Prefix (local_route i) = p" by (auto simp: local_route_def)
    then show "\<exists>e \<in> set ?L. fe_Prefix e = p" using L by blast
  next
    assume "\<exists>e \<in> set ?L. fe_Prefix e = p"
    then obtain n i where "ifs' n = Some i" "fe_Prefix (local_route i) = p" unfolding Bex_def L by blast
    then show "\<exists>n i. ifs' n = Some i \<and> if_Prefix i = p" by (auto simp: local_route_def)
  qed
  have "initFwdTable ifOrd rtOrd c ifs' p \<noteq> None \<longleftrightarrow> cf_StaticRoutes c p \<noteq> None \<or> (\<exists>e \<in> set ?L. fe_Prefix e = p)" for p
    unfolding tbl by (cases "cf_StaticRoutes c p") (auto simp: find_None_iff)
  then have "dom (initFwdTable ifOrd rtOrd c ifs') = {if_Prefix i | n i. ifs' n = Some i} \<union> dom (cf_StaticRoutes c)"
    unfolding locals by blast
  moreover have f: "is_Interfaces st = ifs'" "is_ForwardingTable st = initFwdTable ifOrd rtOrd c ifs'" "is_sent st = []"
    "is_recvHandlers st = Map.empty" "is_RipInfo st = is_RipInfo empty_stack" unfolding st by (simp_all add: empty_stack_def)
  moreover have "dom ifs' = ic_Name ` set (cf_Interfaces c)" using 2 1(2) by simp
  moreover have "\<forall>p e. initFwdTable ifOrd rtOrd c ifs' p = Some e \<longrightarrow> fe_Prefix e = p \<and> fe_Cost e = 0 \<and> (case cf_StaticRoutes c p of
        Some a \<Rightarrow> fe_Type e = SourceTypeStatic \<and> fe_InterfaceName e = '''' \<and> fe_NextHop e = a
      | None \<Rightarrow> fe_Type e = SourceTypeLocal \<and> (\<exists>i. ifs' (fe_InterfaceName e) = Some i \<and> if_Prefix i = p))"
    using entry by blast
  ultimately show ?thesis using 2 unfolding started_def f by (intro conjI) (blast | assumption)+
qed

lemma find_rip_neighbours_all:
  assumes "\<forall>a \<in> set as. \<exists>n i. ifs n = Some i \<and> if_Neighbours i a \<noteq> None" and "\<forall>a. set (ripOrd a) = dom ifs"
  shows "\<exists>ns. find_rip_neighbours ripOrd ifs as = Some ns \<and> map rn_RouterIP ns = as"
  using assms(1)
proof (induction as)
  case (Cons a as)
  obtain ns where ns: "find_rip_neighbours ripOrd ifs as = Some ns" "map rn_RouterIP ns = as"
    using Cons by auto
  obtain n i where "ifs n = Some i" "if_Neighbours i a \<noteq> None" using Cons.prems by auto
  then have "(n, i) \<in> set (range_map ifs (ripOrd a))" "(\<lambda>(n, i). if_Neighbours i a \<noteq> None) (n, i)"
    using assms(2) by (auto simp: set_range_map)
  then have "find (\<lambda>(n, i). if_Neighbours i a \<noteq> None) (range_map ifs (ripOrd a)) \<noteq> None"
    by (auto simp: find_None_iff)
  then show ?case using ns by (auto split: option.splits)
qed simp

lemma init_interfaces_None:
  "init_interfaces listens k xs ifs = None \<longleftrightarrow> (\<exists>j < length xs. \<not> listens (k + j))"
proof (induction listens k xs ifs rule: init_interfaces.induct)
  case (2 listens k ifx rest ifs)
  have "(\<exists>j < length (ifx # rest). \<not> listens (k + j)) \<longleftrightarrow> \<not> listens k \<or> (\<exists>j < length rest. \<not> listens (Suc k + j))"
    by (auto simp: less_Suc_eq_0_disj)
  then show ?case using 2 by (simp del: fun_upd_apply)
qed simp

lemma started_neighbour:
  "started c st \<Longrightarrow> x \<in> set (cf_Neighbors c) \<Longrightarrow>
     \<exists>i. is_Interfaces st (nc_InterfaceName x) = Some i \<and> if_Neighbours i (nc_DestAddr x) \<noteq> None"
  unfolding started_def by (elim conjE) (rule bspec)

lemma initRIP_started:
  assumes "started c st" and "set (cf_RipNeighbors c) \<subseteq> nc_DestAddr ` set (cf_Neighbors c)"
    and "\<forall>a. set (ripOrd a) = dom (is_Interfaces st)"
  shows "\<exists>ns. initRIP ripOrd (cf_RipNeighbors c) t r st
     = (True, st\<lparr>is_RipInfo := \<lparr>ri_Neighbors = ns, ri_RipTimeout = t, ri_RipUpdateRate = r\<rparr>\<rparr>) \<and> map rn_RouterIP ns = cf_RipNeighbors c"
proof -
  let ?tbl = "\<lambda>p. map_option (\<lambda>e. if fe_Type e = SourceTypeStatic then e\<lparr>fe_Cost := 0\<rparr> else e) (is_ForwardingTable st p)"
  have "?tbl p = is_ForwardingTable st p" for p
  proof (cases "is_ForwardingTable st p")
    case (Some e)
    then have "fe_Cost e = 0" using assms(1) unfolding started_def by blast
    with Some show ?thesis by simp
  qed simp
  then have tbl: "st\<lparr>is_ForwardingTable := ?tbl\<rparr> = st" by simp
  have "\<forall>a \<in> set (cf_RipNeighbors c). \<exists>n i. is_Interfaces st n = Some i \<and> if_Neighbours i a \<noteq> None"
  proof
    fix a assume "a \<in> set (cf_RipNeighbors c)"
    then obtain x where "x \<in> set (cf_Neighbors c)" "nc_DestAddr x = a" using assms(2) by blast
    then show "\<exists>n i. is_Interfaces st n = Some i \<and> if_Neighbours i a \<noteq> None"
      using started_neighbour [OF assms(1)] by blast
  qed
  from find_rip_neighbours_all [OF this assms(3)] obtain ns
    where "find_rip_neighbours ripOrd (is_Interfaces st) (cf_RipNeighbors c) = Some ns" "map rn_RouterIP ns = cf_RipNeighbors c"
    by blast
  then show ?thesis unfolding initRIP_def Let_def tbl by (intro exI [of _ ns]) (simp only: option.case simp_thms)
qed

lemma started_rip_info: "started c (st\<lparr>is_RipInfo := i\<rparr>) = started c st"
  by (simp add: started_def cong: option.case_cong)

lemma started_rip_ok: "started c st \<Longrightarrow> rip_ok (is_ForwardingTable st)"
  unfolding started_def rip_ok_def by auto

lemma start_cases:
  fixes listens :: "nat \<Rightarrow> bool"
  assumes "ParseConfig file = Inr (Inr c)" and "set ifOrd = ic_Name ` set (cf_Interfaces c)"
    and "set rtOrd = dom (cf_StaticRoutes c)" and "\<forall>a. set (ripOrd a) = ic_Name ` set (cf_Interfaces c)"
  defines "r \<equiv> InitIPStackFromConfig listens ifOrd rtOrd ripOrd file"
  obtains (no_socket) "\<exists>k < length (cf_Interfaces c). \<not> listens k" and "r = Inr (Inl NoSocket)"
  | (unknown) "\<forall>k < length (cf_Interfaces c). listens k" and "\<not> nc_InterfaceName ` set (cf_Neighbors c) \<subseteq> ic_Name ` set (cf_Interfaces c)"
      and "r = Inl NilDereference"
  | (starts) st :: ip_stack where "\<forall>k < length (cf_Interfaces c). listens k"
      and "nc_InterfaceName ` set (cf_Neighbors c) \<subseteq> ic_Name ` set (cf_Interfaces c)" and "r = Inr (Inr st)" and "started c st"
      and "cf_RoutingMode c = RoutingTypeRIP \<Longrightarrow> map rn_RouterIP (ri_Neighbors (is_RipInfo st)) = cf_RipNeighbors c
         \<and> ri_RipTimeout (is_RipInfo st) = cf_RipTimeoutThreshold c \<and> ri_RipUpdateRate (is_RipInfo st) = cf_RipPeriodicUpdateRate c"
      and "cf_RoutingMode c \<noteq> RoutingTypeRIP \<Longrightarrow> is_RipInfo st = is_RipInfo empty_stack"
proof (cases "init_interfaces listens 0 (cf_Interfaces c) Map.empty")
  case None
  then show thesis using no_socket assms(1) init_interfaces_None [of listens 0 "cf_Interfaces c" Map.empty]
    by (simp add: r_def InitIPStackFromConfig_def init_stack_def)
next
  case (Some ifs)
  have all: "\<forall>k < length (cf_Interfaces c). listens k"
    using init_interfaces_None [of listens 0 "cf_Interfaces c" Map.empty] Some by auto
  have dom: "dom ifs = ic_Name ` set (cf_Interfaces c)" using init_interfaces_spec [OF Some, of c] by simp
  show thesis
  proof (cases "init_neighbours (cf_Neighbors c) ifs")
    case (Inl e)
    then have "e = NilDereference" "\<not> nc_InterfaceName ` set (cf_Neighbors c) \<subseteq> ic_Name ` set (cf_Interfaces c)"
      using init_neighbours_panics [of "cf_Neighbors c" ifs e] dom by auto
    then show thesis using unknown all assms(1) Some Inl by (simp add: r_def InitIPStackFromConfig_def init_stack_def)
  next
    case (Inr ifs')
    have known: "nc_InterfaceName ` set (cf_Neighbors c) \<subseteq> ic_Name ` set (cf_Interfaces c)"
      using init_neighbours_panics [of "cf_Neighbors c" ifs NilDereference] dom Inr by auto
    let ?st = "empty_stack\<lparr>is_Interfaces := ifs', is_ForwardingTable := initFwdTable ifOrd rtOrd c ifs'\<rparr>"
    have init: "init_stack listens ifOrd rtOrd c = Inr (Some ?st)" using Some Inr by (simp add: init_stack_def)
    note st = init_stack_started [OF init assms(2,3)]
    have ok: "config_ok c" using assms(1) parse_lines_ok [OF initial_config_ok] by (auto simp: ParseConfig_def split: option.splits)
    show thesis
    proof (cases "cf_RoutingMode c = RoutingTypeRIP")
      case False
      then show thesis using starts [OF all known _ conjunct1 [OF st]] assms(1) init
        by (simp add: r_def InitIPStackFromConfig_def empty_stack_def)
    next
      case True
      have "\<forall>a. set (ripOrd a) = dom (is_Interfaces ?st)" using assms(4) st by (simp add: started_def)
      from initRIP_started [OF conjunct1 [OF st] _ this] ok obtain ns where
        ns: "initRIP ripOrd (cf_RipNeighbors c) (cf_RipTimeoutThreshold c) (cf_RipPeriodicUpdateRate c) ?st
          = (True, ?st\<lparr>is_RipInfo := \<lparr>ri_Neighbors = ns, ri_RipTimeout = cf_RipTimeoutThreshold c, ri_RipUpdateRate = cf_RipPeriodicUpdateRate c\<rparr>\<rparr>)"
        "map rn_RouterIP ns = cf_RipNeighbors c" unfolding config_ok_def by blast
      let ?s = "?st\<lparr>is_RipInfo := \<lparr>ri_Neighbors = ns, ri_RipTimeout = cf_RipTimeoutThreshold c, ri_RipUpdateRate = cf_RipPeriodicUpdateRate c\<rparr>\<rparr>"
      have "r = Inr (Inr ?s)" using assms(1) init True ns(1) by (simp add: r_def InitIPStackFromConfig_def)
      from starts [OF all known this] started_rip_info conjunct1 [OF st] ns(2) True show thesis by simp
    qed
  qed
qed

text \<open>
  C30. Starting from a configuration file that parses. Either a socket cannot be opened, which is an
  error; or a neighbour names an unknown interface, which panics; or the stack has one interface per
  name, up and with its neighbours, and a table that holds exactly the networks of the interfaces and
  the static routes, which is well formed for RIP. With RIP routing every RIP neighbour has been found, in the
  order of the file, so that the error that \<open>InitIPStackFromConfig\<close> ignores does not occur.
\<close>

theorem stack_from_config:
  assumes "ParseConfig file = Inr (Inr c)" and "set ifOrd = ic_Name ` set (cf_Interfaces c)"
    and "set rtOrd = dom (cf_StaticRoutes c)" and "\<forall>a. set (ripOrd a) = ic_Name ` set (cf_Interfaces c)"
  shows "case InitIPStackFromConfig listens ifOrd rtOrd ripOrd file of
      Inl e \<Rightarrow> e = NilDereference \<and> (\<exists>n \<in> set (cf_Neighbors c). nc_InterfaceName n \<notin> ic_Name ` set (cf_Interfaces c))
    | Inr (Inl e) \<Rightarrow> e = NoSocket \<and> (\<exists>k < length (cf_Interfaces c). \<not> listens k)
    | Inr (Inr st) \<Rightarrow> started c st \<and> rip_ok (is_ForwardingTable st)
        \<and> (cf_RoutingMode c = RoutingTypeRIP \<longrightarrow> map rn_RouterIP (ri_Neighbors (is_RipInfo st)) = cf_RipNeighbors c)
        \<and> (cf_RoutingMode c \<noteq> RoutingTypeRIP \<longrightarrow> \<not> snd (vrouter_main st))"
proof (rule start_cases [OF assms, of listens], goal_cases)
  case 1
  then show ?case by simp
next
  case 2
  then show ?case by auto
next
  case (3 st)
  then show ?case using started_rip_ok [of c st]
    by (simp add: vrouter_main_def RegisterRecvHandler_def empty_stack_def)
qed

theorem stack_from_config_witness:
  "\<exists>c st. ParseConfig (Some (lines_text (map show_directive sample_directives))) = Inr (Inr c)
     \<and> InitIPStackFromConfig (\<lambda>_. True) [''if0''] [net 0 0] (\<lambda>_. [''if0'']) (Some (lines_text (map show_directive sample_directives))) = Inr (Inr st)
     \<and> started c st"
proof -
  let ?f = "Some (lines_text (map show_directive sample_directives))"
  let ?r = "InitIPStackFromConfig (\<lambda>_. True) [''if0''] [net 0 0] (\<lambda>_. [''if0'']) ?f"
  obtain c where c: "ParseConfig ?f = Inr (Inr c)" "set [''if0''] = ic_Name ` set (cf_Interfaces c)"
    "set [net 0 0] = dom (cf_StaticRoutes c)" "\<forall>n \<in> set (cf_Neighbors c). nc_InterfaceName n \<in> ic_Name ` set (cf_Interfaces c)"
    using ParseConfig_show [OF sample_directives_ok] by (simp add: sample_directives_def initial_config_def)
  have "\<forall>a. set ((\<lambda>_. [''if0'']) a) = ic_Name ` set (cf_Interfaces c)" using c(2) by simp
  note t = stack_from_config [OF c(1-3) this, of "\<lambda>_. True"]
  show ?thesis
  proof (cases ?r)
    case (Inl e)
    with t c(4) show ?thesis by simp
  next
    case (Inr r)
    with t c(1) show ?thesis by (cases r) auto
  qed
qed

end
