(* ===== verification/RouterRun.thy ===== *)
theory RouterRun
  imports IpInit
begin

text \<open>
  A router that runs (\<open>src/cmd/vrouter/main.go\<close>): the goroutines of the IP layer as operations on one state,
  in any order. The listeners put datagrams into \<open>IncomingPacketChan\<close>, \<open>RunIPLayer\<close> takes them out, validates,
  delivers or forwards them and handles RIP messages; \<open>UpdateLoop\<close> and \<open>TimeoutLoop\<close> tick; the triggered updates
  that \<open>CheckForTimeouts\<close> starts are sent at some later time; the command line sends, and switches interfaces.
\<close>

section \<open>The running router\<close>

text \<open>\<open>rt_incoming\<close> is the channel of packets; \<open>rt_updates\<close> the goroutines that still have an update to send.\<close>

record running_router =
  rt_stack :: ip_stack
  rt_incoming :: "bytes list"
  rt_updates :: "rip_entry list list"

text \<open>One round of \<open>RunIPLayer\<close>, with the call of the handler that \<open>ipForwarding\<close> makes.\<close>

definition handle_packet :: "iptcp_headers \<Rightarrow> netstack \<Rightarrow> string list \<Rightarrow> (nat \<Rightarrow> netip_prefix list) \<Rightarrow> nat \<Rightarrow> int
    \<Rightarrow> (rip_neighbour \<Rightarrow> netip_prefix list) \<Rightarrow> bytes \<Rightarrow> ip_stack \<Rightarrow> go_panic + ip_stack" where
  "handle_packet ih ns ifOrd ord fuel now ripOrd msgBytes st =
     go_bind (DeserializeAndValidatePacket ih ns msgBytes) (\<lambda>(message, hdr, ok).
       if \<not> ok then Inr st
       else go_bind (deref hdr) (\<lambda>h.
         go_bind (ipForwarding ih ns ifOrd ord fuel h message st) (\<lambda>(outcome, st').
           if outcome = Delivered HandleRipMessage_handler
           then HandleRipMessage ih ns now ripOrd h message st' else Inr st')))"

text \<open>
  The loops of RIP. \<open>UpdateLoop\<close> asks for routes, sends an update and then one per tick; \<open>time.NewTicker\<close> panics when
  the interval of \<open>TimeoutLoop\<close>, a sixth of the timeout, is not positive. A tick of \<open>TimeoutLoop\<close> may start a goroutine.
\<close>

definition UpdateLoop_start :: "iptcp_headers \<Rightarrow> netstack \<Rightarrow> running_router \<Rightarrow> go_panic + running_router" where
  "UpdateLoop_start ih ns r = go_bind (sendRIPRequest ih ns (rt_stack r)) (\<lambda>st. Inr (r\<lparr>rt_stack := st\<rparr>))"

definition UpdateLoop_round :: "iptcp_headers \<Rightarrow> netstack \<Rightarrow> (rip_neighbour \<Rightarrow> netip_prefix list) \<Rightarrow> running_router \<Rightarrow> go_panic + running_router" where
  "UpdateLoop_round ih ns ord r = go_bind (sendPeriodicUpdate ih ns ord (rt_stack r)) (\<lambda>st. Inr (r\<lparr>rt_stack := st\<rparr>))"

definition TimeoutLoop_start :: "running_router \<Rightarrow> go_panic + running_router" where
  "TimeoutLoop_start r = (if ri_RipTimeout (is_RipInfo (rt_stack r)) div 6 \<le> 0 then Inl LibraryPanic else Inr r)"

definition TimeoutLoop_round :: "int \<Rightarrow> netip_prefix list \<Rightarrow> running_router \<Rightarrow> running_router" where
  "TimeoutLoop_round now ord r =
     (let (timedOut, st) = CheckForTimeouts now ord (rt_stack r) in
      r\<lparr>rt_stack := st, rt_updates := rt_updates r @ (if 0 < length timedOut then [timedOut] else [])\<rparr>)"

datatype router_op =
    Arrives string bytes
  | ProcessPacket "string list" "nat \<Rightarrow> netip_prefix list" nat int "rip_neighbour \<Rightarrow> netip_prefix list"
  | RequestRoutes
  | StartTimeouts
  | UpdateTick "rip_neighbour \<Rightarrow> netip_prefix list"
  | TimeoutTick int "netip_prefix list"
  | SendUpdate nat
  | TypedSend netip_addr bytes "nat \<Rightarrow> netip_prefix list" nat
  | TypedDown string
  | TypedUp string

fun router_do :: "iptcp_headers \<Rightarrow> netstack \<Rightarrow> router_op \<Rightarrow> running_router \<Rightarrow> go_panic + running_router" where
  "router_do ih ns (Arrives name datagram) r =
     Inr (case is_Interfaces (rt_stack r) name of None \<Rightarrow> r
       | Some i \<Rightarrow> (case LinkLayerListen i datagram of None \<Rightarrow> r
           | Some b \<Rightarrow> r\<lparr>rt_incoming := rt_incoming r @ [b]\<rparr>))"
| "router_do ih ns (ProcessPacket ifOrd ord fuel now ripOrd) r =
     (case rt_incoming r of [] \<Rightarrow> Inr r
      | b # rest \<Rightarrow> go_bind (handle_packet ih ns ifOrd ord fuel now ripOrd b (rt_stack r)) (\<lambda>st.
          Inr (r\<lparr>rt_stack := st, rt_incoming := rest\<rparr>)))"
| "router_do ih ns RequestRoutes r = UpdateLoop_start ih ns r"
| "router_do ih ns StartTimeouts r = TimeoutLoop_start r"
| "router_do ih ns (UpdateTick ord) r = UpdateLoop_round ih ns ord r"
| "router_do ih ns (TimeoutTick now ord) r = Inr (TimeoutLoop_round now ord r)"
| "router_do ih ns (SendUpdate k) r =
     (if k < length (rt_updates r) then
        go_bind (SendTriggeredUpdate ih ns (rt_updates r ! k) (rt_stack r)) (\<lambda>st.
          Inr (r\<lparr>rt_stack := st, rt_updates := take k (rt_updates r) @ drop (Suc k) (rt_updates r)\<rparr>))
      else Inr r)"
| "router_do ih ns (TypedSend dest message ord fuel) r =
     go_bind (SendIP ih ns ord fuel dest message ProtocolTypeTest (rt_stack r)) (\<lambda>(ok, st). Inr (r\<lparr>rt_stack := st\<rparr>))"
| "router_do ih ns (TypedDown name) r = Inr (r\<lparr>rt_stack := snd (IFDown name (rt_stack r))\<rparr>)"
| "router_do ih ns (TypedUp name) r = Inr (r\<lparr>rt_stack := snd (IFUp name (rt_stack r))\<rparr>)"

lemmas loop_defs [simp] = UpdateLoop_start_def UpdateLoop_round_def TimeoutLoop_round_def

text \<open>The orders in which maps are visited have all their keys, and nothing else.\<close>

definition visits :: "'k list \<Rightarrow> ('k \<rightharpoonup> 'v) \<Rightarrow> bool" where
  "visits ks m \<longleftrightarrow> distinct ks \<and> set ks = dom m"

fun op_ok :: "router_op \<Rightarrow> running_router \<Rightarrow> bool" where
  "op_ok (ProcessPacket ifOrd ord fuel now ripOrd) r \<longleftrightarrow> visits ifOrd (is_Interfaces (rt_stack r))
     \<and> orders ord (is_ForwardingTable (rt_stack r)) \<and> (\<forall>n. visits (ripOrd n) (is_ForwardingTable (rt_stack r)))"
| "op_ok (UpdateTick ord) r \<longleftrightarrow> (\<forall>n. visits (ord n) (is_ForwardingTable (rt_stack r)))"
| "op_ok (TimeoutTick now ord) r \<longleftrightarrow> visits ord (is_ForwardingTable (rt_stack r))"
| "op_ok (TypedSend dest message ord fuel) r \<longleftrightarrow> dest \<noteq> NoAddr \<and> length message < 65516
     \<and> orders ord (is_ForwardingTable (rt_stack r))"
| "op_ok StartTimeouts r \<longleftrightarrow> 0 < ri_RipUpdateRate (is_RipInfo (rt_stack r))"
| "op_ok _ r \<longleftrightarrow> True"

inductive router_reach :: "iptcp_headers \<Rightarrow> netstack \<Rightarrow> ip_stack \<Rightarrow> running_router \<Rightarrow> bool" for ih ns st0 where
  router_starts: "router_reach ih ns st0 \<lparr>rt_stack = st0, rt_incoming = [], rt_updates = []\<rparr>"
| router_goes_on: "router_reach ih ns st0 r \<Longrightarrow> op_ok op r \<Longrightarrow> router_do ih ns op r = Inr r' \<Longrightarrow> router_reach ih ns st0 r'"

section \<open>The invariant\<close>

text \<open>
  A stack whose RIP operations cannot fail: prefixes that marshal, neighbours that resolve to an address,
  routes that lead to interfaces which exist.
\<close>

definition good_stack :: "ip_stack \<Rightarrow> bool" where
  "good_stack st \<longleftrightarrow> rip_ok (is_ForwardingTable st) \<and> finite (dom (is_ForwardingTable st))
     \<and> (\<forall>p \<in> dom (is_ForwardingTable st). valid_prefix p)
     \<and> (\<forall>p e. is_ForwardingTable st p = Some e \<and> fe_InterfaceName e \<noteq> '''' \<longrightarrow> is_Interfaces st (fe_InterfaceName e) \<noteq> None)
     \<and> (\<forall>n i. is_Interfaces st n = Some i \<longrightarrow> if_IP i \<noteq> NoAddr)
     \<and> (\<forall>nb \<in> set (ri_Neighbors (is_RipInfo st)). rn_RouterIP nb \<noteq> NoAddr
         \<and> (\<exists>i. is_Interfaces st (rn_InterfaceName nb) = Some i \<and> if_Neighbours i (rn_RouterIP nb) \<noteq> None))"

text \<open>What a run may change: routes are added, RIP routes change, interfaces go up and down, datagrams leave.\<close>

definition up_all :: "(string \<rightharpoonup> iface) \<Rightarrow> (string \<rightharpoonup> iface)" where
  "up_all ifs = (\<lambda>n. map_option (\<lambda>i. i\<lparr>if_Up := True\<rparr>) (ifs n))"

definition evolves :: "ip_stack \<Rightarrow> ip_stack \<Rightarrow> bool" where
  "evolves st st' \<longleftrightarrow> rip_grows (is_ForwardingTable st) (is_ForwardingTable st')
     \<and> up_all (is_Interfaces st') = up_all (is_Interfaces st)
     \<and> is_RipInfo st' = is_RipInfo st \<and> is_recvHandlers st' = is_recvHandlers st
     \<and> (\<exists>xs. is_sent st' = is_sent st @ xs)"

definition stack_keeps :: "ip_stack \<Rightarrow> ip_stack \<Rightarrow> bool" where
  "stack_keeps st st' \<longleftrightarrow> (good_stack st \<longrightarrow> good_stack st' \<and> evolves st st')"

lemma evolves_refl: "evolves st st"
  by (simp add: evolves_def rip_grows_def)

lemma stack_keeps_refl [simp]: "stack_keeps st st"
  by (simp add: stack_keeps_def evolves_refl)

lemma stack_keeps_trans: "stack_keeps a b \<Longrightarrow> stack_keeps b c \<Longrightarrow> stack_keeps a c"
  unfolding stack_keeps_def evolves_def by (auto dest: rip_grows_trans)

lemma up_all_lookup: "up_all ifs' = up_all ifs \<Longrightarrow> ifs n = Some i \<Longrightarrow> \<exists>b. ifs' n = Some (i\<lparr>if_Up := b\<rparr>)"
proof -
  assume "up_all ifs' = up_all ifs" "ifs n = Some i"
  then obtain j where j: "ifs' n = Some j" "j\<lparr>if_Up := True\<rparr> = i\<lparr>if_Up := True\<rparr>"
    unfolding up_all_def by (drule_tac fun_cong [of _ _ n]) auto
  from j(2) have "j = i\<lparr>if_Up := if_Up j\<rparr>" by (cases i; cases j) simp
  then show ?thesis using j(1) by metis
qed

text \<open>Sending.\<close>

lemma stack_keeps_sent: "stack_keeps st (st\<lparr>is_sent := is_sent st @ xs\<rparr>)"
proof -
  have "good_stack (st\<lparr>is_sent := is_sent st @ xs\<rparr>) = good_stack st" by (cases st) (simp only: good_stack_def ip_stack.simps)
  then show ?thesis by (simp add: stack_keeps_def evolves_def rip_grows_def)
qed

lemma LinkLayerSend_keeps [simp]: "stack_keeps st (LinkLayerSend i u b st)"
  using stack_keeps_sent [of st "[(if_Name i, u, b)]"] by (simp add: LinkLayerSend_def)

lemma send_all_keeps: "send_all ih ns msg nbrs st = Inr st' \<Longrightarrow> stack_keeps st st'"
  using send_all_frame [of ih ns msg nbrs st st'] stack_keeps_sent by auto

lemma ipForwarding_keeps:
  assumes "ipForwarding ih ns ifOrd ord fuel h message st = Inr (outcome, st')"
  shows "stack_keeps st st' \<and> ((\<exists>hd. outcome = Delivered hd) \<longrightarrow> st' = st)"
  using assms
  by (auto simp: ipForwarding_def forward_packet_def Let_def go_bind_eq_Inr
      split: if_split_asm option.split_asm lpm_result.split_asm source_type.split_asm)

lemma SendIP_keeps: "SendIP ih ns ord fuel dest message proto st = Inr (ok, st') \<Longrightarrow> stack_keeps st st'"
  by (auto simp: SendIP_def go_bind_eq_Inr split: option.split_asm lpm_result.split_asm source_type.split_asm)

lemma set_up_keeps: "stack_keeps st (snd (set_up up name st))"
proof (cases "is_Interfaces st name")
  case (Some i)
  then have "up_all ((is_Interfaces st)(name \<mapsto> i\<lparr>if_Up := up\<rparr>)) = up_all (is_Interfaces st)"
    by (auto simp: up_all_def fun_eq_iff)
  then show ?thesis using Some by (fastforce simp: set_up_def stack_keeps_def good_stack_def evolves_def rip_grows_def)
qed (simp add: set_up_def)

text \<open>Handling RIP messages: what is learnt has prefixes that marshal, and no interface.\<close>

definition table_step :: "rip_entry list \<Rightarrow> fwd_table \<Rightarrow> fwd_table \<Rightarrow> bool" where
  "table_step es tbl tbl' \<longleftrightarrow> dom tbl' \<subseteq> dom tbl \<union> rp_Prefix ` set es
     \<and> (\<forall>p x. tbl' p = Some x \<and> fe_InterfaceName x \<noteq> '''' \<longrightarrow>
         (\<exists>y. tbl p = Some y \<and> fe_InterfaceName y = fe_InterfaceName x))"

lemma table_step_trans: "table_step es a b \<Longrightarrow> table_step fs b c \<Longrightarrow> table_step (es @ fs) a c"
  unfolding table_step_def set_append image_Un by (intro conjI) (blast, metis)

lemma rip_update_step:
  "table_step [e] tbl (fst (rip_update now src e (tbl, ch)))
    \<and> (snd (rip_update now src e (tbl, ch)) = ch \<or> snd (rip_update now src e (tbl, ch)) = ch @ [e])"
  by (auto simp: table_step_def rip_update_def UpdateForwardingTable_def Let_def split: option.splits)

lemma fold_rip_update_step:
  "table_step es (fst s) (fst (fold (rip_update now src) es s))
    \<and> (\<exists>ch. snd (fold (rip_update now src) es s) = snd s @ ch \<and> set ch \<subseteq> set es \<and> length ch \<le> length es)"
proof (induction es arbitrary: s)
  case (Cons e es)
  obtain tbl ch where s: "s = (tbl, ch)" by (cases s)
  obtain t c where t: "rip_update now src e s = (t, c)" by force
  then have one: "table_step [e] tbl t" "c = ch \<or> c = ch @ [e]" using rip_update_step [of e tbl now src ch] s by auto
  from Cons.IH [of "(t, c)"] obtain ch' where IH: "table_step es t (fst (fold (rip_update now src) es (t, c)))"
    "snd (fold (rip_update now src) es (t, c)) = c @ ch'" "set ch' \<subseteq> set es" "length ch' \<le> length es" by auto
  have "table_step (e # es) tbl (fst (fold (rip_update now src) es (t, c)))"
    using table_step_trans [OF one(1) IH(1)] by simp
  moreover have "\<exists>d. c @ ch' = ch @ d \<and> set d \<subseteq> set (e # es) \<and> length d \<le> length (e # es)"
    using one(2) IH(3,4) by (elim disjE) (auto intro: exI [of _ ch'] exI [of _ "e # ch'"])
  ultimately show ?case using s t IH(2) by simp
qed (simp add: table_step_def)

lemma mask_Size_range: "0 \<le> mask_Size m \<and> mask_Size m \<le> 32"
  by (auto simp: mask_Size_def find_Some_iff split: option.split)

lemma read32_length: "read32 b = Some (w, r) \<Longrightarrow> length b = 4 + length r"
  by (induction b rule: read32.induct) auto

lemma read_entry_valid: "read_entry b = Some (e, r) \<Longrightarrow> valid_prefix (rp_Prefix e) \<and> length b = 12 + length r"
  using mask_Size_range by (auto simp: read_entry_def bind_eq_Some_conv valid_prefix_def PrefixFrom_def dest!: read32_length)

lemma read_entries_valid:
  "read_entries n b = Some es \<Longrightarrow> length es = n \<and> 12 * n \<le> length b \<and> (\<forall>e \<in> set es. valid_prefix (rp_Prefix e))"
proof (induction n arbitrary: b es)
  case (Suc n)
  then obtain e r es' where "read_entry b = Some (e, r)" "read_entries n r = Some es'" "es = e # es'"
    by (auto simp: bind_eq_Some_conv)
  then show ?case using Suc.IH [of r es'] read_entry_valid [of b e r] by auto
qed simp

lemma DeserializeRipMessage_valid:
  assumes "DeserializeRipMessage b = Some m"
  shows "12 * length (rm_Entries m) + 4 \<le> length b \<or> rm_Entries m = []"
    and "\<forall>e \<in> set (rm_Entries m). valid_prefix (rp_Prefix e)"
proof -
  have 16: "length x = 2 + length r" if "read16 x = Some (w, r)" for x w r
    using that by (induction x rule: read16.induct) auto
  show "12 * length (rm_Entries m) + 4 \<le> length b \<or> rm_Entries m = []" "\<forall>e \<in> set (rm_Entries m). valid_prefix (rp_Prefix e)"
    using assms by (auto simp: DeserializeRipMessage_def bind_eq_Some_conv split: if_split_asm dest!: 16 read_entries_valid)
qed

lemma good_stack_table:
  assumes "good_stack st" and "rip_ok tbl" and "finite (dom tbl)" and "\<forall>p \<in> dom tbl. valid_prefix p"
    and "\<forall>p x. tbl p = Some x \<and> fe_InterfaceName x \<noteq> '''' \<longrightarrow>
      (\<exists>y. is_ForwardingTable st p = Some y \<and> fe_InterfaceName y = fe_InterfaceName x)"
  shows "good_stack (st\<lparr>is_ForwardingTable := tbl\<rparr>)"
proof -
  have "\<forall>p e. tbl p = Some e \<and> fe_InterfaceName e \<noteq> '''' \<longrightarrow> is_Interfaces st (fe_InterfaceName e) \<noteq> None"
    using assms(1,5) unfolding good_stack_def by metis
  then show ?thesis using assms(1-4) unfolding good_stack_def by (cases st) (simp only: ip_stack.simps, blast)
qed

lemma learning_keeps:
  assumes "good_stack st" and "\<forall>e \<in> set es. valid_prefix (rp_Prefix e)"
  shows "stack_keeps st (st\<lparr>is_ForwardingTable := fst (fold (rip_update now src) es (is_ForwardingTable st, []))\<rparr>)"
proof -
  let ?s = "fold (rip_update now src) es (is_ForwardingTable st, [])"
  have ok: "rip_ok (fst ?s)" "rip_grows (is_ForwardingTable st) (fst ?s)"
    using fold_rip_update_keeps [of "(is_ForwardingTable st, [])" now src es] assms(1) by (simp_all add: good_stack_def)
  have step: "table_step es (is_ForwardingTable st) (fst ?s)"
    using fold_rip_update_step [of es "(is_ForwardingTable st, [])" now src] by simp
  then have dom: "dom (fst ?s) \<subseteq> dom (is_ForwardingTable st) \<union> rp_Prefix ` set es" by (simp add: table_step_def)
  moreover have "finite (dom (is_ForwardingTable st) \<union> rp_Prefix ` set es)"
    "\<forall>p \<in> dom (is_ForwardingTable st) \<union> rp_Prefix ` set es. valid_prefix p"
    using assms by (auto simp: good_stack_def)
  ultimately have "finite (dom (fst ?s))" "\<forall>p \<in> dom (fst ?s). valid_prefix p" by (auto intro: finite_subset)
  then have "good_stack (st\<lparr>is_ForwardingTable := fst ?s\<rparr>)"
    using good_stack_table [OF assms(1) ok(1)] step unfolding table_step_def by blast
  then show ?thesis using ok(2) by (simp add: stack_keeps_def evolves_def)
qed

lemma HandleRipMessage_response:
  assumes "DeserializeRipMessage b = Some m" and "rm_Command m \<noteq> RIPRequest"
    and "s = fold (rip_update now (ip_Src h)) (rm_Entries m) (is_ForwardingTable st, [])"
  shows "HandleRipMessage ih ns now ord h b st =
    (if snd s \<noteq> [] then SendTriggeredUpdate ih ns (snd s) (st\<lparr>is_ForwardingTable := fst s\<rparr>)
     else Inr (st\<lparr>is_ForwardingTable := fst s\<rparr>))"
  using assms by (simp add: HandleRipMessage_def Let_def split_beta)

lemma HandleRipMessage_keeps:
  assumes "good_stack st" and "HandleRipMessage ih ns now ord h b st = Inr st'"
  shows "stack_keeps st st'"
proof (cases "DeserializeRipMessage b")
  case (Some m)
  show ?thesis
  proof (cases "rm_Command m = RIPRequest")
    case True
    then show ?thesis using assms(2) Some send_all_keeps by (simp add: HandleRipMessage_def sendPeriodicUpdate_def)
  next
    case False
    let ?s = "fold (rip_update now (ip_Src h)) (rm_Entries m) (is_ForwardingTable st, [])"
    have "stack_keeps (st\<lparr>is_ForwardingTable := fst ?s\<rparr>) st'"
      using assms(2) send_all_keeps unfolding HandleRipMessage_response [OF Some False refl]
      by (auto simp: SendTriggeredUpdate_def Let_def split: if_split_asm)
    then show ?thesis
      by (rule stack_keeps_trans [OF learning_keeps [OF assms(1) DeserializeRipMessage_valid(2) [OF Some]]])
  qed
qed (use assms(2) in \<open>simp add: HandleRipMessage_def\<close>)

lemma length_range_map: "length (range_map m ks) \<le> length ks"
  by (induction ks) (auto simp: range_map_def split: option.split)

lemma visits_length: "visits ks m \<Longrightarrow> length ks = card (dom m)"
  unfolding visits_def by (metis distinct_card)

lemma CheckForTimeouts_keeps:
  assumes "CheckForTimeouts now ord st = (es, st')" and "good_stack st" and "visits ord (is_ForwardingTable st)"
  shows "stack_keeps st st' \<and> length es \<le> card (dom (is_ForwardingTable st')) \<and> (\<forall>e \<in> set es. valid_prefix (rp_Prefix e))"
proof -
  let ?tbl = "is_ForwardingTable st" and ?late = "timed_out now (ri_RipTimeout (is_RipInfo st))"
  let ?tbl' = "\<lambda>p. map_option (\<lambda>e. if ?late e then e\<lparr>fe_Cost := Infinity\<rparr> else e) (?tbl p)"
  have st': "st' = st\<lparr>is_ForwardingTable := ?tbl'\<rparr>" and es: "es = map (\<lambda>(p, e). \<lparr>rp_Cost = 16, rp_Prefix = p\<rparr>)
      (filter (\<lambda>(p, e). ?late e) (range_map ?tbl ord))"
    using assms(1) by (simp_all add: CheckForTimeouts_def Let_def)
  have dom: "dom ?tbl' = dom ?tbl" by (auto simp: dom_def)
  have "rip_ok ?tbl'" "rip_grows ?tbl ?tbl'"
    using assms(2) by (auto simp: good_stack_def rip_ok_def rip_grows_def timed_out_def)
  moreover have "good_stack st'" unfolding st'
  proof (rule good_stack_table [OF assms(2) \<open>rip_ok ?tbl'\<close>])
    show "finite (dom ?tbl')" "\<forall>p \<in> dom ?tbl'. valid_prefix p" using assms(2) unfolding dom good_stack_def by auto
  qed auto
  ultimately have "stack_keeps st st'" unfolding st' by (simp add: stack_keeps_def evolves_def)
  moreover have "length es \<le> length ord"
    unfolding es length_map by (rule le_trans [OF length_filter_le length_range_map])
  then have "length es \<le> card (dom (is_ForwardingTable st'))"
    unfolding st' visits_length [OF assms(3)] by (simp add: dom)
  moreover have "\<forall>e \<in> set es. valid_prefix (rp_Prefix e)"
    using assms(2) unfolding es good_stack_def by (auto simp: set_range_map)
  ultimately show ?thesis by blast
qed

lemma handle_packet_keeps:
  assumes "good_stack st" and "handle_packet ih ns ifOrd ord fuel now ripOrd b st = Inr st'"
  shows "stack_keeps st st'"
proof -
  obtain m h ok where d: "DeserializeAndValidatePacket ih ns b = Inr (m, h, ok)"
    using assms(2) by (auto simp: handle_packet_def go_bind_eq_Inr)
  show ?thesis
  proof (cases ok)
    case True
    then obtain x outcome st1 where "h = Some x" and f: "ipForwarding ih ns ifOrd ord fuel x m st = Inr (outcome, st1)"
      and st': "(if outcome = Delivered HandleRipMessage_handler then HandleRipMessage ih ns now ripOrd x m st1 else Inr st1) = Inr st'"
      using assms(2) d by (auto simp: handle_packet_def go_bind_eq_Inr)
    have "stack_keeps st st1" "good_stack st1" using ipForwarding_keeps [OF f] assms(1) by (auto simp: stack_keeps_def)
    then show ?thesis using st' HandleRipMessage_keeps [of st1] stack_keeps_trans by (auto split: if_split_asm)
  qed (use assms(2) d in \<open>simp add: handle_packet_def\<close>)
qed

section \<open>The invariant of a run\<close>

definition router_ok :: "ip_stack \<Rightarrow> running_router \<Rightarrow> bool" where
  "router_ok st0 r \<longleftrightarrow> good_stack (rt_stack r) \<and> evolves st0 (rt_stack r)
     \<and> (\<forall>us \<in> set (rt_updates r). length us \<le> card (dom (is_ForwardingTable (rt_stack r))) \<and> (\<forall>e \<in> set us. valid_prefix (rp_Prefix e)))
     \<and> (\<forall>b \<in> set (rt_incoming r). length b \<le> MaxMessageSize)"

lemma evolves_trans: "evolves a b \<Longrightarrow> evolves b c \<Longrightarrow> evolves a c"
  unfolding evolves_def by (auto dest: rip_grows_trans)

lemma stack_keeps_dom: "stack_keeps st st' \<Longrightarrow> good_stack st \<Longrightarrow> card (dom (is_ForwardingTable st)) \<le> card (dom (is_ForwardingTable st'))"
  unfolding stack_keeps_def evolves_def rip_grows_def good_stack_def by (auto intro: card_mono)

lemma router_okI:
  assumes "router_ok st0 r" and "stack_keeps (rt_stack r) (rt_stack r')"
    and "\<forall>us \<in> set (rt_updates r') - set (rt_updates r). length us \<le> card (dom (is_ForwardingTable (rt_stack r'))) \<and> (\<forall>e \<in> set us. valid_prefix (rp_Prefix e))"
    and "\<forall>b \<in> set (rt_incoming r') - set (rt_incoming r). length b \<le> MaxMessageSize"
  shows "router_ok st0 r'"
proof -
  have "card (dom (is_ForwardingTable (rt_stack r))) \<le> card (dom (is_ForwardingTable (rt_stack r')))"
    using stack_keeps_dom [OF assms(2)] assms(1) by (simp add: router_ok_def)
  moreover have "good_stack (rt_stack r')" "evolves st0 (rt_stack r')"
    using assms(1,2) evolves_trans by (auto simp: router_ok_def stack_keeps_def)
  moreover have "length us \<le> card (dom (is_ForwardingTable (rt_stack r'))) \<and> (\<forall>e \<in> set us. valid_prefix (rp_Prefix e))"
    if "us \<in> set (rt_updates r')" for us
  proof (cases "us \<in> set (rt_updates r)")
    case True
    then have "length us \<le> card (dom (is_ForwardingTable (rt_stack r)))" "\<forall>e \<in> set us. valid_prefix (rp_Prefix e)"
      using assms(1) by (auto simp: router_ok_def)
    then show ?thesis using calculation(1) by simp
  qed (use assms(3) that in blast)
  moreover have "length b \<le> MaxMessageSize" if "b \<in> set (rt_incoming r')" for b
    using assms(1,4) that by (cases "b \<in> set (rt_incoming r)") (auto simp: router_ok_def)
  ultimately show ?thesis unfolding router_ok_def by blast
qed

lemma router_do_ok:
  assumes "router_ok st0 r" and "op_ok op r" and "router_do ih ns op r = Inr r'"
  shows "router_ok st0 r'"
proof -
  have good: "good_stack (rt_stack r)" using assms(1) by (simp add: router_ok_def)
  show ?thesis
  proof (cases op)
    case (Arrives name d)
    then have "rt_stack r' = rt_stack r \<and> rt_updates r' = rt_updates r
        \<and> (rt_incoming r' = rt_incoming r \<or> rt_incoming r' = rt_incoming r @ [take MaxMessageSize d])"
      using assms(3) by (auto simp: LinkLayerListen_def Let_def split: option.splits if_splits)
    then show ?thesis by (intro router_okI [OF assms(1)]) auto
  next
    case (ProcessPacket ifOrd ord fuel now ripOrd)
    show ?thesis
    proof (cases "rt_incoming r")
      case (Cons b rest)
      then obtain st where st: "handle_packet ih ns ifOrd ord fuel now ripOrd b (rt_stack r) = Inr st"
        "r' = r\<lparr>rt_stack := st, rt_incoming := rest\<rparr>" using assms(3) ProcessPacket by (auto simp: go_bind_eq_Inr)
      show ?thesis by (rule router_okI [OF assms(1)]) (use st Cons handle_packet_keeps [OF good st(1)] in auto)
    qed (use assms(1,3) ProcessPacket in auto)
  next
    case (TimeoutTick now ord)
    obtain es st where c: "CheckForTimeouts now ord (rt_stack r) = (es, st)" by force
    have "visits ord (is_ForwardingTable (rt_stack r))" using assms(2) TimeoutTick by simp
    note k = CheckForTimeouts_keeps [OF c good this]
    have "r' = r\<lparr>rt_stack := st, rt_updates := rt_updates r @ (if 0 < length es then [es] else [])\<rparr>"
      using assms(3) TimeoutTick c by simp
    then show ?thesis using k by (intro router_okI [OF assms(1)]) auto
  next
    case (SendUpdate k)
    show ?thesis
    proof (cases "k < length (rt_updates r)")
      case True
      then obtain st where st: "SendTriggeredUpdate ih ns (rt_updates r ! k) (rt_stack r) = Inr st"
        "r' = r\<lparr>rt_stack := st, rt_updates := take k (rt_updates r) @ drop (Suc k) (rt_updates r)\<rparr>"
        using assms(3) SendUpdate by (auto simp: go_bind_eq_Inr)
      have "stack_keeps (rt_stack r) st" using st(1) send_all_keeps by (simp add: SendTriggeredUpdate_def Let_def)
      then show ?thesis using st(2) by (intro router_okI [OF assms(1)]) (auto dest: in_set_takeD in_set_dropD)
    qed (use assms(1,3) SendUpdate in auto)
  next
    case (TypedSend dest message ord fuel)
    then show ?thesis using assms(3) SendIP_keeps by (intro router_okI [OF assms(1)]) (auto simp: go_bind_eq_Inr)
  next
    case StartTimeouts
    then show ?thesis using assms(1,3) by (simp add: TimeoutLoop_start_def split: if_split_asm)
  qed (use assms(3) send_all_keeps set_up_keeps in \<open>intro router_okI [OF assms(1)];
    auto simp: go_bind_eq_Inr sendRIPRequest_def sendPeriodicUpdate_def IFDown_def IFUp_def\<close>)+
qed

lemma router_reach_ok: "router_reach ih ns st0 r \<Longrightarrow> good_stack st0 \<Longrightarrow> router_ok st0 r"
  by (induction rule: router_reach.induct) (auto simp: router_ok_def [of _ "\<lparr>rt_stack = _, rt_incoming = _, rt_updates = _\<rparr>"] evolves_refl intro: router_do_ok)

section \<open>A router that starts from a configuration\<close>

lemma find_rip_neighbours_found:
  "find_rip_neighbours ord ifs as = Some nbs \<Longrightarrow> nb \<in> set nbs \<Longrightarrow>
    rn_RouterIP nb \<in> set as \<and> (\<exists>n i. ifs n = Some i \<and> if_Neighbours i (rn_RouterIP nb) \<noteq> None \<and> rn_InterfaceName nb = if_Name i)"
proof (induction as arbitrary: nbs)
  case (Cons a as)
  obtain n i nbs' where f: "find (\<lambda>(n, i). if_Neighbours i a \<noteq> None) (range_map ifs (ord a)) = Some (n, i)"
    and nbs': "find_rip_neighbours ord ifs as = Some nbs'" "nbs = \<lparr>rn_RouterIP = a, rn_InterfaceName = if_Name i\<rparr> # nbs'"
    using Cons.prems(1) by (auto split: option.split_asm)
  from find_Some_ex [OF f] have "ifs n = Some i" "if_Neighbours i a \<noteq> None" by (auto simp: set_range_map)
  then show ?case using Cons.IH [OF nbs'(1)] nbs'(2) Cons.prems(2)
    by (cases "nb \<in> set nbs'") (simp, fastforce)
qed simp

lemma started_neighbours_found:
  assumes "InitIPStackFromConfig listens ifOrd rtOrd ripOrd file = Inr (Inr st)" and "ParseConfig file = Inr (Inr c)"
    and "nb \<in> set (ri_Neighbors (is_RipInfo st))"
  shows "rn_RouterIP nb \<in> set (cf_RipNeighbors c)
    \<and> (\<exists>n i. is_Interfaces st n = Some i \<and> if_Neighbours i (rn_RouterIP nb) \<noteq> None \<and> rn_InterfaceName nb = if_Name i)"
proof -
  obtain st0 where st0: "init_stack listens ifOrd rtOrd c = Inr (Some st0)"
    and st: "st = (if cf_RoutingMode c = RoutingTypeRIP
           then snd (initRIP ripOrd (cf_RipNeighbors c) (cf_RipTimeoutThreshold c) (cf_RipPeriodicUpdateRate c) st0) else st0)"
    using assms(1,2) by (auto simp: InitIPStackFromConfig_def go_bind_eq_Inr split: option.split_asm)
  have none: "ri_Neighbors (is_RipInfo st0) = []"
    using st0 by (auto simp: init_stack_def go_bind_eq_Inr empty_stack_def split: option.split_asm)
  then show ?thesis using assms(3) st find_rip_neighbours_found [of ripOrd "is_Interfaces st0" "cf_RipNeighbors c" _ nb]
    by (auto simp: initRIP_def Let_def split: if_split_asm option.split_asm)
qed

lemma started_good:
  assumes start: "started c st" and ok: "config_ok c" and nbs: "\<And>nb. nb \<in> set (ri_Neighbors (is_RipInfo st)) \<Longrightarrow>
      rn_RouterIP nb \<in> set (cf_RipNeighbors c)
      \<and> (\<exists>n i. is_Interfaces st n = Some i \<and> if_Neighbours i (rn_RouterIP nb) \<noteq> None \<and> rn_InterfaceName nb = if_Name i)"
  shows "good_stack st"
proof -
  let ?tbl = "is_ForwardingTable st"
  have ifs: "interface_from c n i" if "is_Interfaces st n = Some i" for n i
    using start that unfolding started_def by blast
  have ip: "if_IP i \<noteq> NoAddr \<and> masked (if_Prefix i)" if "is_Interfaces st n = Some i" for n i
    using ifs [OF that] ok unfolding interface_from_def config_ok_def by (metis (no_types))
  have dom: "dom ?tbl = {if_Prefix i | n i. is_Interfaces st n = Some i} \<union> dom (cf_StaticRoutes c)"
    using start unfolding started_def by (elim conjE)
  have "finite (dom (is_Interfaces st))" using start unfolding started_def by simp
  then have "finite ((\<lambda>n. if_Prefix (the (is_Interfaces st n))) ` dom (is_Interfaces st))" by (rule finite_imageI)
  moreover have "{if_Prefix i | n i. is_Interfaces st n = Some i} \<subseteq> (\<lambda>n. if_Prefix (the (is_Interfaces st n))) ` dom (is_Interfaces st)"
    by force
  ultimately have "finite {if_Prefix i | n i. is_Interfaces st n = Some i}" by (rule rev_finite_subset)
  moreover have "finite (dom (cf_StaticRoutes c))" using ok unfolding config_ok_def by (elim conjE)
  ultimately have fin: "finite (dom ?tbl)" unfolding dom by (rule finite_UnI)
  have valid: "valid_prefix p" if "masked p" for p
    using that by (auto simp: valid_prefix_def split: netip_addr.split_asm)
  have valid_static: "valid_prefix p" if "cf_StaticRoutes c p = Some a" for p a
    using that ok unfolding config_ok_def valid_prefix_def by blast
  have all_valid: "\<forall>p \<in> dom ?tbl. valid_prefix p" unfolding dom using ip valid valid_static by blast
  have names: "\<forall>p e. ?tbl p = Some e \<and> fe_InterfaceName e \<noteq> '''' \<longrightarrow> is_Interfaces st (fe_InterfaceName e) \<noteq> None"
  proof (intro allI impI)
    fix p e assume e: "?tbl p = Some e \<and> fe_InterfaceName e \<noteq> ''''"
    then have "case cf_StaticRoutes c p of
              Some a \<Rightarrow> fe_Type e = SourceTypeStatic \<and> fe_InterfaceName e = '''' \<and> fe_NextHop e = a
            | None \<Rightarrow> fe_Type e = SourceTypeLocal
                \<and> (\<exists>i. is_Interfaces st (fe_InterfaceName e) = Some i \<and> if_Prefix i = p)"
      using start unfolding started_def by blast
    then show "is_Interfaces st (fe_InterfaceName e) \<noteq> None" using e by (cases "cf_StaticRoutes c p") auto
  qed
  have "rn_RouterIP nb \<noteq> NoAddr \<and> (\<exists>i. is_Interfaces st (rn_InterfaceName nb) = Some i \<and> if_Neighbours i (rn_RouterIP nb) \<noteq> None)"
    if nb: "nb \<in> set (ri_Neighbors (is_RipInfo st))" for nb
  proof -
    from nbs [OF nb] obtain n i where i: "is_Interfaces st n = Some i" "if_Neighbours i (rn_RouterIP nb) \<noteq> None"
      "rn_InterfaceName nb = if_Name i" and in_c: "rn_RouterIP nb \<in> set (cf_RipNeighbors c)" by blast
    have "rn_InterfaceName nb = n" using ifs [OF i(1)] i(3) by (simp add: interface_from_def)
    moreover obtain x where "x \<in> set (cf_Neighbors c)" "rn_RouterIP nb = nc_DestAddr x"
      using in_c ok unfolding config_ok_def by blast
    then have "rn_RouterIP nb \<noteq> NoAddr" using ok unfolding config_ok_def by (elim conjE) simp
    ultimately show ?thesis using i by blast
  qed
  then show ?thesis unfolding good_stack_def
    using started_rip_ok [OF start] fin all_valid names ip by blast
qed

text \<open>The router that \<open>vrouter\<close> runs from a configuration file.\<close>

definition router_of :: "string option \<Rightarrow> ip_stack \<Rightarrow> bool" where
  "router_of file st \<longleftrightarrow> (\<exists>c listens ifOrd rtOrd ripOrd st1. ParseConfig file = Inr (Inr c)
     \<and> set ifOrd = ic_Name ` set (cf_Interfaces c) \<and> set rtOrd = dom (cf_StaticRoutes c)
     \<and> (\<forall>a. set (ripOrd a) = ic_Name ` set (cf_Interfaces c))
     \<and> InitIPStackFromConfig listens ifOrd rtOrd ripOrd file = Inr (Inr st1) \<and> st = fst (vrouter_main st1))"

lemma router_of_good:
  assumes "router_of file st"
  shows "good_stack st"
proof -
  from assms obtain c listens ifOrd rtOrd ripOrd st1 where c: "ParseConfig file = Inr (Inr c)"
    "set ifOrd = ic_Name ` set (cf_Interfaces c)" "set rtOrd = dom (cf_StaticRoutes c)"
    "\<forall>a. set (ripOrd a) = ic_Name ` set (cf_Interfaces c)"
    and i: "InitIPStackFromConfig listens ifOrd rtOrd ripOrd file = Inr (Inr st1)" and st: "st = fst (vrouter_main st1)"
    unfolding router_of_def by blast
  have "started c st1" using start_cases [OF c, of listens] i by (metis Inr_inject Inl_Inr_False)
  then have "good_stack st1"
    by (rule started_good [OF _ ParseConfig_ok [OF c(1)] started_neighbours_found [OF i c(1)]])
  moreover have "good_stack (RegisterRecvHandler p hd s) = good_stack s" for p hd s
    unfolding RegisterRecvHandler_def by (cases s) (simp only: good_stack_def ip_stack.simps)
  ultimately show ?thesis unfolding st by (simp add: vrouter_main_def Let_def)
qed

text \<open>
  C16. The tables of a router while it runs: from any configuration file, after datagrams with any bytes, ticks of
  the RIP loops, lines of the command line and delayed updates in any order. Every entry stands under its own
  prefix, no cost is above infinity, every prefix can be marshalled; no route has disappeared, and the
  local and static ones are as they were at the start; the interfaces, their addresses and neighbours are those of the
  start, up to being up or down.
\<close>

theorem running_router_keeps_table:
  assumes "router_of file st" and "router_reach ih ns st r"
  shows "rip_ok (is_ForwardingTable (rt_stack r)) \<and> rip_grows (is_ForwardingTable st) (is_ForwardingTable (rt_stack r))
    \<and> (\<forall>p \<in> dom (is_ForwardingTable (rt_stack r)). valid_prefix p)
    \<and> (\<forall>n. map_option (\<lambda>i. i\<lparr>if_Up := True\<rparr>) (is_Interfaces (rt_stack r) n)
          = map_option (\<lambda>i. i\<lparr>if_Up := True\<rparr>) (is_Interfaces st n))
    \<and> is_RipInfo (rt_stack r) = is_RipInfo st"
  using router_reach_ok [OF assms(2) router_of_good [OF assms(1)]]
  unfolding router_ok_def good_stack_def evolves_def up_all_def by (simp add: fun_eq_iff)

section \<open>What ends a router\<close>

lemma SerializePacket_sends:
  assumes "iptcp_ok ih" and "rfc1071 ns" and "sendable source dest message protocol (if new then TTLNew else ttl)"
  obtains w where "SerializePacket ih ns source dest message protocol ttl new = Inr w"
  using SerializePacket_wire [OF assms refl] by blast

lemma marshal_entry_length: "marshal_entry e = Inr b \<Longrightarrow> length b = 12"
  by (auto simp: marshal_entry_def be32_def split: netip_addr.split_asm option.split_asm)

lemma marshal_entries_length: "marshal_entries es = Inr b \<Longrightarrow> length b = 12 * length es"
  by (induction es arbitrary: b) (auto simp: go_bind_eq_Inr dest: marshal_entry_length)

lemma Marshal_sends:
  assumes "\<forall>e \<in> set (rm_Entries m). valid_prefix (rp_Prefix e)"
  obtains b where "Marshal m = Inr b" and "length b = 4 + 12 * length (rm_Entries m)"
proof -
  obtain bs where "marshal_entries (rm_Entries m) = Inr bs" using marshal_entries_roundtrip [OF assms] by blast
  then show thesis using that marshal_entries_length [of "rm_Entries m" bs] by (simp add: Marshal_def be16_def Let_def)
qed

text \<open>A message of at most 5459 routes fits into a packet.\<close>

definition fits_packet :: "rip_entry list \<Rightarrow> bool" where
  "fits_packet es \<longleftrightarrow> length es \<le> 5459 \<and> (\<forall>e \<in> set es. valid_prefix (rp_Prefix e))"

lemma SendRipMessage_sends:
  assumes net: "iptcp_ok ih" "rfc1071 ns"
    and "good_stack st" and "n \<in> set (ri_Neighbors (is_RipInfo st))" and "fits_packet (rm_Entries m)"
  obtains st' where "SendRipMessage ih ns m n st = Inr st'"
proof -
  obtain b where b: "Marshal m = Inr b" "length b = 4 + 12 * length (rm_Entries m)"
    using Marshal_sends assms(5) unfolding fits_packet_def by blast
  obtain i x where i: "is_Interfaces st (rn_InterfaceName n) = Some i" "if_Neighbours i (rn_RouterIP n) = Some x"
    "rn_RouterIP n \<noteq> NoAddr" "if_IP i \<noteq> NoAddr"
    using assms(3,4) unfolding good_stack_def by blast
  then have "sendable (if_IP i) (rn_RouterIP n) b ProtocolTypeRIP (if True then TTLNew else TTLNew)"
    using b(2) assms(5) by (simp add: sendable_def fits_packet_def)
  then obtain w where "SerializePacket ih ns (if_IP i) (rn_RouterIP n) b ProtocolTypeRIP TTLNew True = Inr w"
    by (rule SerializePacket_sends [OF net])
  then show thesis using that b(1) i(1,2) by (simp add: SendRipMessage_def Let_def)
qed

lemma send_all_sends:
  assumes net: "iptcp_ok ih" "rfc1071 ns"
    and "good_stack st" and "set nbrs \<subseteq> set (ri_Neighbors (is_RipInfo st))" and "\<forall>n \<in> set nbrs. fits_packet (rm_Entries (msg n))"
  shows "\<exists>st'. send_all ih ns msg nbrs st = Inr st'"
  using assms(3-5)
proof (induction nbrs arbitrary: st)
  case (Cons n nbrs)
  obtain st1 where st1: "SendRipMessage ih ns (msg n) n st = Inr st1"
    by (rule SendRipMessage_sends [OF net, of st n "msg n"]) (use Cons.prems in simp_all)
  obtain xs where "st1 = st\<lparr>is_sent := is_sent st @ xs\<rparr>" using SendRipMessage_frame [OF st1] by blast
  then have "good_stack st1" "is_RipInfo st1 = is_RipInfo st"
    using stack_keeps_sent [of st xs] Cons.prems(1) by (simp_all add: stack_keeps_def)
  then show ?case using Cons st1 by simp
qed simp

lemma periodic_message_fits:
  assumes "good_stack st" and "visits (ord n) (is_ForwardingTable st)"
  shows "length (rm_Entries (periodic_message ord (is_ForwardingTable st) n)) = card (dom (is_ForwardingTable st))"
    and "\<forall>e \<in> set (rm_Entries (periodic_message ord (is_ForwardingTable st) n)). valid_prefix (rp_Prefix e)"
proof -
  let ?tbl = "is_ForwardingTable st"
  have "length (range_map ?tbl ks) = length ks" if "set ks \<subseteq> dom ?tbl" for ks
    using that by (induction ks) (auto simp: range_map_def)
  then show "length (rm_Entries (periodic_message ord ?tbl n)) = card (dom ?tbl)"
    using assms(2) visits_length [OF assms(2)] by (simp add: periodic_message_def Let_def visits_def)
  have "valid_prefix (fe_Prefix e)" if "(p, e) \<in> set (range_map ?tbl (ord n))" for p e
  proof -
    have "?tbl p = Some e" using that by (simp add: set_range_map)
    then show ?thesis using assms(1) unfolding good_stack_def rip_ok_def by blast
  qed
  then show "\<forall>e \<in> set (rm_Entries (periodic_message ord ?tbl n)). valid_prefix (rp_Prefix e)"
    by (auto simp: periodic_message_def Let_def advertised_def)
qed

lemma sendPeriodicUpdate_sends:
  assumes net: "iptcp_ok ih" "rfc1071 ns" and "good_stack st" and "card (dom (is_ForwardingTable st)) \<le> 5459" and "\<forall>n. visits (ord n) (is_ForwardingTable st)"
  shows "\<exists>st'. sendPeriodicUpdate ih ns ord st = Inr st'"
  unfolding sendPeriodicUpdate_def
  using send_all_sends [OF net assms(3) subset_refl] periodic_message_fits [where st = st and ord = ord, OF assms(3)] assms(4,5)
  by (simp add: fits_packet_def)

lemma HandleRipMessage_returns:
  assumes net: "iptcp_ok ih" "rfc1071 ns" and "good_stack st" and "card (dom (is_ForwardingTable st)) \<le> 5459" and "\<forall>n. visits (ord n) (is_ForwardingTable st)"
    and "length b \<le> 1400"
  shows "\<exists>st'. HandleRipMessage ih ns now ord h b st = Inr st'"
proof (cases "DeserializeRipMessage b")
  case (Some m)
  show ?thesis
  proof (cases "rm_Command m = RIPRequest")
    case True
    then show ?thesis using Some sendPeriodicUpdate_sends [OF assms(1-5)] by (simp add: HandleRipMessage_def)
  next
    case False
    let ?s = "fold (rip_update now (ip_Src h)) (rm_Entries m) (is_ForwardingTable st, [])"
    let ?st = "st\<lparr>is_ForwardingTable := fst ?s\<rparr>"
    note m = DeserializeRipMessage_valid [OF Some]
    have good: "good_stack ?st" using learning_keeps [OF assms(3) m(2)] assms(3) by (simp add: stack_keeps_def)
    obtain ch where "snd ?s = ch" "set ch \<subseteq> set (rm_Entries m)" "length ch \<le> length (rm_Entries m)"
      using fold_rip_update_step [of "rm_Entries m" "(is_ForwardingTable st, [])" now "ip_Src h"] by auto
    then have "fits_packet (snd ?s)" using m assms(6) by (auto simp: fits_packet_def)
    then have "\<exists>st'. SendTriggeredUpdate ih ns (snd ?s) ?st = Inr st'"
      unfolding SendTriggeredUpdate_def Let_def by (intro send_all_sends [OF net good]) simp_all
    then show ?thesis unfolding HandleRipMessage_response [OF Some False refl] by simp
  qed
qed (simp add: HandleRipMessage_def)

text \<open>
  The packets whose arrival ends the process: they parse, but are shorter than their header says, or have a wrong
  checksum or no time to live.
\<close>

definition fatal_packet :: "iptcp_headers \<Rightarrow> netstack \<Rightarrow> bytes \<Rightarrow> bool" where
  "fatal_packet ih ns b \<longleftrightarrow> (case ih_ParseHeader ih b of None \<Rightarrow> False
     | Some h \<Rightarrow> int (length b) < ip_Len h
         \<or> ValidateChecksum ns (take (nat (ip_Len h)) b) (word_of_int (ip_Checksum h)) \<noteq> word_of_int (ip_Checksum h)
         \<or> ip_TTL h \<le> 0)"

lemma routes_found: "routes tbl dest r \<Longrightarrow> r = LpmFound e d \<Longrightarrow> (\<exists>p. tbl p = Some e) \<and> fe_InterfaceName e \<noteq> ''''"
  by (induction rule: routes.induct) auto

lemma lpm_on_interface:
  assumes "good_stack st" and "orders ord (is_ForwardingTable st)"
    and "LongestPrefixMatch ord fuel (is_ForwardingTable st) dest = Some (LpmFound e d)"
  obtains i where "is_Interfaces st (fe_InterfaceName e) = Some i"
  using routes_found [OF lpm_sound [OF assms(2,3)] refl] assms(1) unfolding good_stack_def by blast

lemma SendIP_returns:
  assumes net: "iptcp_ok ih" "rfc1071 ns" and good: "good_stack st" and "orders ord (is_ForwardingTable st)"
    and "dest \<noteq> NoAddr" and "length message < 65516"
  shows "\<exists>x. SendIP ih ns ord fuel dest message ProtocolTypeTest st = Inr x"
proof (cases "\<exists>e d. LongestPrefixMatch ord fuel (is_ForwardingTable st) dest = Some (LpmFound e d)")
  case True
  then obtain e d where l: "LongestPrefixMatch ord fuel (is_ForwardingTable st) dest = Some (LpmFound e d)" by blast
  obtain i where i: "is_Interfaces st (fe_InterfaceName e) = Some i" by (rule lpm_on_interface [OF good assms(4) l])
  then have "if_IP i \<noteq> NoAddr" using good unfolding good_stack_def by blast
  then have "sendable (if_IP i) dest message ProtocolTypeTest (if True then TTLNew else 0)"
    using assms(5,6) by (simp add: sendable_def)
  then obtain w where "SerializePacket ih ns (if_IP i) dest message ProtocolTypeTest 0 True = Inr w"
    by (rule SerializePacket_sends [OF net])
  then show ?thesis using l i by (auto simp: SendIP_def split: source_type.split option.split)
qed (auto simp: SendIP_def split: option.split lpm_result.split)

lemma ipForwarding_returns:
  assumes net: "iptcp_ok ih" "rfc1071 ns" and good: "good_stack st" and ord: "orders ord (is_ForwardingTable st)"
    and h: "ih_ParseHeader ih b = Some h" and m: "length message \<le> 1400"
  shows "\<exists>x. ipForwarding ih ns ifOrd ord fuel h message st = Inr x"
proof -
  have "\<exists>x. forward_packet ih ns (h\<lparr>ip_TTL := ip_TTL h - 1\<rparr>) message e d st = Inr x"
    if l: "LongestPrefixMatch ord fuel (is_ForwardingTable st) (ip_Dst h) = Some (LpmFound e d)" and "\<not> ip_TTL h - 1 \<le> 0" for e d
  proof -
    have f: "ip_TTL h < 256" "0 \<le> ip_Protocol h" "ip_Protocol h < 256" "ip_Src h \<noteq> NoAddr" "ip_Dst h \<noteq> NoAddr"
      using net(1) h unfolding iptcp_ok_def by blast+
    have "sendable (ip_Src h) (ip_Dst h) message (ip_Protocol h) (if False then TTLNew else ip_TTL h - 1)"
      using f m that(2) by (simp add: sendable_def)
    then obtain w where "SerializePacket ih ns (ip_Src h) (ip_Dst h) message (ip_Protocol h) (ip_TTL h - 1) False = Inr w"
      by (rule SerializePacket_sends [OF net])
    moreover obtain i where "is_Interfaces st (fe_InterfaceName e) = Some i" by (rule lpm_on_interface [OF good ord l])
    ultimately show ?thesis by (auto simp: forward_packet_def split: source_type.split option.split)
  qed
  then show ?thesis
    by (auto simp: ipForwarding_def Let_def split: option.split lpm_result.split)
qed

lemma handle_packet_returns:
  assumes net: "iptcp_ok ih" "rfc1071 ns" and good: "good_stack st" and small: "card (dom (is_ForwardingTable st)) \<le> 5459"
    and ord: "orders ord (is_ForwardingTable st)" "\<forall>n. visits (ripOrd n) (is_ForwardingTable st)" and b: "length b \<le> 1400"
  shows "(\<exists>e. handle_packet ih ns ifOrd ord fuel now ripOrd b st = Inl e) \<longleftrightarrow> fatal_packet ih ns b"
proof (cases "ih_ParseHeader ih b")
  case None
  then show ?thesis by (simp add: handle_packet_def DeserializeAndValidatePacket_def fatal_packet_def)
next
  case (Some h)
  have len: "20 \<le> ip_Len h" using net(1) Some unfolding iptcp_ok_def by blast
  show ?thesis
  proof (cases "fatal_packet ih ns b")
    case True
    then show ?thesis using Some len
      by (auto simp: handle_packet_def DeserializeAndValidatePacket_def fatal_packet_def Let_def)
  next
    case False
    let ?m = "drop (nat (ip_Len h)) b"
    have d: "DeserializeAndValidatePacket ih ns b = Inr (?m, Some h, True)"
      using Some len False by (simp add: DeserializeAndValidatePacket_def fatal_packet_def Let_def)
    have m: "length ?m \<le> 1400" using b by simp
    obtain outcome st1 where f: "ipForwarding ih ns ifOrd ord fuel h ?m st = Inr (outcome, st1)"
      using ipForwarding_returns [OF net good ord(1) Some m] by fastforce
    have "\<exists>st'. HandleRipMessage ih ns now ripOrd h ?m st1 = Inr st'" if "outcome = Delivered HandleRipMessage_handler"
      using ipForwarding_keeps [OF f] that HandleRipMessage_returns [OF net good small ord(2) m] by auto
    then show ?thesis using d f False by (auto simp: handle_packet_def)
  qed
qed


section \<open>A route that leads to itself\<close>

lemma whole_prefix: "pfx_Bits q = 32 \<Longrightarrow> prefix_Contains q (IPv4 a) \<Longrightarrow> q = \<lparr>pfx_Addr = IPv4 a, pfx_Bits = 32\<rparr>"
  by (cases q) (auto split: netip_addr.split_asm dest: xor_eq_0)

lemma host_route_loops:
  assumes "tbl p = Some e" and p: "p = \<lparr>pfx_Addr = IPv4 a, pfx_Bits = 32\<rparr>" and "fe_InterfaceName e = ''''"
    and "fe_NextHop e = IPv4 a" and "fe_Cost e < Infinity" and "\<forall>q \<in> dom tbl. valid_prefix q" and "orders ord tbl"
  shows "LongestPrefixMatch ord n tbl (IPv4 a) = None"
proof (induction n)
  case (Suc n)
  have "prefix_Contains p (IPv4 a)" "p \<in> dom tbl" using assms(1) p by auto
  have "set (ord n) = dom tbl" using assms(7) by (simp add: orders_def)
  then show ?case
  proof (cases rule: lpm_scan [of "ord n" tbl "IPv4 a"])
    case none
    then show ?thesis using \<open>prefix_Contains p (IPv4 a)\<close> \<open>p \<in> dom tbl\<close> by blast
  next
    case (match q x)
    then have "pfx_Bits p \<le> pfx_Bits q" "prefix_Contains q (IPv4 a)" "q \<in> dom tbl"
      using \<open>prefix_Contains p (IPv4 a)\<close> \<open>p \<in> dom tbl\<close> unfolding best_match_def by auto
    moreover have "pfx_Bits q \<le> 32" using assms(6) \<open>q \<in> dom tbl\<close> by (auto simp: valid_prefix_def)
    ultimately have "q = p" using whole_prefix [of q a] p by simp
    then have "x = e" using match(3) assms(1) by simp
    then show ?thesis using match(1) assms(3,4,5) Suc by simp
  qed
qed simp


section \<open>An update crosses a link\<close>

text \<open>A response that is longer than the receive buffer leaves room for is malformed when it arrives.\<close>

lemma read16_take: "read16 b = Some (w, r) \<Longrightarrow> 2 \<le> k \<Longrightarrow> read16 (take k b) = Some (w, take (k - 2) r)"
  by (induction b rule: read16.induct) (auto simp: take_Cons' numeral_2_eq_2)

lemma cut_response:
  assumes "Marshal m = Inr b" and "rm_Command m = RIPResponse" and "\<forall>e \<in> set (rm_Entries m). valid_prefix (rp_Prefix e)"
    and "length (rm_Entries m) < 65536"
  shows "DeserializeRipMessage (take 1380 b) = (if length (rm_Entries m) \<le> 114
    then Some \<lparr>rm_Command = RIPResponse, rm_NumEntries = 0, rm_Entries = rm_Entries m\<rparr> else None)"
proof (cases "length (rm_Entries m) \<le> 114")
  case True
  obtain b' where "Marshal m = Inr b'" "length b' = 4 + 12 * length (rm_Entries m)" using Marshal_sends [OF assms(3)] by blast
  then have "take 1380 b = b" using assms(1) True by simp
  then show ?thesis using rip_message_roundtrip [OF assms(3,4)] assms(1,2) True by simp
next
  case False
  obtain bs where bs: "marshal_entries (rm_Entries m) = Inr bs" "length bs = 12 * length (rm_Entries m)"
    using marshal_entries_roundtrip [OF assms(3)] marshal_entries_length by blast
  have b: "b = be16 (rm_Command m) @ be16 (of_nat (length (rm_Entries m))) @ bs"
    using assms(1) bs(1) by (simp add: Marshal_def Let_def)
  have n: "unat (of_nat (length (rm_Entries m)) :: u16) = length (rm_Entries m)"
    using assms(4) by (simp add: unat_of_nat take_bit_nat_eq_self)
  have "read_entries (length (rm_Entries m)) (take 1376 bs) = None"
  proof (rule ccontr)
    assume "read_entries (length (rm_Entries m)) (take 1376 bs) \<noteq> None"
    then have "12 * length (rm_Entries m) \<le> length (take 1376 bs)" using read_entries_valid by blast
    then show False using False by simp
  qed
  moreover have "read16 (take 1380 b) = Some (rm_Command m, take 1378 (be16 (of_nat (length (rm_Entries m))) @ bs))"
    using read16_take [of b _ _ 1380] unfolding b by simp
  moreover have "read16 (take 1378 (be16 (of_nat (length (rm_Entries m))) @ bs)) = Some (of_nat (length (rm_Entries m)), take 1376 bs)"
    using read16_take [of "be16 (of_nat (length (rm_Entries m))) @ bs" _ _ 1378] by simp
  ultimately show ?thesis using False n assms(2) by (simp add: DeserializeRipMessage_def)
qed

lemma periodic_message_eq: "rm_Entries (periodic_message ord tbl nb)
    = rm_Entries (periodic_message (\<lambda>_. ord nb) tbl (as_neighbour (rn_RouterIP nb)))"
  by (simp add: periodic_message_def advertised_def as_neighbour_def Let_def)

lemma response_received:
  assumes net: "iptcp_ok ih" "rfc1071 ns" and good: "good_stack st" and small: "card (dom (is_ForwardingTable st)) \<le> 5459"
    and ord: "\<forall>n. visits (ord n) (is_ForwardingTable st)" and m: "Marshal m = Inr b" "rm_Command m = RIPResponse"
    "\<forall>e \<in> set (rm_Entries m). valid_prefix (rp_Prefix e)" "length (rm_Entries m) < 65536"
  obtains st' where "HandleRipMessage ih ns now ord h (take 1380 b) st = Inr st'"
    and "is_ForwardingTable st' = (if length (rm_Entries m) \<le> 114
      then fst (fold (rip_update now (ip_Src h)) (rm_Entries m) (is_ForwardingTable st, [])) else is_ForwardingTable st)"
proof -
  have "length (take 1380 b) \<le> 1400" by simp
  from HandleRipMessage_returns [OF net good small ord this] obtain st' where
    st': "HandleRipMessage ih ns now ord h (take 1380 b) st = Inr st'" by blast
  have "is_ForwardingTable st' = (if length (rm_Entries m) \<le> 114
      then fst (fold (rip_update now (ip_Src h)) (rm_Entries m) (is_ForwardingTable st, [])) else is_ForwardingTable st)"
  proof (cases "length (rm_Entries m) \<le> 114")
    case True
    let ?r = "\<lparr>rm_Command = RIPResponse, rm_NumEntries = 0, rm_Entries = rm_Entries m\<rparr>"
    let ?s = "fold (rip_update now (ip_Src h)) (rm_Entries ?r) (is_ForwardingTable st, [])"
    have r: "DeserializeRipMessage (take 1380 b) = Some ?r" using cut_response [OF m] True by simp
    have "rm_Command ?r \<noteq> RIPRequest" by simp
    from st' [unfolded HandleRipMessage_response [OF r this refl]] have "is_ForwardingTable st' = fst ?s"
      by (auto simp: SendTriggeredUpdate_def Let_def dest!: send_all_frame split: if_split_asm)
    then show ?thesis using True by simp
  next
    case False
    then show ?thesis using st' cut_response [OF m] by (auto simp: HandleRipMessage_def)
  qed
  then show thesis using st' that by blast
qed

lemma handle_packet_delivers:
  assumes net: "iptcp_ok ih" "rfc1071 ns" and snd: "sendable source dest message ProtocolTypeRIP TTLNew"
    and w: "SerializePacket ih ns source dest message ProtocolTypeRIP TTLNew True = Inr wire"
      "ih_ParseHeader ih wire = Some h" "ip_Checksum h \<noteq> 0"
    and here: "(name, j) \<in> set (range_map (is_Interfaces st) ifOrd)" "if_IP j = dest"
    and hd: "is_recvHandlers st 200 = Some HandleRipMessage_handler"
  shows "handle_packet ih ns ifOrd lpm fuel now ord (take 1400 wire) st = HandleRipMessage ih ns now ord h (take 1380 message) st"
proof -
  have d: "DeserializeAndValidatePacket ih ns (take 1400 wire) = Inr (take 1380 message, Some h, True)"
    and "\<exists>c. h = new_header source dest message ProtocolTypeRIP TTLNew c"
    using wire_prefix_accepted [OF net snd _ _ w, of 1380] by simp_all
  then have h: "ip_Dst h = dest" "ip_Protocol h = 200" by (auto simp: new_header_def)
  have "\<exists>(n, i) \<in> set (range_map (is_Interfaces st) ifOrd). if_IP i = ip_Dst h" using here h(1) by auto
  then have "ipForwarding ih ns ifOrd lpm fuel h (take 1380 message) st = Inr (Delivered HandleRipMessage_handler, st)"
    using hd h(2) by (simp add: ipForwarding_def)
  then show ?thesis using d by (simp add: handle_packet_def)
qed

text \<open>
  C15. The step of the convergence theorem, on the wire. A router sends its periodic update to a neighbour; the
  datagram arrives on an interface of that neighbour, which validates the packet, delivers and parses the message and
  updates its table. With at most 114 routes in the message the new table is the one of \<open>rip_exchange\<close>; with
  more, the buffer of 1400 bytes cuts the message off, and nothing of it is used: the neighbour learns no route at all. A
  packet whose header checksum is 0 is left out: it ends the receiver (\<open>fatal_packet\<close>).
\<close>

theorem update_crosses_link:
  assumes "iptcp_ok ih" and "rfc1071 ns"
    and "good_stack st" and "nb \<in> set (ri_Neighbors (is_RipInfo st))" and "visits (ord nb) (is_ForwardingTable st)"
    and "card (dom (is_ForwardingTable st)) \<le> 5459"
    and "is_Interfaces st (rn_InterfaceName nb) = Some i" and "if_Up i"
    and "SendRipMessage ih ns (periodic_message ord (is_ForwardingTable st) nb) nb st = Inr st'"
    and "good_stack st2" and "is_recvHandlers st2 200 = Some HandleRipMessage_handler"
    and "card (dom (is_ForwardingTable st2)) \<le> 5459" and "\<forall>n. visits (ord2 n) (is_ForwardingTable st2)"
    and "(name, j2) \<in> set (range_map (is_Interfaces st2) ifOrd)" and "if_IP j2 = rn_RouterIP nb" and "if_Up j"
    and "table (if_IP i) = is_ForwardingTable st" and "table (rn_RouterIP nb) = is_ForwardingTable st2"
  shows "\<exists>to w b h. is_sent st' = is_sent st @ [(if_Name i, to, w)] \<and> LinkLayerListen j w = Some b
    \<and> ih_ParseHeader ih w = Some h
    \<and> (ip_Checksum h \<noteq> 0 \<longrightarrow> (\<exists>st2'. handle_packet ih ns ifOrd lpm fuel now ord2 b st2 = Inr st2'
        \<and> is_ForwardingTable st2' = (if card (dom (is_ForwardingTable st)) \<le> 114
            then rip_exchange now (ord nb) (if_IP i) (rn_RouterIP nb) table (rn_RouterIP nb)
            else is_ForwardingTable st2)))"
proof -
  let ?tbl = "is_ForwardingTable st" let ?m = "periodic_message ord ?tbl nb"
  note len = periodic_message_fits(1) [where ord = ord and n = nb, OF assms(3,5)]
    and valid = periodic_message_fits(2) [where ord = ord and n = nb, OF assms(3,5)]
  have small: "length (rm_Entries ?m) < 65536" using len assms(6) by simp
  have cmd: "rm_Command ?m = RIPResponse" by (simp add: periodic_message_def Let_def)
  obtain bytes where bytes: "Marshal ?m = Inr bytes" "length bytes = 4 + 12 * length (rm_Entries ?m)" by (rule Marshal_sends [OF valid])
  obtain x where x: "if_Neighbours i (rn_RouterIP nb) = Some x" "rn_RouterIP nb \<noteq> NoAddr" "if_IP i \<noteq> NoAddr"
    using assms(3,4,7) unfolding good_stack_def by fastforce
  have snd: "sendable (if_IP i) (rn_RouterIP nb) bytes ProtocolTypeRIP TTLNew"
    using x bytes(2) len assms(6) by (simp add: sendable_def)
  obtain c w where w: "SerializePacket ih ns (if_IP i) (rn_RouterIP nb) bytes ProtocolTypeRIP TTLNew True = Inr w"
    and h: "ih_ParseHeader ih w = Some (new_header (if_IP i) (rn_RouterIP nb) bytes ProtocolTypeRIP TTLNew c)"
    by (rule SerializePacket_wire [OF assms(1,2) snd, of True TTLNew]) auto
  let ?h = "new_header (if_IP i) (rn_RouterIP nb) bytes ProtocolTypeRIP TTLNew c"
  have sent: "is_sent st' = is_sent st @ [(if_Name i, nb_UDPAddr x, w)]"
    using assms(7,8,9) bytes(1) x(1) w by (auto simp: SendRipMessage_def Let_def LinkLayerSend_def)
  obtain st2' where st2': "HandleRipMessage ih ns now ord2 ?h (take 1380 bytes) st2 = Inr st2'"
    "is_ForwardingTable st2' = (if length (rm_Entries ?m) \<le> 114
      then fst (fold (rip_update now (ip_Src ?h)) (rm_Entries ?m) (is_ForwardingTable st2, [])) else is_ForwardingTable st2)"
    by (rule response_received [OF assms(1,2,10,12,13) bytes(1) cmd valid small])
  then have "is_ForwardingTable st2' = (if card (dom ?tbl) \<le> 114
      then rip_exchange now (ord nb) (if_IP i) (rn_RouterIP nb) table (rn_RouterIP nb) else is_ForwardingTable st2)"
    using len assms(17,18) periodic_message_eq [of ord ?tbl nb] by (simp add: rip_exchange_def new_header_def)
  moreover have "LinkLayerListen j w = Some (take 1400 w)" using assms(16) by (simp add: LinkLayerListen_def MaxMessageSize_def)
  ultimately show ?thesis using sent h st2'(1) handle_packet_delivers [OF assms(1,2) snd w h _ assms(14,15,11)] by auto
qed

section \<open>Examples\<close>

text \<open>A router with one interface and one RIP neighbour.\<close>

definition router_directives :: "directive list" where
  "router_directives = [DInterface ''if0'' 0x0A000001 24 0x7F000001 5000, DNeighbor 0x0A000002 0x7F000001 5001 ''if0'',
     DRip, DAdvertise 0x0A000002, DUpdateRate 5000]"

lemma router_directives_ok: "\<forall>d \<in> set router_directives. directive_ok d"
  unfolding router_directives_def by (simp add: a_word_def, code_simp)

definition router_file :: "string option" where
  "router_file = Some (lines_text (map show_directive router_directives))"

lemma router_file_starts:
  obtains st where "router_of router_file st" and "card (dom (is_ForwardingTable st)) \<le> 5459"
    and "\<exists>i. is_Interfaces st ''if0'' = Some i \<and> if_Up i" and "dom (is_Interfaces st) = {''if0''}"
proof -
  obtain c where c: "ParseConfig router_file = Inr (Inr c)" "set [''if0''] = ic_Name ` set (cf_Interfaces c)"
    "set [] = dom (cf_StaticRoutes c)" "\<forall>n \<in> set (cf_Neighbors c). nc_InterfaceName n \<in> ic_Name ` set (cf_Interfaces c)"
    using ParseConfig_show [OF router_directives_ok, folded router_file_def]
    by (simp add: router_directives_def initial_config_def addRipNeighbor_def)
  have ord: "\<forall>a. set ((\<lambda>_. [''if0'']) a) = ic_Name ` set (cf_Interfaces c)" using c(2) by simp
  obtain st where i: "InitIPStackFromConfig (\<lambda>_. True) [''if0''] [] (\<lambda>_. [''if0'']) router_file = Inr (Inr st)" and st: "started c st"
  proof (rule start_cases [OF c(1,2,3) ord, of "\<lambda>_. True"], goal_cases)
    case 2
    then show thesis using c(4) by blast
  next
    case (3 st)
    show thesis by (rule that [OF 3(4,5)])
  next
    case 1
    show thesis using 1(2) by simp
  qed
  have of_file: "router_of router_file (fst (vrouter_main st))" unfolding router_of_def
    by (rule exI [of _ c], rule exI [of _ "\<lambda>_. True"], rule exI [of _ "[''if0'']"], rule exI [of _ "[]"],
        rule exI [of _ "\<lambda>_. [''if0'']"], rule exI [of _ st]) (intro conjI c(1-3) ord i refl)
  have dom: "dom (is_Interfaces st) = {''if0''}" using st c(2) by (simp add: started_def)
  then obtain j where j: "is_Interfaces st ''if0'' = Some j" by blast
  then have up: "if_Up j" using st unfolding started_def interface_from_def by blast
  have only: "i = j" if i: "is_Interfaces st n = Some i" for n i
  proof -
    have "n = ''if0''" using domI [where m = "is_Interfaces st", OF i] unfolding dom by simp
    then show ?thesis using i j by simp
  qed
  have "dom (is_ForwardingTable st) = {if_Prefix i | n i. is_Interfaces st n = Some i} \<union> dom (cf_StaticRoutes c)"
    using st unfolding started_def by (elim conjE)
  also have "dom (cf_StaticRoutes c) = {}" by (simp add: c(3) [symmetric])
  also have "{if_Prefix i | n i. is_Interfaces st n = Some i} \<union> {} \<subseteq> {if_Prefix j}"
    by (rule subsetI) (elim UnE emptyE CollectE exE conjE, drule only, simp)
  finally have "card (dom (is_ForwardingTable st)) \<le> card {if_Prefix j}" by (rule card_mono [rotated]) simp
  then show thesis using that [of "fst (vrouter_main st)"] of_file dom up j by (simp add: vrouter_main_def RegisterRecvHandler_def Let_def)
qed

text \<open>It has received 20 bytes that parse as a header without time to live.\<close>

abbreviation "dead_packet \<equiv> 0x45 # replicate 19 (0 :: u8)"

lemma router_receives:
  obtains st r where "router_of router_file st" and "router_reach ih ns st r" and "rt_incoming r = [dead_packet]"
    and "card (dom (is_ForwardingTable (rt_stack r))) \<le> 5459" and "finite (dom (is_ForwardingTable (rt_stack r)))"
    and "dom (is_Interfaces (rt_stack r)) = {''if0''}"
proof -
  obtain st i where st: "router_of router_file st" "card (dom (is_ForwardingTable st)) \<le> 5459"
    "is_Interfaces st ''if0'' = Some i" "if_Up i" "dom (is_Interfaces st) = {''if0''}"
    using router_file_starts by metis
  let ?r = "\<lparr>rt_stack = st, rt_incoming = [dead_packet], rt_updates = []\<rparr>"
  have "router_do ih ns (Arrives ''if0'' dead_packet) \<lparr>rt_stack = st, rt_incoming = [], rt_updates = []\<rparr> = Inr ?r"
    using st(3,4) by (simp add: LinkLayerListen_def MaxMessageSize_def numeral_eq_Suc)
  then have "router_reach ih ns st ?r" by (rule router_goes_on [OF router_starts, rotated]) simp
  then show thesis using that [of st ?r] st router_of_good [OF st(1)] by (simp add: good_stack_def)
qed

theorem running_router_keeps_table_witness:
  "\<exists>st r. router_of router_file st \<and> router_reach sample_iptcp sample_ns st r \<and> rt_incoming r = [dead_packet]
    \<and> rip_ok (is_ForwardingTable (rt_stack r))"
proof -
  obtain st r where r: "router_of router_file st" "router_reach sample_iptcp sample_ns st r" "rt_incoming r = [dead_packet]"
    by (rule router_receives)
  from running_router_keeps_table [OF r(1,2)] r show ?thesis by blast
qed


text \<open>Two routers on a link.\<close>

definition sample_neighbour :: rip_neighbour where
  "sample_neighbour = \<lparr>rn_RouterIP = ipv4_of 10 0 0 2, rn_InterfaceName = ''if0''\<rparr>"

definition sample_sender :: ip_stack where
  "sample_sender = sample_router\<lparr>is_RipInfo := \<lparr>ri_Neighbors = [sample_neighbour], ri_RipTimeout = 0, ri_RipUpdateRate = 0\<rparr>\<rparr>"

definition sample_receiver :: ip_stack where
  "sample_receiver = sample_router\<lparr>is_Interfaces := [''if0'' \<mapsto> sample_iface\<lparr>if_IP := ipv4_of 10 0 0 2\<rparr>],
     is_ForwardingTable := Map.empty, is_recvHandlers := [200 \<mapsto> HandleRipMessage_handler]\<rparr>"

lemma sample_ends_good: "good_stack sample_sender" "good_stack sample_receiver"
  by (simp_all add: good_stack_def sample_sender_def sample_receiver_def sample_neighbour_def sample_router_def
    sample_iface_def sample_local_def rip_ok_def valid_prefix_def sample_net_def ipv4_of_def)

lemma sample_update:
  "\<exists>st' w. SendRipMessage sample_iptcp sample_ns
      (periodic_message (\<lambda>_. [sample_net]) (is_ForwardingTable sample_sender) sample_neighbour) sample_neighbour sample_sender = Inr st'
    \<and> is_sent st' = [(''if0'', (ipv4_of 127 0 0 1, 5000), w)]
    \<and> (\<forall>h. ih_ParseHeader sample_iptcp w = Some h \<longrightarrow> ip_Checksum h \<noteq> 0)"
proof -
  have ser: "\<exists>w. SerializePacket sample_iptcp sample_ns (ipv4_of 10 0 0 1) (ipv4_of 10 0 0 2) m 200 32 True = Inr w
      \<and> (\<forall>h. ih_ParseHeader sample_iptcp w = Some h \<longrightarrow> ip_Checksum h \<noteq> 0)" if "length m = 16" for m
    using that by (simp add: sample_wire_defs)
  let ?m = "periodic_message (\<lambda>_. [sample_net]) (is_ForwardingTable sample_sender) sample_neighbour"
  have "visits ((\<lambda>_. [sample_net]) sample_neighbour) (is_ForwardingTable sample_sender)"
    by (simp add: visits_def sample_sender_def sample_router_def)
  note fits = periodic_message_fits [OF sample_ends_good(1) this]
  obtain b where b: "Marshal ?m = Inr b" "length b = 4 + 12 * length (rm_Entries ?m)" by (rule Marshal_sends [OF fits(2)])
  then have "length b = 16" unfolding fits(1) by (simp add: sample_sender_def sample_router_def)
  from ser [OF this] b(1) show ?thesis
    by (auto simp: SendRipMessage_def sample_neighbour_def sample_sender_def sample_router_def sample_iface_def LinkLayerSend_def Let_def)
qed

theorem update_crosses_link_witness:
  "\<exists>st' to w b st2'. SendRipMessage sample_iptcp sample_ns
      (periodic_message (\<lambda>_. [sample_net]) (is_ForwardingTable sample_sender) sample_neighbour) sample_neighbour sample_sender = Inr st'
    \<and> is_sent st' = [(''if0'', to, w)] \<and> LinkLayerListen sample_iface w = Some b
    \<and> handle_packet sample_iptcp sample_ns [''if0''] (\<lambda>_. []) 5 9 (\<lambda>_. []) b sample_receiver = Inr st2'"
proof -
  obtain st' w where s: "SendRipMessage sample_iptcp sample_ns
      (periodic_message (\<lambda>_. [sample_net]) (is_ForwardingTable sample_sender) sample_neighbour) sample_neighbour sample_sender = Inr st'"
    "is_sent st' = [(''if0'', (ipv4_of 127 0 0 1, 5000), w)]" "\<And>h. ih_ParseHeader sample_iptcp w = Some h \<Longrightarrow> ip_Checksum h \<noteq> 0"
    using sample_update by blast
  let ?table = "(\<lambda>_. Map.empty)(ipv4_of 10 0 0 1 := is_ForwardingTable sample_sender)"
  have "\<exists>to w b h. is_sent st' = is_sent sample_sender @ [(if_Name sample_iface, to, w)] \<and> LinkLayerListen sample_iface w = Some b
    \<and> ih_ParseHeader sample_iptcp w = Some h
    \<and> (ip_Checksum h \<noteq> 0 \<longrightarrow> (\<exists>st2'. handle_packet sample_iptcp sample_ns [''if0''] (\<lambda>_. []) 5 9 (\<lambda>_. []) b sample_receiver = Inr st2'
        \<and> is_ForwardingTable st2' = (if card (dom (is_ForwardingTable sample_sender)) \<le> 114
            then rip_exchange 9 [sample_net] (if_IP sample_iface) (rn_RouterIP sample_neighbour) ?table (rn_RouterIP sample_neighbour)
            else is_ForwardingTable sample_receiver)))"
    by (rule update_crosses_link [where name = "''if0''" and ?j2.0 = "sample_iface\<lparr>if_IP := ipv4_of 10 0 0 2\<rparr>", OF sample_iptcp_ok sample_rfc1071 sample_ends_good(1) _ _ _ _ _ s(1) sample_ends_good(2)])
      (simp_all add: sample_sender_def sample_receiver_def sample_router_def sample_neighbour_def sample_iface_def visits_def
        range_map_def ipv4_of_def word32_def)
  then show ?thesis using s by (auto simp: sample_sender_def sample_router_def sample_iface_def)
qed


end
