(* ===== verification/RetransTimer.thy ===== *)
theory RetransTimer
  imports TcpTypes "HOL-Library.Log_Nat"
begin

text \<open>
  The retransmission timeout of \<open>src/pkg/tcpStack/doTcp.go\<close>: \<open>computeNewSrtt\<close>, \<open>updateRto\<close> and the
  back-off. The smoothed round-trip time is computed in \<open>float64\<close>, so the rounding of every
  operation is written out (round to nearest, ties to even, 53 bits, no fused multiply-add; the
  durations are far from overflow and from the subnormal range). Durations are nanoseconds.
\<close>

section \<open>float64 rounding\<close>

text \<open>The exponent \<open>e\<close> with \<open>2 ^ e \<le> x < 2 ^ (e + 1)\<close>, for positive \<open>x\<close>.\<close>

definition rat_exponent :: "rat \<Rightarrow> int" where
  "rat_exponent x = (if 1 \<le> x then bitlen \<lfloor>x\<rfloor> - 1 else - bitlen (\<lceil>1 / x\<rceil> - 1))"

definition pow2 :: "int \<Rightarrow> rat" where
  "pow2 e = (if 0 \<le> e then 2 ^ nat e else 1 / 2 ^ nat (- e))"

definition round_even :: "rat \<Rightarrow> int" where
  "round_even x = (let n = \<lfloor>x\<rfloor>; d = x - of_int n in
     if d < 1 / 2 then n else if 1 / 2 < d then n + 1 else if even n then n else n + 1)"

definition rnd_pos :: "rat \<Rightarrow> rat" where
  "rnd_pos x = (let ulp = pow2 (rat_exponent x - 52) in of_int (round_even (x / ulp)) * ulp)"

definition rnd64 :: "rat \<Rightarrow> rat" where
  "rnd64 x = (if x = 0 then 0 else if x < 0 then - rnd_pos (- x) else rnd_pos x)"

text \<open>\<open>time.Duration(f)\<close> cuts towards zero.\<close>

definition duration_of :: "rat \<Rightarrow> int" where
  "duration_of f = (if f < 0 then - \<lfloor>- f\<rfloor> else \<lfloor>f\<rfloor>)"

lemma pow2_pos: "0 < pow2 e"
  by (simp add: pow2_def)

lemma pow2_Suc: "pow2 (e + 1) = 2 * pow2 e"
proof (cases "0 \<le> e")
  case True
  then have "nat (e + 1) = Suc (nat e)" by simp
  then show ?thesis using True by (simp add: pow2_def)
next
  case False
  then have "nat (- e) = Suc (nat (- (e + 1)))" by simp
  then show ?thesis using False by (auto simp: pow2_def)
qed

lemma pow2_minus_nat: "pow2 e = pow2 (e - int n) * 2 ^ n"
proof (induction n)
  case (Suc n)
  then show ?case using pow2_Suc [of "e - int (Suc n)"] by simp
qed simp

lemma rat_exponent_le:
  assumes "0 < x"
  shows "pow2 (rat_exponent x) \<le> x"
proof (cases "1 \<le> x")
  case True
  then have n: "1 \<le> \<lfloor>x\<rfloor>" by simp
  then have "2 ^ nat (bitlen \<lfloor>x\<rfloor> - 1) \<le> \<lfloor>x\<rfloor>" using bitlen_bounds [of "\<lfloor>x\<rfloor>"] by simp
  then have "(2 ^ nat (bitlen \<lfloor>x\<rfloor> - 1) :: rat) \<le> of_int \<lfloor>x\<rfloor>"
    by (metis of_int_le_iff of_int_numeral of_int_power)
  also have "\<dots> \<le> x" by simp
  finally show ?thesis
    using True n bitlen_ge_iff_power [of 1 "\<lfloor>x\<rfloor>"] by (simp add: rat_exponent_def pow2_def)
next
  case False
  let ?m = "\<lceil>1 / x\<rceil> - 1"
  have "1 < 1 / x" using False assms by simp
  then have "1 \<le> ?m" by linarith
  then have "?m < 2 ^ nat (bitlen ?m)" and nn: "0 < bitlen ?m" using bitlen_bounds [of ?m] bitlen_ge_iff_power [of 1 ?m] by simp_all
  then have "\<lceil>1 / x\<rceil> \<le> 2 ^ nat (bitlen ?m)" by simp
  then have "1 / x \<le> 2 ^ nat (bitlen ?m)" by (simp add: ceiling_le_iff)
  then have "1 / 2 ^ nat (bitlen ?m) \<le> x" using assms by (simp add: field_simps)
  then show ?thesis using False nn by (simp add: rat_exponent_def pow2_def)
qed

lemma round_even_error: "\<bar>of_int (round_even x) - x\<bar> \<le> 1 / 2"
proof -
  have "of_int \<lfloor>x\<rfloor> \<le> x" and "x < of_int \<lfloor>x\<rfloor> + 1" by linarith+
  then have "0 \<le> x - of_int \<lfloor>x\<rfloor>" "x - of_int \<lfloor>x\<rfloor> < 1" by linarith+
  then show ?thesis unfolding round_even_def Let_def by (simp add: abs_if) linarith
qed

definition f64_eps :: rat where "f64_eps = 1 / 2 ^ 53"

lemma f64_eps: "0 < f64_eps" "f64_eps < 1"
  by (simp_all add: f64_eps_def)

text \<open>The relative error of one operation is at most half a unit in the last place.\<close>

lemma rnd64_error:
  assumes "0 \<le> x"
  shows "\<bar>rnd64 x - x\<bar> \<le> x * f64_eps"
proof (cases "x = 0")
  case False
  then have x: "0 < x" using assms by simp
  let ?u = "pow2 (rat_exponent x - 52)"
  have u: "0 < ?u" by (rule pow2_pos)
  have "rnd64 x - x = (of_int (round_even (x / ?u)) - x / ?u) * ?u"
    using x u by (simp add: rnd64_def rnd_pos_def Let_def left_diff_distrib)
  then have "\<bar>rnd64 x - x\<bar> = \<bar>of_int (round_even (x / ?u)) - x / ?u\<bar> * ?u"
    using u by (simp add: abs_mult)
  also have "\<dots> \<le> 1 / 2 * ?u" using u by (intro mult_right_mono round_even_error) simp
  also have "\<dots> = pow2 (rat_exponent x) * f64_eps"
    using pow2_minus_nat [of "rat_exponent x" 52] by (simp add: f64_eps_def)
  also have "\<dots> \<le> x * f64_eps" using rat_exponent_le [OF x] f64_eps by (simp add: mult_right_mono)
  finally show ?thesis .
qed (simp add: rnd64_def)

lemma rnd64_nonneg:
  assumes "0 \<le> x"
  shows "0 \<le> rnd64 x"
proof -
  have "x * f64_eps \<le> x" using assms f64_eps by (simp add: mult_left_le)
  moreover have "x - x * f64_eps \<le> rnd64 x" using rnd64_error [OF assms] by (simp add: abs_le_iff)
  ultimately show ?thesis by linarith
qed

lemma rnd64_int: "duration_of (rnd64 x) = \<lfloor>rnd64 x\<rfloor>" if "0 \<le> x"
  using rnd64_nonneg [OF that] by (simp add: duration_of_def)

section \<open>The code\<close>

text \<open>
  \<open>float64(d)\<close>, a product or a sum, each rounded. The constants 0.85, 1 - 0.85 and 1.65 are exact
  until they are converted.
\<close>

definition RTO_ALPHA :: rat where "RTO_ALPHA = 85 / 100"
definition RTO_BETA :: rat where "RTO_BETA = 165 / 100"

definition to_float :: "int \<Rightarrow> rat" where "to_float d = rnd64 (of_int d)"

definition fmul :: "rat \<Rightarrow> rat \<Rightarrow> rat" where "fmul a b = rnd64 (a * b)"

definition fadd :: "rat \<Rightarrow> rat \<Rightarrow> rat" where "fadd a b = rnd64 (a + b)"

definition computeNewSrtt :: "int \<Rightarrow> retrans_queue \<Rightarrow> int \<times> retrans_queue" where
  "computeNewSrtt rtt rq =
     (let srtt = (if rq_srtt rq = 0 then rtt
                  else duration_of (fadd (fmul (rnd64 RTO_ALPHA) (to_float (rq_srtt rq)))
                             (fmul (rnd64 (1 - RTO_ALPHA)) (to_float rtt))))
      in (srtt, rq\<lparr>rq_srtt := srtt\<rparr>))"

definition updateRto :: "int \<Rightarrow> retrans_queue \<Rightarrow> retrans_queue" where
  "updateRto rtt rq =
     (let (srtt, rq1) = computeNewSrtt rtt rq;
          newRto = duration_of (fmul (rnd64 RTO_BETA) (to_float srtt))
      in rq1\<lparr>rq_rto := max RTO_MIN (min newRto RTO_MAX)\<rparr>)"

text \<open>\<open>rto = min(rto * 2, RTO_MAX)\<close> after a retransmission.\<close>

definition backoff :: "retrans_queue \<Rightarrow> retrans_queue" where
  "backoff rq = rq\<lparr>rq_rto := min (rq_rto rq * 2) RTO_MAX\<rparr>"


section \<open>Accuracy of the estimator\<close>

text \<open>
  Two-sided bounds through the four roundings. Durations below \<open>2 ^ 47\<close> nanoseconds (39 hours) leave
  an error under a tenth of a nanosecond.
\<close>

lemma rnd64_bounds:
  assumes "0 \<le> x"
  shows "x * (1 - f64_eps) \<le> rnd64 x" and "rnd64 x \<le> x * (1 + f64_eps)"
  using rnd64_error [OF assms] by (simp_all add: abs_le_iff algebra_simps)

lemma rnd64_upper: "0 \<le> x \<Longrightarrow> x \<le> y \<Longrightarrow> rnd64 x \<le> y * (1 + f64_eps)"
  using f64_eps by (intro order_trans [OF rnd64_bounds(2)] mult_right_mono) simp_all

lemma rnd64_lower: "0 \<le> y \<Longrightarrow> y \<le> x \<Longrightarrow> y * (1 - f64_eps) \<le> rnd64 x"
  using f64_eps by (intro order_trans [OF _ rnd64_bounds(1)] mult_right_mono) simp_all

lemma fmul_bounds:
  assumes "0 \<le> c" "0 \<le> d"
  shows "c * d * (1 - f64_eps) ^ 3 \<le> fmul (rnd64 c) (rnd64 d)"
    and "fmul (rnd64 c) (rnd64 d) \<le> c * d * (1 + f64_eps) ^ 3"
proof -
  have c: "c * (1 - f64_eps) \<le> rnd64 c" "rnd64 c \<le> c * (1 + f64_eps)" "0 \<le> rnd64 c"
    and d: "d * (1 - f64_eps) \<le> rnd64 d" "rnd64 d \<le> d * (1 + f64_eps)" "0 \<le> rnd64 d"
    using assms rnd64_bounds rnd64_nonneg by blast+
  have "c * (1 - f64_eps) * (d * (1 - f64_eps)) \<le> rnd64 c * rnd64 d"
    using c d assms f64_eps by (intro mult_mono) simp_all
  moreover have "0 \<le> c * (1 - f64_eps) * (d * (1 - f64_eps))" using assms f64_eps by simp
  ultimately have "c * (1 - f64_eps) * (d * (1 - f64_eps)) * (1 - f64_eps) \<le> rnd64 (rnd64 c * rnd64 d)"
    by (intro rnd64_lower)
  then show "c * d * (1 - f64_eps) ^ 3 \<le> fmul (rnd64 c) (rnd64 d)"
    by (simp add: fmul_def power3_eq_cube ac_simps)
  have "rnd64 c * rnd64 d \<le> c * (1 + f64_eps) * (d * (1 + f64_eps))"
    using c d assms f64_eps by (intro mult_mono) simp_all
  moreover have "0 \<le> rnd64 c * rnd64 d" using c d by simp
  ultimately have "rnd64 (rnd64 c * rnd64 d) \<le> c * (1 + f64_eps) * (d * (1 + f64_eps)) * (1 + f64_eps)"
    by (intro rnd64_upper)
  then show "fmul (rnd64 c) (rnd64 d) \<le> c * d * (1 + f64_eps) ^ 3"
    by (simp add: fmul_def power3_eq_cube ac_simps)
qed

lemma weighted_sum_bounds:
  fixes s t :: rat
  assumes "0 \<le> s" "0 \<le> t"
  defines "v \<equiv> RTO_ALPHA * s + (1 - RTO_ALPHA) * t"
  shows "v * (1 - f64_eps) ^ 4 \<le> fadd (fmul (rnd64 RTO_ALPHA) (rnd64 s)) (fmul (rnd64 (1 - RTO_ALPHA)) (rnd64 t))"
    and "fadd (fmul (rnd64 RTO_ALPHA) (rnd64 s)) (fmul (rnd64 (1 - RTO_ALPHA)) (rnd64 t)) \<le> v * (1 + f64_eps) ^ 4"
proof -
  let ?a = "RTO_ALPHA" and ?b = "1 - RTO_ALPHA" and ?p = "1 - f64_eps" and ?q = "1 + f64_eps"
  let ?x = "fmul (rnd64 ?a) (rnd64 s)" and ?y = "fmul (rnd64 ?b) (rnd64 t)"
  have ab: "0 \<le> ?a" "0 \<le> ?b" by (simp_all add: RTO_ALPHA_def)
  have x: "?a * s * ?p ^ 3 \<le> ?x" "?x \<le> ?a * s * ?q ^ 3" and y: "?b * t * ?p ^ 3 \<le> ?y" "?y \<le> ?b * t * ?q ^ 3"
    using fmul_bounds [OF ab(1), of s] fmul_bounds [OF ab(2), of t] assms by simp_all
  have lo: "v * ?p ^ 3 \<le> ?x + ?y" using x(1) y(1) unfolding v_def by (simp add: distrib_right)
  have hi: "?x + ?y \<le> v * ?q ^ 3" using x(2) y(2) unfolding v_def by (simp add: distrib_right)
  have "0 \<le> v" using assms ab by (simp add: v_def)
  then have nn: "0 \<le> v * ?p ^ 3" using f64_eps by simp
  show "v * ?p ^ 4 \<le> fadd ?x ?y"
    using rnd64_lower [OF nn lo] by (simp add: fadd_def power_eq_if)
  show "fadd ?x ?y \<le> v * ?q ^ 4"
    using rnd64_upper [OF order_trans [OF nn lo] hi] by (simp add: fadd_def power_eq_if)
qed

lemma small_error:
  assumes "0 \<le> v" "v \<le> 2 ^ 47"
  shows "v - 1 / 10 \<le> v * (1 - f64_eps) ^ 4" and "v * (1 + f64_eps) ^ 4 \<le> v + 1 / 10"
    and "v - 1 / 10 \<le> v * (1 - f64_eps) ^ 3" and "v * (1 + f64_eps) ^ 3 \<le> v + 1 / 10"
proof -
  have "(1 - f64_eps) ^ 4 \<ge> 1 - 5 * f64_eps" "(1 + f64_eps) ^ 4 \<le> 1 + 5 * f64_eps"
    "(1 - f64_eps) ^ 3 \<ge> 1 - 5 * f64_eps" "(1 + f64_eps) ^ 3 \<le> 1 + 5 * f64_eps"
    by (simp_all add: f64_eps_def power_eq_if)
  then have "v * (1 - 5 * f64_eps) \<le> v * (1 - f64_eps) ^ 4" "v * (1 + f64_eps) ^ 4 \<le> v * (1 + 5 * f64_eps)"
    "v * (1 - 5 * f64_eps) \<le> v * (1 - f64_eps) ^ 3" "v * (1 + f64_eps) ^ 3 \<le> v * (1 + 5 * f64_eps)"
    using assms by (simp_all add: mult_left_mono)
  moreover have "v * (5 * f64_eps) \<le> 1 / 10"
  proof -
    have "v * (5 * f64_eps) \<le> 2 ^ 47 * (5 * f64_eps)"
      using assms(2) f64_eps by (intro mult_right_mono) simp_all
    then show ?thesis by (simp add: f64_eps_def)
  qed
  ultimately show "v - 1 / 10 \<le> v * (1 - f64_eps) ^ 4" "v * (1 + f64_eps) ^ 4 \<le> v + 1 / 10"
    "v - 1 / 10 \<le> v * (1 - f64_eps) ^ 3" "v * (1 + f64_eps) ^ 3 \<le> v + 1 / 10"
    by (simp_all only: right_diff_distrib distrib_left mult_1_right)
qed


definition srtt_ok :: "int \<Rightarrow> int \<Rightarrow> retrans_queue \<Rightarrow> bool" where
  "srtt_ok m M rq \<longleftrightarrow> m - 1 \<le> rq_srtt rq \<and> rq_srtt rq \<le> M"

lemma computeNewSrtt_range:
  assumes s: "rq_srtt rq = 0 \<or> srtt_ok m M rq" and t: "m \<le> rtt" "rtt \<le> M" and m: "2 \<le> m" "M \<le> 2 ^ 47"
  shows "srtt_ok m M (snd (computeNewSrtt rtt rq))" "fst (computeNewSrtt rtt rq) = rq_srtt (snd (computeNewSrtt rtt rq))"
proof -
  show "fst (computeNewSrtt rtt rq) = rq_srtt (snd (computeNewSrtt rtt rq))"
    by (simp add: computeNewSrtt_def Let_def)
  show "srtt_ok m M (snd (computeNewSrtt rtt rq))"
  proof (cases "rq_srtt rq = 0")
    case True
    then show ?thesis using t by (simp add: computeNewSrtt_def srtt_ok_def)
  next
    case False
    then have r: "m - 1 \<le> rq_srtt rq" "rq_srtt rq \<le> M" using s by (auto simp: srtt_ok_def)
    let ?s = "of_int (rq_srtt rq) :: rat" and ?t = "of_int rtt :: rat"
    define v where "v = RTO_ALPHA * ?s + (1 - RTO_ALPHA) * ?t"
    define y where "y = fadd (fmul (rnd64 RTO_ALPHA) (rnd64 ?s)) (fmul (rnd64 (1 - RTO_ALPHA)) (rnd64 ?t))"
    have "of_int (m - 1) \<le> ?s" "of_int m \<le> ?t" "?s \<le> of_int M" "?t \<le> of_int M"
      using r t by (simp_all only: of_int_le_iff)
    moreover have "0 \<le> rq_srtt rq" "0 \<le> rtt" using r t m by linarith+
    ultimately have st: "0 \<le> ?s" "0 \<le> ?t" "of_int m - 1 \<le> ?s" "of_int m \<le> ?t" "?s \<le> of_int M" "?t \<le> of_int M"
      by simp_all
    then have v: "of_int m - 85 / 100 \<le> v" "v \<le> of_int M"
      unfolding v_def RTO_ALPHA_def by (simp_all add: field_simps)
    have "of_int M \<le> (of_int (2 ^ 47) :: rat)" using m(2) by (simp only: of_int_le_iff)
    then have "v \<le> 2 ^ 47" using v(2) by simp
    moreover have "0 \<le> v" using v(1) m(1) by simp
    ultimately have "v - 1 / 10 \<le> y" "y \<le> v + 1 / 10"
      using weighted_sum_bounds [OF st(1,2)] small_error [of v] unfolding y_def v_def by linarith+
    then have "of_int m - 1 \<le> y" "y < of_int M + 1" using v by linarith+
    then have "m - 1 \<le> \<lfloor>y\<rfloor>" "\<lfloor>y\<rfloor> \<le> M" by (simp_all add: le_floor_iff floor_le_iff)
    moreover have "0 \<le> y" using \<open>of_int m - 1 \<le> y\<close> m(1) by simp
    ultimately show ?thesis
      using False by (simp add: computeNewSrtt_def srtt_ok_def y_def to_float_def duration_of_def Let_def)
  qed
qed

lemma updateRto_range:
  assumes s: "rq_srtt rq = 0 \<or> srtt_ok m M rq" and t: "m \<le> rtt" "rtt \<le> M" and m: "2 \<le> m" "M \<le> 2 ^ 46"
  shows "srtt_ok m M (updateRto rtt rq)"
    and "\<bar>rq_rto (updateRto rtt rq) - max RTO_MIN (min (165 * rq_srtt (updateRto rtt rq) div 100) RTO_MAX)\<bar> \<le> 1"
proof -
  note c = computeNewSrtt_range [OF s t m(1)]
  define rq1 where "rq1 = snd (computeNewSrtt rtt rq)"
  have ok: "srtt_ok m M rq1" "fst (computeNewSrtt rtt rq) = rq_srtt rq1"
    using c m(2) unfolding rq1_def by simp_all
  have upd: "updateRto rtt rq = rq1\<lparr>rq_rto := max RTO_MIN
      (min (duration_of (fmul (rnd64 RTO_BETA) (to_float (rq_srtt rq1)))) RTO_MAX)\<rparr>"
    by (simp add: updateRto_def case_prod_unfold ok(2) flip: rq1_def)
  show "srtt_ok m M (updateRto rtt rq)" using ok(1) by (simp add: upd srtt_ok_def)
  let ?s = "of_int (rq_srtt rq1) :: rat" and ?y = "fmul (rnd64 RTO_BETA) (rnd64 (of_int (rq_srtt rq1)))"
  have r: "1 \<le> rq_srtt rq1" "rq_srtt rq1 \<le> 2 ^ 46" using ok(1) m by (simp_all add: srtt_ok_def)
  then have s: "0 \<le> ?s" "?s \<le> of_int (2 ^ 46)" by (simp, simp only: of_int_le_iff)
  have b: "0 \<le> RTO_BETA" by (simp add: RTO_BETA_def)
  have v: "0 \<le> RTO_BETA * ?s" "RTO_BETA * ?s \<le> 2 ^ 47" using s by (simp_all add: RTO_BETA_def)
  have y: "RTO_BETA * ?s - 1 / 10 \<le> ?y" "?y \<le> RTO_BETA * ?s + 1 / 10"
    using fmul_bounds [OF b s(1)] small_error(3,4) [OF v] by linarith+
  have "165 / 100 * ?s = of_int (165 * rq_srtt rq1) / of_int 100" by simp
  then have d: "\<lfloor>RTO_BETA * ?s\<rfloor> = 165 * rq_srtt rq1 div 100"
    unfolding RTO_BETA_def by (simp only: floor_divide_of_int_eq)
  have "\<bar>\<lfloor>?y\<rfloor> - \<lfloor>RTO_BETA * ?s\<rfloor>\<bar> \<le> 1" using y by linarith
  moreover have "0 \<le> ?y" unfolding fmul_def using b s(1) by (intro rnd64_nonneg mult_nonneg_nonneg) (simp_all add: rnd64_nonneg)
  ultimately have "\<bar>duration_of ?y - 165 * rq_srtt rq1 div 100\<bar> \<le> 1" by (simp add: duration_of_def d)
  then have "\<bar>max RTO_MIN (min (duration_of ?y) RTO_MAX) - max RTO_MIN (min (165 * rq_srtt rq1 div 100) RTO_MAX)\<bar> \<le> 1"
    by linarith
  then show "\<bar>rq_rto (updateRto rtt rq) - max RTO_MIN (min (165 * rq_srtt (updateRto rtt rq) div 100) RTO_MAX)\<bar> \<le> 1"
    unfolding upd to_float_def by simp
qed

text \<open>
  C37. The retransmission timeout follows the measured round-trip times. After any non-empty
  sequence of samples between m and M nanoseconds (M up to 19 hours), in float64 arithmetic, the
  smoothed round-trip time lies between m - 1 and M, and the timeout is 1.65 times it, clamped to
  250 ms .. 5 s, to within one nanosecond.
\<close>

theorem rto_follows_samples:
  assumes "rq_srtt rq = 0" and "\<forall>t \<in> set ts. m \<le> t \<and> t \<le> M" and "ts \<noteq> []" and "2 \<le> m" and "M \<le> 2 ^ 46"
  shows "m - 1 \<le> rq_srtt (fold updateRto ts rq) \<and> rq_srtt (fold updateRto ts rq) \<le> M
    \<and> \<bar>rq_rto (fold updateRto ts rq) - max RTO_MIN (min (165 * rq_srtt (fold updateRto ts rq) div 100) RTO_MAX)\<bar> \<le> 1
    \<and> RTO_MIN \<le> rq_rto (fold updateRto ts rq) \<and> rq_rto (fold updateRto ts rq) \<le> RTO_MAX"
proof -
  have "srtt_ok m M (fold updateRto ts rq)
    \<and> \<bar>rq_rto (fold updateRto ts rq) - max RTO_MIN (min (165 * rq_srtt (fold updateRto ts rq) div 100) RTO_MAX)\<bar> \<le> 1
    \<and> RTO_MIN \<le> rq_rto (fold updateRto ts rq) \<and> rq_rto (fold updateRto ts rq) \<le> RTO_MAX"
    using assms(2,3)
  proof (induction ts rule: rev_induct)
    case (snoc t ts)
    have prev: "rq_srtt (fold updateRto ts rq) = 0 \<or> srtt_ok m M (fold updateRto ts rq)"
      using snoc assms(1) by (cases "ts = []") auto
    have "RTO_MIN \<le> rq_rto (updateRto t rq') \<and> rq_rto (updateRto t rq') \<le> RTO_MAX" for rq'
      by (simp add: updateRto_def case_prod_unfold Let_def)
    then show ?case using updateRto_range [OF prev _ _ assms(4,5), of t] snoc.prems by simp
  qed simp
  then show ?thesis by (simp only: srtt_ok_def)
qed

theorem rto_follows_samples_witness:
  "\<exists>rq. rq_srtt rq = 0 \<and> 40000000 - 1 \<le> rq_srtt (fold updateRto [40000000, 900000000, 60000000] rq)
    \<and> rq_srtt (fold updateRto [40000000, 900000000, 60000000] rq) \<le> 900000000"
  using rto_follows_samples [of "\<lparr>rq_array = [], rq_rto = RTO_INIT, rq_srtt = 0, rq_timer = NilTimer\<rparr>"
      "[40000000, 900000000, 60000000]" 40000000 900000000]
  by (intro exI [of _ "\<lparr>rq_array = [], rq_rto = RTO_INIT, rq_srtt = 0, rq_timer = NilTimer\<rparr>"]) simp

end
