(* ===== verification/TcpRecv.thy ===== *)
theory TcpRecv
  imports TcpTypes "HOL-Library.Sublist"
begin

text \<open>
  The receive side of a connection: \<open>handlePayload\<close> of doTcp.go, \<open>handleFin\<close>, \<open>handleEarlyFin\<close> and
  \<open>timeWait\<close> of closing.go, and \<open>VRead\<close> of socketsAPI.go. The main result is that for any arrival
  order of a peer's segments, with loss, duplication and reordering, the application reads a
  prefix of the peer's byte stream.
\<close>

section \<open>The code\<close>

definition timeWait :: "table_entry \<Rightarrow> table_entry" where
  "timeWait e = e\<lparr>te_timeWaitTimer := Armed (2 * MAX_SEGMENT_LATENCY * Second)\<rparr>"

text \<open>\<open>select { case entry.normalSocket.recvBuf.dataToRead <- struct{}{}: default: }\<close>\<close>

definition signal_dataToRead :: "table_entry \<Rightarrow> go_panic + table_entry" where
  "signal_dataToRead e =
     go_bind (get_recvBuf e) (\<lambda>rb.
     go_bind (signal (rb_dataToRead rb)) (\<lambda>ch.
       Inr (set_recvBuf (rb\<lparr>rb_dataToRead := ch\<rparr>) e)))"

text \<open>The switch on the state that ends both \<open>handleFin\<close> and \<open>handleEarlyFin\<close>.\<close>

definition fin_switch :: "table_entry \<Rightarrow> go_panic + table_entry" where
  "fin_switch e =
     (case te_state e of
        ESTABLISHED \<Rightarrow> signal_dataToRead (e\<lparr>te_state := CLOSE_WAIT\<rparr>)
      | FIN_WAIT_1 \<Rightarrow> Inr (timeWait (e\<lparr>te_state := TIME_WAIT\<rparr>))
      | FIN_WAIT_2 \<Rightarrow> Inr (timeWait (e\<lparr>te_state := TIME_WAIT\<rparr>))
      | _ \<Rightarrow> Inr e)"

definition handleEarlyFin :: "table_entry \<Rightarrow> go_panic + table_entry" where
  "handleEarlyFin e =
     go_bind (get_recvBuf e) (\<lambda>rb.
       if rb_fin rb = 0 then Inr e
       else if rb_fin rb \<noteq> rb_nxt rb then Inr e
       else let finAckNum = rb_fin rb + 1 in
         go_bind (sendPureAck finAckNum (set_recvBuf (rb\<lparr>rb_nxt := finAckNum, rb_fin := 0\<rparr>) e))
           fin_switch)"

definition handleFin :: "tcp_fields \<Rightarrow> table_entry \<Rightarrow> go_panic + table_entry" where
  "handleFin hdr e =
     go_bind (get_recvBuf e) (\<lambda>rb0.
       let rb = rb0\<lparr>rb_fin := SeqNum hdr\<rparr> in
       if rb_nxt rb < SeqNum hdr then Inr (set_recvBuf rb e)
       else if SeqNum hdr < rb_nxt rb then sendPureAck (rb_nxt rb) (set_recvBuf rb e)
       else let finAckNum = SeqNum hdr + 1 in
         go_bind (sendPureAck finAckNum (set_recvBuf (rb\<lparr>rb_nxt := finAckNum, rb_fin := 0\<rparr>) e))
           fin_switch)"

text \<open>
  The loop of \<open>handlePayload\<close> that moves early arrivals into the buffer. The flag of the result
  says that it left through the empty heap, where the code calls \<open>handleEarlyFin\<close>.
\<close>

lemma go_bind_cong [fundef_cong]:
  "m = m' \<Longrightarrow> (\<And>x. m' = Inr x \<Longrightarrow> f x = f' x) \<Longrightarrow> go_bind m f = go_bind m' f'"
  by (cases m') auto

lemma length_PopMin: "PopMin h = (Some x, h') \<Longrightarrow> length h' < length h"
proof -
  assume pop: "PopMin h = (Some x, h')"
  then have h: "h \<noteq> []" and p: "heap_pop ea_Less h = (x, h')"
    by (auto simp: PopMin_def split: if_splits prod.splits)
  from p have "h' = take (length h - 1) (heap_down ea_Less (heap_swap h 0 (length h - 1)) 0 (length h - 1))"
    by (simp add: heap_pop_def Let_def)
  then have "length h' \<le> length h - 1" by simp
  then show ?thesis using h by (cases h) auto
qed

function drainEarlyArrivals :: "recv_buf \<Rightarrow> go_panic + (recv_buf \<times> bool)" where
  "drainEarlyArrivals rb =
     (case ea_Peek (rb_earlyArrivals rb) of
        None \<Rightarrow> Inr (rb, True)
      | Some seg0 \<Rightarrow>
          if ea_startSeq seg0 \<noteq> rb_nxt rb then Inr (rb, False)
          else if unat (FreeSpace (rb_cBuf rb)) < length (ea_data seg0) then Inr (rb, False)
          else case PopMin (rb_earlyArrivals rb) of
              (None, h) \<Rightarrow> Inl NilDereference
            | (Some seg, h) \<Rightarrow>
                go_bind (WriteIntoBuf (rb_cBuf rb) (ea_startSeq seg) (ea_data seg)) (\<lambda>(cb, n).
                  drainEarlyArrivals (rb\<lparr>rb_earlyArrivals := h, rb_cBuf := cb,
                    rb_nxt := rb_nxt rb + of_nat n\<rparr>)))"
  by pat_completeness auto
termination
proof (relation "measure (\<lambda>rb. length (rb_earlyArrivals rb))")
qed (auto dest!: length_PopMin [OF sym])

declare drainEarlyArrivals.simps [simp del]

text \<open>
  \<open>coin\<close> is the clock test of the drop flag. The slices that the debug prints take are evaluated
  whether or not printing is on, so they stay as computations that may panic.
\<close>

definition handlePayload :: "bool \<Rightarrow> tcp_fields \<Rightarrow> bytes \<Rightarrow> table_entry \<Rightarrow> go_panic + table_entry" where
  "handlePayload coin hdr payload e =
    (if te_dropForRetrans e \<and> coin then Inr e
     else go_bind (get_recvBuf e) (\<lambda>rb.
      if rb_nxt rb < SeqNum hdr then
        sendPureAck (rb_nxt rb) (set_recvBuf
          (rb\<lparr>rb_earlyArrivals := PushSegment (rb_earlyArrivals rb) (SeqNum hdr) payload\<rparr>) e)
      else if SeqNum hdr < rb_nxt rb then sendPureAck (rb_nxt rb) e
      else let space = unat (FreeSpace (rb_cBuf rb)) in
       if space = 0 then sendPureAck (rb_nxt rb) e
       else let payload' = (if space < length payload then take space payload else payload) in
        go_bind (WriteIntoBuf (rb_cBuf rb) (rb_nxt rb) payload') (\<lambda>(cb, bytesWritten).
         if bytesWritten \<noteq> length payload' then Inr (set_recvBuf (rb\<lparr>rb_cBuf := cb\<rparr>) e)
         else let payLen = of_nat (length payload') in
          go_bind (drainEarlyArrivals (rb\<lparr>rb_cBuf := cb, rb_nxt := rb_nxt rb + payLen\<rparr>)) (\<lambda>(rb1, drained).
          go_bind (if drained then handleEarlyFin (set_recvBuf rb1 e) else Inr (set_recvBuf rb1 e)) (\<lambda>e1.
          go_bind (get_recvBuf e1) (\<lambda>rb2.
          go_bind (SliceFrom (rb_cBuf rb2) (SeqNum hdr) payLen) (\<lambda>_.
          go_bind (if 0 < cb_currSize (rb_cBuf rb2)
                   then SliceFrom (rb_cBuf rb2) (rb_lbr rb2 + 1) (cb_currSize (rb_cBuf rb2))
                   else Inr []) (\<lambda>_.
          go_bind (signal_dataToRead e1) (\<lambda>e2.
            sendPureAck (rb_nxt rb2) e2)))))))))"

section \<open>VRead\<close>

text \<open>
  What a call of \<open>VRead\<close> comes to: an error, the end of the stream, the destination buffer and the
  byte count, or parked on \<open>dataToRead\<close> until the next signal (the call then goes on with
  \<open>VRead_loop\<close>).
\<close>

datatype vread_result = ReadClosing | ReadEOF | ReadParked | ReadOk bytes nat

text \<open>
  The loop of \<open>VRead\<close>, with fuel for its iterations: \<open>None\<close> means the call is still looping. An
  iteration that finds no data and a token (or a closed channel) goes round again.
\<close>

fun VRead_loop :: "nat \<Rightarrow> bytes \<Rightarrow> table_entry \<Rightarrow> go_panic + (vread_result option \<times> table_entry)" where
  "VRead_loop 0 dest e = Inr (None, e)"
| "VRead_loop (Suc fuel) dest e =
     go_bind (get_recvBuf e) (\<lambda>rb.
       if cb_currSize (rb_cBuf rb) = 0 then
         if te_state e = CLOSE_WAIT then Inr (Some ReadEOF, e)
         else if \<not> recv_ready (rb_dataToRead rb) then Inr (Some ReadParked, e)
         else VRead_loop fuel dest
                (set_recvBuf (rb\<lparr>rb_dataToRead := recv_chan (rb_dataToRead rb)\<rparr>) e)
       else
         let numBytesToRead = (if unat (cb_currSize (rb_cBuf rb)) < length dest
                               then unat (cb_currSize (rb_cBuf rb)) else length dest) in
         go_bind (ReadFromBuf (rb_cBuf rb) (rb_lbr rb + 1) dest (of_nat numBytesToRead)) (\<lambda>(out, n).
           Inr (Some (ReadOk out n),
             set_recvBuf (rb\<lparr>rb_lbr := rb_lbr rb + of_nat n,
               rb_cBuf := AdvanceBase (rb_cBuf rb) (of_nat n)\<rparr>) e)))"

definition VRead :: "nat \<Rightarrow> bytes \<Rightarrow> table_entry \<Rightarrow> go_panic + (vread_result option \<times> table_entry)" where
  "VRead fuel dest e =
     (if te_state e \<in> {FIN_WAIT_1, FIN_WAIT_2, TIME_WAIT, LAST_ACK, CLOSED}
      then Inr (Some ReadClosing, e) else VRead_loop fuel dest e)"

section \<open>Behaviour of the parts\<close>

lemma sendPureAck_ok:
  assumes "get_recvBuf e = Inr rb"
  obtains hdr where "sendPureAck a e = Inr (send_packet hdr [] e)"
    and "AckNum hdr = a" and "Flags hdr = TCPFlagAck" and "SeqNum hdr = te_seqNum e"
    and "WindowSize hdr = getAvailableWindow rb"
  using assms by (simp add: sendPureAck_def)

fun fin_next :: "tcp_state \<Rightarrow> tcp_state" where
  "fin_next ESTABLISHED = CLOSE_WAIT"
| "fin_next FIN_WAIT_1 = TIME_WAIT"
| "fin_next FIN_WAIT_2 = TIME_WAIT"
| "fin_next s = s"

lemma signal_dataToRead_ok:
  assumes "get_recvBuf e = Inr rb" and "rb_dataToRead rb \<noteq> ChanClosed"
  shows "signal_dataToRead e = Inr (set_recvBuf (rb\<lparr>rb_dataToRead := ChanFull\<rparr>) e)"
  using assms by (simp add: signal_dataToRead_def)

text \<open>\<open>same_bytes\<close>: two receive buffers that differ at most in their signal channel.\<close>

definition same_bytes :: "recv_buf \<Rightarrow> recv_buf \<Rightarrow> bool" where
  "same_bytes rb rb' \<longleftrightarrow> rb_cBuf rb' = rb_cBuf rb \<and> rb_lbr rb' = rb_lbr rb \<and> rb_nxt rb' = rb_nxt rb
     \<and> rb_earlyArrivals rb' = rb_earlyArrivals rb \<and> rb_fin rb' = rb_fin rb
     \<and> (rb_dataToRead rb \<noteq> ChanClosed \<longrightarrow> rb_dataToRead rb' \<noteq> ChanClosed)"

lemma same_bytes_refl [simp]: "same_bytes rb rb"
  by (simp add: same_bytes_def)

lemma same_bytes_trans: "same_bytes a b \<Longrightarrow> same_bytes b c \<Longrightarrow> same_bytes a c"
  by (simp add: same_bytes_def)

lemma same_bytes_signal [simp]: "same_bytes rb (rb\<lparr>rb_dataToRead := ChanFull\<rparr>)"
  by (simp add: same_bytes_def)

lemma fin_switch_ok:
  assumes rb: "get_recvBuf e = Inr rb" and "rb_dataToRead rb \<noteq> ChanClosed"
  obtains e' rb' where "fin_switch e = Inr e'" and "get_recvBuf e' = Inr rb'" and "same_bytes rb rb'"
    and "te_state e' = fin_next (te_state e)" and "te_sendRequests e' = te_sendRequests e"
    and "te_removed e' = te_removed e"
proof (cases "te_state e = ESTABLISHED")
  case True
  let ?e = "e\<lparr>te_state := CLOSE_WAIT\<rparr>" and ?rb = "rb\<lparr>rb_dataToRead := ChanFull\<rparr>"
  have "fin_switch e = Inr (set_recvBuf ?rb ?e)"
    using True assms signal_dataToRead_ok [of ?e rb] by (simp add: fin_switch_def)
  moreover have "get_recvBuf (set_recvBuf ?rb ?e) = Inr ?rb"
    using normalSocket_get(1) [OF rb] by simp
  ultimately show thesis
    using True by (rule_tac that [of "set_recvBuf ?rb ?e" ?rb]) simp_all
next
  case False
  then obtain e' where "fin_switch e = Inr e'" "get_recvBuf e' = Inr rb"
    "te_state e' = fin_next (te_state e)" "te_sendRequests e' = te_sendRequests e"
    "te_removed e' = te_removed e"
    using rb by (cases "te_state e") (auto simp: fin_switch_def timeWait_def)
  then show thesis by (rule_tac that [of e' rb]) simp_all
qed

text \<open>What \<open>handleEarlyFin\<close> does: nothing, or consume the FIN it waited for.\<close>

lemma handleEarlyFin_ok:
  assumes rb: "get_recvBuf e = Inr rb" and op: "rb_dataToRead rb \<noteq> ChanClosed"
  obtains (idle) "handleEarlyFin e = Inr e" and "rb_fin rb = 0 \<or> rb_fin rb \<noteq> rb_nxt rb"
  | (fin) e' rb' where "handleEarlyFin e = Inr e'" and "rb_fin rb \<noteq> 0" and "rb_fin rb = rb_nxt rb"
    and "get_recvBuf e' = Inr rb'" and "same_bytes (rb\<lparr>rb_nxt := rb_nxt rb + 1, rb_fin := 0\<rparr>) rb'"
    and "te_state e' = fin_next (te_state e)"
proof (cases "rb_fin rb = 0 \<or> rb_fin rb \<noteq> rb_nxt rb")
  case True
  then show thesis using rb by (rule_tac idle) (auto simp: handleEarlyFin_def)
next
  case False
  then have f: "rb_fin rb \<noteq> 0" "rb_nxt rb = rb_fin rb" by auto
  let ?rb = "rb\<lparr>rb_nxt := rb_fin rb + 1, rb_fin := 0\<rparr>" and ?e = "\<lambda>rb. set_recvBuf rb e"
  have g: "get_recvBuf (?e ?rb) = Inr ?rb" using normalSocket_get(1) [OF rb] by simp
  obtain hdr where ack: "sendPureAck (rb_fin rb + 1) (?e ?rb) = Inr (send_packet hdr [] (?e ?rb))"
    by (rule sendPureAck_ok [OF g])
  have "get_recvBuf (send_packet hdr [] (?e ?rb)) = Inr ?rb" using g by simp
  moreover have "rb_dataToRead ?rb \<noteq> ChanClosed" using op by simp
  ultimately obtain e' rb' where "fin_switch (send_packet hdr [] (?e ?rb)) = Inr e'"
    and "get_recvBuf e' = Inr rb'" "same_bytes ?rb rb'" "te_state e' = fin_next (te_state e)"
    by (rule fin_switch_ok) simp
  then show thesis
    using f rb ack by (rule_tac fin [of e' rb']) (simp_all add: handleEarlyFin_def Let_def)
qed

section \<open>The receive invariant\<close>

text \<open>
  \<open>rb_inv isn w r f rb\<close>: the peer's stream starts at sequence number \<open>isn\<close>, \<open>w\<close> are the bytes
  accepted so far, the application has read \<open>r\<close> of them, and \<open>f\<close> says whether the peer's FIN has
  been consumed (it takes one sequence number).
\<close>

definition rb_inv :: "u32 \<Rightarrow> bytes \<Rightarrow> nat \<Rightarrow> bool \<Rightarrow> recv_buf \<Rightarrow> bool" where
  "rb_inv isn w r f rb \<longleftrightarrow> cb_ok (rb_cBuf rb)
     \<and> is_window isn w r (cb_content (rb_cBuf rb)) (cb_baseSeq (rb_cBuf rb))
     \<and> rb_lbr rb + 1 = isn + of_nat r \<and> rb_nxt rb = isn + of_nat (length w + of_bool f)
     \<and> ea_heap (rb_earlyArrivals rb)"

text \<open>A segment that carries bytes of the stream \<open>S\<close> at their sequence number.\<close>

definition stream_segment :: "u32 \<Rightarrow> bytes \<Rightarrow> u32 \<Rightarrow> bytes \<Rightarrow> bool" where
  "stream_segment isn S s d \<longleftrightarrow>
     (\<exists>k. s = isn + of_nat k \<and> d \<noteq> [] \<and> k + length d \<le> length S \<and> d = take (length d) (drop k S))"

definition stream_inv :: "u32 \<Rightarrow> bytes \<Rightarrow> bytes \<Rightarrow> nat \<Rightarrow> bool \<Rightarrow> recv_buf \<Rightarrow> bool" where
  "stream_inv isn S w r f rb \<longleftrightarrow> rb_inv isn w r f rb \<and> prefix w S \<and> (f \<longrightarrow> w = S)
     \<and> (\<forall>x \<in> set (rb_earlyArrivals rb). stream_segment isn S (ea_startSeq x) (ea_data x))
     \<and> (rb_fin rb = 0 \<or> rb_fin rb = isn + of_nat (length S))"

lemma stream_inv_same_bytes: "same_bytes rb rb' \<Longrightarrow> stream_inv isn S w r f rb' \<longleftrightarrow> stream_inv isn S w r f rb"
  by (simp add: same_bytes_def stream_inv_def rb_inv_def)

lemma rb_invD:
  assumes "rb_inv isn w r f rb"
  shows "cb_ok (rb_cBuf rb)" and "is_window isn w r (cb_content (rb_cBuf rb)) (cb_baseSeq (rb_cBuf rb))"
    and "rb_lbr rb + 1 = isn + of_nat r" and "rb_nxt rb = isn + of_nat (length w + of_bool f)"
    and "ea_heap (rb_earlyArrivals rb)" and "r \<le> length w"
    and "length (cb_content (rb_cBuf rb)) = length w - r"
  using assms by (auto simp: rb_inv_def is_window_def)

text \<open>A segment that is next in sequence extends the accepted prefix.\<close>

lemma stream_segment_next:
  assumes seg: "stream_segment isn S s d" and w: "prefix w S" "f \<longrightarrow> w = S"
    and s: "s = isn + of_nat (length w + of_bool f)" and S: "length S < 4294967295"
  shows "\<not> f" and "prefix (w @ take m d) S"
proof -
  from seg obtain k where k: "s = isn + of_nat k" "d \<noteq> []" "k + length d \<le> length S"
    "d = take (length d) (drop k S)" by (auto simp: stream_segment_def)
  have "length w \<le> length S" using w(1) by (rule prefix_length_le)
  moreover have "(of_nat k :: u32) = of_nat (length w + of_bool f)" using s k(1) by simp
  ultimately have kw: "k = length w + of_bool f"
    using k(3) S of_nat_eq_u32 [of k "length w + of_bool f"] by (auto simp del: of_nat_add)
  show nf: "\<not> f"
  proof
    assume f
    then have "k = length S + 1" using kw w(2) by simp
    then show False using k(3) by simp
  qed
  from w(1) obtain zs where S': "S = w @ zs" by (rule prefixE)
  have "k = length w" using kw nf by simp
  then have "d = take (length d) zs" using k(4) S' by simp
  then have "take m d = take (min m (length d)) zs" by (metis take_take)
  then show "prefix (w @ take m d) S"
    using S' by (metis append_take_drop_id prefixI same_append_eq append_assoc)
qed

text \<open>Writing at \<open>nxt\<close> while the FIN is still to come.\<close>

lemma rb_inv_write:
  assumes inv: "rb_inv isn w r False rb" and fits: "length d \<le> unat (FreeSpace (rb_cBuf rb))"
  obtains cb where "WriteIntoBuf (rb_cBuf rb) (rb_nxt rb) d = Inr (cb, length d)"
    and "rb_inv isn (w @ d) r False (rb\<lparr>rb_cBuf := cb, rb_nxt := rb_nxt rb + of_nat (length d)\<rparr>)"
proof -
  note I = rb_invD [OF inv]
  have "length (cb_content (rb_cBuf rb)) + length d \<le> 65535"
    using fits unat_FreeSpace [OF I(1)] cb_content_le [OF I(1)] by linarith
  moreover have "rb_nxt rb = isn + of_nat (length w)" using I(4) by simp
  ultimately obtain cb where "WriteIntoBuf (rb_cBuf rb) (rb_nxt rb) d = Inr (cb, length d)"
    and "cb_ok cb" and "is_window isn (w @ d) r (cb_content cb) (cb_baseSeq cb)"
    by (rule cbw.window_write [OF I(1,2)])
  then show thesis using I by (rule_tac that [of cb]) (simp_all add: rb_inv_def)
qed

lemma drain_empty:
  "ea_Peek (rb_earlyArrivals rb) = None \<Longrightarrow> drainEarlyArrivals rb = Inr (rb, True)"
  by (subst drainEarlyArrivals.simps) simp

lemma drain_stop:
  "ea_Peek (rb_earlyArrivals rb) = Some x \<Longrightarrow>
   ea_startSeq x \<noteq> rb_nxt rb \<or> unat (FreeSpace (rb_cBuf rb)) < length (ea_data x) \<Longrightarrow>
   drainEarlyArrivals rb = Inr (rb, False)"
  by (subst drainEarlyArrivals.simps) auto

lemma drain_move:
  "ea_Peek (rb_earlyArrivals rb) = Some x \<Longrightarrow> ea_startSeq x = rb_nxt rb \<Longrightarrow>
   length (ea_data x) \<le> unat (FreeSpace (rb_cBuf rb)) \<Longrightarrow> PopMin (rb_earlyArrivals rb) = (Some x, h) \<Longrightarrow>
   WriteIntoBuf (rb_cBuf rb) (rb_nxt rb) (ea_data x) = Inr (cb, n) \<Longrightarrow>
   drainEarlyArrivals rb =
     drainEarlyArrivals (rb\<lparr>rb_earlyArrivals := h, rb_cBuf := cb, rb_nxt := rb_nxt rb + of_nat n\<rparr>)"
  by (subst drainEarlyArrivals.simps) (auto simp: not_less)

lemma drain_stream_inv:
  "stream_inv isn S w r False rb \<Longrightarrow> length S < 4294967295 \<Longrightarrow>
   \<exists>rb' b w'. drainEarlyArrivals rb = Inr (rb', b) \<and> stream_inv isn S (w @ w') r False rb'
     \<and> rb_lbr rb' = rb_lbr rb \<and> rb_dataToRead rb' = rb_dataToRead rb \<and> rb_fin rb' = rb_fin rb"
proof (induction "length (rb_earlyArrivals rb)" arbitrary: rb w rule: less_induct)
  case (less rb w)
  have inv: "rb_inv isn w r False rb" and w: "prefix w S"
    and segs: "\<And>x. x \<in> set (rb_earlyArrivals rb) \<Longrightarrow> stream_segment isn S (ea_startSeq x) (ea_data x)"
    and fin: "rb_fin rb = 0 \<or> rb_fin rb = isn + of_nat (length S)"
    using less.prems(1) by (auto simp: stream_inv_def)
  note I = rb_invD [OF inv]
  have stay: ?case if "drainEarlyArrivals rb = Inr (rb, b)" for b
    using that less.prems(1) by (intro exI [of _ rb] exI [of _ b] exI [of _ "[]"]) simp
  show ?case
  proof (cases "ea_Peek (rb_earlyArrivals rb)")
    case None
    then show ?thesis by (rule stay [OF drain_empty])
  next
    case (Some x)
    show ?thesis
    proof (cases "ea_startSeq x \<noteq> rb_nxt rb \<or> unat (FreeSpace (rb_cBuf rb)) < length (ea_data x)")
      case True
      with Some show ?thesis by (rule stay [OF drain_stop])
    next
      case False
      then have x: "ea_startSeq x = rb_nxt rb" "length (ea_data x) \<le> unat (FreeSpace (rb_cBuf rb))" by auto
      from ea.pop_Some [OF I(5) Some] obtain h where
        h: "PopMin (rb_earlyArrivals rb) = (Some x, h)" "ea_heap h" "mset (rb_earlyArrivals rb) = mset h + {#x#}"
        by blast
      have set_h: "set (rb_earlyArrivals rb) = insert x (set h)"
        using arg_cong [OF h(3), of set_mset] by simp
      obtain cb where wr: "WriteIntoBuf (rb_cBuf rb) (rb_nxt rb) (ea_data x) = Inr (cb, length (ea_data x))"
        and inv1: "rb_inv isn (w @ ea_data x) r False
          (rb\<lparr>rb_cBuf := cb, rb_nxt := rb_nxt rb + of_nat (length (ea_data x))\<rparr>)"
        by (rule rb_inv_write [OF inv x(2)])
      let ?rb = "rb\<lparr>rb_earlyArrivals := h, rb_cBuf := cb, rb_nxt := rb_nxt rb + of_nat (length (ea_data x))\<rparr>"
      have "stream_segment isn S (rb_nxt rb) (ea_data x)" using segs [of x] set_h x(1) by simp
      then have "prefix (w @ take (length (ea_data x)) (ea_data x)) S"
        by (rule stream_segment_next(2) [where f = False]) (use w I(4) less.prems(2) in simp_all)
      then have "stream_inv isn S (w @ ea_data x) r False ?rb"
        using inv1 h(2) segs set_h fin by (simp add: stream_inv_def rb_inv_def)
      moreover have "length (rb_earlyArrivals ?rb) < length (rb_earlyArrivals rb)"
        using length_PopMin [OF h(1)] by simp
      ultimately obtain rb' b w' where "drainEarlyArrivals ?rb = Inr (rb', b)"
        "stream_inv isn S ((w @ ea_data x) @ w') r False rb'" "rb_lbr rb' = rb_lbr ?rb"
        "rb_dataToRead rb' = rb_dataToRead ?rb" "rb_fin rb' = rb_fin ?rb"
        using less.hyps [of ?rb] less.prems(2) by blast
      then show ?thesis using drain_move [OF Some x h(1) wr] by auto
    qed
  qed
qed

section \<open>The handlers keep the invariant\<close>

definition recv_inv :: "u32 \<Rightarrow> bytes \<Rightarrow> bytes \<Rightarrow> nat \<Rightarrow> bool \<Rightarrow> table_entry \<Rightarrow> bool" where
  "recv_inv isn S w r f e \<longleftrightarrow> (\<exists>rb. get_recvBuf e = Inr rb \<and> stream_inv isn S w r f rb
     \<and> rb_dataToRead rb \<noteq> ChanClosed) \<and> (te_state e = CLOSE_WAIT \<longrightarrow> f)"

text \<open>The last segment handed to the network is a pure ACK of everything up to \<open>n\<close>.\<close>

definition last_ack :: "u32 \<Rightarrow> table_entry \<Rightarrow> bool" where
  "last_ack n e \<longleftrightarrow> te_sendRequests e \<noteq> [] \<and> sr_data (last (te_sendRequests e)) = []
     \<and> AckNum (sr_tcpHeader (last (te_sendRequests e))) = n
     \<and> Flags (sr_tcpHeader (last (te_sendRequests e))) = TCPFlagAck"

lemma recv_invE:
  assumes "recv_inv isn S w r f e"
  obtains rb where "get_recvBuf e = Inr rb" and "stream_inv isn S w r f rb"
    and "rb_dataToRead rb \<noteq> ChanClosed" and "te_state e = CLOSE_WAIT \<longrightarrow> f"
  using assms by (auto simp: recv_inv_def)

lemma recv_invI:
  "get_recvBuf e = Inr rb \<Longrightarrow> stream_inv isn S w r f rb \<Longrightarrow> rb_dataToRead rb \<noteq> ChanClosed \<Longrightarrow>
    (te_state e = CLOSE_WAIT \<longrightarrow> f) \<Longrightarrow> recv_inv isn S w r f e"
  by (auto simp: recv_inv_def)

lemma sendPureAck_inv:
  assumes "recv_inv isn S w r f e"
  obtains e' where "sendPureAck a e = Inr e'" and "recv_inv isn S w r f e'" and "last_ack a e'"
    and "te_state e' = te_state e"
proof -
  from assms obtain rb where rb: "get_recvBuf e = Inr rb" "stream_inv isn S w r f rb"
    "rb_dataToRead rb \<noteq> ChanClosed" "te_state e = CLOSE_WAIT \<longrightarrow> f" by (rule recv_invE)
  from sendPureAck_ok [OF rb(1), of a] obtain hdr where
    ack: "sendPureAck a e = Inr (send_packet hdr [] e)" "AckNum hdr = a" "Flags hdr = TCPFlagAck" by blast
  show thesis
  proof (rule that [OF ack(1)])
    show "recv_inv isn S w r f (send_packet hdr [] e)" using rb by (intro recv_invI) simp_all
    show "last_ack a (send_packet hdr [] e)" using ack by (simp add: last_ack_def send_packet_def)
  qed simp
qed

lemma signal_dataToRead_inv:
  assumes "recv_inv isn S w r f e"
  obtains e' where "signal_dataToRead e = Inr e'" and "recv_inv isn S w r f e'"
    and "te_sendRequests e' = te_sendRequests e"
proof -
  from assms obtain rb where rb: "get_recvBuf e = Inr rb" "stream_inv isn S w r f rb"
    "rb_dataToRead rb \<noteq> ChanClosed" "te_state e = CLOSE_WAIT \<longrightarrow> f" by (rule recv_invE)
  let ?rb = "rb\<lparr>rb_dataToRead := ChanFull\<rparr>"
  have "stream_inv isn S w r f ?rb" using rb(2) stream_inv_same_bytes [OF same_bytes_signal] by simp
  then have "recv_inv isn S w r f (set_recvBuf ?rb e)"
    using rb normalSocket_get(1) [OF rb(1)] by (intro recv_invI [of _ ?rb]) auto
  then show thesis
    using signal_dataToRead_ok [OF rb(1,3)] by (rule_tac that [of "set_recvBuf ?rb e"]) simp_all
qed

text \<open>The FIN of the stream, when it is next in sequence.\<close>

lemma fin_next_CLOSE_WAIT: "fin_next s = CLOSE_WAIT \<Longrightarrow> s = ESTABLISHED \<or> s = CLOSE_WAIT"
  by (cases s) auto

lemma stream_inv_fin:
  assumes inv: "stream_inv isn S w r f rb" and fin: "rb_nxt rb = isn + of_nat (length S)"
    and S: "length S < 4294967295"
  shows "\<not> f" and "w = S" and "stream_inv isn S w r True (rb\<lparr>rb_nxt := rb_nxt rb + 1, rb_fin := 0\<rparr>)"
proof -
  have w: "prefix w S" and f: "f \<longrightarrow> w = S" and nxt: "rb_nxt rb = isn + of_nat (length w + of_bool f)"
    using inv by (auto simp: stream_inv_def rb_inv_def)
  have "length w \<le> length S" using w by (rule prefix_length_le)
  moreover have "(of_nat (length w + of_bool f) :: u32) = of_nat (length S)" using nxt fin by simp
  ultimately have len: "length w + of_bool f = length S"
    using S of_nat_eq_u32 [of "length w + of_bool f" "length S"] by (auto simp del: of_nat_add)
  show nf: "\<not> f" using len f by auto
  then show wS: "w = S" using len w by (auto simp: prefix_def)
  show "stream_inv isn S w r True (rb\<lparr>rb_nxt := rb_nxt rb + 1, rb_fin := 0\<rparr>)"
    using inv nf wS by (simp add: stream_inv_def rb_inv_def)
qed

lemma handleEarlyFin_inv:
  assumes inv: "recv_inv isn S w r f e" and S: "length S < 4294967295"
  shows "\<exists>e' f'. handleEarlyFin e = Inr e' \<and> recv_inv isn S w r f' e'"
proof -
  from inv obtain rb where rb: "get_recvBuf e = Inr rb" "stream_inv isn S w r f rb"
    "rb_dataToRead rb \<noteq> ChanClosed" "te_state e = CLOSE_WAIT \<longrightarrow> f" by (rule recv_invE)
  from rb(1,3) show ?thesis
  proof (cases rule: handleEarlyFin_ok)
    case idle
    then show ?thesis using inv by blast
  next
    case (fin e' rb')
    then have "rb_nxt rb = isn + of_nat (length S)" using rb(2) by (auto simp: stream_inv_def)
    from stream_inv_fin(3) [OF rb(2) this S] have "stream_inv isn S w r True rb'"
      using stream_inv_same_bytes [OF fin(5)] by simp
    moreover have "rb_dataToRead rb' \<noteq> ChanClosed" using fin(5) rb(3) by (simp add: same_bytes_def)
    ultimately show ?thesis using fin(1,4) by (blast intro: recv_invI)
  qed
qed

lemma handleFin_inv:
  assumes inv: "recv_inv isn S w r f e" and S: "length S < 4294967295"
    and hdr: "SeqNum hdr = isn + of_nat (length S)"
  shows "\<exists>e' f'. handleFin hdr e = Inr e' \<and> recv_inv isn S w r f' e'"
proof -
  from inv obtain rb where rb: "get_recvBuf e = Inr rb" "stream_inv isn S w r f rb"
    "rb_dataToRead rb \<noteq> ChanClosed" "te_state e = CLOSE_WAIT \<longrightarrow> f" by (rule recv_invE)
  let ?rb = "rb\<lparr>rb_fin := SeqNum hdr\<rparr>"
  have sock: "te_normalSocket e \<noteq> None" using rb(1) by (rule normalSocket_get)
  have inv1: "recv_inv isn S w r f (set_recvBuf ?rb e)"
    using rb sock hdr by (intro recv_invI [of _ ?rb]) (auto simp: stream_inv_def rb_inv_def)
  consider "rb_nxt rb < SeqNum hdr" | "SeqNum hdr < rb_nxt rb" | (now) "rb_nxt rb = SeqNum hdr"
    by (cases "rb_nxt rb" "SeqNum hdr" rule: linorder_cases) auto
  then show ?thesis
  proof cases
    case 1
    then show ?thesis using rb(1) inv1 by (auto simp: handleFin_def)
  next
    case 2
    from inv1 obtain e' where "sendPureAck (rb_nxt rb) (set_recvBuf ?rb e) = Inr e'" "recv_inv isn S w r f e'"
      by (rule sendPureAck_inv)
    moreover have "\<not> rb_nxt rb < SeqNum hdr" using 2 by simp
    ultimately show ?thesis using rb(1) 2 by (auto simp: handleFin_def)
  next
    case now
    let ?rb1 = "rb\<lparr>rb_nxt := rb_nxt rb + 1, rb_fin := 0\<rparr>"
    have inv2: "stream_inv isn S w r True ?rb1"
      by (rule stream_inv_fin(3) [OF rb(2) _ S]) (simp add: now hdr)
    have rb1: "get_recvBuf (set_recvBuf ?rb1 e) = Inr ?rb1" using sock by simp
    obtain h where ack: "sendPureAck (rb_nxt rb + 1) (set_recvBuf ?rb1 e) = Inr (send_packet h [] (set_recvBuf ?rb1 e))"
      by (rule sendPureAck_ok [OF rb1])
    have "get_recvBuf (send_packet h [] (set_recvBuf ?rb1 e)) = Inr ?rb1" using rb1 by simp
    moreover have "rb_dataToRead ?rb1 \<noteq> ChanClosed" using rb(3) by simp
    ultimately obtain e' rb' where e': "fin_switch (send_packet h [] (set_recvBuf ?rb1 e)) = Inr e'"
      "get_recvBuf e' = Inr rb'" "same_bytes ?rb1 rb'"
      by (rule fin_switch_ok)
    have "recv_inv isn S w r True e'"
      using e' inv2 rb(3) stream_inv_same_bytes [OF e'(3)]
      by (intro recv_invI [OF e'(2)]) (auto simp: same_bytes_def)
    moreover have "handleFin hdr e = Inr e'"
      using rb(1) ack e'(1) now by (simp add: handleFin_def Let_def)
    ultimately show ?thesis by blast
  qed
qed


text \<open>The slices taken for the debug prints stay inside the buffer.\<close>

lemma rb_inv_slices:
  assumes inv: "rb_inv isn w r f rb"
  shows "r \<le> k \<Longrightarrow> k + n \<le> length w \<Longrightarrow>
      SliceFrom (rb_cBuf rb) (isn + of_nat k) (of_nat n) = Inr (take n (drop k w))"
    and "SliceFrom (rb_cBuf rb) (rb_lbr rb + 1) (cb_currSize (rb_cBuf rb)) = Inr (drop r w)"
proof -
  note I = rb_invD [OF inv]
  show slice: "SliceFrom (rb_cBuf rb) (isn + of_nat k) (of_nat n) = Inr (take n (drop k w))"
    if "r \<le> k" "k + n \<le> length w" for k n
    by (rule cbw.window_slice [OF I(1,2) that])
  have "unat (cb_currSize (rb_cBuf rb)) = length w - r" using I(7) by simp
  then have "cb_currSize (rb_cBuf rb) = of_nat (length w - r)" by (metis of_nat_unat ucast_id)
  then show "SliceFrom (rb_cBuf rb) (rb_lbr rb + 1) (cb_currSize (rb_cBuf rb)) = Inr (drop r w)"
    using slice [of r "length w - r"] I(3,6) by (simp only:) simp
qed

lemma stream_inv_push:
  assumes "stream_inv isn S w r f rb" and "stream_segment isn S s d"
  shows "stream_inv isn S w r f (rb\<lparr>rb_earlyArrivals := PushSegment (rb_earlyArrivals rb) s d\<rparr>)"
proof -
  have h: "ea_heap (rb_earlyArrivals rb)" using assms(1) by (simp add: stream_inv_def rb_inv_def)
  show ?thesis
    using assms PushSegment_correct(1) [OF h, of s d]
    by (auto simp: stream_inv_def rb_inv_def set_PushSegment [OF h] segment_entry_def)
qed

definition acked_all :: "table_entry \<Rightarrow> bool" where
  "acked_all e \<longleftrightarrow> (\<exists>rb. get_recvBuf e = Inr rb \<and> last_ack (rb_nxt rb) e)"

lemma sendPureAck_acked:
  assumes "recv_inv isn S w r f e" and rb: "get_recvBuf e = Inr rb"
  obtains e' where "sendPureAck (rb_nxt rb) e = Inr e'" and "recv_inv isn S w r f e'" and "acked_all e'"
proof -
  obtain e' where e': "sendPureAck (rb_nxt rb) e = Inr e'" "recv_inv isn S w r f e'" "last_ack (rb_nxt rb) e'"
    using assms(1) by (rule sendPureAck_inv)
  moreover have "get_recvBuf e' = Inr rb" using e'(1) rb by (auto simp: sendPureAck_def)
  ultimately show thesis using that by (auto simp: acked_all_def)
qed

text \<open>
  The in-order branch after the write: draining the heap, the early FIN, the signal and the ACK.
\<close>

definition payload_tail :: "tcp_fields \<Rightarrow> u32 \<Rightarrow> recv_buf \<Rightarrow> table_entry \<Rightarrow> go_panic + table_entry" where
  "payload_tail hdr payLen rb0 e =
     go_bind (drainEarlyArrivals rb0) (\<lambda>(rb1, drained).
     go_bind (if drained then handleEarlyFin (set_recvBuf rb1 e) else Inr (set_recvBuf rb1 e)) (\<lambda>e1.
     go_bind (get_recvBuf e1) (\<lambda>rb2.
     go_bind (SliceFrom (rb_cBuf rb2) (SeqNum hdr) payLen) (\<lambda>_.
     go_bind (if 0 < cb_currSize (rb_cBuf rb2)
              then SliceFrom (rb_cBuf rb2) (rb_lbr rb2 + 1) (cb_currSize (rb_cBuf rb2))
              else Inr []) (\<lambda>_.
     go_bind (signal_dataToRead e1) (\<lambda>e2. sendPureAck (rb_nxt rb2) e2))))))"

lemma payload_tail_inv:
  assumes inv: "stream_inv isn S w r False rb0" and S: "length S < 4294967295"
    and k: "SeqNum hdr = isn + of_nat k" "r \<le> k" "k + n \<le> length w"
    and sock: "te_normalSocket e \<noteq> None" and op: "rb_dataToRead rb0 \<noteq> ChanClosed"
    and st: "te_state e \<noteq> CLOSE_WAIT"
  shows "\<exists>e' w' f'. payload_tail hdr (of_nat n) rb0 e = Inr e' \<and> recv_inv isn S (w @ w') r f' e' \<and> acked_all e'"
proof -
  from drain_stream_inv [OF inv S] obtain rb1 b w' where d: "drainEarlyArrivals rb0 = Inr (rb1, b)"
    and inv1: "stream_inv isn S (w @ w') r False rb1" and same: "rb_dataToRead rb1 = rb_dataToRead rb0"
    by blast
  have r1: "recv_inv isn S (w @ w') r False (set_recvBuf rb1 e)"
    using inv1 same sock op st by (intro recv_invI [of _ rb1]) auto
  have "\<exists>e1 f'. (if b then handleEarlyFin (set_recvBuf rb1 e) else Inr (set_recvBuf rb1 e)) = Inr e1
      \<and> recv_inv isn S (w @ w') r f' e1"
    using r1 handleEarlyFin_inv [OF r1 S] by (cases b) auto
  then obtain e1 f' where e1: "(if b then handleEarlyFin (set_recvBuf rb1 e) else Inr (set_recvBuf rb1 e)) = Inr e1"
    and inv2: "recv_inv isn S (w @ w') r f' e1" by blast
  from inv2 obtain rb2 where rb2: "get_recvBuf e1 = Inr rb2" "stream_inv isn S (w @ w') r f' rb2"
    by (rule recv_invE)
  from inv2 obtain e2 where e2: "signal_dataToRead e1 = Inr e2" "recv_inv isn S (w @ w') r f' e2"
    by (rule signal_dataToRead_inv)
  obtain rb3 where rb3: "get_recvBuf e2 = Inr rb3" "rb_nxt rb3 = rb_nxt rb2"
    using e2(1) rb2(1) normalSocket_get(1) [OF rb2(1)]
    by (auto simp: signal_dataToRead_def go_bind_eq_Inr)
  obtain e' where e': "sendPureAck (rb_nxt rb3) e2 = Inr e'" "recv_inv isn S (w @ w') r f' e'" "acked_all e'"
    by (rule sendPureAck_acked [OF e2(2) rb3(1)])
  have rinv2: "rb_inv isn (w @ w') r f' rb2" using rb2(2) by (simp add: stream_inv_def)
  have s1: "SliceFrom (rb_cBuf rb2) (SeqNum hdr) (of_nat n) = Inr (take n (drop k (w @ w')))"
    unfolding k(1) by (rule rb_inv_slices(1) [OF rinv2]) (use k in simp_all)
  have "payload_tail hdr (of_nat n) rb0 e = Inr e'"
    using d e1 rb2(1) s1 rb_inv_slices(2) [OF rinv2] e2(1) e'(1) rb3(2)
    by (simp add: payload_tail_def)
  with e'(2,3) show ?thesis by blast
qed

lemma handlePayload_next:
  assumes "get_recvBuf e = Inr rb" and "rb_nxt rb = SeqNum hdr" and "\<not> (te_dropForRetrans e \<and> coin)"
    and "FreeSpace (rb_cBuf rb) \<noteq> 0" and p: "p = take (unat (FreeSpace (rb_cBuf rb))) payload"
    and "WriteIntoBuf (rb_cBuf rb) (rb_nxt rb) p = Inr (cb, length p)"
  shows "handlePayload coin hdr payload e = payload_tail hdr (of_nat (length p))
    (rb\<lparr>rb_cBuf := cb, rb_nxt := rb_nxt rb + of_nat (length p)\<rparr>) e"
proof -
  have "(if unat (FreeSpace (rb_cBuf rb)) < length payload
      then take (unat (FreeSpace (rb_cBuf rb))) payload else payload) = p"
    unfolding p by simp
  moreover have "unat (FreeSpace (rb_cBuf rb)) \<noteq> 0" using assms(4) by (simp add: unat_eq_0)
  ultimately show ?thesis
    unfolding handlePayload_def if_not_P [OF assms(3)]
    using assms(1,2,6) by (simp add: payload_tail_def Let_def del: if_cancel)
qed

lemma handlePayload_inv:
  assumes inv: "recv_inv isn S w r f e" and S: "length S < 4294967295"
    and seg: "stream_segment isn S (SeqNum hdr) payload"
  shows "\<exists>e' w' f'. handlePayload coin hdr payload e = Inr e' \<and> recv_inv isn S (w @ w') r f' e'
    \<and> (te_dropForRetrans e \<and> coin \<or> acked_all e')"
proof (cases "te_dropForRetrans e \<and> coin")
  case True
  then have "handlePayload coin hdr payload e = Inr e" by (simp add: handlePayload_def)
  then show ?thesis using inv True by (intro exI [of _ e] exI [of _ "[]"] exI [of _ f]) simp
next
  case keep: False
  from inv obtain rb where rb: "get_recvBuf e = Inr rb" "stream_inv isn S w r f rb"
    "rb_dataToRead rb \<noteq> ChanClosed" "te_state e = CLOSE_WAIT \<longrightarrow> f" by (rule recv_invE)
  have rinv: "rb_inv isn w r f rb" using rb(2) by (simp add: stream_inv_def)
  note I = rb_invD [OF rinv]
  have sock: "te_normalSocket e \<noteq> None" using rb(1) by (rule normalSocket_get)
  have ack: ?thesis if h: "handlePayload coin hdr payload e = sendPureAck (rb_nxt rb') (set_recvBuf rb' e)"
    and i: "stream_inv isn S w r f rb'" "rb_dataToRead rb' = rb_dataToRead rb" for rb'
  proof -
    have "recv_inv isn S w r f (set_recvBuf rb' e)"
      using i rb(3,4) sock by (intro recv_invI [of _ rb']) auto
    then obtain e' where "sendPureAck (rb_nxt rb') (set_recvBuf rb' e) = Inr e'"
      "recv_inv isn S w r f e'" "acked_all e'"
      by (rule sendPureAck_acked) (use sock in simp)
    then show ?thesis using h by (intro exI [of _ e'] exI [of _ "[]"] exI [of _ f]) simp
  qed
  have same: "set_recvBuf rb e = e" using rb(1) by (auto simp: get_recvBuf_eq set_defs)
  consider (early) "rb_nxt rb < SeqNum hdr" | (old) "SeqNum hdr < rb_nxt rb" | (now) "rb_nxt rb = SeqNum hdr"
    by (cases "rb_nxt rb" "SeqNum hdr" rule: linorder_cases) auto
  then show ?thesis
  proof cases
    case early
    show ?thesis
      by (rule ack [OF _ stream_inv_push [OF rb(2) seg]])
        (use rb(1) early in \<open>simp_all add: handlePayload_def if_not_P [OF keep]\<close>)
  next
    case old
    then have "\<not> rb_nxt rb < SeqNum hdr" by simp
    then show ?thesis
      using rb(1) old by (intro ack [OF _ rb(2)]) (simp_all add: handlePayload_def if_not_P [OF keep] same)
  next
    case now
    show ?thesis
    proof (cases "FreeSpace (rb_cBuf rb) = 0")
      case True
      then show ?thesis
        using rb(1) now by (intro ack [OF _ rb(2)]) (simp_all add: handlePayload_def if_not_P [OF keep] same)
    next
      case room: False
      define p where "p = take (unat (FreeSpace (rb_cBuf rb))) payload"
      have w: "prefix w S" "f \<longrightarrow> w = S" using rb(2) by (auto simp: stream_inv_def)
      have sq: "SeqNum hdr = isn + of_nat (length w + of_bool f)" using now I(4) by simp
      note nx = stream_segment_next [OF seg w sq S]
      have f: "f = False" using nx(1) by simp
      obtain cb where wr: "WriteIntoBuf (rb_cBuf rb) (rb_nxt rb) p = Inr (cb, length p)"
        and inv1: "rb_inv isn (w @ p) r False (rb\<lparr>rb_cBuf := cb, rb_nxt := rb_nxt rb + of_nat (length p)\<rparr>)"
        by (rule rb_inv_write [OF rinv [unfolded f], of p]) (simp_all add: p_def)
      let ?rb = "rb\<lparr>rb_cBuf := cb, rb_nxt := rb_nxt rb + of_nat (length p)\<rparr>"
      have "prefix (w @ p) S" unfolding p_def by (rule nx(2))
      then have "stream_inv isn S (w @ p) r False ?rb"
        using inv1 rb(2) by (simp add: stream_inv_def)
      then have "\<exists>e' w' f'. payload_tail hdr (of_nat (length p)) ?rb e = Inr e'
          \<and> recv_inv isn S ((w @ p) @ w') r f' e' \<and> acked_all e'"
        by (rule payload_tail_inv [where k = "length w"]) (use S sq f I(6) sock rb(3,4) in auto)
      then obtain e' w' f' where "payload_tail hdr (of_nat (length p)) ?rb e = Inr e'"
        "recv_inv isn S (w @ p @ w') r f' e'" "acked_all e'" by auto
      then show ?thesis
        using handlePayload_next [OF rb(1) now keep room p_def wr]
        by (intro exI [of _ e'] exI [of _ "p @ w'"] exI [of _ f']) simp
    qed
  qed
qed


section \<open>Reading\<close>

definition read_result :: "bytes \<Rightarrow> bytes \<Rightarrow> nat \<Rightarrow> nat \<Rightarrow> nat \<Rightarrow> vread_result \<Rightarrow> bool" where
  "read_result S w len r r' res = (case res of
     ReadClosing \<Rightarrow> r' = r
   | ReadEOF \<Rightarrow> r' = r \<and> r = length S \<and> w = S
   | ReadParked \<Rightarrow> r' = r \<and> r = length w
   | ReadOk out n \<Rightarrow> r' = r + n \<and> n = min len (length w - r) \<and> r < length w
       \<and> take n out = take n (drop r w))"

text \<open>An iteration that finds bytes returns the next ones.\<close>

lemma VRead_loop_data:
  assumes inv: "recv_inv isn S w r f e" and rb: "get_recvBuf e = Inr rb"
    and data: "r < length w" and dest: "length dest < 4294967296"
  shows "\<exists>out e'. VRead_loop (Suc m) dest e = Inr (Some (ReadOk out (min (length dest) (length w - r))), e')
    \<and> recv_inv isn S w (r + min (length dest) (length w - r)) f e'
    \<and> take (min (length dest) (length w - r)) out = take (min (length dest) (length w - r)) (drop r w)"
proof -
  let ?n = "min (length dest) (length w - r)" and ?cb = "rb_cBuf rb"
  have st: "stream_inv isn S w r f rb" "rb_dataToRead rb \<noteq> ChanClosed" "te_state e = CLOSE_WAIT \<longrightarrow> f"
    using inv rb by (auto elim: recv_invE)
  then have rinv: "rb_inv isn w r f rb" by (simp add: stream_inv_def)
  note I = rb_invD [OF rinv]
  have size: "unat (cb_currSize ?cb) = length w - r" using I(7) by simp
  then have "cb_currSize ?cb \<noteq> 0" using data by auto
  have cnt: "cb_content ?cb = drop r w" and base: "cb_baseSeq ?cb = isn + of_nat r"
    using I(2) by (simp_all add: is_window_def)
  have n: "(if unat (cb_currSize ?cb) < length dest then unat (cb_currSize ?cb) else length dest) = ?n"
    using size by simp
  have n16: "?n \<le> 65535" using cb_content_le [OF I(1)] I(7) by simp
  have "\<exists>out. ReadFromBuf ?cb (rb_lbr rb + 1) dest (of_nat ?n) = Inr (out, ?n)
      \<and> take ?n out = take ?n (drop r w)"
  proof (cases "dest = []")
    case True
    then show ?thesis by (simp add: ReadFromBuf_def)
  next
    case False
    have "ReadFromBuf ?cb (cb_baseSeq ?cb + of_nat 0) dest (of_nat ?n)
        = Inr (take ?n (drop 0 (cb_content ?cb)) @ drop ?n dest, ?n)"
      by (rule ReadFromBuf_content [OF I(1)]) (use False data dest I(7) in simp_all)
    moreover have "rb_lbr rb + 1 = cb_baseSeq ?cb + of_nat 0" using base I(3) by simp
    moreover have "length (take ?n (drop r w)) = ?n" using data by simp
    ultimately show ?thesis using cnt by (simp del: length_take length_drop)
  qed
  then obtain out where out: "ReadFromBuf ?cb (rb_lbr rb + 1) dest (of_nat ?n) = Inr (out, ?n)"
    "take ?n out = take ?n (drop r w)" by blast
  let ?rb = "rb\<lparr>rb_lbr := rb_lbr rb + of_nat ?n, rb_cBuf := AdvanceBase ?cb (of_nat ?n)\<rparr>"
  have un: "unat (of_nat ?n :: u32) = ?n" using n16 by (intro unat_of_nat_u32) simp
  have adv: "is_window isn w (r + ?n) (cb_content (AdvanceBase ?cb (of_nat ?n))) (cb_baseSeq (AdvanceBase ?cb (of_nat ?n)))"
    by (rule cbw.window_advance_to [OF I(1,2)]) (use un I(6) in simp_all)
  have "rb_lbr rb + of_nat ?n + 1 = (rb_lbr rb + 1) + of_nat ?n" by (simp only: ac_simps)
  then have "rb_lbr rb + of_nat ?n + 1 = isn + of_nat (r + ?n)"
    unfolding I(3) by (simp only: of_nat_add add.assoc)
  then have "rb_inv isn w (r + ?n) f ?rb"
    using adv AdvanceBase_drop(1) [OF I(1), of "of_nat ?n"] I(4,5) by (simp add: rb_inv_def del: of_nat_add)
  then have "stream_inv isn S w (r + ?n) f ?rb" using st(1) by (simp add: stream_inv_def)
  then have inv': "recv_inv isn S w (r + ?n) f (set_recvBuf ?rb e)"
    using normalSocket_get(1) [OF rb] st(2,3) by (intro recv_invI [of _ ?rb]) auto
  have "VRead_loop (Suc m) dest e = Inr (Some (ReadOk out ?n), set_recvBuf ?rb e)"
    using rb \<open>cb_currSize ?cb \<noteq> 0\<close> n out(1) by (simp add: Let_def)
  then show ?thesis using out(2) inv' by blast
qed

text \<open>
  On an open connection two iterations are enough: a stale token costs one, the next one returns or
  parks.
\<close>

lemma VRead_loop_inv:
  assumes inv: "recv_inv isn S w r f e" and dest: "length dest < 4294967296"
  shows "\<exists>res e' r'. VRead_loop (Suc (Suc m)) dest e = Inr (Some res, e') \<and> recv_inv isn S w r' f e'
    \<and> read_result S w (length dest) r r' res"
proof -
  from inv obtain rb where rb: "get_recvBuf e = Inr rb" "stream_inv isn S w r f rb"
    "rb_dataToRead rb \<noteq> ChanClosed" "te_state e = CLOSE_WAIT \<longrightarrow> f" by (rule recv_invE)
  have rinv: "rb_inv isn w r f rb" using rb(2) by (simp add: stream_inv_def)
  note I = rb_invD [OF rinv]
  show ?thesis
  proof (cases "r < length w")
    case True
    from VRead_loop_data [OF inv rb(1) True dest, of "Suc m"] True show ?thesis
      unfolding read_result_def by (elim exE conjE) (intro exI conjI, assumption+, simp)
  next
    case False
    then have r: "r = length w" using I(6) by simp
    then have "unat (cb_currSize (rb_cBuf rb)) = 0" using I(7) by simp
    then have empty: "cb_currSize (rb_cBuf rb) = 0" by (simp add: unat_eq_0)
    have here: ?thesis if "VRead_loop (Suc (Suc m)) dest e = Inr (Some res, e)"
      "read_result S w (length dest) r r res" for res
      using that inv by blast
    show ?thesis
    proof (cases "te_state e = CLOSE_WAIT")
      case True
      then have "w = S" using rb(2,4) by (simp add: stream_inv_def)
      then show ?thesis using rb(1) empty True r by (intro here [of ReadEOF]) (simp_all add: read_result_def)
    next
      case nc: False
      show ?thesis
      proof (cases "rb_dataToRead rb")
        case ChanFull
        let ?e = "set_recvBuf (rb\<lparr>rb_dataToRead := ChanEmpty\<rparr>) e"
        have g: "get_recvBuf ?e = Inr (rb\<lparr>rb_dataToRead := ChanEmpty\<rparr>)"
          using normalSocket_get(1) [OF rb(1)] by simp
        have "stream_inv isn S w r f (rb\<lparr>rb_dataToRead := ChanEmpty\<rparr>)"
          using rb(2) by (simp add: stream_inv_def rb_inv_def)
        then have "recv_inv isn S w r f ?e" using g nc by (intro recv_invI) auto
        moreover have "VRead_loop (Suc (Suc m)) dest e = Inr (Some ReadParked, ?e)"
          using rb(1) empty nc ChanFull g by simp
        ultimately show ?thesis using r by (auto simp: read_result_def)
      next
        case ChanEmpty
        then show ?thesis
          using rb(1) empty nc r by (intro here [of ReadParked]) (simp_all add: read_result_def)
      qed (use rb(3) in simp)
    qed
  qed
qed

lemma VRead_inv:
  assumes inv: "recv_inv isn S w r f e" and dest: "length dest < 4294967296"
  shows "\<exists>res e' r'. VRead (Suc (Suc m)) dest e = Inr (Some res, e') \<and> recv_inv isn S w r' f e'
    \<and> read_result S w (length dest) r r' res"
  using VRead_loop_inv [OF assms, of m] inv
  by (cases "te_state e \<in> {FIN_WAIT_1, FIN_WAIT_2, TIME_WAIT, LAST_ACK, CLOSED}")
    (auto simp: VRead_def read_result_def)


section \<open>Runs of the receive side\<close>

text \<open>
  What can happen to an established connection: a data segment or a FIN arrives, in any order and
  any number of times, or the application reads into a buffer of some length. The run collects the
  bytes that the application got and whether it saw the end of the stream.
\<close>

datatype recv_event =
    SegmentArrives bool tcp_fields bytes
  | FinArrives tcp_fields
  | AppReads nat

fun recv_event_step :: "recv_event \<Rightarrow> table_entry \<times> bytes \<times> bool \<Rightarrow> go_panic + (table_entry \<times> bytes \<times> bool)" where
  "recv_event_step (SegmentArrives coin hdr payload) (e, out, eof) =
     go_bind (handlePayload coin hdr payload e) (\<lambda>e'. Inr (e', out, eof))"
| "recv_event_step (FinArrives hdr) (e, out, eof) =
     go_bind (handleFin hdr e) (\<lambda>e'. Inr (e', out, eof))"
| "recv_event_step (AppReads len) (e, out, eof) =
     go_bind (VRead 2 (replicate len 0) e) (\<lambda>(res, e'). case res of
         Some (ReadOk d n) \<Rightarrow> Inr (e', out @ take n d, eof)
       | Some ReadEOF \<Rightarrow> Inr (e', out, True)
       | _ \<Rightarrow> Inr (e', out, eof))"

fun recv_run :: "recv_event list \<Rightarrow> table_entry \<times> bytes \<times> bool \<Rightarrow> go_panic + (table_entry \<times> bytes \<times> bool)" where
  "recv_run [] s = Inr s"
| "recv_run (ev # evs) s = go_bind (recv_event_step ev s) (recv_run evs)"

text \<open>The peer only sends bytes of its stream \<open>S\<close> at their position, and its FIN after the last one.\<close>

fun honest_event :: "u32 \<Rightarrow> bytes \<Rightarrow> recv_event \<Rightarrow> bool" where
  "honest_event isn S (SegmentArrives coin hdr payload) = stream_segment isn S (SeqNum hdr) payload"
| "honest_event isn S (FinArrives hdr) = (SeqNum hdr = isn + of_nat (length S))"
| "honest_event isn S (AppReads len) = (len < 4294967296)"

definition run_inv :: "u32 \<Rightarrow> bytes \<Rightarrow> table_entry \<times> bytes \<times> bool \<Rightarrow> bool" where
  "run_inv isn S = (\<lambda>(e, out, eof). \<exists>w r f. recv_inv isn S w r f e \<and> out = take r w \<and> (eof \<longrightarrow> out = S))"

lemma recv_inv_prefix: "recv_inv isn S w r f e \<Longrightarrow> prefix w S \<and> r \<le> length w"
  by (auto simp: recv_inv_def stream_inv_def rb_inv_def is_window_def)

lemma run_invI:
  "recv_inv isn S w r f e \<Longrightarrow> out = take r w \<Longrightarrow> eof \<longrightarrow> out = S \<Longrightarrow> run_inv isn S (e, out, eof)"
  by (auto simp: run_inv_def)

lemma recv_event_step_inv:
  assumes inv: "run_inv isn S s" and S: "length S < 4294967295" and ev: "honest_event isn S ev"
  shows "\<exists>s'. recv_event_step ev s = Inr s' \<and> run_inv isn S s'"
proof -
  obtain e out eof where s: "s = (e, out, eof)" by (cases s)
  from inv s obtain w r f where r: "recv_inv isn S w r f e" and out: "out = take r w" "eof \<longrightarrow> out = S"
    by (auto simp: run_inv_def)
  have rw: "r \<le> length w" using recv_inv_prefix [OF r] by simp
  show ?thesis
  proof (cases ev)
    case (SegmentArrives coin hdr payload)
    then have seg: "stream_segment isn S (SeqNum hdr) payload" using ev by simp
    from handlePayload_inv [OF r S seg, of coin] obtain e' w' f' where
      h: "handlePayload coin hdr payload e = Inr e'" "recv_inv isn S (w @ w') r f' e'" by blast
    have "run_inv isn S (e', out, eof)"
      by (rule run_invI [OF h(2)]) (use out rw in simp_all)
    then show ?thesis using s SegmentArrives h(1) by simp
  next
    case (FinArrives hdr)
    then have "SeqNum hdr = isn + of_nat (length S)" using ev by simp
    from handleFin_inv [OF r S this] obtain e' f' where
      h: "handleFin hdr e = Inr e'" "recv_inv isn S w r f' e'" by blast
    have "run_inv isn S (e', out, eof)" by (rule run_invI [OF h(2) out])
    then show ?thesis using s FinArrives h(1) by simp
  next
    case (AppReads len)
    have "length (replicate len (0 :: u8)) < 4294967296" using ev AppReads by simp
    from VRead_inv [OF r this, of 0] obtain res e' r' where
      v: "VRead 2 (replicate len 0) e = Inr (Some res, e')" "recv_inv isn S w r' f e'"
      "read_result S w len r r' res" by (auto simp: numeral_2_eq_2)
    show ?thesis
    proof (cases res)
      case (ReadOk d n)
      then have "r' = r + n" "take n d = take n (drop r w)" using v(3) by (auto simp: read_result_def)
      then have "out @ take n d = take r' w" using out by (simp add: take_add)
      moreover have "eof \<longrightarrow> out @ take n d = S"
      proof
        assume eof
        then have "take r w = S" using out by simp
        moreover have "prefix w S" using recv_inv_prefix [OF r] by simp
        ultimately have "length w \<le> r" using prefix_length_le [of w S] rw by (metis length_take min.absorb2)
        moreover have "r < length w" using v(3) ReadOk by (simp add: read_result_def)
        ultimately show "out @ take n d = S" by simp
      qed
      ultimately have "run_inv isn S (e', out @ take n d, eof)" by (rule run_invI [OF v(2)])
      then show ?thesis using s AppReads v(1) ReadOk by simp
    next
      case ReadEOF
      then have "run_inv isn S (e', out, True)"
        using v(3) out by (intro run_invI [OF v(2)]) (simp_all add: read_result_def)
      then show ?thesis using s AppReads v(1) ReadEOF by simp
    next
      case ReadClosing
      then have "run_inv isn S (e', out, eof)"
        using v(3) out by (intro run_invI [OF v(2)]) (simp_all add: read_result_def)
      then show ?thesis using s AppReads v(1) ReadClosing by simp
    next
      case ReadParked
      then have "run_inv isn S (e', out, eof)"
        using v(3) out by (intro run_invI [OF v(2)]) (simp_all add: read_result_def)
      then show ?thesis using s AppReads v(1) ReadParked by simp
    qed
  qed
qed

lemma recv_run_inv:
  "run_inv isn S s \<Longrightarrow> length S < 4294967295 \<Longrightarrow> \<forall>ev \<in> set evs. honest_event isn S ev \<Longrightarrow>
   \<exists>s'. recv_run evs s = Inr s' \<and> run_inv isn S s'"
proof (induction evs arbitrary: s)
  case (Cons ev evs)
  then obtain s1 where "recv_event_step ev s = Inr s1" "run_inv isn S s1"
    using recv_event_step_inv [of isn S s ev] by auto
  then show ?case using Cons by simp
qed simp

lemma recv_inv_start:
  "get_recvBuf e = Inr (newRecvBuf isn) \<Longrightarrow> te_state e = ESTABLISHED \<Longrightarrow> recv_inv isn S [] 0 False e"
  by (auto simp: recv_inv_def stream_inv_def rb_inv_def newRecvBuf_def is_window_def MakeEarlyArrivals_def is_heap_def)

text \<open>
  C3. The application reads the peer's stream. On a connection established with the peer's
  initial sequence number, let the peer's segments and FIN arrive in any order, lost, duplicated,
  delayed or dropped by the test flag, interleaved with reads of any size: no handler panics, every
  read returns, the bytes read form a prefix of the peer's stream (no byte lost, repeated, reordered
  or invented), and end of file is only reported once the whole stream has been read.
\<close>

theorem reader_gets_peer_stream:
  assumes "get_recvBuf e = Inr (newRecvBuf isn)" and "te_state e = ESTABLISHED"
    and "length S < 4294967295" and "\<forall>ev \<in> set evs. honest_event isn S ev"
  shows "\<exists>e' out eof. recv_run evs (e, [], False) = Inr (e', out, eof) \<and> prefix out S
    \<and> (eof \<longrightarrow> out = S)"
proof -
  have "run_inv isn S (e, [], False)"
    using recv_inv_start [OF assms(1,2), of S] by (auto simp: run_inv_def)
  from recv_run_inv [OF this assms(3,4)] obtain e' out eof where
    run: "recv_run evs (e, [], False) = Inr (e', out, eof)" "run_inv isn S (e', out, eof)" by auto
  then obtain w r f where "recv_inv isn S w r f e'" "out = take r w" "eof \<longrightarrow> out = S"
    by (auto simp: run_inv_def)
  moreover from this have "prefix out S"
    using recv_inv_prefix [of isn S w r f e'] by (metis prefix_order.trans take_is_prefix)
  ultimately show ?thesis using run(1) by blast
qed

text \<open>A connection whose second segment arrives first, twice, before the first one and the FIN.\<close>

definition sample_hdr :: "u32 \<Rightarrow> u8 \<Rightarrow> tcp_fields" where
  "sample_hdr s fl = \<lparr>SrcPort = 80, DstPort = 5000, SeqNum = s, AckNum = 0, DataOffset = 20, Flags = fl,
     WindowSize = 65535, Checksum = 0, UrgentPointer = 0\<rparr>"

definition sample_entry :: "u32 \<Rightarrow> u32 \<Rightarrow> table_entry" where
  "sample_entry ours theirs = zero_entry\<lparr>te_state := ESTABLISHED, te_seqNum := ours,
     te_normalSocket := Some (zero_conn\<lparr>vc_sendBuf := Some (newSendBuf ours),
       vc_recvBuf := Some (newRecvBuf theirs)\<rparr>)\<rparr>"

theorem reader_gets_peer_stream_witness:
  "\<exists>e' out eof. recv_run
      [SegmentArrives False (sample_hdr 2 16) [12, 13], SegmentArrives False (sample_hdr 2 16) [12, 13],
       FinArrives (sample_hdr 4 17), AppReads 10, SegmentArrives False (sample_hdr 0 16) [10, 11],
       AppReads 10, AppReads 10] (sample_entry 7 0, [], False) = Inr (e', out, eof)
     \<and> prefix out [10, 11, 12, 13] \<and> (eof \<longrightarrow> out = [10, 11, 12, 13])"
proof (rule reader_gets_peer_stream [where isn = 0])
  have "stream_segment 0 [10, 11, 12, 13] 0 [10, 11]" "stream_segment 0 [10, 11, 12, 13] 2 [12, 13]"
    unfolding stream_segment_def by (rule exI [of _ 0], simp) (rule exI [of _ 2], simp)
  then show "\<forall>ev \<in> set [SegmentArrives False (sample_hdr 2 16) [12, 13],
      SegmentArrives False (sample_hdr 2 16) [12, 13], FinArrives (sample_hdr 4 17), AppReads 10,
      SegmentArrives False (sample_hdr 0 16) [10, 11], AppReads 10, AppReads 10].
      honest_event 0 [10, 11, 12, 13] ev" by (simp add: sample_hdr_def)
qed (simp_all add: sample_entry_def get_recvBuf_eq)

section \<open>Segments out of order\<close>

text \<open>
  The peer's stream cut into segments \<open>cs\<close>. Once the segments of the index set \<open>A\<close> have arrived,
  the first \<open>k\<close> are in the buffer and the heap holds the other ones.
\<close>

definition seg_start :: "bytes list \<Rightarrow> nat \<Rightarrow> nat" where
  "seg_start cs j = length (concat (take j cs))"

definition seg_entry :: "u32 \<Rightarrow> bytes list \<Rightarrow> nat \<Rightarrow> early_arrival" where
  "seg_entry isn cs j = segment_entry (isn + of_nat (seg_start cs j)) (cs ! j)"

definition delivered :: "u32 \<Rightarrow> bytes list \<Rightarrow> nat \<Rightarrow> nat set \<Rightarrow> recv_buf \<Rightarrow> bool" where
  "delivered isn cs k B rb \<longleftrightarrow> rb_inv isn (concat (take k cs)) 0 False rb
     \<and> mset (rb_earlyArrivals rb) = image_mset (seg_entry isn cs) (mset_set B)
     \<and> B \<subseteq> {k..<length cs} \<and> k \<le> length cs \<and> rb_fin rb = 0 \<and> rb_dataToRead rb \<noteq> ChanClosed"

definition small_stream :: "u32 \<Rightarrow> bytes list \<Rightarrow> bool" where
  "small_stream isn cs \<longleftrightarrow> (\<forall>c \<in> set cs. c \<noteq> []) \<and> length (concat cs) \<le> 65535
     \<and> unat isn + length (concat cs) < 4294967296"

lemma concat_take_Suc: "j < length cs \<Longrightarrow> concat (take (Suc j) cs) = concat (take j cs) @ cs ! j"
  by (simp add: take_Suc_conv_app_nth)

lemma concat_split: "concat cs = concat (take j cs) @ concat (drop j cs)"
  by (metis append_take_drop_id concat_append)

lemma seg_start_le: "seg_start cs j \<le> length (concat cs)"
  unfolding seg_start_def by (subst concat_split [of cs j]) (simp del: length_concat)

lemma seg_start_less:
  assumes "small_stream isn cs" and "i < j" and "j \<le> length cs"
  shows "seg_start cs i < seg_start cs j"
  using assms(2,3)
proof (induction j)
  case (Suc j)
  have "cs ! j \<noteq> []" using assms(1) Suc.prems by (simp add: small_stream_def)
  then have "seg_start cs j < seg_start cs (Suc j)"
    using Suc.prems by (simp add: seg_start_def concat_take_Suc del: length_concat)
  then show ?case using Suc by (cases "i = j") auto
qed simp

lemma unat_seg_start:
  assumes "small_stream isn cs"
  shows "unat (isn + of_nat (seg_start cs j)) = unat isn + seg_start cs j"
proof -
  have "unat isn + seg_start cs j < 4294967296"
    using assms seg_start_le [of cs j] by (simp add: small_stream_def del: length_concat)
  moreover from this have "unat (of_nat (seg_start cs j) :: u32) = seg_start cs j"
    by (intro unat_of_nat_u32) simp
  ultimately show ?thesis by (simp add: unat_add_word)
qed

lemma seg_seq_less:
  assumes "small_stream isn cs" and "i < j" and "j \<le> length cs"
  shows "isn + of_nat (seg_start cs i) < (isn + of_nat (seg_start cs j) :: u32)"
  using seg_start_less [OF assms] assms(1) by (simp add: word_less_nat_alt unat_seg_start)

lemma delivered_nxt: "delivered isn cs k B rb \<Longrightarrow> rb_nxt rb = isn + of_nat (seg_start cs k)"
  by (simp add: delivered_def rb_inv_def seg_start_def)

lemma delivered_write:
  assumes d: "delivered isn cs k B rb" and small: "small_stream isn cs" and k: "k < length cs" "k \<notin> B"
  obtains cb where "WriteIntoBuf (rb_cBuf rb) (rb_nxt rb) (cs ! k) = Inr (cb, length (cs ! k))"
    and "length (cs ! k) \<le> unat (FreeSpace (rb_cBuf rb))"
    and "delivered isn cs (Suc k) B (rb\<lparr>rb_cBuf := cb, rb_nxt := rb_nxt rb + of_nat (length (cs ! k))\<rparr>)"
proof -
  have inv: "rb_inv isn (concat (take k cs)) 0 False rb" using d by (simp add: delivered_def)
  note I = rb_invD [OF inv]
  have "length (concat (take (Suc k) cs)) \<le> length (concat cs)"
    using seg_start_le [of cs "Suc k"] by (simp add: seg_start_def del: length_concat)
  then have "length (concat (take k cs)) + length (cs ! k) \<le> 65535"
    using small k(1) by (simp add: small_stream_def concat_take_Suc del: length_concat)
  moreover have "unat (FreeSpace (rb_cBuf rb)) = 65535 - length (concat (take k cs))"
    using unat_FreeSpace [OF I(1)] I(7) by (simp del: length_concat)
  ultimately have fits: "length (cs ! k) \<le> unat (FreeSpace (rb_cBuf rb))" by linarith
  from inv fits obtain cb where
    wr: "WriteIntoBuf (rb_cBuf rb) (rb_nxt rb) (cs ! k) = Inr (cb, length (cs ! k))"
    and inv': "rb_inv isn (concat (take k cs) @ cs ! k) 0 False
      (rb\<lparr>rb_cBuf := cb, rb_nxt := rb_nxt rb + of_nat (length (cs ! k))\<rparr>)"
    by (rule rb_inv_write)
  have "B \<subseteq> {k..<length cs}" using d by (simp add: delivered_def)
  then have "B \<subseteq> {Suc k..<length cs}" using k(2) by (auto simp: less_Suc_eq_le Suc_le_eq order_le_less)
  then show thesis
    using inv' d k(1) by (intro that [OF wr fits]) (simp add: delivered_def concat_take_Suc)
qed

text \<open>The heap's minimum is segment \<open>k\<close> exactly when that segment has arrived.\<close>

lemma delivered_peek:
  assumes d: "delivered isn cs k B rb" and small: "small_stream isn cs"
  shows "k \<in> B \<Longrightarrow> ea_Peek (rb_earlyArrivals rb) = Some (seg_entry isn cs k)"
    and "k \<notin> B \<Longrightarrow> ea_Peek (rb_earlyArrivals rb) = Some x \<Longrightarrow> ea_startSeq x \<noteq> rb_nxt rb"
proof -
  let ?h = "rb_earlyArrivals rb"
  have heap: "ea_heap ?h" and items: "mset ?h = image_mset (seg_entry isn cs) (mset_set B)"
    and B: "B \<subseteq> {k..<length cs}" using d by (simp_all add: delivered_def rb_inv_def)
  have fin: "finite B" using B by (rule finite_subset) simp
  have set_h: "set ?h = seg_entry isn cs ` B"
    using arg_cong [OF items, of set_mset] fin by simp
  have later: "isn + of_nat (seg_start cs k) < isn + of_nat (seg_start cs j)" if "j \<in> B" "j \<noteq> k" for j
    using that B by (intro seg_seq_less [OF small]) auto
  have start: "ea_startSeq (seg_entry isn cs j) = isn + of_nat (seg_start cs j)" for j
    by (simp add: seg_entry_def segment_entry_def)
  show "ea_Peek ?h = Some (seg_entry isn cs k)" if k: "k \<in> B"
  proof (cases "ea_Peek ?h")
    case None
    then have "?h = []" using ea.peek_None [OF heap] by simp
    then show ?thesis using set_h k by auto
  next
    case (Some x)
    with ea.peek_min [OF heap Some] have x: "x \<in> set ?h" and le: "\<forall>y \<in> set ?h. ea_startSeq x \<le> ea_startSeq y"
      by auto
    from x set_h obtain j where j: "j \<in> B" "x = seg_entry isn cs j" by auto
    have "j = k"
    proof (rule ccontr)
      assume "j \<noteq> k"
      moreover have "ea_startSeq x \<le> ea_startSeq (seg_entry isn cs k)" using le set_h k by auto
      ultimately show False using later [OF j(1)] j(2) start by (simp add: not_le [symmetric])
    qed
    with Some j(2) show ?thesis by simp
  qed
  show "ea_startSeq x \<noteq> rb_nxt rb" if k: "k \<notin> B" and x: "ea_Peek ?h = Some x"
  proof -
    have "x \<in> set ?h" using ea.peek_min [OF heap x] by simp
    then obtain j where j: "j \<in> B" "x = seg_entry isn cs j" using set_h by auto
    then have "j \<noteq> k" using k by auto
    with later [OF j(1)] show ?thesis using j(2) start delivered_nxt [OF d] by auto
  qed
qed

lemma drain_delivered:
  "delivered isn cs k B rb \<Longrightarrow> small_stream isn cs \<Longrightarrow>
   \<exists>rb' b k'. drainEarlyArrivals rb = Inr (rb', b) \<and> delivered isn cs k' (B - {k..<k'}) rb'
     \<and> k \<le> k' \<and> {k..<k'} \<subseteq> B \<and> k' \<notin> B"
proof (induction "length cs - k" arbitrary: k B rb rule: less_induct)
  case (less k B rb)
  note d = less.prems(1) and small = less.prems(2)
  show ?case
  proof (cases "k \<in> B")
    case False
    obtain b where "drainEarlyArrivals rb = Inr (rb, b)"
      using drain_empty [of rb] drain_stop [of rb] delivered_peek(2) [OF d small False]
      by (cases "ea_Peek (rb_earlyArrivals rb)") blast+
    then show ?thesis using d False by (intro exI [of _ rb] exI [of _ b] exI [of _ k]) simp
  next
    case True
    have k: "k < length cs" and heap: "ea_heap (rb_earlyArrivals rb)"
      and items: "mset (rb_earlyArrivals rb) = image_mset (seg_entry isn cs) (mset_set B)"
      and B: "B \<subseteq> {k..<length cs}"
      using True d by (auto simp: delivered_def rb_inv_def)
    then have fin: "finite B" by (meson finite_atLeastLessThan finite_subset)
    note peek = delivered_peek(1) [OF d small True]
    from ea.pop_Some [OF heap peek] obtain h where
      h: "PopMin (rb_earlyArrivals rb) = (Some (seg_entry isn cs k), h)" "ea_heap h"
      "mset (rb_earlyArrivals rb) = mset h + {#seg_entry isn cs k#}" by blast
    have "mset_set B = mset_set (B - {k}) + {#k#}" using fin True
      by (metis add_mset_add_single mset_set.remove)
    then have h_items: "mset h = image_mset (seg_entry isn cs) (mset_set (B - {k}))"
      using items h(3) by simp
    let ?rb0 = "rb\<lparr>rb_earlyArrivals := h\<rparr>"
    have d0: "delivered isn cs k (B - {k}) ?rb0"
      using d h(2) h_items by (auto simp: delivered_def rb_inv_def)
    have "k \<notin> B - {k}" by simp
    then obtain cb where wr: "WriteIntoBuf (rb_cBuf ?rb0) (rb_nxt ?rb0) (cs ! k) = Inr (cb, length (cs ! k))"
      and fits: "length (cs ! k) \<le> unat (FreeSpace (rb_cBuf ?rb0))"
      and d1: "delivered isn cs (Suc k) (B - {k})
        (?rb0\<lparr>rb_cBuf := cb, rb_nxt := rb_nxt ?rb0 + of_nat (length (cs ! k))\<rparr>)"
      by (rule delivered_write [OF d0 small k])
    let ?rb1 = "rb\<lparr>rb_earlyArrivals := h, rb_cBuf := cb, rb_nxt := rb_nxt rb + of_nat (length (cs ! k))\<rparr>"
    have "length cs - Suc k < length cs - k" using k by simp
    from less.hyps [OF this, of "B - {k}" ?rb1] d1 small obtain rb' b k' where
      r: "drainEarlyArrivals ?rb1 = Inr (rb', b)" "delivered isn cs k' (B - {k} - {Suc k..<k'}) rb'"
      "Suc k \<le> k'" "{Suc k..<k'} \<subseteq> B - {k}" "k' \<notin> B - {k}" by auto
    have "drainEarlyArrivals rb = drainEarlyArrivals ?rb1"
      by (rule drain_move [OF peek _ _ h(1)])
        (use delivered_nxt [OF d] fits wr in \<open>simp_all add: seg_entry_def segment_entry_def\<close>)
    moreover have "{k..<k'} = insert k {Suc k..<k'}" using r(3) by auto
    then have "B - {k} - {Suc k..<k'} = B - {k..<k'}" "{k..<k'} \<subseteq> B" using r(4) True by auto
    moreover have "k' \<notin> B" using r(3,5) by auto
    ultimately show ?thesis using r by (intro exI [of _ rb'] exI [of _ b] exI [of _ k']) auto
  qed
qed

text \<open>One arrival.\<close>

definition arrived :: "u32 \<Rightarrow> bytes list \<Rightarrow> nat set \<Rightarrow> table_entry \<Rightarrow> bool" where
  "arrived isn cs A e \<longleftrightarrow> (\<exists>k rb. get_recvBuf e = Inr rb \<and> {..<k} \<subseteq> A \<and> k \<notin> A
     \<and> A \<subseteq> {..<length cs} \<and> delivered isn cs k {j \<in> A. k \<le> j} rb) \<and> \<not> te_dropForRetrans e"

lemma payload_tail_delivered:
  assumes d: "delivered isn cs (Suc k) B rb0" and small: "small_stream isn cs" and k: "k < length cs"
    and hdr: "SeqNum hdr = isn + of_nat (seg_start cs k)" and sock: "te_normalSocket e \<noteq> None"
  shows "\<exists>e' rb' k'. payload_tail hdr (of_nat (length (cs ! k))) rb0 e = Inr e' \<and> get_recvBuf e' = Inr rb'
    \<and> delivered isn cs k' (B - {Suc k..<k'}) rb' \<and> Suc k \<le> k' \<and> {Suc k..<k'} \<subseteq> B \<and> k' \<notin> B
    \<and> last_ack (rb_nxt rb') e' \<and> te_dropForRetrans e' = te_dropForRetrans e"
proof -
  from drain_delivered [OF d small] obtain rb1 b k' where
    r: "drainEarlyArrivals rb0 = Inr (rb1, b)" "delivered isn cs k' (B - {Suc k..<k'}) rb1"
    "Suc k \<le> k'" "{Suc k..<k'} \<subseteq> B" "k' \<notin> B" by blast
  let ?e = "set_recvBuf rb1 e" and ?rb2 = "rb1\<lparr>rb_dataToRead := ChanFull\<rparr>"
  have g: "get_recvBuf ?e = Inr rb1" using sock by simp
  have rinv: "rb_inv isn (concat (take k' cs)) 0 False rb1" and op: "rb_dataToRead rb1 \<noteq> ChanClosed"
    and fin: "rb_fin rb1 = 0"
    using r(2) by (simp_all add: delivered_def)
  have early: "(if b then handleEarlyFin ?e else Inr ?e) = Inr ?e"
    using g fin by (simp add: handleEarlyFin_def)
  have "concat (take (Suc k) cs) = take (seg_start cs (Suc k)) (concat (take k' cs))"
    unfolding seg_start_def using r(3)
    by (metis append_eq_conv_conj concat_append le_add_diff_inverse take_add)
  then have "seg_start cs k + length (cs ! k) \<le> length (concat (take k' cs))"
    using k by (metis concat_take_Suc length_append length_take min.cobounded1 seg_start_def)
  then have s: "\<exists>x. SliceFrom (rb_cBuf rb1) (SeqNum hdr) (of_nat (length (cs ! k))) = Inr x"
    unfolding hdr using rb_inv_slices(1) [OF rinv] by blast
  have sig: "signal_dataToRead ?e = Inr (set_recvBuf ?rb2 ?e)"
    using g op by (rule signal_dataToRead_ok)
  have g2: "get_recvBuf (set_recvBuf ?rb2 ?e) = Inr ?rb2" using sock by simp
  obtain h where ack: "sendPureAck (rb_nxt rb1) (set_recvBuf ?rb2 ?e) = Inr (send_packet h [] (set_recvBuf ?rb2 ?e))"
    "AckNum h = rb_nxt rb1" "Flags h = TCPFlagAck"
    using g2 by (rule sendPureAck_ok)
  have "payload_tail hdr (of_nat (length (cs ! k))) rb0 e = Inr (send_packet h [] (set_recvBuf ?rb2 ?e))"
    using r(1) early g s rb_inv_slices(2) [OF rinv] sig ack(1) by (auto simp: payload_tail_def)
  moreover have "delivered isn cs k' (B - {Suc k..<k'}) ?rb2"
    using r(2) by (simp add: delivered_def rb_inv_def)
  moreover have "last_ack (rb_nxt ?rb2) (send_packet h [] (set_recvBuf ?rb2 ?e))"
    using ack by (simp add: last_ack_def send_packet_def)
  ultimately show ?thesis
    using r(3-5) g2 by (intro exI [of _ "send_packet h [] (set_recvBuf ?rb2 ?e)"] exI [of _ ?rb2] exI [of _ k']) simp
qed

lemma handlePayload_arrived:
  assumes arr: "arrived isn cs A e" and small: "small_stream isn cs" and j: "j < length cs" "j \<notin> A"
    and hdr: "SeqNum hdr = isn + of_nat (seg_start cs j)"
  shows "\<exists>e'. handlePayload coin hdr (cs ! j) e = Inr e' \<and> arrived isn cs (insert j A) e' \<and> acked_all e'"
proof -
  from arr obtain k rb where rb: "get_recvBuf e = Inr rb" and k: "{..<k} \<subseteq> A" "k \<notin> A"
    and A: "A \<subseteq> {..<length cs}" and d: "delivered isn cs k {j \<in> A. k \<le> j} rb"
    and keep: "\<not> te_dropForRetrans e" by (auto simp: arrived_def)
  have sock: "te_normalSocket e \<noteq> None" using rb by (rule normalSocket_get)
  have nxt: "rb_nxt rb = isn + of_nat (seg_start cs k)" by (rule delivered_nxt [OF d])
  show ?thesis
  proof (cases "j = k")
    case True
    have "k \<notin> {j \<in> A. k \<le> j}" using k(2) by simp
    with j(1) True obtain cb where wr: "WriteIntoBuf (rb_cBuf rb) (rb_nxt rb) (cs ! k) = Inr (cb, length (cs ! k))"
      and fits: "length (cs ! k) \<le> unat (FreeSpace (rb_cBuf rb))"
      and d1: "delivered isn cs (Suc k) {j \<in> A. k \<le> j}
        (rb\<lparr>rb_cBuf := cb, rb_nxt := rb_nxt rb + of_nat (length (cs ! k))\<rparr>)"
      by (auto elim: delivered_write [OF d small])
    have "cs ! k \<noteq> []" using small j(1) True by (simp add: small_stream_def)
    then have "FreeSpace (rb_cBuf rb) \<noteq> 0" using fits by (auto simp: unat_eq_0)
    then have h: "handlePayload coin hdr (cs ! k) e = payload_tail hdr (of_nat (length (cs ! k)))
        (rb\<lparr>rb_cBuf := cb, rb_nxt := rb_nxt rb + of_nat (length (cs ! k))\<rparr>) e"
      using rb nxt hdr True keep fits wr by (intro handlePayload_next) simp_all
    from payload_tail_delivered [OF d1 small _ _ sock, of hdr] j(1) True hdr obtain e' rb' k' where
      t: "handlePayload coin hdr (cs ! k) e = Inr e'" "get_recvBuf e' = Inr rb'"
      "delivered isn cs k' ({j \<in> A. k \<le> j} - {Suc k..<k'}) rb'" "Suc k \<le> k'"
      "{Suc k..<k'} \<subseteq> {j \<in> A. k \<le> j}" "k' \<notin> {j \<in> A. k \<le> j}"
      "last_ack (rb_nxt rb') e'" "te_dropForRetrans e' = te_dropForRetrans e" unfolding h by auto
    have "{j \<in> A. k \<le> j} - {Suc k..<k'} = {j \<in> insert k A. k' \<le> j}"
      using k t(4) by (auto simp: Suc_le_eq order_le_less)
    moreover have "x \<in> insert k A" if "x < k'" for x
    proof (cases x k rule: linorder_cases)
      case greater
      then have "x \<in> {Suc k..<k'}" using that by simp
      then show ?thesis using t(5) by auto
    qed (use k(1) in auto)
    moreover have "k' \<notin> insert k A" using t(4,6) by auto
    ultimately have "arrived isn cs (insert k A) e'"
      using t A j(1) True keep unfolding arrived_def by (auto intro!: exI [of _ k'] exI [of _ rb'])
    then show ?thesis using t True by (auto simp: acked_all_def)
  next
    case False
    then have kj: "k < j" using k(1) j(2) by (metis lessThan_iff linorder_neqE_nat subsetD)
    have later: "rb_nxt rb < SeqNum hdr"
      unfolding nxt hdr using kj j(1) by (intro seg_seq_less [OF small]) simp_all
    let ?rb = "rb\<lparr>rb_earlyArrivals := PushSegment (rb_earlyArrivals rb) (SeqNum hdr) (cs ! j)\<rparr>"
    have heap: "ea_heap (rb_earlyArrivals rb)"
      and items: "mset (rb_earlyArrivals rb) = image_mset (seg_entry isn cs) (mset_set {j \<in> A. k \<le> j})"
      using d by (simp_all add: delivered_def rb_inv_def)
    have fin: "finite A" using A by (rule finite_subset) simp
    have "cs ! j \<noteq> []" using small j(1) by (simp add: small_stream_def)
    then have "mset (PushSegment (rb_earlyArrivals rb) (SeqNum hdr) (cs ! j))
        = add_mset (seg_entry isn cs j) (mset (rb_earlyArrivals rb))"
      unfolding PushSegment_correct(2) [OF heap] by (simp add: seg_entry_def hdr)
    moreover have "{i \<in> insert j A. k \<le> i} = insert j {i \<in> A. k \<le> i}" using kj by auto
    ultimately have "delivered isn cs k {i \<in> insert j A. k \<le> i} ?rb"
      using d items fin j kj PushSegment_correct(1) [OF heap] by (auto simp: delivered_def rb_inv_def)
    moreover have g: "get_recvBuf (set_recvBuf ?rb e) = Inr ?rb" using sock by simp
    obtain h where ack: "sendPureAck (rb_nxt rb) (set_recvBuf ?rb e) = Inr (send_packet h [] (set_recvBuf ?rb e))"
      "AckNum h = rb_nxt rb" "Flags h = TCPFlagAck" using g by (rule sendPureAck_ok)
    ultimately have "arrived isn cs (insert j A) (send_packet h [] (set_recvBuf ?rb e))"
      using g k A j kj keep unfolding arrived_def by (auto intro!: exI [of _ k] exI [of _ ?rb])
    moreover have "acked_all (send_packet h [] (set_recvBuf ?rb e))"
      using g ack by (simp add: acked_all_def last_ack_def send_packet_def get_defs)
    ultimately show ?thesis using rb keep later ack(1) by (simp add: handlePayload_def)
  qed
qed

lemma run_arrived:
  "arrived isn cs A e \<Longrightarrow> small_stream isn cs \<Longrightarrow> distinct p \<Longrightarrow> set p \<subseteq> {..<length cs} \<Longrightarrow>
   set p \<inter> A = {} \<Longrightarrow> \<forall>j. SeqNum (h j) = isn + of_nat (seg_start cs j) \<Longrightarrow>
   \<exists>e'. recv_run (map (\<lambda>j. SegmentArrives False (h j) (cs ! j)) p) (e, out, eof) = Inr (e', out, eof)
     \<and> arrived isn cs (A \<union> set p) e' \<and> (p \<noteq> [] \<longrightarrow> acked_all e')"
proof (induction p arbitrary: A e)
  case (Cons j p)
  from handlePayload_arrived [OF Cons.prems(1,2), of j "h j" False] Cons.prems obtain e1 where
    e1: "handlePayload False (h j) (cs ! j) e = Inr e1" "arrived isn cs (insert j A) e1" "acked_all e1" by auto
  have "set p \<inter> insert j A = {}" using Cons.prems by auto
  with Cons.IH [OF e1(2)] Cons.prems obtain e' where
    "recv_run (map (\<lambda>j. SegmentArrives False (h j) (cs ! j)) p) (e1, out, eof) = Inr (e', out, eof)"
    "arrived isn cs (insert j A \<union> set p) e'" "p \<noteq> [] \<longrightarrow> acked_all e'" by auto
  moreover from this have "acked_all e'" using e1(3) by (cases "p = []") auto
  ultimately show ?case using e1(1) by auto
qed simp

lemma arrived_start:
  assumes "get_recvBuf e = Inr (newRecvBuf isn)" and "\<not> te_dropForRetrans e"
  shows "arrived isn cs {} e"
proof -
  have "rb_inv isn [] 0 False (newRecvBuf isn)"
    by (simp add: rb_inv_def newRecvBuf_def is_window_def)
  then have "delivered isn cs 0 {} (newRecvBuf isn)"
    by (simp add: delivered_def newRecvBuf_def)
  then show ?thesis using assms by (auto simp: arrived_def)
qed

lemma arrived_all:
  assumes "arrived isn cs {..<length cs} e"
  shows "\<exists>rb. get_recvBuf e = Inr rb \<and> cb_content (rb_cBuf rb) = concat cs \<and> rb_earlyArrivals rb = []
    \<and> rb_nxt rb = isn + of_nat (length (concat cs))"
proof -
  from assms obtain k rb where rb: "get_recvBuf e = Inr rb" and k: "k \<notin> {..<length cs}"
    and d: "delivered isn cs k {j \<in> {..<length cs}. k \<le> j} rb" by (auto simp: arrived_def)
  have k': "length cs \<le> k" using k by simp
  then have "{j \<in> {..<length cs}. k \<le> j} = {}" by auto
  with d have "delivered isn cs k {} rb" by (simp only:)
  with k' have "rb_inv isn (concat cs) 0 False rb" and "mset (rb_earlyArrivals rb) = {#}"
    by (simp_all add: delivered_def)
  then show ?thesis using rb by (auto simp: rb_inv_def is_window_def)
qed

text \<open>
  Reordering is repaired. Cut a stream of at most 65535 bytes, whose sequence numbers do not
  wrap, into non-empty segments and let them arrive in any order, each once. The receive buffer
  then holds exactly the stream, the early-arrivals heap is empty, and the last segment sent is a
  pure ACK of the whole stream.
\<close>

theorem reordered_segments_delivered:
  assumes "get_recvBuf e = Inr (newRecvBuf isn)" and "\<not> te_dropForRetrans e"
    and "cs \<noteq> []" and "\<forall>c \<in> set cs. c \<noteq> []" and "length (concat cs) \<le> 65535"
    and "unat isn + length (concat cs) < 4294967296"
    and "mset order = mset [0..<length cs]"
    and "\<forall>j. SeqNum (h j) = isn + of_nat (length (concat (take j cs)))"
  shows "\<exists>e' rb. recv_run (map (\<lambda>j. SegmentArrives False (h j) (cs ! j)) order) (e, [], False)
      = Inr (e', [], False) \<and> get_recvBuf e' = Inr rb \<and> cb_content (rb_cBuf rb) = concat cs
    \<and> rb_earlyArrivals rb = [] \<and> last_ack (isn + of_nat (length (concat cs))) e'"
proof -
  have order: "distinct order" "set order = {..<length cs}"
    using mset_eq_imp_distinct_iff [OF assms(7)] mset_eq_setD [OF assms(7)]
    by (simp_all add: atLeast0LessThan)
  have "order \<noteq> []" using order(2) assms(3) by (metis empty_set length_0_conv lessThan_empty_iff)
  moreover have "small_stream isn cs" using assms(4-6) by (simp add: small_stream_def)
  moreover have "\<forall>j. SeqNum (h j) = isn + of_nat (seg_start cs j)" using assms(8) by (simp add: seg_start_def)
  ultimately obtain e' where e': "recv_run (map (\<lambda>j. SegmentArrives False (h j) (cs ! j)) order) (e, [], False)
      = Inr (e', [], False)" "arrived isn cs {..<length cs} e'" "acked_all e'"
    using run_arrived [OF arrived_start [OF assms(1,2)], of cs order h "[]" False] order by auto
  from arrived_all [OF e'(2)] obtain rb where rb: "get_recvBuf e' = Inr rb"
    "cb_content (rb_cBuf rb) = concat cs" "rb_earlyArrivals rb = []"
    "rb_nxt rb = isn + of_nat (length (concat cs))" by blast
  have "last_ack (isn + of_nat (length (concat cs))) e'"
    using e'(3) rb(1,4) by (auto simp: acked_all_def)
  with e'(1) rb show ?thesis by blast
qed

definition sample_cuts :: "bytes list" where
  "sample_cuts = [[1, 2], [3], [4, 5]]"

theorem reordered_segments_delivered_witness:
  "\<exists>e' rb. recv_run (map (\<lambda>j. SegmentArrives False
        (sample_hdr (100 + of_nat (length (concat (take j sample_cuts)))) 16) (sample_cuts ! j))
      [2, 0, 1]) (sample_entry 7 100, [], False) = Inr (e', [], False)
    \<and> get_recvBuf e' = Inr rb \<and> cb_content (rb_cBuf rb) = concat sample_cuts
    \<and> rb_earlyArrivals rb = [] \<and> last_ack (100 + of_nat (length (concat sample_cuts))) e'"
  by (rule reordered_segments_delivered)
    (simp_all add: sample_entry_def get_recvBuf_eq sample_hdr_def zero_entry_def sample_cuts_def upt_rec)

section \<open>Where the receive side falls short\<close>

text \<open>
  A reader parked inside VRead when teardown closes dataToRead never returns: with an empty
  buffer, a closed channel and a state other than CLOSE_WAIT, every receive from the channel
  succeeds at once and the loop goes round again, so no number of iterations produces a result.
\<close>

theorem VRead_spins_after_teardown:
  assumes "get_recvBuf e = Inr rb" and "cb_currSize (rb_cBuf rb) = 0"
    and "rb_dataToRead rb = ChanClosed" and "te_state e \<noteq> CLOSE_WAIT"
  shows "VRead_loop fuel dest e = Inr (None, e)"
proof (induction fuel)
  case (Suc fuel)
  have "set_recvBuf (rb\<lparr>rb_dataToRead := ChanClosed\<rparr>) e = e"
    using assms(1,3) by (auto simp: get_recvBuf_eq set_defs)
  then show ?case using assms Suc by simp
qed simp

theorem VRead_spins_after_teardown_witness:
  "VRead_loop 1000 [0, 0] (zero_entry\<lparr>te_state := CLOSED, te_normalSocket :=
      Some (zero_conn\<lparr>vc_recvBuf := Some ((newRecvBuf 5)\<lparr>rb_dataToRead := ChanClosed\<rparr>)\<rparr>)\<rparr>)
    = Inr (None, zero_entry\<lparr>te_state := CLOSED, te_normalSocket :=
      Some (zero_conn\<lparr>vc_recvBuf := Some ((newRecvBuf 5)\<lparr>rb_dataToRead := ChanClosed\<rparr>)\<rparr>)\<rparr>)"
  by (rule VRead_spins_after_teardown [where rb = "(newRecvBuf 5)\<lparr>rb_dataToRead := ChanClosed\<rparr>"])
    (simp_all add: get_recvBuf_eq newRecvBuf_def)

end
