(* ===== verification/TcpSend.thy ===== *)
theory TcpSend
  imports RetransTimer TcpRecv
begin

text \<open>
  The send side of a connection: \<open>VWrite\<close> and \<open>VClose\<close> of socketsAPI.go, \<open>sendLoop\<close>,
  \<open>handlePureAck\<close>, \<open>startRtoTimer\<close> and \<open>retransmitSegment\<close> of doTcp.go, \<open>sendFin\<close>, \<open>handleLastAck\<close>
  and \<open>teardown\<close> of closing.go. \<open>sendLoop\<close> is cut at the points where it gives up its mutex, so
  that other handlers can run between its critical sections.
\<close>

section \<open>Teardown\<close>

definition upd_sendBuf :: "(send_buf \<Rightarrow> go_panic + send_buf) \<Rightarrow> table_entry \<Rightarrow> go_panic + table_entry" where
  "upd_sendBuf f e = go_bind (get_sendBuf e) (\<lambda>sb. go_bind (f sb) (\<lambda>sb'. Inr (set_sendBuf sb' e)))"

definition teardown :: "table_entry \<Rightarrow> go_panic + table_entry" where
  "teardown e =
     go_bind (get_conn e) (\<lambda>c.
     go_bind (close_chan (vc_packetChan c)) (\<lambda>pc.
     let e1 = set_conn (\<lambda>c. c\<lparr>vc_packetChan := pc\<rparr>) e in
     go_bind (get_sendBuf e1) (\<lambda>sb.
     go_bind (close_chan (sb_dataWrittenToBuf sb)) (\<lambda>dw.
     go_bind (close_chan (sb_spaceAvailable sb)) (\<lambda>sa.
     let e2 = set_sendBuf (sb\<lparr>sb_dataWrittenToBuf := dw, sb_spaceAvailable := sa\<rparr>) e1 in
     go_bind (get_recvBuf e2) (\<lambda>rb.
     go_bind (close_chan (rb_dataToRead rb)) (\<lambda>dr.
       Inr ((set_recvBuf (rb\<lparr>rb_dataToRead := dr\<rparr>) e2)\<lparr>te_removed := True\<rparr>))))))))"

definition handleLastAck :: "table_entry \<Rightarrow> go_panic + table_entry" where
  "handleLastAck e = teardown (e\<lparr>te_state := CLOSED\<rparr>)"

text \<open>The function that the timer of \<open>timeWait\<close> runs.\<close>

definition timeWait_expires :: "table_entry \<Rightarrow> go_panic + table_entry" where
  "timeWait_expires e = teardown (e\<lparr>te_state := CLOSED\<rparr>)"

section \<open>Retransmission\<close>

definition startRtoTimer :: "retrans_queue \<Rightarrow> go_timer" where
  "startRtoTimer rq = Armed (rq_rto rq)"

text \<open>\<open>timer.Stop()\<close> dereferences the pointer.\<close>

fun stop_timer :: "go_timer \<Rightarrow> go_panic + go_timer" where
  "stop_timer NilTimer = Inl NilDereference"
| "stop_timer _ = Inr StoppedTimer"

text \<open>
  The queue holds pointers: marking the first entry changes it in place. The slice header is reread
  after the marks, but nothing else runs under the queue's mutex.
\<close>

definition retransmitSegment :: "table_entry \<Rightarrow> go_panic + table_entry" where
  "retransmitSegment e =
     go_bind (get_retransQueue e) (\<lambda>rq0.
     let rq = rq0\<lparr>rq_timer := StoppedTimer\<rparr> in
     case rq_array rq of
       [] \<Rightarrow> Inl IndexOutOfRange
     | seg # rest \<Rightarrow>
         let seg1 = seg\<lparr>re_retransmitted := True, re_numRetransmits := re_numRetransmits seg + 1\<rparr>;
             e1 = set_retransQueue (rq\<lparr>rq_array := seg1 # rest\<rparr>) e in
         if MAX_RETRANSMISSIONS < re_numRetransmits seg1 then teardown (e1\<lparr>te_state := CLOSED\<rparr>)
         else
           go_bind (get_sendBuf e1) (\<lambda>sb.
           go_bind (SliceFrom (sb_cBuf sb) (re_seqNum seg1) (re_len seg1)) (\<lambda>sliceToSend.
           go_bind (sendSegment sliceToSend (re_seqNum seg1) (re_flags seg1) e1) (\<lambda>e2.
           go_bind (get_retransQueue e2) (\<lambda>rq2.
             let rq3 = backoff rq2 in
             Inr (set_retransQueue (rq3\<lparr>rq_timer := startRtoTimer rq3\<rparr>) e2))))))"

text \<open>Appending to the queue starts the timer when the queue was empty.\<close>

definition enqueue_retrans :: "retrans_entry \<Rightarrow> table_entry \<Rightarrow> go_panic + table_entry" where
  "enqueue_retrans x e =
     go_bind (get_retransQueue e) (\<lambda>rq.
       let rq1 = (if rq_array rq = [] then rq\<lparr>rq_timer := startRtoTimer rq\<rparr> else rq) in
       Inr (set_retransQueue (rq1\<lparr>rq_array := rq_array rq1 @ [x]\<rparr>) e))"

section \<open>Acknowledgements\<close>

text \<open>
  \<open>len(array) > 0 && array[0].seqNum + array[0].len <= seg.AckNum\<close>: pop the acknowledged entries,
  remembering the last one.
\<close>

fun pop_acked :: "u32 \<Rightarrow> retrans_entry list \<Rightarrow> retrans_entry option \<Rightarrow> retrans_entry list \<times> retrans_entry option" where
  "pop_acked a [] acked = ([], acked)"
| "pop_acked a (x # xs) acked =
     (if re_seqNum x + re_len x \<le> a then pop_acked a xs (Some x) else (x # xs, acked))"

definition getRtt :: "int \<Rightarrow> retrans_entry \<Rightarrow> int" where
  "getRtt now x = now - re_sent x"

text \<open>The part of \<open>handlePureAck\<close> that runs under the queue's mutex.\<close>

definition ack_retransQueue :: "int \<Rightarrow> u32 \<Rightarrow> retrans_queue \<Rightarrow> go_panic + retrans_queue" where
  "ack_retransQueue now ackNum rq =
     go_bind (stop_timer (rq_timer rq)) (\<lambda>t.
       let (array, acked) = pop_acked ackNum (rq_array rq) None;
           rq1 = rq\<lparr>rq_timer := t, rq_array := array\<rparr>;
           rq2 = (case acked of None \<Rightarrow> rq1
                  | Some x \<Rightarrow> if re_retransmitted x then rq1 else updateRto (getRtt now x) rq1);
           rq3 = (if rq_array rq2 \<noteq> [] then rq2\<lparr>rq_timer := startRtoTimer rq2\<rparr> else rq2)
       in Inr rq3)"

text \<open>The end of \<open>handlePureAck\<close>: the zero-window trigger and the window signal.\<close>

definition ack_signals :: "table_entry \<Rightarrow> go_panic + table_entry" where
  "ack_signals e =
     upd_sendBuf (\<lambda>sb.
       go_bind (if sb_otherSideWindow sb = 0 \<and> sb_nxt sb \<le> sb_lbw sb \<and> \<not> sb_isProbing sb
                then go_bind (signal (sb_zwpTrigger sb)) (\<lambda>z. Inr (sb\<lparr>sb_isProbing := True, sb_zwpTrigger := z\<rparr>))
                else Inr sb) (\<lambda>sb1.
       go_bind (signal (sb_otherSideWindowUpdated sb1)) (\<lambda>w. Inr (sb1\<lparr>sb_otherSideWindowUpdated := w\<rparr>)))) e"

definition handlePureAck :: "int \<Rightarrow> tcp_fields \<Rightarrow> table_entry \<Rightarrow> go_panic + table_entry" where
  "handlePureAck now seg e =
     go_bind (get_sendBuf e) (\<lambda>sb.
     if sb_nxt sb < AckNum seg then
       if sb_isProbing sb \<and> AckNum seg = sb_nxt sb + 1 then
         let ackedBytes = AckNum seg - sb_una sb;
             sb1 = sb\<lparr>sb_otherSideWindow := WindowSize seg, sb_una := AckNum seg, sb_nxt := AckNum seg,
                      sb_cBuf := AdvanceBase (sb_cBuf sb) ackedBytes\<rparr>;
             e1 = (set_sendBuf sb1 e)\<lparr>te_seqNum := sb_nxt sb1\<rparr> in
         upd_sendBuf (\<lambda>sb.
           go_bind (signal (sb_spaceAvailable sb)) (\<lambda>sa.
           go_bind (signal (sb_otherSideWindowUpdated sb)) (\<lambda>w.
             Inr (sb\<lparr>sb_spaceAvailable := sa, sb_otherSideWindowUpdated := w\<rparr>)))) e1
       else Inr e
     else
       let sb1 = sb\<lparr>sb_otherSideWindow := WindowSize seg\<rparr> in
       if sb_una sb1 < AckNum seg \<and> AckNum seg \<le> sb_nxt sb1 then
         let ackedBytes = AckNum seg - sb_una sb1;
             sb2 = sb1\<lparr>sb_una := AckNum seg, sb_cBuf := AdvanceBase (sb_cBuf sb1) ackedBytes\<rparr>;
             e2 = set_sendBuf sb2 e in
         go_bind (get_retransQueue e2) (\<lambda>rq.
         go_bind (ack_retransQueue now (AckNum seg) rq) (\<lambda>rq1.
         let e3 = set_retransQueue rq1 e2;
             e4 = (if te_state e3 = FIN_WAIT_1 \<and> AckNum seg = sb_nxt sb2
                   then e3\<lparr>te_state := FIN_WAIT_2\<rparr> else e3) in
         if te_state e4 = LAST_ACK \<and> AckNum seg = sb_nxt sb2 then handleLastAck e4
         else go_bind (upd_sendBuf (\<lambda>sb. go_bind (signal (sb_spaceAvailable sb)) (\<lambda>sa.
                Inr (sb\<lparr>sb_spaceAvailable := sa\<rparr>))) e4) ack_signals))
       else Inr (set_sendBuf sb1 e))"

section \<open>The send loop\<close>

text \<open>
  What the first critical section of an iteration decides: leave the inner loop, wait for the
  window (after a probe, also for the probe timer), or send the next segment.
\<close>

datatype loop_decision = NoUnsentData | Probed | AwaitWindow | SendNext bytes u32

text \<open>
  \<open>int(otherSideWindow) - int(getBytesInFlight())\<close> is an \<open>int\<close>, 64 bits wide, so it does not wrap.
\<close>

definition windowRemaining :: "send_buf \<Rightarrow> int" where
  "windowRemaining sb = uint (sb_otherSideWindow sb) - uint (getBytesInFlight sb)"

definition sendLoop_prepare :: "table_entry \<Rightarrow> go_panic + (loop_decision \<times> table_entry)" where
  "sendLoop_prepare e =
     go_bind (get_sendBuf e) (\<lambda>sb.
     if sb_lbw sb < sb_nxt sb then Inr (NoUnsentData, e)
     else
       let bytesAvailableInBuf = sb_lbw sb - sb_nxt sb + 1 in
       go_bind (if 0 < cb_currSize (sb_cBuf sb)
                then SliceFrom (sb_cBuf sb) (cb_baseSeq (sb_cBuf sb)) (cb_currSize (sb_cBuf sb))
                else Inr []) (\<lambda>_.
       if windowRemaining sb \<le> 0 then
         if sb_otherSideWindow sb = 0 \<and> sb_nxt sb \<le> sb_lbw sb \<and> getBytesInFlight sb = 0 then
           go_bind (SliceFrom (sb_cBuf sb) (sb_una sb) 1) (\<lambda>probeByte.
           go_bind (sendSegment probeByte (sb_una sb) TCPFlagAck (set_sendBuf (sb\<lparr>sb_isProbing := True\<rparr>) e)) (\<lambda>e1.
             Inr (Probed, e1)))
         else Inr (AwaitWindow, e)
       else
         let m0 = bytesAvailableInBuf;
             m1 = (if windowRemaining sb < uint m0 then word_of_int (windowRemaining sb) else m0);
             m2 = (if MAX_SEG_SIZE < m1 then MAX_SEG_SIZE else m1) in
         go_bind (SliceFrom (sb_cBuf sb) (sb_nxt sb) m2) (\<lambda>segmentData.
           Inr (SendNext segmentData m2, set_sendBuf (sb\<lparr>sb_isProbing := False\<rparr>) e))))"

text \<open>Sending the segment and queueing it for retransmission happen outside the buffer's mutex.\<close>

definition sendLoop_transmit :: "int \<Rightarrow> bytes \<Rightarrow> u32 \<Rightarrow> table_entry \<Rightarrow> go_panic + table_entry" where
  "sendLoop_transmit now segmentData maxBytesSendable e =
     go_bind (sendSegment segmentData (te_seqNum e) TCPFlagAck e) (\<lambda>e1.
       enqueue_retrans \<lparr>re_seqNum = te_seqNum e1, re_len = maxBytesSendable, re_flags = TCPFlagAck,
         re_sent = now, re_retransmitted = False, re_numRetransmits = 0\<rparr> e1)"

definition sendLoop_commit :: "u32 \<Rightarrow> table_entry \<Rightarrow> go_panic + table_entry" where
  "sendLoop_commit maxBytesSendable e =
     go_bind (get_sendBuf e) (\<lambda>sb.
       Inr ((set_sendBuf (sb\<lparr>sb_nxt := sb_nxt sb + maxBytesSendable\<rparr>) e)
              \<lparr>te_seqNum := sb_nxt sb + maxBytesSendable\<rparr>))"

text \<open>
  The inner loop run without interruption, with fuel for its iterations: it stops where the code
  leaves it (no unsent data) or blocks.
\<close>

fun sendLoop_inner :: "nat \<Rightarrow> int \<Rightarrow> table_entry \<Rightarrow> go_panic + (loop_decision option \<times> table_entry)" where
  "sendLoop_inner 0 now e = Inr (None, e)"
| "sendLoop_inner (Suc fuel) now e =
     go_bind (sendLoop_prepare e) (\<lambda>(d, e1). case d of
       SendNext segmentData m \<Rightarrow>
         go_bind (sendLoop_transmit now segmentData m e1) (\<lambda>e2.
         go_bind (sendLoop_commit m e2) (sendLoop_inner fuel now))
     | _ \<Rightarrow> Inr (Some d, e1))"

text \<open>
  The outer loop: stop when the connection is closed, else wait for data or for the zero-window
  trigger. The select takes either channel when both are ready (\<open>first\<close> says which one).
\<close>

datatype outer_result = LoopReturns | LoopBlocks | LoopRuns

definition sendLoop_outer :: "bool \<Rightarrow> table_entry \<Rightarrow> go_panic + (outer_result \<times> table_entry)" where
  "sendLoop_outer first e =
     (if te_state e = CLOSED then Inr (LoopReturns, e)
      else go_bind (get_sendBuf e) (\<lambda>sb.
        let d = recv_ready (sb_dataWrittenToBuf sb); z = recv_ready (sb_zwpTrigger sb) in
        if d \<and> (first \<or> \<not> z)
        then Inr (LoopRuns, set_sendBuf (sb\<lparr>sb_dataWrittenToBuf := recv_chan (sb_dataWrittenToBuf sb)\<rparr>) e)
        else if z then Inr (LoopRuns, set_sendBuf (sb\<lparr>sb_zwpTrigger := recv_chan (sb_zwpTrigger sb)\<rparr>) e)
        else Inr (LoopBlocks, e)))"

section \<open>Writing and closing\<close>

datatype vwrite_result = WriteClosing | WriteParked nat | WriteDone nat

text \<open>
  The loop of \<open>VWrite\<close> from \<open>totalBytesWritten\<close> on, with fuel for its iterations. It parks when the
  buffer is full and no token is there.
\<close>

fun VWrite_loop :: "nat \<Rightarrow> bytes \<Rightarrow> nat \<Rightarrow> table_entry \<Rightarrow> go_panic + (vwrite_result option \<times> table_entry)" where
  "VWrite_loop 0 data written e = Inr (None, e)"
| "VWrite_loop (Suc fuel) data written e =
     (if length data \<le> written then Inr (Some (WriteDone written), e)
      else go_bind (get_sendBuf e) (\<lambda>sb.
        let spaceInBuf = FreeSpace (sb_cBuf sb) in
        if spaceInBuf = 0 then
          if \<not> recv_ready (sb_spaceAvailable sb) then Inr (Some (WriteParked written), e)
          else VWrite_loop fuel data written (set_sendBuf (sb\<lparr>sb_spaceAvailable := recv_chan (sb_spaceAvailable sb)\<rparr>) e)
        else
          let n0 = length data - written;
              n = (if unat spaceInBuf < n0 then unat spaceInBuf else n0) in
          go_bind (WriteIntoBuf (sb_cBuf sb) (sb_lbw sb + 1) (subslice written n data)) (\<lambda>(cb, _).
          let sb1 = sb\<lparr>sb_cBuf := cb, sb_lbw := sb_lbw sb + of_nat n\<rparr> in
          go_bind (SliceFrom cb (sb_lbw sb + 1) (of_nat n)) (\<lambda>_.
          go_bind (signal (sb_dataWrittenToBuf sb1)) (\<lambda>ch.
            VWrite_loop fuel data (written + n) (set_sendBuf (sb1\<lparr>sb_dataWrittenToBuf := ch\<rparr>) e))))))"

definition closing_states :: "tcp_state set" where
  "closing_states = {FIN_WAIT_1, FIN_WAIT_2, TIME_WAIT, LAST_ACK, CLOSED}"

definition VWrite :: "nat \<Rightarrow> bytes \<Rightarrow> table_entry \<Rightarrow> go_panic + (vwrite_result option \<times> table_entry)" where
  "VWrite fuel data e =
     (if te_state e \<in> closing_states then Inr (Some WriteClosing, e) else VWrite_loop fuel data 0 e)"

definition sendFin :: "int \<Rightarrow> table_entry \<Rightarrow> go_panic + table_entry" where
  "sendFin now e =
     go_bind (get_recvBuf e) (\<lambda>rb.
     let e1 = send_packet
         \<lparr>SrcPort = te_localPort e, DstPort = te_destPort e, SeqNum = te_seqNum e, AckNum = rb_nxt rb,
          DataOffset = 20, Flags = TCPFlagFin OR TCPFlagAck, WindowSize = getAvailableWindow rb,
          Checksum = 0, UrgentPointer = 0\<rparr> [] e in
     go_bind (enqueue_retrans \<lparr>re_seqNum = te_seqNum e1, re_len = 0, re_flags = TCPFlagFin OR TCPFlagAck,
         re_sent = now, re_retransmitted = False, re_numRetransmits = 0\<rparr> e1) (\<lambda>e2.
     go_bind (get_sendBuf e2) (\<lambda>sb.
       let e3 = (set_sendBuf (sb\<lparr>sb_nxt := sb_nxt sb + 1\<rparr>) e2)\<lparr>te_seqNum := sb_nxt sb + 1\<rparr> in
       Inr (e3\<lparr>te_state := (if te_state e3 = ESTABLISHED then FIN_WAIT_1 else LAST_ACK)\<rparr>))))"

text \<open>
  One poll of \<open>VClose\<close>: refuse, go on sleeping, or send the FIN. The state was checked once, at
  the call.
\<close>

datatype vclose_result = CloseRefused | ClosePolls | CloseSentFin

definition close_ready :: "send_buf \<Rightarrow> bool" where
  "close_ready sb \<longleftrightarrow> sb_nxt sb \<le> sb_una sb \<and> sb_lbw sb < sb_nxt sb"

definition VClose :: "int \<Rightarrow> table_entry \<Rightarrow> go_panic + (vclose_result \<times> table_entry)" where
  "VClose now e =
     (if te_state e \<in> closing_states then Inr (CloseRefused, e)
      else if te_state e = ESTABLISHED \<or> te_state e = CLOSE_WAIT then
        go_bind (get_sendBuf e) (\<lambda>sb.
          if close_ready sb then go_bind (sendFin now e) (\<lambda>e'. Inr (CloseSentFin, e'))
          else Inr (ClosePolls, e))
      else Inr (CloseRefused, e))"


section \<open>The send invariant\<close>

text \<open>
  \<open>W\<close> are the bytes the application has written, from sequence number \<open>isn\<close> on. Sequence numbers
  are compared as plain 32-bit integers throughout the code, so the stream must not wrap;
  \<open>isn = 0\<close> is excluded because \<open>lbw\<close> then starts at \<open>2 ^ 32 - 1\<close>.
\<close>

definition no_wrap :: "u32 \<Rightarrow> bytes \<Rightarrow> bool" where
  "no_wrap isn W \<longleftrightarrow> 0 < unat isn \<and> unat isn + length W < 4294967295"

lemma unat_stream: "no_wrap isn W \<Longrightarrow> k \<le> length W + 1 \<Longrightarrow> unat (isn + of_nat k) = unat isn + k"
  by (simp add: no_wrap_def unat_add_word unat_of_nat_u32)

lemma stream_less_iff:
  "no_wrap isn W \<Longrightarrow> j \<le> length W + 1 \<Longrightarrow> k \<le> length W + 1 \<Longrightarrow>
   isn + of_nat j < isn + of_nat k \<longleftrightarrow> j < k"
  by (simp add: word_less_nat_alt unat_stream)

lemma stream_le_iff:
  "no_wrap isn W \<Longrightarrow> j \<le> length W + 1 \<Longrightarrow> k \<le> length W + 1 \<Longrightarrow>
   isn + of_nat j \<le> isn + of_nat k \<longleftrightarrow> j \<le> k"
  by (simp add: word_le_nat_alt unat_stream)

lemma no_wrap_append: "no_wrap isn (W @ d) \<Longrightarrow> no_wrap isn W"
  by (simp add: no_wrap_def)

text \<open>The first \<open>a\<close> bytes are acknowledged, the first \<open>n\<close> sent.\<close>

definition sb_inv :: "u32 \<Rightarrow> bytes \<Rightarrow> nat \<Rightarrow> nat \<Rightarrow> send_buf \<Rightarrow> bool" where
  "sb_inv isn W a n sb \<longleftrightarrow> cb_ok (sb_cBuf sb)
     \<and> is_window isn W a (cb_content (sb_cBuf sb)) (cb_baseSeq (sb_cBuf sb))
     \<and> sb_una sb = isn + of_nat a \<and> sb_nxt sb = isn + of_nat n \<and> sb_lbw sb + 1 = isn + of_nat (length W)
     \<and> a \<le> n \<and> n \<le> length W
     \<and> sb_dataWrittenToBuf sb \<noteq> ChanClosed \<and> sb_spaceAvailable sb \<noteq> ChanClosed
     \<and> sb_otherSideWindowUpdated sb \<noteq> ChanClosed \<and> sb_zwpTrigger sb \<noteq> ChanClosed"

text \<open>The retransmission queue holds the data segments of the stream from \<open>a\<close> to \<open>n\<close>, in order.\<close>

fun rq_chain :: "u32 \<Rightarrow> nat \<Rightarrow> nat \<Rightarrow> retrans_entry list \<Rightarrow> bool" where
  "rq_chain isn a n [] \<longleftrightarrow> a = n"
| "rq_chain isn a n (x # xs) \<longleftrightarrow> re_seqNum x = isn + of_nat a \<and> 0 < unat (re_len x)
     \<and> unat (re_len x) \<le> MAX_SEG_SIZE \<and> re_flags x = TCPFlagAck \<and> rq_chain isn (a + unat (re_len x)) n xs"

lemma rq_chain_le: "rq_chain isn a n xs \<Longrightarrow> a \<le> n"
  by (induction xs arbitrary: a) force+

lemma rq_chain_append:
  "rq_chain isn a n xs \<Longrightarrow> rq_chain isn n k ys \<Longrightarrow> rq_chain isn a k (xs @ ys)"
  by (induction xs arbitrary: a) auto

datatype loop_pc = LoopIdle | LoopTransmit bytes u32 | LoopCommit u32

fun pending :: "loop_pc \<Rightarrow> nat" where
  "pending (LoopCommit m) = unat m"
| "pending _ = 0"

fun pc_ok :: "bytes \<Rightarrow> nat \<Rightarrow> loop_pc \<Rightarrow> bool" where
  "pc_ok W n LoopIdle \<longleftrightarrow> True"
| "pc_ok W n (LoopTransmit d m) \<longleftrightarrow> d = take (unat m) (drop n W) \<and> 0 < unat m \<and> unat m \<le> MAX_SEG_SIZE
     \<and> n + unat m \<le> length W"
| "pc_ok W n (LoopCommit m) \<longleftrightarrow> 0 < unat m \<and> n + unat m \<le> length W"

definition rq_inv :: "u32 \<Rightarrow> nat \<Rightarrow> nat \<Rightarrow> retrans_queue \<Rightarrow> bool" where
  "rq_inv isn a n rq \<longleftrightarrow> rq_chain isn a n (rq_array rq)
     \<and> (rq_array rq \<noteq> [] \<longleftrightarrow> (\<exists>d. rq_timer rq = Armed d))"

definition sview :: "u32 \<Rightarrow> bytes \<Rightarrow> loop_pc \<Rightarrow> nat \<Rightarrow> nat \<Rightarrow> send_buf \<Rightarrow> retrans_queue \<Rightarrow> table_entry \<Rightarrow> bool" where
  "sview isn W pc a n sb rq e \<longleftrightarrow> te_state e \<in> {ESTABLISHED, CLOSE_WAIT} \<and> get_sendBuf e = Inr sb \<and> get_retransQueue e = Inr rq
     \<and> (\<exists>rb. get_recvBuf e = Inr rb) \<and> sb_inv isn W a n sb \<and> te_seqNum e = isn + of_nat n
     \<and> rq_inv isn a (n + pending pc) rq \<and> pc_ok W n pc"

definition send_inv :: "u32 \<Rightarrow> bytes \<Rightarrow> loop_pc \<Rightarrow> table_entry \<Rightarrow> bool" where
  "send_inv isn W pc e \<longleftrightarrow> (\<exists>a n sb rq. sview isn W pc a n sb rq e)"

lemma send_invI: "sview isn W pc a n sb rq e \<Longrightarrow> send_inv isn W pc e"
  by (auto simp: send_inv_def)

text \<open>Every data segment handed to the network carries bytes of the stream at their position.\<close>

definition request_ok :: "u32 \<Rightarrow> bytes \<Rightarrow> send_request \<Rightarrow> bool" where
  "request_ok isn W r \<longleftrightarrow> sr_data r = [] \<or>
     stream_segment isn W (SeqNum (sr_tcpHeader r)) (sr_data r) \<and> length (sr_data r) \<le> MAX_SEG_SIZE"

definition sent_ok :: "u32 \<Rightarrow> bytes \<Rightarrow> table_entry \<Rightarrow> bool" where
  "sent_ok isn W e \<longleftrightarrow> (\<forall>r \<in> set (te_sendRequests e). request_ok isn W r)"

lemma stream_segment_mono: "stream_segment isn W s d \<Longrightarrow> stream_segment isn (W @ x) s d"
  unfolding stream_segment_def
proof (elim exE conjE, intro exI conjI)
  fix k assume "d = take (length d) (drop k W)" "k + length d \<le> length W"
  then show "d = take (length d) (drop k (W @ x))" by simp
qed auto

lemma sent_ok_mono: "sent_ok isn W e \<Longrightarrow> sent_ok isn (W @ x) e"
  by (auto simp: sent_ok_def request_ok_def intro: stream_segment_mono)

lemma sent_ok_same: "te_sendRequests e' = te_sendRequests e \<Longrightarrow> sent_ok isn W e' \<longleftrightarrow> sent_ok isn W e"
  by (simp add: sent_ok_def)

lemma stream_segment_slice:
  "0 < m \<Longrightarrow> k + m \<le> length W \<Longrightarrow> stream_segment isn W (isn + of_nat k) (take m (drop k W))"
  unfolding stream_segment_def by (rule exI [of _ k]) auto

lemma sb_invD:
  assumes "sb_inv isn W a n sb"
  shows "cb_ok (sb_cBuf sb)" and "is_window isn W a (cb_content (sb_cBuf sb)) (cb_baseSeq (sb_cBuf sb))"
    and "sb_una sb = isn + of_nat a" and "sb_nxt sb = isn + of_nat n" and "sb_lbw sb + 1 = isn + of_nat (length W)"
    and "a \<le> n" and "n \<le> length W" and "unat (cb_currSize (sb_cBuf sb)) = length W - a"
    and "length W - a \<le> 65535"
proof -
  have "length (cb_content (sb_cBuf sb)) = length W - a" "cb_ok (sb_cBuf sb)"
    using assms by (auto simp: sb_inv_def is_window_def)
  then show "unat (cb_currSize (sb_cBuf sb)) = length W - a" "length W - a \<le> 65535"
    using cb_content_le [of "sb_cBuf sb"] by simp_all
qed (use assms in \<open>simp_all add: sb_inv_def\<close>)

lemma sb_inv_lbw:
  assumes "sb_inv isn W a n sb" and "no_wrap isn W"
  shows "unat (sb_lbw sb) = unat isn + length W - 1"
    and "sb_lbw sb < sb_nxt sb \<longleftrightarrow> n = length W"
    and "sb_lbw sb - sb_nxt sb + 1 = of_nat (length W - n)"
    and "getBytesInFlight sb = of_nat (n - a)"
proof -
  note I = sb_invD [OF assms(1)]
  have "sb_lbw sb = isn + of_nat (length W) - 1" using I(5) by (metis add_diff_cancel_right')
  moreover have u: "unat (isn + of_nat (length W)) = unat isn + length W"
    using unat_stream [OF assms(2), of "length W"] by simp
  moreover have "1 \<le> isn + of_nat (length W)" using u assms(2) by (simp add: word_le_nat_alt no_wrap_def)
  ultimately show l: "unat (sb_lbw sb) = unat isn + length W - 1" by (simp add: unat_sub)
  show "sb_lbw sb < sb_nxt sb \<longleftrightarrow> n = length W"
    using l I(4,7) unat_stream [OF assms(2), of n] assms(2) by (simp add: word_less_nat_alt no_wrap_def) linarith
  have "sb_lbw sb - sb_nxt sb + 1 = isn + of_nat (length W) - (isn + of_nat n)"
    using I(4,5) by (simp only: diff_add_eq)
  then show "sb_lbw sb - sb_nxt sb + 1 = of_nat (length W - n)" using I(7) by (simp add: of_nat_diff)
  show "getBytesInFlight sb = of_nat (n - a)" using I(3,4,6) by (simp add: getBytesInFlight_def of_nat_diff)
qed


section \<open>The critical sections keep the invariant\<close>

lemma unat_word_of_int_u32:
  fixes i :: int
  assumes "0 \<le> i" and "i < 4294967296"
  shows "unat (word_of_int i :: u32) = nat i"
proof -
  have "uint (word_of_int i :: u32) = i" using assms by (simp add: uint_word_of_int)
  then show ?thesis by (simp only: unat_eq_nat_uint)
qed

lemma sendSegment_ok:
  assumes "get_recvBuf e = Inr rb"
  obtains hdr where "sendSegment d s fl e = Inr (send_packet hdr d e)" and "SeqNum hdr = s"
    and "Flags hdr = fl" and "AckNum hdr = rb_nxt rb" and "WindowSize hdr = getAvailableWindow rb"
  using assms by (simp add: sendSegment_def)

lemma sent_ok_send_packet [simp]:
  "sent_ok isn W (send_packet hdr d e) \<longleftrightarrow> sent_ok isn W e
     \<and> (d = [] \<or> stream_segment isn W (SeqNum hdr) d \<and> length d \<le> MAX_SEG_SIZE)"
  by (auto simp: sent_ok_def request_ok_def send_packet_def)

lemma sent_ok_upd [simp]:
  "sent_ok isn W (set_sendBuf sb e) = sent_ok isn W e"
  "sent_ok isn W (set_retransQueue rq e) = sent_ok isn W e"
  "sent_ok isn W (set_recvBuf rb e) = sent_ok isn W e"
  "sent_ok isn W (te_seqNum_update f e) = sent_ok isn W e"
  "sent_ok isn W (te_state_update g e) = sent_ok isn W e"
  by (simp_all add: sent_ok_def)

lemma sview_send_packet [simp]: "sview isn W pc a n sb rq (send_packet hdr d e) = sview isn W pc a n sb rq e"
  by (simp add: sview_def)

lemma send_inv_send_packet [simp]: "send_inv isn W pc (send_packet hdr d e) = send_inv isn W pc e"
  by (simp add: send_inv_def)

lemma sview_set_sendBuf:
  "sview isn W pc a n sb rq e \<Longrightarrow> sb_inv isn W a n sb' \<Longrightarrow> sview isn W pc a n sb' rq (set_sendBuf sb' e)"
  by (auto simp: sview_def dest: normalSocket_get)

lemma sb_inv_flags [simp]:
  "sb_inv isn W a n (sb\<lparr>sb_isProbing := b\<rparr>) = sb_inv isn W a n sb"
  "sb_inv isn W a n (sb\<lparr>sb_otherSideWindow := w\<rparr>) = sb_inv isn W a n sb"
  by (simp_all add: sb_inv_def)

lemma sb_inv_token: "sb_inv isn W a n sb \<Longrightarrow> sb_inv isn W a n (sb\<lparr>sb_spaceAvailable := ChanFull\<rparr>)"
  by (simp add: sb_inv_def)

lemma sb_inv_slice:
  assumes inv: "sb_inv isn W a n sb" and k: "a \<le> k" "k + unat m \<le> length W"
  shows "SliceFrom (sb_cBuf sb) (isn + of_nat k) m = Inr (take (unat m) (drop k W))"
proof -
  note I = sb_invD [OF inv]
  have "SliceFrom (sb_cBuf sb) (isn + of_nat k) (of_nat (unat m)) = Inr (take (unat m) (drop k W))"
    by (rule cbw.window_slice [OF I(1,2) k])
  then show ?thesis by (simp only: of_nat_unat ucast_id)
qed

lemma sb_inv_live_slice:
  assumes inv: "sb_inv isn W a n sb"
  shows "SliceFrom (sb_cBuf sb) (cb_baseSeq (sb_cBuf sb)) (cb_currSize (sb_cBuf sb)) = Inr (drop a W)"
proof -
  note I = sb_invD [OF inv]
  have "cb_baseSeq (sb_cBuf sb) = isn + of_nat a" using I(2) by (simp add: is_window_def)
  then show ?thesis
    using sb_inv_slice [OF inv, of a "cb_currSize (sb_cBuf sb)"] I(6,7,8) by simp
qed

text \<open>
  The three outcomes of the first critical section, with the segment that it picks: the next
  unsent bytes, at most one maximum segment, inside the window the peer advertised.
\<close>

lemma prepare_cases:
  assumes v: "sview isn W LoopIdle a n sb rq e" and nw: "no_wrap isn W"
  obtains (idle) "n = length W" and "sendLoop_prepare e = Inr (NoUnsentData, e)"
  | (wait) "n < length W" and "windowRemaining sb \<le> 0" and "sendLoop_prepare e = Inr (AwaitWindow, e)"
  | (probe) hdr where "n < length W" and "sb_otherSideWindow sb = 0" and "a = n" and "SeqNum hdr = isn + of_nat n"
      and "sendLoop_prepare e = Inr (Probed,
        send_packet hdr (take 1 (drop n W)) (set_sendBuf (sb\<lparr>sb_isProbing := True\<rparr>) e))"
  | (segment) m where "n + unat m \<le> length W" and "0 < unat m" and "unat m \<le> MAX_SEG_SIZE"
      and "(n - a) + unat m \<le> unat (sb_otherSideWindow sb)"
      and "unat m = min (min (length W - n) (unat (sb_otherSideWindow sb) - (n - a))) MAX_SEG_SIZE"
      and "sendLoop_prepare e = Inr (SendNext (take (unat m) (drop n W)) m, set_sendBuf (sb\<lparr>sb_isProbing := False\<rparr>) e)"
proof -
  from v obtain rb where g: "get_sendBuf e = Inr sb" "get_recvBuf e = Inr rb" and inv: "sb_inv isn W a n sb"
    by (auto simp: sview_def)
  note I = sb_invD [OF inv] and L = sb_inv_lbw [OF inv nw]
  have small: "length W - n \<le> 65535" "n - a \<le> 65535" using I(6-9) by simp_all
  have fly: "unat (getBytesInFlight sb) = n - a" unfolding L(4) using small by (intro unat_of_nat_u32) simp
  have avail: "unat (sb_lbw sb - sb_nxt sb + 1) = length W - n" unfolding L(3) using small by (intro unat_of_nat_u32) simp
  have wr: "windowRemaining sb = int (unat (sb_otherSideWindow sb)) - int (n - a)"
    by (simp add: windowRemaining_def fly flip: uint_nat) (simp only: uint_nat fly)
  have live: "(if 0 < cb_currSize (sb_cBuf sb)
      then SliceFrom (sb_cBuf sb) (cb_baseSeq (sb_cBuf sb)) (cb_currSize (sb_cBuf sb)) else Inr []) = Inr (drop a W)"
  proof (cases "0 < cb_currSize (sb_cBuf sb)")
    case False
    then have "length W - a = 0" using I(8) by (simp add: word_gt_0)
    then show ?thesis using False by simp
  qed (simp add: sb_inv_live_slice [OF inv])
  show thesis
  proof (cases "n = length W")
    case True
    show thesis by (rule idle [OF True]) (use True g L(2) in \<open>simp add: sendLoop_prepare_def\<close>)
  next
    case False
    then have n: "n < length W" and nlt: "\<not> sb_lbw sb < sb_nxt sb" using I(7) L(2) by simp_all
    show thesis
    proof (cases "windowRemaining sb \<le> 0")
      case closed: True
      show thesis
      proof (cases "sb_otherSideWindow sb = 0 \<and> getBytesInFlight sb = 0")
        case True
        then have a: "a = n" using fly I(6) by simp
        have "unat (1 :: u32) = 1" by simp
        then have sl: "SliceFrom (sb_cBuf sb) (sb_una sb) 1 = Inr (take 1 (drop n W))"
          using sb_inv_slice [OF inv, of n 1] n a I(3) by simp
        have "get_recvBuf (set_sendBuf (sb\<lparr>sb_isProbing := True\<rparr>) e) = Inr rb" using g(2) by simp
        then obtain hdr where "sendSegment (take 1 (drop n W)) (sb_una sb) TCPFlagAck (set_sendBuf (sb\<lparr>sb_isProbing := True\<rparr>) e)
            = Inr (send_packet hdr (take 1 (drop n W)) (set_sendBuf (sb\<lparr>sb_isProbing := True\<rparr>) e))"
          "SeqNum hdr = sb_una sb" by (rule sendSegment_ok)
        then show thesis
          using True n a nlt closed g live sl I(3)
          by (rule_tac probe [of hdr]) (simp_all add: sendLoop_prepare_def Let_def)
      next
        case False
        then have na: "\<not> (sb_otherSideWindow sb = 0 \<and> sb_nxt sb \<le> sb_lbw sb \<and> getBytesInFlight sb = 0)" by blast
        have "sendLoop_prepare e = Inr (AwaitWindow, e)"
          unfolding sendLoop_prepare_def Let_def g(1) go_bind_Inr if_not_P [OF nlt] live if_P [OF closed] if_not_P [OF na] ..
        with n closed show thesis by (rule wait)
      qed
    next
      case opn: False
      let ?m0 = "sb_lbw sb - sb_nxt sb + 1"
      let ?m1 = "if windowRemaining sb < uint ?m0 then word_of_int (windowRemaining sb) else ?m0"
      let ?m2 = "if MAX_SEG_SIZE < ?m1 then MAX_SEG_SIZE else ?m1"
      have w16: "unat (sb_otherSideWindow sb) < 65536" by (rule unat_u16_lt)
      have "unat (word_of_int (windowRemaining sb) :: u32) = nat (windowRemaining sb)"
        using opn w16 wr by (intro unat_word_of_int_u32) linarith+
      then have "unat (word_of_int (windowRemaining sb) :: u32) = unat (sb_otherSideWindow sb) - (n - a)"
        unfolding wr by linarith
      moreover have "windowRemaining sb < uint ?m0 \<longleftrightarrow> unat (sb_otherSideWindow sb) - (n - a) < length W - n"
        using opn unfolding wr uint_nat avail by linarith
      ultimately have m1: "unat ?m1 = min (length W - n) (unat (sb_otherSideWindow sb) - (n - a))"
        using avail by (simp only: min_def not_less [symmetric] if_distrib [of unat]) simp
      have cut: "unat (if MAX_SEG_SIZE < x then MAX_SEG_SIZE else x) = min (unat x) MAX_SEG_SIZE" for x :: u32
        by (simp add: word_less_nat_alt)
      have m2: "unat ?m2 = min (min (length W - n) (unat (sb_otherSideWindow sb) - (n - a))) MAX_SEG_SIZE"
        unfolding cut m1 ..
      have pos: "0 < unat (sb_otherSideWindow sb) - (n - a)" using opn unfolding wr by linarith
      have le: "n + unat ?m2 \<le> length W" unfolding m2 using n by simp
      have sl: "SliceFrom (sb_cBuf sb) (sb_nxt sb) ?m2 = Inr (take (unat ?m2) (drop n W))"
        using sb_inv_slice [OF inv I(6) le] by (simp only: I(4) [symmetric])
      have "sendLoop_prepare e = Inr (SendNext (take (unat ?m2) (drop n W)) ?m2, set_sendBuf (sb\<lparr>sb_isProbing := False\<rparr>) e)"
        unfolding sendLoop_prepare_def Let_def g(1) go_bind_Inr if_not_P [OF nlt] live if_not_P [OF opn] sl ..
      with le m2 obtain m where m: "n + unat m \<le> length W"
        "unat m = min (min (length W - n) (unat (sb_otherSideWindow sb) - (n - a))) MAX_SEG_SIZE"
        "sendLoop_prepare e = Inr (SendNext (take (unat m) (drop n W)) m, set_sendBuf (sb\<lparr>sb_isProbing := False\<rparr>) e)"
        by blast
      have "0 < unat m" "unat m \<le> MAX_SEG_SIZE" "(n - a) + unat m \<le> unat (sb_otherSideWindow sb)"
        using m(2) pos n by linarith+
      with m show thesis by (intro segment)
    qed
  qed
qed


lemma sendLoop_prepare_inv:
  assumes inv: "send_inv isn W LoopIdle e" and nw: "no_wrap isn W" and sent: "sent_ok isn W e"
  shows "\<exists>d e'. sendLoop_prepare e = Inr (d, e') \<and> sent_ok isn W e'
    \<and> send_inv isn W (case d of SendNext x m \<Rightarrow> LoopTransmit x m | _ \<Rightarrow> LoopIdle) e'"
proof -
  from inv obtain a n sb rq where v: "sview isn W LoopIdle a n sb rq e" by (auto simp: send_inv_def)
  then have sb: "sb_inv isn W a n sb" by (simp add: sview_def)
  have v': "sview isn W LoopIdle a n (sb\<lparr>sb_isProbing := b\<rparr>) rq (set_sendBuf (sb\<lparr>sb_isProbing := b\<rparr>) e)" for b
    using v sb by (intro sview_set_sendBuf) simp_all
  from v nw show ?thesis
  proof (cases rule: prepare_cases)
    case idle
    then show ?thesis using inv sent by simp
  next
    case wait
    then show ?thesis using inv sent by simp
  next
    case (probe hdr)
    have "stream_segment isn W (SeqNum hdr) (take 1 (drop n W))"
      unfolding probe(4) using probe(1) by (intro stream_segment_slice) simp_all
    moreover have "length (take 1 (drop n W)) \<le> 1360" by simp
    ultimately show ?thesis using probe(5) send_invI [OF v' [of True]] sent by simp
  next
    case (segment m)
    have "sview isn W (LoopTransmit (take (unat m) (drop n W)) m) a n (sb\<lparr>sb_isProbing := False\<rparr>) rq
        (set_sendBuf (sb\<lparr>sb_isProbing := False\<rparr>) e)"
      using v' [of False] segment(1-3) by (simp add: sview_def)
    from send_invI [OF this] show ?thesis using segment(6) sent by simp
  qed
qed

lemma sendLoop_transmit_view:
  assumes v: "sview isn W (LoopTransmit d m) a n sb rq e"
  shows "\<exists>hdr rq' e'. sendLoop_transmit now d m e = Inr e' \<and> sview isn W (LoopCommit m) a n sb rq' e'
    \<and> te_sendRequests e' = te_sendRequests (send_packet hdr d e) \<and> SeqNum hdr = isn + of_nat n"
proof -
  from v obtain rb where rb: "get_recvBuf e = Inr rb" by (auto simp: sview_def)
  have g: "get_retransQueue e = Inr rq" "te_seqNum e = isn + of_nat n" "rq_inv isn a n rq"
    and d: "d = take (unat m) (drop n W)" "0 < unat m" "unat m \<le> 1360" "n + unat m \<le> length W"
    using v by (simp_all add: sview_def)
  obtain hdr where s: "sendSegment d (te_seqNum e) TCPFlagAck e = Inr (send_packet hdr d e)" "SeqNum hdr = te_seqNum e"
    using rb by (rule sendSegment_ok)
  let ?x = "\<lparr>re_seqNum = te_seqNum e, re_len = m, re_flags = TCPFlagAck, re_sent = now,
    re_retransmitted = False, re_numRetransmits = 0\<rparr>"
  let ?rq0 = "if rq_array rq = [] then rq\<lparr>rq_timer := startRtoTimer rq\<rparr> else rq"
  let ?rq = "?rq0\<lparr>rq_array := rq_array ?rq0 @ [?x]\<rparr>"
  let ?e = "set_retransQueue ?rq (send_packet hdr d e)"
  have t: "sendLoop_transmit now d m e = Inr ?e"
    using s(1) g(1) by (simp add: sendLoop_transmit_def enqueue_retrans_def Let_def)
  have "rq_inv isn a (n + unat m) ?rq"
    using g(2,3) d by (auto simp: rq_inv_def startRtoTimer_def intro!: rq_chain_append)
  then have "sview isn W (LoopCommit m) a n sb ?rq ?e"
    using v d g(1) normalSocket_get(1) [OF rb] by (auto simp: sview_def)
  moreover have "te_sendRequests ?e = te_sendRequests (send_packet hdr d e)" by simp
  moreover have "SeqNum hdr = isn + of_nat n" using s(2) g(2) by simp
  ultimately show ?thesis using t by blast
qed

lemma sendLoop_commit_view:
  assumes v: "sview isn W (LoopCommit m) a n sb rq e"
  shows "\<exists>sb' e'. sendLoop_commit m e = Inr e' \<and> sview isn W LoopIdle a (n + unat m) sb' rq e'
    \<and> sb_otherSideWindow sb' = sb_otherSideWindow sb \<and> te_sendRequests e' = te_sendRequests e"
proof -
  have g: "get_sendBuf e = Inr sb" "sb_inv isn W a n sb" "n + unat m \<le> length W" using v by (simp_all add: sview_def)
  let ?sb = "sb\<lparr>sb_nxt := sb_nxt sb + m\<rparr>"
  let ?e = "(set_sendBuf ?sb e)\<lparr>te_seqNum := sb_nxt sb + m\<rparr>"
  have nxt: "sb_nxt sb + m = isn + of_nat (n + unat m)"
    using sb_invD(4) [OF g(2)] by (simp add: add.assoc)
  then have "sb_inv isn W a (n + unat m) ?sb" using g(2,3) by (simp add: sb_inv_def del: of_nat_add)
  then have "sview isn W LoopIdle a (n + unat m) ?sb rq ?e"
    using v nxt normalSocket_get(2) [OF g(1)] by (simp add: sview_def del: of_nat_add)
  moreover have "sb_otherSideWindow ?sb = sb_otherSideWindow sb" "te_sendRequests ?e = te_sendRequests e" by simp_all
  ultimately show ?thesis using g(1) by (auto simp: sendLoop_commit_def)
qed

lemma sendLoop_transmit_inv:
  assumes inv: "send_inv isn W (LoopTransmit d m) e" and sent: "sent_ok isn W e"
  shows "\<exists>e'. sendLoop_transmit now d m e = Inr e' \<and> sent_ok isn W e' \<and> send_inv isn W (LoopCommit m) e'"
proof -
  from inv obtain a n sb rq where v: "sview isn W (LoopTransmit d m) a n sb rq e" by (auto simp: send_inv_def)
  then have d: "d = take (unat m) (drop n W)" "0 < unat m" "unat m \<le> 1360" "n + unat m \<le> length W"
    by (simp_all add: sview_def)
  from sendLoop_transmit_view [OF v, of now] obtain hdr rq' e' where
    t: "sendLoop_transmit now d m e = Inr e'" "sview isn W (LoopCommit m) a n sb rq' e'"
    "te_sendRequests e' = te_sendRequests (send_packet hdr d e)" "SeqNum hdr = isn + of_nat n" by blast
  have "stream_segment isn W (SeqNum hdr) d" "length d \<le> 1360"
    using t(4) d by (auto intro: stream_segment_slice)
  then have "sent_ok isn W e'" using sent by (simp add: sent_ok_same [OF t(3)])
  then show ?thesis using t(1) send_invI [OF t(2)] by blast
qed

lemma sendLoop_commit_inv:
  assumes inv: "send_inv isn W (LoopCommit m) e" and sent: "sent_ok isn W e"
  shows "\<exists>e'. sendLoop_commit m e = Inr e' \<and> sent_ok isn W e' \<and> send_inv isn W LoopIdle e'"
proof -
  from inv obtain a n sb rq where v: "sview isn W (LoopCommit m) a n sb rq e" by (auto simp: send_inv_def)
  from sendLoop_commit_view [OF v] obtain sb' e' where
    c: "sendLoop_commit m e = Inr e'" "sview isn W LoopIdle a (n + unat m) sb' rq e'"
    "te_sendRequests e' = te_sendRequests e" by blast
  have "sent_ok isn W e'" using sent by (simp only: sent_ok_def c(3))
  then show ?thesis using c(1) send_invI [OF c(2)] by blast
qed

text \<open>Writing extends the stream.\<close>

lemma VWrite_loop_step:
  assumes "\<not> length data \<le> written" and "get_sendBuf e = Inr sb" and "FreeSpace (sb_cBuf sb) \<noteq> 0"
    and k: "k = (if unat (FreeSpace (sb_cBuf sb)) < length data - written
      then unat (FreeSpace (sb_cBuf sb)) else length data - written)"
    and "WriteIntoBuf (sb_cBuf sb) (sb_lbw sb + 1) (subslice written k data) = Inr (cb, x)"
    and "SliceFrom cb (sb_lbw sb + 1) (of_nat k) = Inr y" and "sb_dataWrittenToBuf sb \<noteq> ChanClosed"
  shows "VWrite_loop (Suc fuel) data written e = VWrite_loop fuel data (written + k)
    (set_sendBuf (sb\<lparr>sb_cBuf := cb, sb_lbw := sb_lbw sb + of_nat k, sb_dataWrittenToBuf := ChanFull\<rparr>) e)"
  using assms(1-3,5-7) unfolding k by (simp add: Let_def split del: if_split)

text \<open>One iteration that finds room.\<close>

lemma VWrite_room:
  assumes v: "sview isn W pc a n sb rq e" and sent: "sent_ok isn W e"
    and more: "written < length data" and room: "FreeSpace (sb_cBuf sb) \<noteq> 0"
    and k: "k = min (65535 - (length W - a)) (length data - written)"
  shows "\<exists>sb' e'. (\<forall>fuel. VWrite_loop (Suc fuel) data written e = VWrite_loop fuel data (written + k) e')
    \<and> 0 < k \<and> sview isn (W @ take k (drop written data)) pc a n sb' rq e'
    \<and> sb_otherSideWindow sb' = sb_otherSideWindow sb
    \<and> sent_ok isn (W @ take k (drop written data)) e'"
proof -
  have g: "get_sendBuf e = Inr sb" and sb: "sb_inv isn W a n sb" and pc: "pc_ok W n pc"
    using v by (simp_all add: sview_def)
  note I = sb_invD [OF sb]
  have sock: "te_normalSocket e \<noteq> None" using g by (rule normalSocket_get)
  let ?space = "unat (FreeSpace (sb_cBuf sb))"
  define d where "d = subslice written k data"
  have space: "?space = 65535 - (length W - a)" using unat_FreeSpace [OF I(1)] I(8) by simp
  have d: "d = take k (drop written data)" by (simp add: d_def subslice_def)
  have k': "k = (if ?space < length data - written then ?space else length data - written)"
    unfolding space k by simp
  have "?space \<noteq> 0" using room by (simp add: unat_eq_0)
  then have pos: "0 < k" "k \<le> ?space" "written + k \<le> length data"
    using more unfolding k space by linarith+
  then have "length d = k" by (simp add: d)
  note pos = pos this
  have "length (cb_content (sb_cBuf sb)) + length d \<le> 65535" using pos space I(8,9) by simp
  then obtain cb where cb: "WriteIntoBuf (sb_cBuf sb) (sb_lbw sb + 1) d = Inr (cb, length d)" "cb_ok cb"
    "is_window isn (W @ d) a (cb_content cb) (cb_baseSeq cb)"
    by (rule cbw.window_write [OF I(1,2) _ I(5)])
  have kun: "unat (of_nat k :: u32) = k" using pos(2) space by (intro unat_of_nat_u32) simp
  let ?sb2 = "sb\<lparr>sb_cBuf := cb, sb_lbw := sb_lbw sb + of_nat k, sb_dataWrittenToBuf := ChanFull\<rparr>"
  have "sb_lbw sb + of_nat k + 1 = (sb_lbw sb + 1) + of_nat k" by (simp only: ac_simps)
  then have "sb_lbw sb + of_nat k + 1 = isn + of_nat (length (W @ d))"
    unfolding I(5) using pos(4) by (simp only: length_append of_nat_add add.assoc)
  then have sb2: "sb_inv isn (W @ d) a n ?sb2" using sb cb(2,3) by (simp add: sb_inv_def)
  have "SliceFrom (sb_cBuf ?sb2) (isn + of_nat (length W)) (of_nat k)
      = Inr (take (unat (of_nat k :: u32)) (drop (length W) (W @ d)))"
    by (rule sb_inv_slice [OF sb2]) (use I(6,7) pos kun in auto)
  then have sl: "SliceFrom cb (sb_lbw sb + 1) (of_nat k) = Inr d" using kun pos(4) I(5) by simp
  have nle: "\<not> length data \<le> written" using more by simp
  have op: "sb_dataWrittenToBuf sb \<noteq> ChanClosed" using sb by (simp add: sb_inv_def)
  have "VWrite_loop (Suc fuel) data written e = VWrite_loop fuel data (written + k) (set_sendBuf ?sb2 e)" for fuel
    using nle g room k' cb(1) [unfolded d_def] sl op by (rule VWrite_loop_step)
  moreover have "pc_ok (W @ d) n pc" using pc by (cases pc) (auto simp: min_def)
  then have "sview isn (W @ d) pc a n ?sb2 rq (set_sendBuf ?sb2 e)" using v sb2 sock by (auto simp: sview_def)
  moreover have "sent_ok isn (W @ d) (set_sendBuf ?sb2 e)" using sent_ok_mono [OF sent] by simp
  moreover have "sb_otherSideWindow ?sb2 = sb_otherSideWindow sb" by simp
  ultimately show ?thesis using pos(1) unfolding d by blast
qed

lemma VWrite_loop_inv:
  assumes "send_inv isn W pc e" and "sent_ok isn W e" and "written \<le> length data"
  shows "\<exists>res e' t. VWrite_loop fuel data written e = Inr (res, e') \<and> written \<le> t \<and> t \<le> length data
    \<and> send_inv isn (W @ take (t - written) (drop written data)) pc e'
    \<and> sent_ok isn (W @ take (t - written) (drop written data)) e'
    \<and> (case res of None \<Rightarrow> True | Some (WriteDone k) \<Rightarrow> k = t \<and> t = length data
       | Some (WriteParked k) \<Rightarrow> k = t | Some WriteClosing \<Rightarrow> False)"
  using assms
proof (induction fuel arbitrary: W written e)
  case 0
  then show ?case by (intro exI [of _ None] exI [of _ e] exI [of _ written]) simp
next
  case (Suc fuel)
  show ?case
  proof (cases "length data \<le> written")
    case True
    then show ?thesis using Suc.prems by (intro exI [of _ "Some (WriteDone written)"] exI [of _ e] exI [of _ written]) simp
  next
    case False
    from Suc.prems(1) obtain a n sb rq where v: "sview isn W pc a n sb rq e" by (auto simp: send_inv_def)
    then have g: "get_sendBuf e = Inr sb" and sb: "sb_inv isn W a n sb" by (simp_all add: sview_def)
    show ?thesis
    proof (cases "FreeSpace (sb_cBuf sb) = 0")
      case full: True
      show ?thesis
      proof (cases "recv_ready (sb_spaceAvailable sb)")
        case True
        let ?sb = "sb\<lparr>sb_spaceAvailable := recv_chan (sb_spaceAvailable sb)\<rparr>"
        have "sb_inv isn W a n ?sb" using sb by (cases "sb_spaceAvailable sb") (simp_all add: sb_inv_def)
        then have "send_inv isn W pc (set_sendBuf ?sb e)"
          unfolding send_inv_def using sview_set_sendBuf [OF v] by blast
        from Suc.IH [OF this _ Suc.prems(3)] Suc.prems(2) False full True g show ?thesis by simp
      next
        case nr: False
        have "VWrite_loop (Suc fuel) data written e = Inr (Some (WriteParked written), e)"
          using nr False full g by simp
        then show ?thesis using Suc.prems
          by (intro exI [of _ "Some (WriteParked written)"] exI [of _ e] exI [of _ written]) simp
      qed
    next
      case room: False
      define k where "k = min (65535 - (length W - a)) (length data - written)"
      let ?W = "W @ take k (drop written data)"
      have "written < length data" using False by simp
      from VWrite_room [OF v Suc.prems(2) this room k_def] obtain sb' e1 where
        step: "VWrite_loop (Suc fuel) data written e = VWrite_loop fuel data (written + k) e1"
        and e1: "sview isn ?W pc a n sb' rq e1" "sent_ok isn ?W e1" by blast
      have "written + k \<le> length data" using False by (simp add: k_def)
      from Suc.IH [OF send_invI [OF e1(1)] e1(2) this] obtain res e' t where
        r: "VWrite_loop fuel data (written + k) e1 = Inr (res, e')" "written + k \<le> t" "t \<le> length data"
        "send_inv isn (?W @ take (t - (written + k)) (drop (written + k) data)) pc e'"
        "sent_ok isn (?W @ take (t - (written + k)) (drop (written + k) data)) e'"
        "case res of None \<Rightarrow> True | Some (WriteDone k) \<Rightarrow> k = t \<and> t = length data
         | Some (WriteParked k) \<Rightarrow> k = t | Some WriteClosing \<Rightarrow> False" by blast
      have "take k (drop written data) @ take (t - (written + k)) (drop (written + k) data)
          = take (t - written) (drop written data)"
        using r(2) take_add [of k "t - (written + k)" "drop written data"] by (simp add: add.commute)
      then show ?thesis using r unfolding step
        by (intro exI [of _ res] exI [of _ e'] exI [of _ t]) simp
    qed
  qed
qed

text \<open>Data that fits is written at once; else three iterations fill the buffer and park.\<close>

lemma VWrite_fits:
  assumes v: "sview isn W pc a n sb rq e" and sent: "sent_ok isn W e"
    and fits: "length data \<le> 65535 - (length W - a)"
  shows "\<exists>sb' e'. VWrite_loop (Suc (Suc fuel)) data 0 e = Inr (Some (WriteDone (length data)), e')
    \<and> sview isn (W @ data) pc a n sb' rq e' \<and> sb_otherSideWindow sb' = sb_otherSideWindow sb
    \<and> sent_ok isn (W @ data) e'"
proof (cases "data = []")
  case True
  then show ?thesis using v sent by auto
next
  case False
  have sb: "sb_inv isn W a n sb" using v by (simp add: sview_def)
  note I = sb_invD [OF sb]
  have "FreeSpace (sb_cBuf sb) \<noteq> 0"
    using fits False unat_FreeSpace [OF I(1)] I(8) by (cases data) (auto simp: unat_eq_0 [symmetric])
  moreover have "length data = min (65535 - (length W - a)) (length data - 0)" using fits by simp
  ultimately obtain sb' e' where e': "\<forall>fuel. VWrite_loop (Suc fuel) data 0 e = VWrite_loop fuel data (length data) e'"
    "sview isn (W @ data) pc a n sb' rq e'" "sb_otherSideWindow sb' = sb_otherSideWindow sb"
    "sent_ok isn (W @ data) e'"
    using VWrite_room [OF v sent, of 0 data "length data"] False by auto
  then have "VWrite_loop (Suc (Suc fuel)) data 0 e = Inr (Some (WriteDone (length data)), e')"
    unfolding e'(1) [rule_format] by simp
  with e' show ?thesis by blast
qed

section \<open>Acknowledgements keep the invariant\<close>

text \<open>
  What an honest peer's ACK may say: it ends at a segment boundary (this stack only ever
  acknowledges whole segments, since it accepts a segment in full or not at all), and one past
  \<open>nxt\<close> only answers a probe.
\<close>

definition ack_fits :: "loop_pc \<Rightarrow> u32 \<Rightarrow> table_entry \<Rightarrow> bool" where
  "ack_fits pc k e \<longleftrightarrow> (\<forall>sb rq. get_sendBuf e = Inr sb \<longrightarrow> get_retransQueue e = Inr rq \<longrightarrow>
     (sb_una sb < k \<and> k \<le> sb_nxt sb \<longrightarrow> (\<exists>x \<in> set (rq_array rq). re_seqNum x + re_len x = k))
   \<and> (sb_nxt sb < k \<and> sb_isProbing sb \<and> k = sb_nxt sb + 1 \<longrightarrow>
        pc = LoopIdle \<and> sb_una sb = sb_nxt sb \<and> sb_nxt sb \<le> sb_lbw sb))"

lemma rq_chain_end:
  "rq_chain isn a n xs \<Longrightarrow> x \<in> set xs \<Longrightarrow>
   \<exists>k. re_seqNum x + re_len x = isn + of_nat k \<and> a < k \<and> k \<le> n"
proof (induction xs arbitrary: a)
  case (Cons y ys)
  show ?case
  proof (cases "x = y")
    case True
    have "re_seqNum x + re_len x = isn + of_nat (a + unat (re_len x))"
      using Cons.prems(1) True by (simp add: add.assoc)
    moreover have "a + unat (re_len x) \<le> n" "0 < unat (re_len x)"
      using Cons.prems(1) True rq_chain_le [of isn "a + unat (re_len y)" n ys] by simp_all
    ultimately show ?thesis by (intro exI [of _ "a + unat (re_len x)"]) simp
  next
    case False
    with Cons obtain k where "re_seqNum x + re_len x = isn + of_nat k" "a + unat (re_len y) < k" "k \<le> n"
      by fastforce
    then show ?thesis by (intro exI [of _ k]) simp
  qed
qed simp

text \<open>Popping up to a boundary leaves the queue from there on.\<close>

lemma pop_acked_chain:
  assumes nw: "no_wrap isn W" and n: "n \<le> length W"
  shows "rq_chain isn a n xs \<Longrightarrow> a \<le> k \<Longrightarrow> k \<le> n \<Longrightarrow>
    k = a \<or> (\<exists>x \<in> set xs. re_seqNum x + re_len x = isn + of_nat k) \<Longrightarrow>
    \<exists>xs' acc'. pop_acked (isn + of_nat k) xs acc = (xs', acc') \<and> rq_chain isn k n xs'"
proof (induction xs arbitrary: a acc)
  case (Cons x xs)
  let ?b = "a + unat (re_len x)"
  have chain: "rq_chain isn ?b n xs" and pos: "0 < unat (re_len x)"
    and hd: "re_seqNum x + re_len x = isn + of_nat ?b"
    using Cons.prems(1) by (simp_all add: add.assoc)
  have b: "?b \<le> n" using chain by (rule rq_chain_le)
  have k: "k \<le> n" by fact
  show ?case
  proof (cases "?b \<le> k")
    case True
    have "isn + of_nat ?b \<le> isn + of_nat k"
      using stream_le_iff [OF nw, of ?b k] True k n by simp
    moreover have "k = ?b \<or> (\<exists>y \<in> set xs. re_seqNum y + re_len y = isn + of_nat k)"
    proof (cases "k = ?b")
      case False
      have "of_nat ?b \<noteq> (of_nat k :: u32)"
        using False of_nat_eq_u32 [of ?b k] b k n nw by (simp add: no_wrap_def del: of_nat_add)
      then show ?thesis using Cons.prems(4) True pos hd by (auto simp del: of_nat_add)
    qed simp
    ultimately show ?thesis using Cons.IH [OF chain True k, of "Some x"] hd by (simp del: of_nat_add)
  next
    case False
    have "k = a"
    proof (rule ccontr)
      assume "k \<noteq> a"
      with Cons.prems(4) obtain y where y: "y \<in> set (x # xs)" "re_seqNum y + re_len y = isn + of_nat k" by auto
      have "\<exists>j. re_seqNum y + re_len y = isn + of_nat j \<and> ?b \<le> j \<and> j \<le> n"
      proof (cases "y = x")
        case True
        then show ?thesis using hd b by (intro exI [of _ ?b]) simp
      next
        case False
        then show ?thesis using rq_chain_end [OF chain, of y] y(1) by auto
      qed
      then obtain j where "of_nat k = (of_nat j :: u32)" "?b \<le> j" "j \<le> n" using y(2) by auto
      then have "k = j" using k n nw of_nat_eq_u32 [of k j] by (simp add: no_wrap_def)
      then show False using \<open>?b \<le> j\<close> False by simp
    qed
    have lt: "\<not> isn + of_nat ?b \<le> isn + of_nat k"
      using stream_le_iff [OF nw, of ?b k] False k b n by simp
    have "pop_acked (isn + of_nat k) (x # xs) acc = (x # xs, acc)"
      unfolding pop_acked.simps hd if_not_P [OF lt] ..
    with \<open>k = a\<close> show ?thesis using Cons.prems(1) by auto
  qed
qed simp


lemma sb_inv_ack:
  assumes inv: "sb_inv isn W a n sb" and k: "a \<le> k" "k \<le> n"
  shows "sb_inv isn W k n (sb\<lparr>sb_una := isn + of_nat k,
    sb_cBuf := AdvanceBase (sb_cBuf sb) (isn + of_nat k - sb_una sb)\<rparr>)"
proof -
  note I = sb_invD [OF inv]
  have "isn + of_nat k - sb_una sb = of_nat (k - a)" using I(3) k by (simp add: of_nat_diff)
  moreover have "unat (of_nat (k - a) :: u32) = k - a" using I k by (intro unat_of_nat_u32) simp
  ultimately have d: "unat (isn + of_nat k - sb_una sb) = k - a" by simp
  have "is_window isn W k (cb_content (AdvanceBase (sb_cBuf sb) (isn + of_nat k - sb_una sb)))
      (cb_baseSeq (AdvanceBase (sb_cBuf sb) (isn + of_nat k - sb_una sb)))"
    by (rule cbw.window_advance_to [OF I(1,2) k(1) _ d]) (use I k in simp)
  moreover have "cb_ok (AdvanceBase (sb_cBuf sb) (isn + of_nat k - sb_una sb))"
    by (rule AdvanceBase_drop(1) [OF I(1)])
  ultimately show ?thesis using inv k by (simp add: sb_inv_def)
qed

lemma upd_sendBuf_ok:
  "get_sendBuf e = Inr sb \<Longrightarrow> f sb = Inr sb' \<Longrightarrow> upd_sendBuf f e = Inr (set_sendBuf sb' e)"
  by (simp add: upd_sendBuf_def)

lemma ack_signals_ok:
  assumes g: "get_sendBuf e = Inr sb" and inv: "sb_inv isn W a n sb"
  shows "\<exists>sb'. ack_signals e = Inr (set_sendBuf sb' e) \<and> sb_inv isn W a n sb'"
proof (cases "sb_otherSideWindow sb = 0 \<and> sb_nxt sb \<le> sb_lbw sb \<and> \<not> sb_isProbing sb")
  case True
  let ?sb = "sb\<lparr>sb_isProbing := True, sb_zwpTrigger := ChanFull, sb_otherSideWindowUpdated := ChanFull\<rparr>"
  have "ack_signals e = Inr (set_sendBuf ?sb e)" using True inv
    by (simp add: ack_signals_def upd_sendBuf_def g sb_inv_def)
  moreover have "sb_inv isn W a n ?sb" using inv by (simp add: sb_inv_def)
  ultimately show ?thesis by blast
next
  case False
  let ?sb = "sb\<lparr>sb_otherSideWindowUpdated := ChanFull\<rparr>"
  have "sb_otherSideWindowUpdated sb \<noteq> ChanClosed" using inv by (simp add: sb_inv_def)
  then have "ack_signals e = Inr (set_sendBuf ?sb e)"
    unfolding ack_signals_def by (intro upd_sendBuf_ok [OF g]) (simp add: if_not_P [OF False])
  moreover have "sb_inv isn W a n ?sb" using inv by (simp add: sb_inv_def)
  ultimately show ?thesis by blast
qed


lemma updateRto_keeps [simp]:
  "rq_array (updateRto t rq) = rq_array rq" "rq_timer (updateRto t rq) = rq_timer rq"
  by (simp_all add: updateRto_def computeNewSrtt_def Let_def)

lemma ack_retransQueue_inv:
  assumes inv: "rq_inv isn a n rq" and nw: "no_wrap isn W" and n: "n \<le> length W"
    and k: "a < k" "k \<le> n" and bd: "\<exists>x \<in> set (rq_array rq). re_seqNum x + re_len x = isn + of_nat k"
  shows "\<exists>rq'. ack_retransQueue now (isn + of_nat k) rq = Inr rq' \<and> rq_inv isn k n rq'"
proof -
  from inv have chain: "rq_chain isn a n (rq_array rq)" and "rq_array rq \<noteq> [] \<longrightarrow> (\<exists>d. rq_timer rq = Armed d)"
    by (simp_all add: rq_inv_def)
  moreover have "rq_array rq \<noteq> []" using bd by auto
  ultimately have stop: "stop_timer (rq_timer rq) = Inr StoppedTimer" by auto
  from pop_acked_chain [OF nw n chain _ k(2), of None] k(1) bd obtain xs acc where
    p: "pop_acked (isn + of_nat k) (rq_array rq) None = (xs, acc)" "rq_chain isn k n xs" by auto
  show ?thesis
    using stop p by (cases acc) (auto simp: ack_retransQueue_def Let_def rq_inv_def startRtoTimer_def)
qed

lemma handlePureAck_inv:
  assumes inv: "send_inv isn W pc e" and nw: "no_wrap isn W" and fits: "ack_fits pc (AckNum seg) e"
    and sent: "sent_ok isn W e"
  shows "\<exists>e'. handlePureAck now seg e = Inr e' \<and> send_inv isn W pc e' \<and> sent_ok isn W e'"
proof -
  from inv obtain a n sb rq where v: "sview isn W pc a n sb rq e" by (auto simp: send_inv_def)
  then have g: "get_sendBuf e = Inr sb" "get_retransQueue e = Inr rq" and sb: "sb_inv isn W a n sb"
    and st: "te_state e \<in> {ESTABLISHED, CLOSE_WAIT}" and rq: "rq_inv isn a (n + pending pc) rq" and pc: "pc_ok W n pc"
    by (simp_all add: sview_def)
  note I = sb_invD [OF sb]
  have sock: "te_normalSocket e \<noteq> None" using g(1) by (rule normalSocket_get)
  let ?k = "AckNum seg"
  consider (drop) "sb_nxt sb < ?k" "\<not> (sb_isProbing sb \<and> ?k = sb_nxt sb + 1)"
    | (probe) "sb_nxt sb < ?k" "sb_isProbing sb \<and> ?k = sb_nxt sb + 1"
    | (dup) "\<not> sb_nxt sb < ?k" "\<not> (sb_una sb < ?k \<and> ?k \<le> sb_nxt sb)"
    | (new) "\<not> sb_nxt sb < ?k" "sb_una sb < ?k \<and> ?k \<le> sb_nxt sb" by blast
  then show ?thesis
  proof cases
    case drop
    have "handlePureAck now seg e = Inr e"
      unfolding handlePureAck_def g(1) go_bind_Inr if_P [OF drop(1)] if_not_P [OF drop(2)] ..
    then show ?thesis using inv sent by blast
  next
    case probe
    then have p: "pc = LoopIdle" "sb_una sb = sb_nxt sb" "sb_nxt sb \<le> sb_lbw sb"
      using fits g unfolding ack_fits_def by blast+
    have "of_nat a = (of_nat n :: u32)" using p(2) I(3,4) by simp
    then have an: "a = n" using I(6,7) nw of_nat_eq_u32 [of a n] by (simp add: no_wrap_def)
    have n: "n < length W" using sb_inv_lbw(2) [OF sb nw] p(3) I(7) by (auto simp: not_less [symmetric])
    have k: "?k = isn + of_nat (Suc n)" using probe(2) I(4) by (simp add: ac_simps)
    let ?sb0 = "sb\<lparr>sb_nxt := ?k\<rparr>"
    have "sb_inv isn W a (Suc n) ?sb0" using sb n k an by (simp add: sb_inv_def)
    from sb_inv_ack [OF this, of "Suc n"] an have
      "sb_inv isn W (Suc n) (Suc n) (?sb0\<lparr>sb_una := isn + of_nat (Suc n),
         sb_cBuf := AdvanceBase (sb_cBuf ?sb0) (isn + of_nat (Suc n) - sb_una ?sb0)\<rparr>)" by simp
    then have sb1: "sb_inv isn W (Suc n) (Suc n) (sb\<lparr>sb_otherSideWindow := WindowSize seg, sb_una := ?k,
        sb_nxt := ?k, sb_cBuf := AdvanceBase (sb_cBuf sb) (?k - sb_una sb)\<rparr>)" (is "sb_inv _ _ _ _ ?sb1")
      unfolding k by (simp add: sb_inv_def del: of_nat_Suc)
    let ?e1 = "(set_sendBuf ?sb1 e)\<lparr>te_seqNum := sb_nxt ?sb1\<rparr>"
    let ?sb2 = "?sb1\<lparr>sb_spaceAvailable := ChanFull, sb_otherSideWindowUpdated := ChanFull\<rparr>"
    have g1: "get_sendBuf ?e1 = Inr ?sb1" using sock by simp
    have "handlePureAck now seg e = Inr (set_sendBuf ?sb2 ?e1)"
      unfolding handlePureAck_def g(1) go_bind_Inr if_P [OF probe(1)] if_P [OF probe(2)] Let_def
      by (rule upd_sendBuf_ok [OF g1]) (use sb1 in \<open>simp add: sb_inv_def\<close>)
    moreover have "rq_array rq = []" using rq an p(1)
      by (cases "rq_array rq") (auto simp: rq_inv_def dest!: rq_chain_le)
    then have "rq_inv isn (Suc n) (Suc n) rq" using rq by (simp add: rq_inv_def)
    then have "sview isn W pc (Suc n) (Suc n) ?sb2 rq (set_sendBuf ?sb2 ?e1)"
      using v sb1 sock k p(1) by (auto simp: sview_def sb_inv_def)
    ultimately show ?thesis using send_invI sent by fastforce
  next
    case dup
    have "handlePureAck now seg e = Inr (set_sendBuf (sb\<lparr>sb_otherSideWindow := WindowSize seg\<rparr>) e)"
      unfolding handlePureAck_def g(1) go_bind_Inr if_not_P [OF dup(1)] Let_def
      by (rule if_not_P) (use dup(2) in simp)
    moreover have "sview isn W pc a n (sb\<lparr>sb_otherSideWindow := WindowSize seg\<rparr>) rq
        (set_sendBuf (sb\<lparr>sb_otherSideWindow := WindowSize seg\<rparr>) e)"
      using v sb by (intro sview_set_sendBuf) simp_all
    ultimately show ?thesis using send_invI sent by fastforce
  next
    case new
    define k where "k = unat ?k - unat isn"
    have lo: "unat isn + a < unat ?k" using new(2) I(3,6,7) unat_stream [OF nw, of a] by (simp add: word_less_nat_alt)
    have hi: "unat ?k \<le> unat isn + n" using new(2) I(4,7) unat_stream [OF nw, of n] by (simp add: word_le_nat_alt)
    have k: "a < k" "k \<le> n" using lo hi by (simp_all add: k_def)
    have "unat (isn + of_nat k) = unat ?k" using unat_stream [OF nw, of k] k I(7) lo by (simp add: k_def)
    then have ack: "?k = isn + of_nat k" by (simp only: word_unat_eq_iff)
    let ?sb2 = "sb\<lparr>sb_otherSideWindow := WindowSize seg, sb_una := ?k, sb_cBuf := AdvanceBase (sb_cBuf sb) (?k - sb_una sb)\<rparr>"
    have sb2: "sb_inv isn W k n ?sb2"
      using sb_inv_ack [OF sb, of k] k by (simp add: sb_inv_def ack)
    let ?e2 = "set_sendBuf ?sb2 e"
    have bd: "\<exists>x \<in> set (rq_array rq). re_seqNum x + re_len x = isn + of_nat k"
      using fits g new(2) unfolding ack_fits_def ack by blast
    have pn: "n + pending pc \<le> length W" using pc I(7) by (cases pc) simp_all
    from ack_retransQueue_inv [OF rq nw pn k(1) _ bd, of now] k(2) obtain rq' where
      rq': "ack_retransQueue now ?k rq = Inr rq'" "rq_inv isn k (n + pending pc) rq'" unfolding ack by auto
    let ?e3 = "set_retransQueue rq' ?e2" and ?sb3 = "?sb2\<lparr>sb_spaceAvailable := ChanFull\<rparr>"
    have v3: "sview isn W pc k n ?sb2 rq' ?e3" using v sb2 rq'(2) sock by (auto simp: sview_def)
    then have g3: "get_sendBuf ?e3 = Inr ?sb2" by (simp add: sview_def)
    have sb3: "sb_inv isn W k n ?sb3" using sb2 by (rule sb_inv_token)
    have u: "upd_sendBuf (\<lambda>sb. go_bind (signal (sb_spaceAvailable sb)) (\<lambda>sa.
        Inr (sb\<lparr>sb_spaceAvailable := sa\<rparr>))) ?e3 = Inr (set_sendBuf ?sb3 ?e3)"
      by (rule upd_sendBuf_ok [OF g3]) (use sb2 in \<open>simp add: sb_inv_def\<close>)
    have v4: "sview isn W pc k n ?sb3 rq' (set_sendBuf ?sb3 ?e3)" by (rule sview_set_sendBuf [OF v3 sb3])
    then have "get_sendBuf (set_sendBuf ?sb3 ?e3) = Inr ?sb3" by (simp add: sview_def)
    from ack_signals_ok [OF this sb3] obtain sb4 where
      s4: "ack_signals (set_sendBuf ?sb3 ?e3) = Inr (set_sendBuf sb4 (set_sendBuf ?sb3 ?e3))" "sb_inv isn W k n sb4" by blast
    have v5: "sview isn W pc k n sb4 rq' (set_sendBuf sb4 (set_sendBuf ?sb3 ?e3))"
      by (rule sview_set_sendBuf [OF v4 s4(2)])
    have st3: "te_state ?e3 \<noteq> FIN_WAIT_1" "te_state ?e3 \<noteq> LAST_ACK" using st by auto
    have "handlePureAck now seg e = ack_signals (set_sendBuf ?sb3 ?e3)"
      using new g(1,2) rq'(1) st3 u by (simp add: handlePureAck_def Let_def)
    then show ?thesis using s4(1) send_invI [OF v5] sent by simp
  qed
qed

text \<open>Retransmission of the first unacknowledged segment.\<close>

definition give_up :: "table_entry \<Rightarrow> bool" where
  "give_up e \<longleftrightarrow> (\<exists>rq x xs. get_retransQueue e = Inr rq \<and> rq_array rq = x # xs
     \<and> MAX_RETRANSMISSIONS \<le> re_numRetransmits x)"

lemma backoff_keeps [simp]: "rq_array (backoff rq) = rq_array rq" "rq_timer (backoff rq) = rq_timer rq"
  by (simp_all add: backoff_def)

text \<open>What one retransmission does, in detail.\<close>

lemma retransmitSegment_ok:
  assumes v: "sview isn W pc a n sb rq e" and arr: "rq_array rq = x # xs"
    and go: "re_numRetransmits x < MAX_RETRANSMISSIONS"
  obtains hdr rq' where
    "retransmitSegment e = Inr (set_retransQueue rq' (send_packet hdr (take (unat (re_len x)) (drop a W))
       (set_retransQueue (rq\<lparr>rq_timer := StoppedTimer, rq_array :=
         x\<lparr>re_retransmitted := True, re_numRetransmits := re_numRetransmits x + 1\<rparr> # xs\<rparr>) e)))"
    and "SeqNum hdr = isn + of_nat a" and "Flags hdr = TCPFlagAck"
    and "a + unat (re_len x) \<le> length W" and "0 < unat (re_len x)" and "unat (re_len x) \<le> MAX_SEG_SIZE"
    and "rq_array rq' = x\<lparr>re_retransmitted := True, re_numRetransmits := re_numRetransmits x + 1\<rparr> # xs"
    and "rq_rto rq' = min (2 * rq_rto rq) RTO_MAX" and "rq_timer rq' = Armed (rq_rto rq')"
proof -
  from v obtain rb where g: "get_sendBuf e = Inr sb" "get_retransQueue e = Inr rq" "get_recvBuf e = Inr rb"
    and sb: "sb_inv isn W a n sb" and rq: "rq_inv isn a (n + pending pc) rq" and pc: "pc_ok W n pc"
    by (auto simp: sview_def)
  note I = sb_invD [OF sb]
  have sock: "te_normalSocket e \<noteq> None" using g(1) by (rule normalSocket_get)
  have x: "re_seqNum x = isn + of_nat a" "0 < unat (re_len x)" "unat (re_len x) \<le> 1360" "re_flags x = TCPFlagAck"
    "rq_chain isn (a + unat (re_len x)) (n + pending pc) xs"
    using rq arr by (simp_all add: rq_inv_def)
  have "a + unat (re_len x) \<le> n + pending pc" using x(5) by (rule rq_chain_le)
  also have "n + pending pc \<le> length W" using pc I(7) by (cases pc) simp_all
  finally have le: "a + unat (re_len x) \<le> length W" .
  have sl: "SliceFrom (sb_cBuf sb) (re_seqNum x) (re_len x) = Inr (take (unat (re_len x)) (drop a W))"
    unfolding x(1) by (rule sb_inv_slice [OF sb _ le]) simp
  let ?x = "x\<lparr>re_retransmitted := True, re_numRetransmits := re_numRetransmits x + 1\<rparr>"
  let ?rq1 = "rq\<lparr>rq_timer := StoppedTimer, rq_array := ?x # xs\<rparr>"
  let ?e1 = "set_retransQueue ?rq1 e"
  have g1: "get_recvBuf ?e1 = Inr rb" "get_sendBuf ?e1 = Inr sb" "get_retransQueue ?e1 = Inr ?rq1"
    using g sock by simp_all
  obtain hdr where s: "sendSegment (take (unat (re_len x)) (drop a W)) (re_seqNum x) (re_flags x) ?e1
      = Inr (send_packet hdr (take (unat (re_len x)) (drop a W)) ?e1)"
    "SeqNum hdr = re_seqNum x" "Flags hdr = re_flags x" using g1(1) by (rule sendSegment_ok)
  let ?rq3 = "backoff ?rq1" and ?e2 = "send_packet hdr (take (unat (re_len x)) (drop a W)) ?e1"
  have r: "retransmitSegment e = Inr (set_retransQueue (?rq3\<lparr>rq_timer := startRtoTimer ?rq3\<rparr>) ?e2)"
    using g(2) arr go g1 sl s(1) by (simp add: retransmitSegment_def Let_def)
  show thesis
    by (rule that [OF r]) (use s x le in \<open>simp_all add: startRtoTimer_def backoff_def ac_simps\<close>)
qed

lemma retransmitSegment_inv:
  assumes inv: "send_inv isn W pc e" and sent: "sent_ok isn W e"
    and rq: "get_retransQueue e = Inr rq" "rq_array rq \<noteq> []" and go: "\<not> give_up e"
  shows "\<exists>e'. retransmitSegment e = Inr e' \<and> send_inv isn W pc e' \<and> sent_ok isn W e'"
proof -
  from inv rq(1) obtain a n sb where v: "sview isn W pc a n sb rq e" by (auto simp: send_inv_def sview_def)
  from rq(2) obtain x xs where arr: "rq_array rq = x # xs" by (cases "rq_array rq") auto
  have "re_numRetransmits x < MAX_RETRANSMISSIONS" using go rq(1) arr by (auto simp: give_up_def)
  with v arr obtain hdr rq' where r: "retransmitSegment e = Inr (set_retransQueue rq' (send_packet hdr
        (take (unat (re_len x)) (drop a W)) (set_retransQueue (rq\<lparr>rq_timer := StoppedTimer, rq_array :=
         x\<lparr>re_retransmitted := True, re_numRetransmits := re_numRetransmits x + 1\<rparr> # xs\<rparr>) e)))"
    (is "_ = Inr ?e'")
    "SeqNum hdr = isn + of_nat a" "a + unat (re_len x) \<le> length W" "0 < unat (re_len x)" "unat (re_len x) \<le> 1360"
    "rq_array rq' = x\<lparr>re_retransmitted := True, re_numRetransmits := re_numRetransmits x + 1\<rparr> # xs"
    "rq_timer rq' = Armed (rq_rto rq')"
    by (rule retransmitSegment_ok) blast
  have sock: "te_normalSocket e \<noteq> None" using rq(1) by (rule normalSocket_get)
  have "rq_inv isn a (n + pending pc) rq'" using v arr r(6,7) by (simp add: sview_def rq_inv_def)
  then have "sview isn W pc a n sb rq' ?e'" using v sock by (auto simp: sview_def)
  moreover have "sent_ok isn W ?e'"
    using sent r(2-5) by (auto intro!: stream_segment_slice)
  ultimately show ?thesis using r(1) send_invI by blast
qed


section \<open>Handlers of the receive side leave the send side alone\<close>

definition quiet :: "table_entry \<Rightarrow> table_entry \<Rightarrow> bool" where
  "quiet e e' \<longleftrightarrow> get_sendBuf e' = get_sendBuf e \<and> get_retransQueue e' = get_retransQueue e
     \<and> te_seqNum e' = te_seqNum e \<and> ((\<exists>rb. get_recvBuf e = Inr rb) \<longrightarrow> (\<exists>rb. get_recvBuf e' = Inr rb))
     \<and> (\<exists>rs. te_sendRequests e' = te_sendRequests e @ rs \<and> (\<forall>r \<in> set rs. sr_data r = []))
     \<and> (te_state e \<in> {ESTABLISHED, CLOSE_WAIT} \<longrightarrow> te_state e' \<in> {ESTABLISHED, CLOSE_WAIT})"

lemma quiet_refl [simp]: "quiet e e"
  by (simp add: quiet_def)

lemma quiet_trans: "quiet a b \<Longrightarrow> quiet b c \<Longrightarrow> quiet a c"
  unfolding quiet_def by fastforce

lemma quiet_set_recvBuf: "get_recvBuf e = Inr rb \<Longrightarrow> quiet e (set_recvBuf rb' e)"
  by (auto simp: quiet_def dest: normalSocket_get)

lemma quiet_sendPureAck: "sendPureAck a e = Inr e' \<Longrightarrow> quiet e e'"
  by (auto simp: sendPureAck_def go_bind_eq_Inr quiet_def) (simp add: send_packet_def)

lemma quiet_signal: "signal_dataToRead e = Inr e' \<Longrightarrow> quiet e e'"
  by (auto simp: signal_dataToRead_def go_bind_eq_Inr intro: quiet_set_recvBuf)

lemma quiet_fin_switch: "fin_switch e = Inr e' \<Longrightarrow> quiet e e'"
proof (cases "te_state e = ESTABLISHED")
  case True
  assume "fin_switch e = Inr e'"
  then have "quiet (e\<lparr>te_state := CLOSE_WAIT\<rparr>) e'" using True by (auto simp: fin_switch_def intro: quiet_signal)
  then show ?thesis by (simp add: quiet_def)
next
  case False
  assume "fin_switch e = Inr e'"
  then show ?thesis using False
    by (cases "te_state e") (auto simp: fin_switch_def timeWait_def quiet_def)
qed

lemma quiet_fin:
  assumes "get_recvBuf e = Inr rb" and "go_bind (sendPureAck a (set_recvBuf rb' e)) fin_switch = Inr e'"
  shows "quiet e e'"
  using assms(2) quiet_set_recvBuf [OF assms(1)] quiet_sendPureAck quiet_fin_switch quiet_trans
  by (elim go_bindE) blast

lemma quiet_handleEarlyFin: "handleEarlyFin e = Inr e' \<Longrightarrow> quiet e e'"
  unfolding handleEarlyFin_def Let_def
  by (erule go_bindE) (auto split: if_splits intro: quiet_fin)

lemma quiet_handleFin: "handleFin hdr e = Inr e' \<Longrightarrow> quiet e e'"
  unfolding handleFin_def Let_def
  by (erule go_bindE) (auto split: if_splits
      intro: quiet_fin quiet_set_recvBuf quiet_trans [OF quiet_set_recvBuf quiet_sendPureAck] quiet_sendPureAck)

lemma quiet_payload_tail:
  assumes "payload_tail hdr n rb e = Inr e'" and rb0: "get_recvBuf e = Inr rb0"
  shows "quiet e e'"
proof -
  from assms(1) obtain rb1 b e1 e2 and rb2 :: recv_buf where
    e1: "(if b then handleEarlyFin (set_recvBuf rb1 e) else Inr (set_recvBuf rb1 e)) = Inr e1"
    and e2: "signal_dataToRead e1 = Inr e2" and e3: "sendPureAck (rb_nxt rb2) e2 = Inr e'"
    by (auto simp: payload_tail_def go_bind_eq_Inr)
  have "quiet e (set_recvBuf rb1 e)" by (rule quiet_set_recvBuf [OF rb0])
  moreover have "quiet (set_recvBuf rb1 e) e1" using e1 by (cases b) (auto intro: quiet_handleEarlyFin)
  ultimately show ?thesis using quiet_signal [OF e2] quiet_sendPureAck [OF e3] quiet_trans by blast
qed


lemma quiet_handlePayload:
  assumes "handlePayload coin hdr payload e = Inr e'"
  shows "quiet e e'"
proof (cases "te_dropForRetrans e \<and> coin")
  case True
  then show ?thesis using assms by (simp add: handlePayload_def)
next
  case keep: False
  show ?thesis
  proof (cases "get_recvBuf e")
    case (Inl err)
    then show ?thesis using assms unfolding handlePayload_def if_not_P [OF keep] by simp
  next
    case (Inr rb)
    let ?space = "unat (FreeSpace (rb_cBuf rb))"
    let ?p = "if ?space < length payload then take ?space payload else payload"
    note h = assms [unfolded handlePayload_def if_not_P [OF keep] Inr go_bind_Inr Let_def, folded payload_tail_def]
    show ?thesis
    proof (cases "rb_nxt rb = SeqNum hdr \<and> ?space \<noteq> 0")
      case True
      then have "go_bind (WriteIntoBuf (rb_cBuf rb) (rb_nxt rb) ?p) (\<lambda>(cb, bytesWritten).
          if bytesWritten \<noteq> length ?p then Inr (set_recvBuf (rb\<lparr>rb_cBuf := cb\<rparr>) e)
          else payload_tail hdr (of_nat (length ?p)) (rb\<lparr>rb_cBuf := cb, rb_nxt := rb_nxt rb + of_nat (length ?p)\<rparr>) e) = Inr e'"
        using h by (simp split del: if_split)
      then show ?thesis
        by (rule go_bindE) (auto split: if_splits prod.splits
            intro: quiet_set_recvBuf [OF Inr] quiet_payload_tail [OF _ Inr])
    next
      case False
      then show ?thesis
        using h Inr by (auto split: if_splits
            intro: quiet_sendPureAck quiet_trans [OF quiet_set_recvBuf quiet_sendPureAck])
    qed
  qed
qed

lemma quiet_VRead_loop: "VRead_loop fuel dest e = Inr (res, e') \<Longrightarrow> quiet e e'"
proof (induction fuel arbitrary: e)
  case (Suc fuel)
  then show ?case
    by (auto simp: Let_def go_bind_eq_Inr split: if_splits prod.splits
        intro: quiet_set_recvBuf quiet_trans [OF quiet_set_recvBuf])
qed simp

lemma quiet_VRead: "VRead fuel dest e = Inr (res, e') \<Longrightarrow> quiet e e'"
  by (auto simp: VRead_def split: if_splits dest: quiet_VRead_loop)

lemma quiet_recv_event_step: "recv_event_step ev (e, out, eof) = Inr (e', out', eof') \<Longrightarrow> quiet e e'"
proof (cases ev)
  case (AppReads len)
  assume "recv_event_step ev (e, out, eof) = Inr (e', out', eof')"
  then obtain res e1 where v: "VRead 2 (replicate len 0) e = Inr (res, e1)"
    and r: "(case res of Some (ReadOk d n) \<Rightarrow> Inr (e1, out @ take n d, eof) | Some ReadEOF \<Rightarrow> Inr (e1, out, True)
      | _ \<Rightarrow> Inr (e1, out, eof)) = (Inr (e', out', eof') :: go_panic + _)"
    using AppReads by (auto elim!: go_bindE)
  have "e1 = e'"
  proof (cases res)
    case (Some x)
    then show ?thesis using r by (cases x) auto
  qed (use r in simp)
  then show ?thesis using quiet_VRead [OF v] by simp
qed (auto simp: go_bind_eq_Inr intro: quiet_handlePayload quiet_handleFin)

lemma quiet_send_inv:
  assumes q: "quiet e e'" and inv: "send_inv isn W pc e" and sent: "sent_ok isn W e"
  shows "send_inv isn W pc e'" and "sent_ok isn W e'"
proof -
  from inv obtain a n sb rq where "sview isn W pc a n sb rq e" by (auto simp: send_inv_def)
  then have "sview isn W pc a n sb rq e'" using q unfolding sview_def quiet_def by metis
  then show "send_inv isn W pc e'" by (rule send_invI)
  from q obtain rs where "te_sendRequests e' = te_sendRequests e @ rs" "\<forall>r \<in> set rs. sr_data r = []"
    by (auto simp: quiet_def)
  then show "sent_ok isn W e'" using sent by (auto simp: sent_ok_def request_ok_def)
qed

section \<open>Reachable states of a sending connection\<close>

text \<open>
  All interleavings of the application's writes, the three critical sections of \<open>sendLoop\<close>, ACKs,
  retransmission timeouts and whatever the receive side of the same connection does.
\<close>

fun bytes_written :: "vwrite_result \<Rightarrow> nat" where
  "bytes_written WriteClosing = 0"
| "bytes_written (WriteParked k) = k"
| "bytes_written (WriteDone k) = k"

fun next_pc :: "loop_decision \<Rightarrow> loop_pc" where
  "next_pc (SendNext d m) = LoopTransmit d m"
| "next_pc _ = LoopIdle"

inductive send_reach :: "table_entry \<Rightarrow> bytes \<Rightarrow> loop_pc \<Rightarrow> table_entry \<Rightarrow> bool" for e0 where
  start: "send_reach e0 [] LoopIdle e0"
| app_write: "send_reach e0 W pc e \<Longrightarrow> t \<le> length data \<Longrightarrow>
    VWrite_loop fuel data t e = Inr (Some res, e') \<Longrightarrow>
    send_reach e0 (W @ take (bytes_written res - t) (drop t data)) pc e'"
| prepare: "send_reach e0 W LoopIdle e \<Longrightarrow> sendLoop_prepare e = Inr (d, e') \<Longrightarrow>
    send_reach e0 W (next_pc d) e'"
| transmit: "send_reach e0 W (LoopTransmit d m) e \<Longrightarrow> sendLoop_transmit now d m e = Inr e' \<Longrightarrow>
    send_reach e0 W (LoopCommit m) e'"
| commit: "send_reach e0 W (LoopCommit m) e \<Longrightarrow> sendLoop_commit m e = Inr e' \<Longrightarrow>
    send_reach e0 W LoopIdle e'"
| ack: "send_reach e0 W pc e \<Longrightarrow> ack_fits pc (AckNum seg) e \<Longrightarrow> handlePureAck now seg e = Inr e' \<Longrightarrow>
    send_reach e0 W pc e'"
| timeout: "send_reach e0 W pc e \<Longrightarrow> get_retransQueue e = Inr rq \<Longrightarrow> rq_timer rq = Armed d \<Longrightarrow>
    \<not> give_up e \<Longrightarrow> retransmitSegment e = Inr e' \<Longrightarrow> send_reach e0 W pc e'"
| receive: "send_reach e0 W pc e \<Longrightarrow> recv_event_step ev (e, out, eof) = Inr (e', out', eof') \<Longrightarrow>
    send_reach e0 W pc e'"

text \<open>A connection as the handshake leaves it.\<close>

definition fresh_conn :: "u32 \<Rightarrow> table_entry \<Rightarrow> bool" where
  "fresh_conn isn e \<longleftrightarrow> te_state e = ESTABLISHED \<and> te_seqNum e = isn
     \<and> (\<exists>w. get_sendBuf e = Inr ((newSendBuf isn)\<lparr>sb_otherSideWindow := w\<rparr>))
     \<and> (\<exists>theirs. get_recvBuf e = Inr (newRecvBuf theirs))
     \<and> (\<exists>rq. get_retransQueue e = Inr rq \<and> rq_array rq = [] \<and> rq_timer rq = NilTimer)
     \<and> (\<forall>r \<in> set (te_sendRequests e). sr_data r = [])"

lemma fresh_send_inv:
  assumes "fresh_conn isn e"
  shows "send_inv isn [] LoopIdle e" and "sent_ok isn [] e"
proof -
  have "sb_inv isn [] 0 0 ((newSendBuf isn)\<lparr>sb_otherSideWindow := w\<rparr>)" for w
    by (simp add: sb_inv_def newSendBuf_def is_window_def)
  then show "send_inv isn [] LoopIdle e"
    using assms by (fastforce simp: fresh_conn_def send_inv_def sview_def rq_inv_def)
  show "sent_ok isn [] e" using assms by (simp add: fresh_conn_def sent_ok_def request_ok_def)
qed

lemma send_reach_inv:
  assumes "send_reach e0 W pc e" and "fresh_conn isn e0"
  shows "no_wrap isn W \<Longrightarrow> send_inv isn W pc e \<and> sent_ok isn W e"
  using assms(1)
proof induction
  case start
  then show ?case using fresh_send_inv [OF assms(2)] by simp
next
  case (app_write W pc e t data fuel res e')
  then have "send_inv isn W pc e" "sent_ok isn W e" using no_wrap_append by blast+
  from VWrite_loop_inv [OF this app_write.hyps(2), of fuel] app_write.hyps(3) obtain k where
    "send_inv isn (W @ take (k - t) (drop t data)) pc e'" "sent_ok isn (W @ take (k - t) (drop t data)) e'"
    "bytes_written res = k" by (cases res) auto
  then show ?case by simp
next
  case (prepare W e d e')
  then obtain d' e'' where "sendLoop_prepare e = Inr (d', e'')" "sent_ok isn W e''"
    "send_inv isn W (next_pc d') e''"
    using sendLoop_prepare_inv [of isn W e] by (auto split: loop_decision.splits)
  then show ?case using prepare.hyps(2) by simp
next
  case (transmit W d m e now e')
  then show ?case using sendLoop_transmit_inv [of isn W d m e now] by auto
next
  case (commit W m e e')
  then show ?case using sendLoop_commit_inv [of isn W m e] by auto
next
  case (ack W pc e seg now e')
  then show ?case using handlePureAck_inv [of isn W pc e seg now] by auto
next
  case (timeout W pc e rq d e')
  then have inv: "send_inv isn W pc e" "sent_ok isn W e" by blast+
  then have "rq_array rq \<noteq> []" using timeout.hyps(2,3) by (auto simp: send_inv_def sview_def rq_inv_def)
  from retransmitSegment_inv [OF inv timeout.hyps(2) this timeout.hyps(4)] timeout.hyps(5) show ?case by auto
next
  case (receive W pc e ev out eof e' out' eof')
  then show ?case using quiet_send_inv [OF quiet_recv_event_step [OF receive.hyps(2)]] by blast
qed

end
