(* ===== verification/TcpTransfer.thy ===== *)
theory TcpTransfer
  imports TcpSend
begin

text \<open>
  Properties of data transfer: what a connection sends over all interleavings of its handlers, flow
  control, segmentation, back-off, and the two ends together over a network that loses, duplicates
  and reorders segments.
\<close>

section \<open>A sample run\<close>

abbreviation "sample_rq \<equiv> \<lparr>rq_array = [], rq_rto = RTO_INIT, rq_srtt = 0, rq_timer = NilTimer\<rparr>"

text \<open>A fresh connection, used to show that the hypotheses below can hold.\<close>

definition sample_conn :: "u32 \<Rightarrow> u32 \<Rightarrow> table_entry" where
  "sample_conn ours theirs = zero_entry\<lparr>te_state := ESTABLISHED, te_seqNum := ours,
     te_normalSocket := Some (zero_conn\<lparr>vc_sendBuf := Some (newSendBuf ours),
       vc_recvBuf := Some (newRecvBuf theirs),
       vc_retransQueue := Some sample_rq\<rparr>)\<rparr>"

lemma sample_conn_get:
  "get_sendBuf (sample_conn ours theirs) = Inr (newSendBuf ours)"
  "get_recvBuf (sample_conn ours theirs) = Inr (newRecvBuf theirs)"
  "get_retransQueue (sample_conn ours theirs)
     = Inr sample_rq"
  by (simp_all add: sample_conn_def get_defs)

lemma sample_conn_fields [simp]:
  "te_state (sample_conn ours theirs) = ESTABLISHED" "te_seqNum (sample_conn ours theirs) = ours"
  "te_sendRequests (sample_conn ours theirs) = []"
  by (simp_all add: sample_conn_def zero_entry_def)

lemma fresh_sample_conn [simp]: "fresh_conn ours (sample_conn ours theirs)"
  unfolding fresh_conn_def
proof (intro conjI)
  have "newSendBuf ours = (newSendBuf ours)\<lparr>sb_otherSideWindow := 65535\<rparr>" by (simp add: newSendBuf_def)
  then show "\<exists>w. get_sendBuf (sample_conn ours theirs) = Inr ((newSendBuf ours)\<lparr>sb_otherSideWindow := w\<rparr>)"
    using sample_conn_get(1) by metis
qed (auto simp: sample_conn_get)

lemma sample_sview:
  "sview ours [] LoopIdle 0 0 (newSendBuf ours) sample_rq (sample_conn ours theirs)"
  by (simp add: sview_def sample_conn_get sb_inv_def newSendBuf_def is_window_def rq_inv_def)

text \<open>The sample connection writes data and gets as far as having sent its first segment.\<close>

lemma sample_prepared:
  assumes nw: "no_wrap ours d" and d: "d \<noteq> []" "length d \<le> 65535"
  obtains x m e sb where "send_reach (sample_conn ours theirs) d (LoopTransmit x m) e"
    and "sview ours d (LoopTransmit x m) 0 0 sb sample_rq e" and "sent_ok ours d e"
    and "\<exists>e1. send_reach (sample_conn ours theirs) d LoopIdle e1 \<and> sendLoop_prepare e1 = Inr (SendNext x m, e)"
proof -
  let ?s = "sample_conn ours theirs"
  have "sent_ok ours [] ?s" by (simp add: sent_ok_def)
  from VWrite_fits [OF sample_sview this, of d 0] d obtain sb e1 where
    w: "VWrite_loop (Suc (Suc 0)) d 0 ?s = Inr (Some (WriteDone (length d)), e1)"
    and v: "sview ours d LoopIdle 0 0 sb sample_rq e1"
    and win: "sb_otherSideWindow sb = sb_otherSideWindow (newSendBuf ours)" and sent: "sent_ok ours d e1" by auto
  have r1: "send_reach ?s d LoopIdle e1"
    using send_reach.app_write [OF send_reach.start _ w] by simp
  have win': "unat (sb_otherSideWindow sb) = 65535" by (simp add: win newSendBuf_def)
  show thesis
    using v nw
  proof (cases rule: prepare_cases)
    case idle
    then show thesis using d by simp
  next
    case wait
    have "getBytesInFlight sb = 0" using sb_inv_lbw(4) [of ours d 0 0 sb] v nw by (simp add: sview_def)
    then have "windowRemaining sb = int (unat (sb_otherSideWindow sb))"
      by (simp add: windowRemaining_def)
    then show thesis using wait(2) win' by simp
  next
    case (probe hdr)
    then show thesis using win' by simp
  next
    case (segment m)
    note r2 = send_reach.prepare [OF r1 segment(6), unfolded next_pc.simps]
    have "sview ours d LoopIdle 0 0 (sb\<lparr>sb_isProbing := False\<rparr>) sample_rq (set_sendBuf (sb\<lparr>sb_isProbing := False\<rparr>) e1)"
      using v by (intro sview_set_sendBuf [OF v]) (simp add: sview_def)
    then have "sview ours d (LoopTransmit (take (unat m) (drop 0 d)) m) 0 0 (sb\<lparr>sb_isProbing := False\<rparr>) sample_rq
        (set_sendBuf (sb\<lparr>sb_isProbing := False\<rparr>) e1)"
      using segment(1-3) by (simp add: sview_def)
    then show thesis by (rule that [OF r2]) (use sent r1 segment(6) in auto)
  qed
qed

lemma sample_transmitted:
  assumes nw: "no_wrap ours d" and d: "d \<noteq> []" "length d \<le> 65535"
  obtains m e r rq x where "send_reach (sample_conn ours theirs) d (LoopCommit m) e"
    and "r \<in> set (te_sendRequests e)" and "sr_data r \<noteq> []"
    and "get_retransQueue e = Inr rq" and "rq_array rq = [x]" and "re_numRetransmits x = 0" and "rq_rto rq = RTO_INIT"
proof -
  obtain y m e sb where r: "send_reach (sample_conn ours theirs) d (LoopTransmit y m) e"
    and v: "sview ours d (LoopTransmit y m) 0 0 sb sample_rq e"
    by (rule sample_prepared [OF assms]) blast
  then obtain rb where rb: "get_recvBuf e = Inr rb" and g: "get_retransQueue e = Inr sample_rq"
    by (auto simp: sview_def)
  obtain hdr where s: "sendSegment y (te_seqNum e) TCPFlagAck e = Inr (send_packet hdr y e)"
    using rb by (rule sendSegment_ok)
  let ?x = "\<lparr>re_seqNum = te_seqNum e, re_len = m, re_flags = TCPFlagAck, re_sent = 0,
    re_retransmitted = False, re_numRetransmits = 0\<rparr>"
  let ?rq = "sample_rq\<lparr>rq_timer := Armed RTO_INIT, rq_array := [?x]\<rparr>"
  let ?e = "set_retransQueue ?rq (send_packet hdr y e)"
  have "sendLoop_transmit 0 y m e = Inr ?e"
    using s g by (simp add: sendLoop_transmit_def enqueue_retrans_def startRtoTimer_def Let_def)
  note t = send_reach.transmit [OF r this]
  obtain q where q: "te_sendRequests ?e = te_sendRequests e @ [q]" "sr_data q = y" by (simp add: send_packet_def)
  have "y \<noteq> []" using v by (auto simp: sview_def)
  moreover have "get_retransQueue ?e = Inr ?rq" using normalSocket_get(1) [OF rb] by simp
  moreover have "q \<in> set (te_sendRequests ?e)" unfolding q(1) by simp
  ultimately show thesis using q(2) by (intro that [OF t, of q ?rq ?x]) simp_all
qed

section \<open>What is sent\<close>



text \<open>
  C19. Flow control: when the send loop decides to send a segment, the segment is the next unsent
  bytes of the stream, it is not empty, it has at most 1360 bytes, and together with the bytes in
  flight it fits in the window that the peer last advertised.
\<close>

theorem send_respects_window:
  assumes "fresh_conn isn e0" and "send_reach e0 W LoopIdle e" and "no_wrap isn W"
    and "sendLoop_prepare e = Inr (SendNext d m, e')" and "get_sendBuf e = Inr sb"
  shows "unat (getBytesInFlight sb) + length d \<le> unat (sb_otherSideWindow sb)
    \<and> 0 < length d \<and> length d \<le> 1360 \<and> unat m = length d
    \<and> (\<exists>n. sb_nxt sb = isn + of_nat n \<and> n + length d \<le> length W \<and> d = take (length d) (drop n W))"
proof -
  have "send_inv isn W LoopIdle e" using send_reach_inv [OF assms(2,1,3)] by simp
  then obtain a n rq where v: "sview isn W LoopIdle a n sb rq e" using assms(5) by (auto simp: send_inv_def sview_def)
  then have sb: "sb_inv isn W a n sb" by (simp add: sview_def)
  note I = sb_invD [OF sb]
  have "unat (getBytesInFlight sb) = n - a"
    unfolding sb_inv_lbw(4) [OF sb assms(3)] using I(6,7,9) by (intro unat_of_nat_u32) simp
  note fly = this
  from v assms(3) show ?thesis
  proof (cases rule: prepare_cases)
    case (segment k)
    have d: "m = k" "d = take (unat k) (drop n W)" using segment(6) assms(4) by simp_all
    have len: "length d = unat k" using segment(1) d(2) by simp
    then have "\<exists>n. sb_nxt sb = isn + of_nat n \<and> n + length d \<le> length W \<and> d = take (length d) (drop n W)"
      using d I(4) segment(1) by metis
    moreover have "unat (getBytesInFlight sb) + length d \<le> unat (sb_otherSideWindow sb)"
      using segment(4) unfolding fly len .
    ultimately show ?thesis using segment(2,3) d(1) len by simp
  qed (use assms(4) in simp_all)
qed

theorem send_respects_window_witness:
  "\<exists>e sb d m e'. send_reach (sample_conn 1000 7) [1, 2, 3] LoopIdle e \<and> get_sendBuf e = Inr sb
    \<and> sendLoop_prepare e = Inr (SendNext d m, e') \<and> 0 < length d
    \<and> unat (getBytesInFlight sb) + length d \<le> unat (sb_otherSideWindow sb)"
proof -
  have nw: "no_wrap 1000 [1, 2, 3]" by (simp add: no_wrap_def)
  obtain x m e e1 where
    r: "send_reach (sample_conn 1000 7) [1, 2, 3] LoopIdle e1" "sendLoop_prepare e1 = Inr (SendNext x m, e)"
    by (rule sample_prepared [OF nw, of 7]) auto
  obtain sb where sb: "get_sendBuf e1 = Inr sb"
    using r(2) unfolding sendLoop_prepare_def by (rule go_bindE)
  from send_respects_window [OF fresh_sample_conn r(1) nw r(2) sb] r sb show ?thesis by blast
qed


section \<open>Both ends\<close>

text \<open>
  The network delivers any of the segments that the sender has handed to it, at any time and as
  often as it likes, or not at all.
\<close>

fun network_delivers :: "send_request list \<Rightarrow> recv_event \<Rightarrow> bool" where
  "network_delivers rs (SegmentArrives coin hdr payload) \<longleftrightarrow>
     payload \<noteq> [] \<and> (\<exists>r \<in> set rs. SeqNum (sr_tcpHeader r) = SeqNum hdr \<and> sr_data r = payload)"
| "network_delivers rs (FinArrives hdr) \<longleftrightarrow> False"
| "network_delivers rs (AppReads len) \<longleftrightarrow> len < 4294967296"

lemma delivered_is_honest:
  "sent_ok isn W e \<Longrightarrow> network_delivers (te_sendRequests e) ev \<Longrightarrow> honest_event isn W ev"
  by (cases ev) (fastforce simp: sent_ok_def request_ok_def)+

lemma transfer_prefix:
  assumes "fresh_conn isn e0" and "send_reach e0 W pc e" and "no_wrap isn W"
    and "get_recvBuf f = Inr (newRecvBuf isn)" and "te_state f = ESTABLISHED"
    and "\<forall>ev \<in> set evs. network_delivers (te_sendRequests e) ev"
  shows "\<exists>f' out eof. recv_run evs (f, [], False) = Inr (f', out, eof) \<and> prefix out W"
proof -
  have "sent_ok isn W e" using send_reach_inv [OF assms(2,1,3)] by simp
  then have honest: "\<forall>ev \<in> set evs. honest_event isn W ev" using assms(6) delivered_is_honest by blast
  have "run_inv isn W (f, [], False)"
    by (rule run_invI [OF recv_inv_start [OF assms(4,5)]]) simp_all
  moreover have "length W < 4294967295" using assms(3) by (simp add: no_wrap_def)
  ultimately obtain f' out eof where r: "recv_run evs (f, [], False) = Inr (f', out, eof)" "run_inv isn W (f', out, eof)"
    using recv_run_inv [OF _ _ honest] by (metis prod_cases3)
  then obtain w k b where "recv_inv isn W w k b f'" "out = take k w" by (auto simp: run_inv_def)
  then have "prefix out W" using recv_inv_prefix by (metis prefix_order.trans take_is_prefix)
  then show ?thesis using r(1) by blast
qed



section \<open>Segmentation\<close>

text \<open>Segments one after the other, from the sequence number \<open>s\<close> on.\<close>

fun consecutive :: "u32 \<Rightarrow> send_request list \<Rightarrow> bool" where
  "consecutive s [] \<longleftrightarrow> True"
| "consecutive s (r # rs) \<longleftrightarrow> SeqNum (sr_tcpHeader r) = s \<and> consecutive (s + of_nat (length (sr_data r))) rs"

lemma consecutive_nth:
  "consecutive s rs \<Longrightarrow> j < length rs \<Longrightarrow>
    SeqNum (sr_tcpHeader (rs ! j)) = s + of_nat (length (concat (take j (map sr_data rs))))"
proof (induction rs arbitrary: s j)
  case (Cons r rs)
  from Cons.IH [of "s + of_nat (length (sr_data r))"] Cons.prems show ?case
    by (cases j) (simp_all add: add.assoc del: length_concat)
qed simp

text \<open>
  An uninterrupted run of the inner loop, with a window that covers everything unsent.
\<close>

lemma sendLoop_inner_flush:
  "sview isn W LoopIdle a n sb rq e \<Longrightarrow> no_wrap isn W \<Longrightarrow> length W - a \<le> unat (sb_otherSideWindow sb) \<Longrightarrow>
   length W - n \<le> fuel * 1360 \<Longrightarrow>
   \<exists>e' rs sb' rq'. sendLoop_inner (Suc fuel) now e = Inr (Some NoUnsentData, e')
     \<and> te_sendRequests e' = te_sendRequests e @ rs \<and> concat (map sr_data rs) = drop n W
     \<and> (\<forall>r \<in> set rs. 0 < length (sr_data r) \<and> length (sr_data r) \<le> 1360)
     \<and> length rs = (length W - n + 1359) div 1360 \<and> sview isn W LoopIdle a (length W) sb' rq' e'
     \<and> consecutive (isn + of_nat n) rs"
proof (induction fuel arbitrary: n sb rq e)
  case 0
  have n: "n = length W" using 0 sb_invD(7) [of isn W a n sb] by (simp add: sview_def)
  from 0(1,2) show ?case
  proof (cases rule: prepare_cases)
    case idle
    then show ?thesis using 0(1) by (intro exI [of _ e] exI [of _ "[]"]) auto
  qed (use n in simp_all)
next
  case (Suc fuel)
  have sb: "sb_inv isn W a n sb" using Suc.prems(1) by (simp add: sview_def)
  note I = sb_invD [OF sb]
  from Suc.prems(1,2) show ?case
  proof (cases rule: prepare_cases)
    case idle
    then show ?thesis using Suc.prems(1) by (intro exI [of _ e] exI [of _ "[]"]) auto
  next
    case wait
    have "getBytesInFlight sb = of_nat (n - a)" by (rule sb_inv_lbw(4) [OF sb Suc.prems(2)])
    then have "unat (getBytesInFlight sb) = n - a"
      using I(6,7,9) by (simp only:) (intro unat_of_nat_u32, simp)
    then have "windowRemaining sb = int (unat (sb_otherSideWindow sb)) - int (n - a)"
      unfolding windowRemaining_def uint_nat by simp
    then show ?thesis using wait(1,2) Suc.prems(3) I(6) by linarith
  next
    case (probe hdr)
    then show ?thesis using Suc.prems(3) by simp
  next
    case (segment m)
    let ?d = "take (unat m) (drop n W)" and ?e1 = "set_sendBuf (sb\<lparr>sb_isProbing := False\<rparr>) e"
    have m: "unat m = min (length W - n) 1360" using segment(5) Suc.prems(3) I(6,7) by linarith
    have "sview isn W LoopIdle a n (sb\<lparr>sb_isProbing := False\<rparr>) rq ?e1"
      using Suc.prems(1) sb by (intro sview_set_sendBuf) simp_all
    then have "sview isn W (LoopTransmit ?d m) a n (sb\<lparr>sb_isProbing := False\<rparr>) rq ?e1"
      using segment(1-3) by (simp add: sview_def)
    from sendLoop_transmit_view [OF this, of now] obtain hdr rq2 e2 where
      t: "sendLoop_transmit now ?d m ?e1 = Inr e2" "sview isn W (LoopCommit m) a n (sb\<lparr>sb_isProbing := False\<rparr>) rq2 e2"
      "te_sendRequests e2 = te_sendRequests (send_packet hdr ?d ?e1)" "SeqNum hdr = isn + of_nat n" by blast
    from sendLoop_commit_view [OF t(2)] obtain sb3 e3 where
      c: "sendLoop_commit m e2 = Inr e3" "sview isn W LoopIdle a (n + unat m) sb3 rq2 e3"
      "sb_otherSideWindow sb3 = sb_otherSideWindow sb" "te_sendRequests e3 = te_sendRequests e2" by auto
    have "length W - (n + unat m) \<le> fuel * 1360" using m Suc.prems(4) by simp
    from Suc.IH [OF c(2) Suc.prems(2) _ this] c(3) Suc.prems(3) obtain e' rs sb' rq' where
      r: "sendLoop_inner (Suc fuel) now e3 = Inr (Some NoUnsentData, e')"
      "te_sendRequests e' = te_sendRequests e3 @ rs" "concat (map sr_data rs) = drop (n + unat m) W"
      "\<forall>r \<in> set rs. 0 < length (sr_data r) \<and> length (sr_data r) \<le> 1360"
      "length rs = (length W - (n + unat m) + 1359) div 1360" "sview isn W LoopIdle a (length W) sb' rq' e'"
      "consecutive (isn + of_nat (n + unat m)) rs" by auto
    obtain q where q: "te_sendRequests e2 = te_sendRequests e @ [q]" "sr_data q = ?d" "SeqNum (sr_tcpHeader q) = isn + of_nat n"
      using t(3,4) by (simp add: send_packet_def)
    have "sendLoop_inner (Suc (Suc fuel)) now e = Inr (Some NoUnsentData, e')"
      using segment(6) t(1) c(1) r(1) by simp
    moreover have "te_sendRequests e' = te_sendRequests e @ (q # rs)" using q r(2) c(4) by simp
    moreover have "concat (map sr_data (q # rs)) = drop n W"
    proof -
      have "drop (n + unat m) W = drop (unat m) (drop n W)" by (simp add: add.commute)
      then show ?thesis using q(2) r(3) by (simp only: list.map concat.simps append_take_drop_id)
    qed
    moreover have dlen: "length ?d = unat m" using segment(1) by simp
    then have "consecutive (isn + of_nat n) (q # rs)" using q(2,3) r(7) by (simp add: add.assoc)
    moreover have "\<forall>r \<in> set (q # rs). 0 < length (sr_data r) \<and> length (sr_data r) \<le> 1360"
      using dlen q(2) r(4) segment(2,3) by simp
    moreover have "length (q # rs) = (length W - n + 1359) div 1360"
    proof (cases "length W - n \<le> 1360")
      case True
      then have "length W - (n + unat m) = 0" "0 < length W - n" using m segment(2) by simp_all
      then show ?thesis using True r(5) by simp
    next
      case False
      then have "length W - n + 1359 = (length W - (n + unat m) + 1359) + 1360" using m by simp
      then show ?thesis using r(5) by simp
    qed
    ultimately show ?thesis using r(6) by blast
  qed
qed




section \<open>Timeouts\<close>

text \<open>Timeouts in a row, with nothing in between.\<close>

fun timeouts :: "nat \<Rightarrow> table_entry \<Rightarrow> go_panic + table_entry" where
  "timeouts 0 e = Inr e"
| "timeouts (Suc k) e = go_bind (retransmitSegment e) (timeouts k)"

lemma timeouts_resend:
  "sview isn W pc a n sb rq e \<Longrightarrow> rq_array rq = x # xs \<Longrightarrow> re_numRetransmits x + int k \<le> 4 \<Longrightarrow> 0 \<le> rq_rto rq \<Longrightarrow>
   rq_rto rq \<le> RTO_MAX \<Longrightarrow>
   \<exists>e' rq' x' rs. timeouts k e = Inr e' \<and> sview isn W pc a n sb rq' e' \<and> rq_array rq' = x' # xs
     \<and> re_numRetransmits x' = re_numRetransmits x + int k \<and> rq_rto rq' = min (2 ^ k * rq_rto rq) RTO_MAX
     \<and> rq_timer rq' = (if k = 0 then rq_timer rq else Armed (rq_rto rq'))
     \<and> te_sendRequests e' = te_sendRequests e @ rs \<and> length rs = k
     \<and> (\<forall>r \<in> set rs. SeqNum (sr_tcpHeader r) = isn + of_nat a \<and> sr_data r = take (unat (re_len x)) (drop a W))"
proof (induction k arbitrary: rq e x)
  case 0
  then show ?case by (intro exI [of _ e] exI [of _ rq] exI [of _ x] exI [of _ "[]"]) simp
next
  case (Suc k)
  from Suc.prems(3) have go: "re_numRetransmits x < 4" by simp
  let ?x = "x\<lparr>re_retransmitted := True, re_numRetransmits := re_numRetransmits x + 1\<rparr>"
  let ?d = "take (unat (re_len x)) (drop a W)"
  let ?e0 = "set_retransQueue (rq\<lparr>rq_timer := StoppedTimer, rq_array := ?x # xs\<rparr>) e"
  obtain hdr rq1 where r: "retransmitSegment e = Inr (set_retransQueue rq1 (send_packet hdr ?d ?e0))"
    and hdr: "SeqNum hdr = isn + of_nat a" and rq1: "rq_array rq1 = ?x # xs" "rq_rto rq1 = min (2 * rq_rto rq) RTO_MAX"
      "rq_timer rq1 = Armed (rq_rto rq1)"
    by (rule retransmitSegment_ok [OF Suc.prems(1,2) go]) blast
  let ?e1 = "set_retransQueue rq1 (send_packet hdr ?d ?e0)"
  have "get_sendBuf e = Inr sb" using Suc.prems(1) by (simp add: sview_def)
  then have sock: "te_normalSocket e \<noteq> None" by (rule normalSocket_get)
  have "rq_inv isn a (n + pending pc) rq1" using Suc.prems(1,2) rq1(1,3) by (simp add: sview_def rq_inv_def)
  then have v1: "sview isn W pc a n sb rq1 ?e1" using Suc.prems(1) sock by (auto simp: sview_def)
  have "0 \<le> rq_rto rq1" "rq_rto rq1 \<le> RTO_MAX" using rq1(2) Suc.prems(4) by simp_all
  moreover have "re_numRetransmits ?x + int k \<le> 4" using Suc.prems(3) by simp
  ultimately obtain e' rq' x' rs where ih: "timeouts k ?e1 = Inr e'" "sview isn W pc a n sb rq' e'"
    "rq_array rq' = x' # xs" "re_numRetransmits x' = re_numRetransmits ?x + int k"
    "rq_rto rq' = min (2 ^ k * rq_rto rq1) RTO_MAX" "te_sendRequests e' = te_sendRequests ?e1 @ rs" "length rs = k"
    "\<forall>r \<in> set rs. SeqNum (sr_tcpHeader r) = isn + of_nat a \<and> sr_data r = take (unat (re_len ?x)) (drop a W)"
    "rq_timer rq' = (if k = 0 then rq_timer rq1 else Armed (rq_rto rq'))"
    using Suc.IH [OF v1 rq1(1)] by blast
  have "min (2 ^ k * min (2 * rq_rto rq) 5000000000) 5000000000 = min (2 ^ Suc k * rq_rto rq) (5000000000 :: int)"
  proof (cases "2 * rq_rto rq \<le> 5000000000")
    case False
    have k: "5000000000 * 1 \<le> (2 :: int) ^ k * 5000000000" by (simp add: mult.commute)
    also have "(2 :: int) ^ k * 5000000000 \<le> 2 ^ k * (2 * rq_rto rq)" using False by (intro mult_left_mono) simp_all
    also have "2 ^ k * (2 * rq_rto rq) = 2 ^ Suc k * rq_rto rq" by simp
    finally have "5000000000 \<le> 2 ^ Suc k * rq_rto rq" by simp
    then show ?thesis using False k by (simp only: min_absorb2 mult_1_right)
  qed (simp add: ac_simps)
  then have rto: "rq_rto rq' = min (2 ^ Suc k * rq_rto rq) RTO_MAX" using ih(5) rq1(2) by simp
  obtain q where q: "te_sendRequests ?e1 = te_sendRequests e @ [q]" "SeqNum (sr_tcpHeader q) = isn + of_nat a" "sr_data q = ?d"
    using hdr by (simp add: send_packet_def)
  have "timeouts (Suc k) e = Inr e'" using r ih(1) by simp
  moreover have "te_sendRequests e' = te_sendRequests e @ (q # rs)" using ih(6) q(1) by simp
  moreover have "rq_timer rq' = Armed (rq_rto rq')"
    using ih(5,9) rq1(2,3) by (cases "k = 0") simp_all
  ultimately show ?case using ih(2-4,7,8) rto q(2,3)
    by (intro exI [of _ e'] exI [of _ rq'] exI [of _ x'] exI [of _ "q # rs"]) simp
qed


text \<open>
  Back-off. Let the retransmission timer expire k times in a row, k at most 4, on a connection
  whose oldest unacknowledged segment was sent once. Each time the segment is resent with the
  same sequence number and the same bytes, and the timeout doubles up to 5 seconds.
\<close>

theorem backoff_doubles:
  assumes "fresh_conn isn e0" and "send_reach e0 W pc e" and "no_wrap isn W"
    and "get_retransQueue e = Inr rq" and "rq_array rq = x # xs" and "re_numRetransmits x = 0" and "k \<le> 4"
    and "0 \<le> rq_rto rq" and "rq_rto rq \<le> RTO_MAX"
  shows "\<exists>e' rq' rs d. timeouts k e = Inr e' \<and> get_retransQueue e' = Inr rq'
    \<and> rq_rto rq' = min (2 ^ k * rq_rto rq) RTO_MAX \<and> rq_timer rq' = (if k = 0 then rq_timer rq else Armed (rq_rto rq'))
    \<and> te_sendRequests e' = te_sendRequests e @ rs \<and> length rs = k
    \<and> (\<forall>r \<in> set rs. SeqNum (sr_tcpHeader r) = re_seqNum x \<and> sr_data r = d) \<and> length d = unat (re_len x)"
proof -
  have "send_inv isn W pc e" using send_reach_inv [OF assms(2,1,3)] by simp
  then obtain a n sb where v: "sview isn W pc a n sb rq e" using assms(4) by (auto simp: send_inv_def sview_def)
  have "re_numRetransmits x + int k \<le> 4" using assms(6,7) by simp
  from timeouts_resend [OF v assms(5) this assms(8,9)] obtain e' rq' x' rs where
    t: "timeouts k e = Inr e'" "sview isn W pc a n sb rq' e'" "rq_rto rq' = min (2 ^ k * rq_rto rq) RTO_MAX"
    "te_sendRequests e' = te_sendRequests e @ rs" "length rs = k"
    "\<forall>r \<in> set rs. SeqNum (sr_tcpHeader r) = isn + of_nat a \<and> sr_data r = take (unat (re_len x)) (drop a W)"
    "rq_timer rq' = (if k = 0 then rq_timer rq else Armed (rq_rto rq'))" by blast
  have c: "rq_chain isn a (n + pending pc) (rq_array rq)" and pc: "pc_ok W n pc" "n \<le> length W"
    using v by (simp_all add: sview_def rq_inv_def sb_inv_def)
  then have x: "re_seqNum x = isn + of_nat a" "rq_chain isn (a + unat (re_len x)) (n + pending pc) xs"
    using assms(5) by simp_all
  have "n + pending pc \<le> length W" using pc by (cases pc) simp_all
  then have "a + unat (re_len x) \<le> length W" using rq_chain_le [OF x(2)] by simp
  then have len: "length (take (unat (re_len x)) (drop a W)) = unat (re_len x)" by simp
  have g: "get_retransQueue e' = Inr rq'" using t(2) by (simp add: sview_def)
  show ?thesis using t(1,3-7) x(1) len g
    by (intro exI [of _ e'] exI [of _ rq'] exI [of _ rs] exI [of _ "take (unat (re_len x)) (drop a W)"]) simp
qed

theorem backoff_doubles_witness:
  "\<exists>m e e' rq'. send_reach (sample_conn 1000 7) [1, 2, 3] (LoopCommit m) e \<and> timeouts 4 e = Inr e'
    \<and> get_retransQueue e' = Inr rq' \<and> rq_rto rq' = 5 * Second"
proof -
  have nw: "no_wrap 1000 [1, 2, 3]" by (simp add: no_wrap_def)
  obtain m e rq x where
    r: "send_reach (sample_conn 1000 7) [1, 2, 3] (LoopCommit m) e" "get_retransQueue e = Inr rq"
      "rq_array rq = [x]" "re_numRetransmits x = 0" "rq_rto rq = RTO_INIT"
    by (rule sample_transmitted [OF nw, of 7]) auto
  have "0 \<le> rq_rto rq" "rq_rto rq \<le> RTO_MAX" using r(5) by simp_all
  from backoff_doubles [OF fresh_sample_conn r(1) nw r(2,3,4) order_refl this] r(1,5) show ?thesis by force
qed

section \<open>Teardown\<close>

lemma close_chan_eq_Inr: "close_chan c = Inr d \<longleftrightarrow> c \<noteq> ChanClosed \<and> d = ChanClosed"
  by (cases c) auto

lemma teardown_ok:
  assumes c: "te_normalSocket e = Some c" and "vc_packetChan c \<noteq> ChanClosed"
    and sb: "get_sendBuf e = Inr sb" "sb_dataWrittenToBuf sb \<noteq> ChanClosed" "sb_spaceAvailable sb \<noteq> ChanClosed"
    and rb: "get_recvBuf e = Inr rb" "rb_dataToRead rb \<noteq> ChanClosed"
  shows "\<exists>e' c'. teardown e = Inr e' \<and> te_removed e' \<and> te_state e' = te_state e
    \<and> te_sendRequests e' = te_sendRequests e \<and> te_normalSocket e' = Some c' \<and> vc_packetChan c' = ChanClosed"
proof -
  have "vc_sendBuf c = Some sb" "vc_recvBuf c = Some rb"
    using c sb(1) rb(1) by (simp_all add: get_sendBuf_eq get_recvBuf_eq)
  then show ?thesis using assms by (simp add: teardown_def get_defs set_defs)
qed

text \<open>
  Giving up. When the timer expires for a segment that has already been resent 4 times, the
  connection is closed and removed from the socket table, and nothing is sent.
\<close>

theorem fifth_timeout_closes:
  assumes "te_normalSocket e = Some c" and "vc_packetChan c \<noteq> ChanClosed"
    and "get_sendBuf e = Inr sb" and "sb_dataWrittenToBuf sb \<noteq> ChanClosed" and "sb_spaceAvailable sb \<noteq> ChanClosed"
    and "get_recvBuf e = Inr rb" and "rb_dataToRead rb \<noteq> ChanClosed"
    and "get_retransQueue e = Inr rq" and "rq_array rq = x # xs" and "re_numRetransmits x = 4"
  shows "\<exists>e'. retransmitSegment e = Inr e' \<and> te_state e' = CLOSED \<and> te_removed e'
    \<and> te_sendRequests e' = te_sendRequests e"
proof -
  let ?x = "x\<lparr>re_retransmitted := True, re_numRetransmits := re_numRetransmits x + 1\<rparr>"
  let ?c = "c\<lparr>vc_retransQueue := Some (rq\<lparr>rq_timer := StoppedTimer, rq_array := ?x # xs\<rparr>)\<rparr>"
  let ?e = "(set_retransQueue (rq\<lparr>rq_timer := StoppedTimer, rq_array := ?x # xs\<rparr>) e)\<lparr>te_state := CLOSED\<rparr>"
  have c: "te_normalSocket ?e = Some ?c" "vc_packetChan ?c \<noteq> ChanClosed" using assms(1,2) by (simp_all add: set_defs)
  have "get_sendBuf ?e = Inr sb" "get_recvBuf ?e = Inr rb" using assms(3,6) by simp_all
  from teardown_ok [OF c this(1) assms(4,5) this(2) assms(7)] obtain e' where
    "teardown ?e = Inr e'" "te_removed e'" "te_state e' = CLOSED" "te_sendRequests e' = te_sendRequests e" by auto
  moreover have "retransmitSegment e = teardown ?e"
    using assms(8-10) by (simp add: retransmitSegment_def Let_def)
  ultimately show ?thesis by auto
qed


definition sample_worn :: table_entry where
  "sample_worn = set_retransQueue (sample_rq\<lparr>rq_array := [\<lparr>re_seqNum = 1000, re_len = 3, re_flags = 16, re_sent = 0,
     re_retransmitted = True, re_numRetransmits = 4\<rparr>], rq_timer := Armed RTO_MAX\<rparr>) (sample_conn 1000 7)"

lemma sample_worn_fields:
  "te_normalSocket (sample_conn 1000 7) \<noteq> None"
  "\<exists>c. te_normalSocket sample_worn = Some c \<and> vc_packetChan c = ChanEmpty"
  "get_sendBuf sample_worn = Inr (newSendBuf 1000)" "get_recvBuf sample_worn = Inr (newRecvBuf 7)"
  by (simp_all add: sample_worn_def sample_conn_get) (simp_all add: sample_conn_def set_defs zero_conn_def)

theorem fifth_timeout_closes_witness:
  "\<exists>e'. retransmitSegment sample_worn = Inr e' \<and> te_state e' = CLOSED \<and> te_removed e'
    \<and> te_sendRequests e' = te_sendRequests sample_worn"
proof -
  obtain c where c: "te_normalSocket sample_worn = Some c" "vc_packetChan c \<noteq> ChanClosed"
    using sample_worn_fields(2) by auto
  have q: "get_retransQueue sample_worn = Inr (sample_rq\<lparr>rq_array := [\<lparr>re_seqNum = 1000, re_len = 3, re_flags = 16, re_sent = 0,
     re_retransmitted = True, re_numRetransmits = 4\<rparr>], rq_timer := Armed RTO_MAX\<rparr>)"
    using sample_worn_fields(1) by (simp add: sample_worn_def)
  show ?thesis
    by (rule fifth_timeout_closes [OF c sample_worn_fields(3) _ _ sample_worn_fields(4) _ q, where xs = "[]"
          and x = "\<lparr>re_seqNum = 1000, re_len = 3, re_flags = 16, re_sent = 0, re_retransmitted = True,
            re_numRetransmits = 4\<rparr>"])
      (simp_all add: newSendBuf_def newRecvBuf_def)
qed

text \<open>
  A connection cannot be torn down twice: once teardown has run (after an RST, in LAST_ACK, or
  because the peer did not answer), running it again, as the timer of TIME_WAIT and a second RST
  do, panics with the close of a closed channel and ends the process.
\<close>

theorem second_teardown_panics:
  assumes "teardown e = Inr e'"
  shows "timeWait_expires e' = Inl CloseOfClosedChannel"
proof -
  from assms obtain c where c: "te_normalSocket e = Some c" "vc_packetChan c \<noteq> ChanClosed"
    by (cases "te_normalSocket e") (auto simp: teardown_def get_defs go_bind_eq_Inr Let_def close_chan_eq_Inr)
  moreover obtain c' where "te_normalSocket e' = Some c'" "vc_packetChan c' = ChanClosed"
    using assms c by (auto simp: teardown_def get_defs go_bind_eq_Inr Let_def set_defs close_chan_eq_Inr)
  ultimately show ?thesis by (simp add: timeWait_expires_def teardown_def get_conn_def)
qed

theorem second_teardown_panics_witness:
  "\<exists>e'. teardown (sample_conn 1000 7) = Inr e' \<and> timeWait_expires e' = Inl CloseOfClosedChannel"
proof -
  have "\<exists>e'. teardown (sample_conn 1000 7) = Inr e'"
    by (simp add: teardown_def get_defs set_defs sample_conn_def zero_conn_def newSendBuf_def newRecvBuf_def)
  then show ?thesis using second_teardown_panics by blast
qed

end
