(* ===== verification/TcpHandshake.thy ===== *)
theory TcpHandshake
  imports TcpTransfer
begin

text \<open>
  The three-way handshake of \<open>src/pkg/tcpStack/handshake.go\<close>, one function per Go function, on the
  socket table entry they act on: the segments of the active and the passive side, what each does
  with the answers, the retransmission timers and their limit. \<open>handleSyn\<close>, which creates the
  passive entry, is in two parts: \<open>newPassiveEntry\<close> here is the entry it makes and sends from, the
  checks and the table update are in \<open>TcpStack\<close>.
\<close>

section \<open>Segments\<close>

definition sendSyn :: "table_entry \<Rightarrow> table_entry" where
  "sendSyn e = send_packet
     \<lparr>SrcPort = te_localPort e, DstPort = te_destPort e, SeqNum = te_seqNum e, AckNum = 0,
      DataOffset = 20, Flags = TCPFlagSyn, WindowSize = MAX_WIN_SIZE, Checksum = 0,
      UrgentPointer = 0\<rparr> [] e"

definition sendSynAck :: "u32 \<Rightarrow> table_entry \<Rightarrow> table_entry" where
  "sendSynAck otherSideSeq e = send_packet
     \<lparr>SrcPort = te_localPort e, DstPort = te_destPort e, SeqNum = te_seqNum e,
      AckNum = otherSideSeq + 1, DataOffset = 20, Flags = TCPFlagSyn OR TCPFlagAck,
      WindowSize = MAX_WIN_SIZE, Checksum = 0, UrgentPointer = 0\<rparr> [] e"

definition sendAckHandshake :: "u32 \<Rightarrow> table_entry \<Rightarrow> table_entry" where
  "sendAckHandshake passiveSeqNum e = send_packet
     \<lparr>SrcPort = te_localPort e, DstPort = te_destPort e, SeqNum = te_seqNum e,
      AckNum = passiveSeqNum + 1, DataOffset = 20, Flags = TCPFlagAck,
      WindowSize = MAX_WIN_SIZE, Checksum = 0, UrgentPointer = 0\<rparr> [] e"

section \<open>Timers and signals\<close>

definition startSynRetransTimer :: "table_entry \<Rightarrow> table_entry" where
  "startSynRetransTimer e = e\<lparr>te_handshakeTimer := ArmedHs HANDSHAKE_TIMEOUT RetransSyn\<rparr>"

definition startSynAckRetransTimer :: "u32 \<Rightarrow> table_entry \<Rightarrow> table_entry" where
  "startSynAckRetransTimer otherSideSeq e =
     e\<lparr>te_handshakeTimer := ArmedHs HANDSHAKE_TIMEOUT (RetransSynAck otherSideSeq)\<rparr>"

definition stopHandshakeTimer :: "table_entry \<Rightarrow> table_entry" where
  "stopHandshakeTimer e = e\<lparr>te_handshakeTimer := NoHsTimer\<rparr>"

text \<open>
  The non-blocking send on a channel of capacity one: dropped when a state is already waiting or
  when the channel is nil.
\<close>

definition signalConnectResult :: "tcp_state \<Rightarrow> table_entry \<Rightarrow> table_entry" where
  "signalConnectResult state e =
     (if te_establishedChan e = Some None then e\<lparr>te_establishedChan := Some (Some state)\<rparr> else e)"

text \<open>
  The retransmission queue that both ends start with: the initial timeout, the rest zero.
\<close>

definition newRetransQueue :: retrans_queue where
  "newRetransQueue = \<lparr>rq_array = [], rq_rto = RTO_INIT, rq_srtt = 0, rq_timer = NilTimer\<rparr>"

section \<open>The active side\<close>

text \<open>
  The part of \<open>VConnect\<close> that makes the entry, with the fresh sequence number \<open>isn\<close>, and sends the
  SYN from it.
\<close>

definition newActiveEntry :: "int \<Rightarrow> u32 \<Rightarrow> u16 \<Rightarrow> netip_addr \<Rightarrow> u16 \<Rightarrow> netip_addr \<Rightarrow> table_entry" where
  "newActiveEntry sid isn srcPort localIP port addr =
     startSynRetransTimer (sendSyn
       (zero_entry\<lparr>te_localPort := srcPort, te_localIP := localIP, te_destPort := port, te_destIP := addr,
          te_state := SYN_SENT, te_socketID := sid, te_normalSocket := Some (zero_conn\<lparr>vc_socketID := sid\<rparr>),
          te_seqNum := isn, te_establishedChan := Some None, te_receivedSyn := False,
          te_numSynRetransmissions := 0\<rparr>))"

text \<open>What the handlers return: \<open>nil\<close> or an error.\<close>

datatype hs_result = HsOk | HsError

definition handleSynAck :: "tcp_fields \<Rightarrow> table_entry \<Rightarrow> go_panic + (hs_result \<times> table_entry)" where
  "handleSynAck hdr e =
     (let synAck = TCPFlagSyn OR TCPFlagAck in
      if Flags hdr AND synAck \<noteq> synAck then Inr (HsError, signalConnectResult ERROR e)
      else
        let e1 = stopHandshakeTimer (e\<lparr>te_receivedSyn := True\<rparr>) in
        if AckNum hdr \<noteq> te_seqNum e1 + 1 then Inr (HsError, signalConnectResult ERROR e1)
        else
          let e2 = e1\<lparr>te_seqNum := AckNum hdr, te_lastKnownAck := AckNum hdr, te_state := ESTABLISHED\<rparr> in
          go_bind (initBufs (SeqNum hdr + 1) e2) (\<lambda>e3.
          go_bind (get_sendBuf e3) (\<lambda>sb.
            let e4 = set_retransQueue newRetransQueue
                       (set_sendBuf (sb\<lparr>sb_otherSideWindow := WindowSize hdr\<rparr>) e3);
                e5 = sendAckHandshake (SeqNum hdr) e4
            in Inr (HsOk, signalConnectResult (te_state e5) e5))))"

definition sendSynRetrans :: "table_entry \<Rightarrow> table_entry" where
  "sendSynRetrans e =
     (if te_state e \<noteq> SYN_SENT \<or> te_receivedSyn e then e
      else if MAX_RETRANSMISSIONS \<le> te_numSynRetransmissions e then
        signalConnectResult ERROR (e\<lparr>te_state := CLOSED, te_removed := True\<rparr>)
      else startSynRetransTimer
        (sendSyn (e\<lparr>te_numSynRetransmissions := te_numSynRetransmissions e + 1\<rparr>)))"

section \<open>The passive side\<close>

text \<open>
  The part of \<open>handleSyn\<close> after its checks: the entry it makes for the SYN \<open>hdr\<close> with the fresh
  sequence number \<open>isn\<close>, and the SYN-ACK it sends from it.
\<close>

definition newPassiveEntry :: "int \<Rightarrow> int \<Rightarrow> u32 \<Rightarrow> tcp_fields \<Rightarrow> netip_addr \<Rightarrow> netip_addr \<Rightarrow> table_entry" where
  "newPassiveEntry sid listener isn hdr localIP destIP =
     startSynAckRetransTimer (SeqNum hdr) (sendSynAck (SeqNum hdr)
       (zero_entry\<lparr>te_localPort := DstPort hdr, te_localIP := localIP, te_destPort := SrcPort hdr,
          te_destIP := destIP, te_state := SYN_RECEIVED, te_normalSocket := Some zero_conn,
          te_listenSocket := Some listener, te_socketID := sid, te_seqNum := isn,
          te_receivedSynAck := False, te_numSynAckRetransmissions := 0\<rparr>))"

text \<open>
  \<open>handleAckHandshake\<close> up to its send on the listener's channel: \<open>Some l\<close> says that the connection
  is to be handed to the listener \<open>l\<close>.
\<close>

definition handleAckHandshake :: "tcp_fields \<Rightarrow> table_entry \<Rightarrow> go_panic + (hs_result \<times> int option \<times> table_entry)" where
  "handleAckHandshake hdr e =
     (if Flags hdr AND TCPFlagAck = 0 then Inr (HsOk, None, e)
      else if AckNum hdr \<noteq> te_seqNum e + 1 then Inr (HsError, None, e)
      else
        let e1 = stopHandshakeTimer (e\<lparr>te_seqNum := te_seqNum e + 1, te_receivedSynAck := True\<rparr>);
            e2 = e1\<lparr>te_state := ESTABLISHED, te_lastKnownAck := AckNum hdr\<rparr> in
        go_bind (initBufs (SeqNum hdr) e2) (\<lambda>e3.
          let e4 = set_conn (\<lambda>c. c\<lparr>vc_socketID := te_socketID e3\<rparr>) (set_retransQueue newRetransQueue e3) in
          go_bind (deref (te_listenSocket e4)) (\<lambda>l. Inr (HsOk, Some l, e4))))"

definition sendSynAckRetrans :: "u32 \<Rightarrow> table_entry \<Rightarrow> table_entry" where
  "sendSynAckRetrans otherSideSeq e =
     (if te_state e \<noteq> SYN_RECEIVED \<or> te_receivedSynAck e then e
      else if MAX_RETRANSMISSIONS \<le> te_numSynAckRetransmissions e then
        e\<lparr>te_state := CLOSED, te_removed := True\<rparr>
      else startSynAckRetransTimer otherSideSeq
        (sendSynAck otherSideSeq
          (e\<lparr>te_numSynAckRetransmissions := te_numSynAckRetransmissions e + 1\<rparr>)))"

text \<open>The handshake timer fires: its function runs. Nothing happens when it is not armed.\<close>

definition handshake_timer_fires :: "table_entry \<Rightarrow> table_entry" where
  "handshake_timer_fires e =
     (case te_handshakeTimer e of
        ArmedHs _ RetransSyn \<Rightarrow> sendSynRetrans (e\<lparr>te_handshakeTimer := FiredHsTimer\<rparr>)
      | ArmedHs _ (RetransSynAck s) \<Rightarrow> sendSynAckRetrans s (e\<lparr>te_handshakeTimer := FiredHsTimer\<rparr>)
      | _ \<Rightarrow> e)"

end
