(* ===== verification/TcpStack.thy ===== *)
theory TcpStack
  imports TcpHandshake IpPackets
begin

text \<open>
  The whole TCP stack of a host: the socket table with its matching of incoming segments, the
  dispatch of \<open>HandleTCP\<close> on the state of the matched entry, listening sockets, \<open>VListen\<close>,
  \<open>VAccept\<close>, \<open>VConnect\<close>, closing a listener, and the goroutine that hands segments to the IP layer.
\<close>

section \<open>State\<close>

text \<open>
  A listening socket, known by the socket ID of its table entry. \<open>vl_connChan\<close> holds the IDs of the
  connections in the channel, oldest first; it has room for five, and the connections beyond the
  fifth are those of handlers blocked in their send.
\<close>

record vtcp_listener =
  vl_port :: u16
  vl_connChan :: "int list"
  vl_chanClosed :: bool
  vl_acceptingConns :: bool

text \<open>
  \<open>ts_entries\<close> has every table entry that was ever made, by socket ID, since sockets keep pointers to
  entries that have left the table; those are marked \<open>te_removed\<close>. \<open>ts_sendRequests\<close> is the channel of
  that name.
\<close>

record tcp_stack =
  ts_entries :: "int \<rightharpoonup> table_entry"
  ts_listeners :: "int \<rightharpoonup> vtcp_listener"
  ts_nextID :: int
  ts_sendRequests :: "send_request list"
  ts_ipStack :: ip_stack

definition socketMap :: "tcp_stack \<Rightarrow> int \<rightharpoonup> table_entry" where
  "socketMap ts sid = (case ts_entries ts sid of None \<Rightarrow> None | Some e \<Rightarrow> if te_removed e then None else Some e)"

text \<open>\<open>Remove\<close> deletes from the table what may not even be there.\<close>

definition Remove :: "int \<Rightarrow> tcp_stack \<Rightarrow> tcp_stack" where
  "Remove socketID ts = ts\<lparr>ts_entries := (ts_entries ts)(socketID :=
     map_option (\<lambda>e. e\<lparr>te_removed := True\<rparr>) (ts_entries ts socketID))\<rparr>"

text \<open>Storing an entry puts the requests that its handler has made into the channel.\<close>

definition put_entry :: "int \<Rightarrow> table_entry \<Rightarrow> tcp_stack \<Rightarrow> tcp_stack" where
  "put_entry sid e ts = ts\<lparr>ts_entries := (ts_entries ts)(sid \<mapsto> e\<lparr>te_sendRequests := []\<rparr>),
     ts_sendRequests := ts_sendRequests ts @ te_sendRequests e\<rparr>"

definition InitTCPStack :: "ip_stack \<Rightarrow> tcp_stack" where
  "InitTCPStack ipStack = \<lparr>ts_entries = Map.empty, ts_listeners = Map.empty, ts_nextID = 0,
     ts_sendRequests = [], ts_ipStack = ipStack\<rparr>"

section \<open>Sending\<close>

text \<open>\<open>sendTCP\<close> ignores the error of \<open>SendIP\<close>.\<close>

definition sendTCP :: "iptcp_headers \<Rightarrow> netstack \<Rightarrow> (nat \<Rightarrow> netip_prefix list) \<Rightarrow> nat \<Rightarrow> send_request \<Rightarrow> tcp_stack \<Rightarrow> go_panic + tcp_stack" where
  "sendTCP ih ns ord fuel sendReq ts =
     (let hdr = sr_tcpHeader sendReq; srcIP = sr_sourceIP sendReq; destIP = sr_destIP sendReq;
          data = sr_data sendReq;
          checksum = ComputeTCPChecksum ns hdr srcIP destIP data;
          hdr = hdr\<lparr>Checksum := checksum\<rparr>;
          tcpHeaderBytes = ns_Encode ns hdr;
          ipPacketPayload = tcpHeaderBytes @ data
      in go_bind (SendIP ih ns ord fuel destIP ipPacketPayload ProtocolTypeTCP (ts_ipStack ts))
           (\<lambda>(err, ip). Inr (ts\<lparr>ts_ipStack := ip\<rparr>)))"

text \<open>One iteration of \<open>sendPacketsOut\<close>; with an empty channel it waits.\<close>

definition sendPacketsOut_step :: "iptcp_headers \<Rightarrow> netstack \<Rightarrow> (nat \<Rightarrow> netip_prefix list) \<Rightarrow> nat \<Rightarrow> tcp_stack \<Rightarrow> go_panic + tcp_stack" where
  "sendPacketsOut_step ih ns ord fuel ts = (case ts_sendRequests ts of
     [] \<Rightarrow> Inr ts
   | req # reqs \<Rightarrow> sendTCP ih ns ord fuel req (ts\<lparr>ts_sendRequests := reqs\<rparr>))"

section \<open>Matching\<close>

fun tableMatch_loop :: "u16 \<Rightarrow> netip_addr \<Rightarrow> u16 \<Rightarrow> netip_addr \<Rightarrow> (int \<times> table_entry) list \<Rightarrow> (int \<times> table_entry) option \<Rightarrow> (int \<times> table_entry) option" where
  "tableMatch_loop srcPort srcIP destPort destIP [] listenerMatch = listenerMatch"
| "tableMatch_loop srcPort srcIP destPort destIP ((sid, entry) # rest) listenerMatch =
     (if te_state entry \<noteq> LISTEN \<and> te_localPort entry = destPort \<and> te_destPort entry = srcPort
         \<and> te_localIP entry = destIP \<and> te_destIP entry = srcIP
      then Some (sid, entry)
      else tableMatch_loop srcPort srcIP destPort destIP rest
        (if te_state entry = LISTEN \<and> te_localPort entry = destPort then Some (sid, entry) else listenerMatch))"

text \<open>\<open>ord\<close> is the order in which the range over the socket map visits it.\<close>

definition tableMatch :: "int list \<Rightarrow> tcp_stack \<Rightarrow> u16 \<Rightarrow> netip_addr \<Rightarrow> u16 \<Rightarrow> netip_addr \<Rightarrow> (int \<times> table_entry) option" where
  "tableMatch ord ts srcPort srcIP destPort destIP =
     tableMatch_loop srcPort srcIP destPort destIP (range_map (socketMap ts) ord) None"

definition portIsUnique :: "int list \<Rightarrow> tcp_stack \<Rightarrow> u16 \<Rightarrow> bool" where
  "portIsUnique ord ts newPort \<longleftrightarrow> (\<forall>(sid, entry) \<in> set (range_map (socketMap ts) ord). te_localPort entry \<noteq> newPort)"

section \<open>Incoming segments\<close>

text \<open>The switch of \<open>HandleTCP\<close> in the states with both buffers open for segments.\<close>

definition handle_open :: "bool \<Rightarrow> int \<Rightarrow> tcp_fields \<Rightarrow> bytes \<Rightarrow> table_entry \<Rightarrow> go_panic + table_entry" where
  "handle_open coin now tcpHdr tcpPayload e =
     (if has_flag tcpHdr TCPFlagFin then handleFin tcpHdr e
      else if Flags tcpHdr AND (TCPFlagSyn OR TCPFlagAck) = TCPFlagSyn OR TCPFlagAck \<and> tcpPayload = []
        then Inr (sendAckHandshake (SeqNum tcpHdr) e)
      else if has_flag tcpHdr TCPFlagAck \<and> tcpPayload = [] then handlePureAck now tcpHdr e
      else if length tcpPayload < 1 then Inr e
      else handlePayload coin tcpHdr tcpPayload e)"

text \<open>
  The switch on the state of an entry that does not listen. \<open>Some l\<close> says that the connection is
  ready for the listener \<open>l\<close>.
\<close>

definition handle_entry :: "bool \<Rightarrow> int \<Rightarrow> tcp_fields \<Rightarrow> bytes \<Rightarrow> table_entry \<Rightarrow> go_panic + (int option \<times> table_entry)" where
  "handle_entry coin now tcpHdr tcpPayload e =
     (case te_state e of
        SYN_RECEIVED \<Rightarrow> go_bind (handleAckHandshake tcpHdr e) (\<lambda>(err, l, e'). Inr (l, e'))
      | SYN_SENT \<Rightarrow> go_bind (handleSynAck tcpHdr e) (\<lambda>(err, e'). Inr (None, e'))
      | ESTABLISHED \<Rightarrow> go_bind (handle_open coin now tcpHdr tcpPayload e) (\<lambda>e'. Inr (None, e'))
      | FIN_WAIT_2 \<Rightarrow> go_bind (handle_open coin now tcpHdr tcpPayload e) (\<lambda>e'. Inr (None, e'))
      | FIN_WAIT_1 \<Rightarrow> go_bind (handle_open coin now tcpHdr tcpPayload e) (\<lambda>e'. Inr (None, e'))
      | CLOSE_WAIT \<Rightarrow> go_bind (handle_open coin now tcpHdr tcpPayload e) (\<lambda>e'. Inr (None, e'))
      | TIME_WAIT \<Rightarrow> Inr (None, e)
      | LAST_ACK \<Rightarrow>
          if \<not> (has_flag tcpHdr TCPFlagAck \<and> tcpPayload = []) then Inr (None, e)
          else go_bind (handlePureAck now tcpHdr e) (\<lambda>e'. Inr (None, e'))
      | _ \<Rightarrow> Inr (None, e))"

text \<open>\<open>listener.connChan <- conn\<close>: a send on a closed channel panics.\<close>

definition send_conn :: "int \<Rightarrow> int \<Rightarrow> tcp_stack \<Rightarrow> go_panic + tcp_stack" where
  "send_conn l sid ts =
     go_bind (deref (ts_listeners ts l)) (\<lambda>listener.
     if vl_chanClosed listener then Inl SendOnClosedChannel
     else Inr (ts\<lparr>ts_listeners := (ts_listeners ts)(l \<mapsto> listener\<lparr>vl_connChan := vl_connChan listener @ [sid]\<rparr>)\<rparr>))"

text \<open>The handler that sent the last connection stays blocked while more than five are in the list.\<close>

definition listener_blocked :: "int \<Rightarrow> tcp_stack \<Rightarrow> bool" where
  "listener_blocked l ts \<longleftrightarrow> (case ts_listeners ts l of None \<Rightarrow> False | Some x \<Rightarrow> 5 < length (vl_connChan x))"

definition handleSyn :: "u8 \<times> u8 \<times> u8 \<times> u8 \<Rightarrow> int option \<Rightarrow> tcp_fields \<Rightarrow> netip_addr \<Rightarrow> netip_addr \<Rightarrow> tcp_stack \<Rightarrow> go_panic + tcp_stack" where
  "handleSyn rand listener tcpHeader localIP destIP ts =
     go_bind (deref listener) (\<lambda>l.
     go_bind (deref (ts_listeners ts l)) (\<lambda>x.
     if \<not> vl_acceptingConns x then Inr ts
     else if Flags tcpHeader AND TCPFlagSyn = 0 then Inr ts
     else
       let sid = ts_nextID ts;
           entry = newPassiveEntry sid l (GenerateNewSeq rand) tcpHeader localIP destIP
       in Inr (put_entry sid entry (ts\<lparr>ts_nextID := sid + 1\<rparr>))))"

definition HandleTCP :: "netstack \<Rightarrow> int list \<Rightarrow> bool \<Rightarrow> int \<Rightarrow> u8 \<times> u8 \<times> u8 \<times> u8 \<Rightarrow> ipv4_header \<Rightarrow> bytes \<Rightarrow> tcp_stack \<Rightarrow> go_panic + tcp_stack" where
  "HandleTCP ns ord coin now rand hdr payload ts =
     go_bind (ParseAndValidateTCP ns hdr payload) (\<lambda>(tcpHdr, tcpPayload, ok).
     if \<not> ok then Inr ts
     else case tableMatch ord ts (SrcPort tcpHdr) (ip_Src hdr) (DstPort tcpHdr) (ip_Dst hdr) of
       None \<Rightarrow> Inr ts
     | Some (sid, e) \<Rightarrow>
         if has_flag tcpHdr TCPFlagRst then
           go_bind (teardown (e\<lparr>te_state := CLOSED\<rparr>)) (\<lambda>e'. Inr (put_entry sid e' ts))
         else if te_state e = LISTEN then
           handleSyn rand (te_listenSocket e) tcpHdr (ip_Dst hdr) (ip_Src hdr) ts
         else
           go_bind (handle_entry coin now tcpHdr tcpPayload e) (\<lambda>(l, e').
             let ts' = put_entry sid e' ts in
             case l of None \<Rightarrow> Inr ts' | Some l \<Rightarrow> send_conn l sid ts'))"

section \<open>The socket calls\<close>

definition VListen :: "u16 \<Rightarrow> tcp_stack \<Rightarrow> int \<times> tcp_stack" where
  "VListen port ts =
     (let sid = ts_nextID ts;
          listener = \<lparr>vl_port = port, vl_connChan = [], vl_chanClosed = False, vl_acceptingConns = False\<rparr>;
          entry = zero_entry\<lparr>te_localPort := port, te_state := LISTEN, te_socketID := sid, te_listenSocket := Some sid\<rparr>
      in (sid, ts\<lparr>ts_nextID := sid + 1, ts_entries := (ts_entries ts)(sid \<mapsto> entry),
                ts_listeners := (ts_listeners ts)(sid \<mapsto> listener)\<rparr>))"

text \<open>
  \<open>VAccept\<close> marks the listener and receives. A receive from a closed and empty channel gives nil,
  whose socket ID is then printed.
\<close>

datatype accept_result = AcceptParked | Accepted int

definition accept_receive :: "int \<Rightarrow> tcp_stack \<Rightarrow> go_panic + (accept_result \<times> tcp_stack)" where
  "accept_receive l ts =
     go_bind (deref (ts_listeners ts l)) (\<lambda>x. case vl_connChan x of
       [] \<Rightarrow> if vl_chanClosed x then Inl NilDereference else Inr (AcceptParked, ts)
     | sid # sids \<Rightarrow> Inr (Accepted sid, ts\<lparr>ts_listeners := (ts_listeners ts)(l \<mapsto> x\<lparr>vl_connChan := sids\<rparr>)\<rparr>))"

definition VAccept :: "int \<Rightarrow> tcp_stack \<Rightarrow> go_panic + (accept_result \<times> tcp_stack)" where
  "VAccept l ts =
     go_bind (deref (ts_listeners ts l)) (\<lambda>x.
       accept_receive l (ts\<lparr>ts_listeners := (ts_listeners ts)(l \<mapsto> x\<lparr>vl_acceptingConns := True\<rparr>)\<rparr>))"

text \<open>
  \<open>VConnect\<close> up to the point where it waits. \<open>intns\<close> are the random numbers for the local port; the
  loop needs one more when none of them gives a free port (\<open>ConnectNeedsPort\<close>).
\<close>

datatype connect_result = ConnectNeedsPort | ConnectNoRoute | ConnectNoInterface | ConnectDiverges | ConnectWaits int

definition VConnect :: "(nat \<Rightarrow> netip_prefix list) \<Rightarrow> nat \<Rightarrow> int list \<Rightarrow> nat list \<Rightarrow> u8 \<times> u8 \<times> u8 \<times> u8 \<Rightarrow> netip_addr \<Rightarrow> u16 \<Rightarrow> tcp_stack \<Rightarrow> connect_result \<times> tcp_stack" where
  "VConnect fwdOrd fuel ord intns rand addr port ts =
     (case find (portIsUnique ord ts) (map RandomEphemeralPort intns) of
        None \<Rightarrow> (ConnectNeedsPort, ts)
      | Some srcPort \<Rightarrow>
          (case LongestPrefixMatch fwdOrd fuel (is_ForwardingTable (ts_ipStack ts)) addr of
             None \<Rightarrow> (ConnectDiverges, ts)
           | Some LpmNotFound \<Rightarrow> (ConnectNoRoute, ts)
           | Some (LpmFound ipEntry _) \<Rightarrow>
               (case is_Interfaces (ts_ipStack ts) (fe_InterfaceName ipEntry) of
                  None \<Rightarrow> (ConnectNoInterface, ts)
                | Some localInterface \<Rightarrow>
                    let sid = ts_nextID ts;
                        entry = newActiveEntry sid (GenerateNewSeq rand) srcPort (if_IP localInterface) port addr
                    in (ConnectWaits sid, put_entry sid entry (ts\<lparr>ts_nextID := sid + 1\<rparr>)))))"

text \<open>
  The waiting loop: parked on an empty channel, done on \<open>ESTABLISHED\<close> or \<open>ERROR\<close>, and around again
  on any other state, which empties the channel.
\<close>

datatype connect_wait = WaitParked | WaitOk | WaitFailed

definition VConnect_wait :: "int \<Rightarrow> tcp_stack \<Rightarrow> go_panic + (connect_wait \<times> tcp_stack)" where
  "VConnect_wait sid ts =
     go_bind (deref (ts_entries ts sid)) (\<lambda>e.
       let ts' = ts\<lparr>ts_entries := (ts_entries ts)(sid \<mapsto> e\<lparr>te_establishedChan := Some None\<rparr>)\<rparr> in
       case te_establishedChan e of
         Some (Some ESTABLISHED) \<Rightarrow> Inr (WaitOk, ts')
       | Some (Some ERROR) \<Rightarrow> Inr (WaitFailed, ts')
       | Some (Some _) \<Rightarrow> Inr (WaitParked, ts')
       | _ \<Rightarrow> Inr (WaitParked, ts))"

text \<open>Closing a listener: \<open>False\<close> is an error.\<close>

definition listenerTeardown :: "int \<Rightarrow> tcp_stack \<Rightarrow> go_panic + tcp_stack" where
  "listenerTeardown l ts =
     go_bind (deref (ts_listeners ts l)) (\<lambda>x.
     if vl_chanClosed x then Inl CloseOfClosedChannel
     else Inr (Remove l (ts\<lparr>ts_listeners := (ts_listeners ts)(l \<mapsto> x\<lparr>vl_chanClosed := True\<rparr>)\<rparr>)))"

definition listener_VClose :: "int \<Rightarrow> tcp_stack \<Rightarrow> go_panic + (bool \<times> tcp_stack)" where
  "listener_VClose l ts =
     go_bind (deref (ts_entries ts l)) (\<lambda>entry.
     if te_state entry \<noteq> LISTEN then Inr (False, ts)
     else
       go_bind (deref (ts_listeners ts l)) (\<lambda>x.
       if \<not> vl_acceptingConns x then Inr (False, ts)
       else
         let ts1 = ts\<lparr>ts_listeners := (ts_listeners ts)(l \<mapsto> x\<lparr>vl_acceptingConns := False\<rparr>),
                     ts_entries := (ts_entries ts)(l \<mapsto> entry\<lparr>te_state := CLOSED\<rparr>)\<rparr>
         in go_bind (listenerTeardown l ts1) (\<lambda>ts2. Inr (True, ts2))))"

end
