(* ===== verification/TcpStates.thy ===== *)
theory TcpStates
  imports TcpStack
begin

text \<open>
  What every operation on a connection respects: the identity of the socket table entry, the
  addressing of the segments it sends, and the TCP state diagram. The operations are collected in one
  step function, \<open>entry_step\<close>.
\<close>

section \<open>Identity and addressing\<close>

text \<open>A request as a connection may send it: addressed with its four-tuple, a plain header.\<close>

definition addressed :: "table_entry \<Rightarrow> send_request \<Rightarrow> bool" where
  "addressed e r \<longleftrightarrow> SrcPort (sr_tcpHeader r) = te_localPort e \<and> DstPort (sr_tcpHeader r) = te_destPort e
     \<and> sr_sourceIP r = te_localIP e \<and> sr_destIP r = te_destIP e \<and> DataOffset (sr_tcpHeader r) = 20
     \<and> Checksum (sr_tcpHeader r) = 0 \<and> UrgentPointer (sr_tcpHeader r) = 0"

definition keeps :: "table_entry \<Rightarrow> table_entry \<Rightarrow> bool" where
  "keeps e e' \<longleftrightarrow> te_localPort e' = te_localPort e \<and> te_localIP e' = te_localIP e
     \<and> te_destPort e' = te_destPort e \<and> te_destIP e' = te_destIP e \<and> te_socketID e' = te_socketID e
     \<and> te_listenSocket e' = te_listenSocket e \<and> (te_removed e \<longrightarrow> te_removed e')
     \<and> (\<exists>rs. te_sendRequests e' = te_sendRequests e @ rs \<and> (\<forall>r \<in> set rs. addressed e r))"

lemma keeps_refl: "keeps e e"
  by (simp add: keeps_def)

lemma addressed_cong: "keeps e e' \<Longrightarrow> addressed e' r \<longleftrightarrow> addressed e r"
  by (simp add: keeps_def addressed_def)

lemma keeps_trans: "keeps a b \<Longrightarrow> keeps b c \<Longrightarrow> keeps a c"
  using addressed_cong [of a b] unfolding keeps_def by fastforce

named_theorems keeps_intros \<open>the updates and operations that keep an entry's identity\<close>

lemma keeps_upd [keeps_intros]:
  "keeps e e' \<Longrightarrow> keeps e (set_recvBuf rb e')"
  "keeps e e' \<Longrightarrow> keeps e (set_sendBuf sb e')"
  "keeps e e' \<Longrightarrow> keeps e (set_retransQueue rq e')"
  "keeps e e' \<Longrightarrow> keeps e (set_conn f e')"
  "keeps e e' \<Longrightarrow> keeps e (e'\<lparr>te_state := s\<rparr>)"
  "keeps e e' \<Longrightarrow> keeps e (e'\<lparr>te_seqNum := n\<rparr>)"
  "keeps e e' \<Longrightarrow> keeps e (e'\<lparr>te_lastKnownAck := n\<rparr>)"
  "keeps e e' \<Longrightarrow> keeps e (e'\<lparr>te_removed := True\<rparr>)"
  "keeps e e' \<Longrightarrow> keeps e (e'\<lparr>te_receivedSyn := b\<rparr>)"
  "keeps e e' \<Longrightarrow> keeps e (e'\<lparr>te_receivedSynAck := b\<rparr>)"
  "keeps e e' \<Longrightarrow> keeps e (e'\<lparr>te_handshakeTimer := t\<rparr>)"
  "keeps e e' \<Longrightarrow> keeps e (e'\<lparr>te_timeWaitTimer := t'\<rparr>)"
  "keeps e e' \<Longrightarrow> keeps e (e'\<lparr>te_establishedChan := ch\<rparr>)"
  "keeps e e' \<Longrightarrow> keeps e (e'\<lparr>te_numSynRetransmissions := i\<rparr>)"
  "keeps e e' \<Longrightarrow> keeps e (e'\<lparr>te_numSynAckRetransmissions := i\<rparr>)"
  by (simp_all add: keeps_def set_defs)

lemma keeps_send_packet [keeps_intros]:
  "keeps e e' \<Longrightarrow> SrcPort hdr = te_localPort e' \<Longrightarrow> DstPort hdr = te_destPort e' \<Longrightarrow> DataOffset hdr = 20 \<Longrightarrow>
   Checksum hdr = 0 \<Longrightarrow> UrgentPointer hdr = 0 \<Longrightarrow> keeps e (send_packet hdr d e')"
  by (auto simp: keeps_def send_packet_def addressed_def)

section \<open>Operations that keep the identity\<close>

text \<open>\<open>holds P m\<close>: if \<open>m\<close> does not panic, its result satisfies \<open>P\<close>.\<close>

definition holds :: "('a \<Rightarrow> bool) \<Rightarrow> go_panic + 'a \<Rightarrow> bool" where
  "holds P m \<longleftrightarrow> (\<forall>x. m = Inr x \<longrightarrow> P x)"

lemma holdsD: "holds P m \<Longrightarrow> m = Inr x \<Longrightarrow> P x"
  by (simp add: holds_def)

lemma holds_bind: "holds Q m \<Longrightarrow> (\<And>x. Q x \<Longrightarrow> holds P (f x)) \<Longrightarrow> holds P (go_bind m f)"
  by (auto simp: holds_def go_bind_eq_Inr)

lemma holds_any: "(\<And>x. holds P (f x)) \<Longrightarrow> holds P (go_bind m f)"
  by (auto simp: holds_def go_bind_eq_Inr)

lemma holds_Inl: "holds P (Inl x)"
  by (simp add: holds_def)

lemma holds_Inr: "P x \<Longrightarrow> holds P (Inr x)"
  by (simp add: holds_def)

lemma holds_if: "(b \<Longrightarrow> holds P m) \<Longrightarrow> (\<not> b \<Longrightarrow> holds P n) \<Longrightarrow> holds P (if b then m else n)"
  by simp

lemma holds_prod: "(\<And>a b. holds P (f a b)) \<Longrightarrow> holds P (case x of (a, b) \<Rightarrow> f a b)"
  by (cases x) simp

lemma holds_list: "holds P m \<Longrightarrow> (\<And>y ys. holds P (f y ys)) \<Longrightarrow> holds P (case xs of [] \<Rightarrow> m | y # ys \<Rightarrow> f y ys)"
  by (cases xs) simp_all

abbreviation "ekeeps e \<equiv> holds (keeps e)"
abbreviation "pkeeps e \<equiv> holds (\<lambda>x. keeps e (snd x))"

text \<open>
  Binding an operation on the entry carries the invariant along; binding anything else does not
  touch the entry.
\<close>

lemma holds_entry: "ekeeps e m \<Longrightarrow> (\<And>e'. keeps e e' \<Longrightarrow> holds P (f e')) \<Longrightarrow> holds P (go_bind m f)"
  by (rule holds_bind)

lemma holds_reads:
  "(\<And>x. holds P (f1 x)) \<Longrightarrow> holds P (go_bind (get_recvBuf y) f1)"
  "(\<And>x. holds P (f2 x)) \<Longrightarrow> holds P (go_bind (get_sendBuf y) f2)"
  "(\<And>x. holds P (f3 x)) \<Longrightarrow> holds P (go_bind (get_retransQueue y) f3)"
  "(\<And>x. holds P (f4 x)) \<Longrightarrow> holds P (go_bind (get_conn y) f4)"
  "(\<And>x. holds P (f5 x)) \<Longrightarrow> holds P (go_bind (deref z) f5)"
  "(\<And>x. holds P (f6 x)) \<Longrightarrow> holds P (go_bind (SliceFrom cb n k) f6)"
  "(\<And>x. holds P (f7 x)) \<Longrightarrow> holds P (go_bind (signal ch) f7)"
  "(\<And>x. holds P (f8 x)) \<Longrightarrow> holds P (go_bind (close_chan ch) f8)"
  "(\<And>x. holds P (f9 x)) \<Longrightarrow> holds P (go_bind (WriteIntoBuf cb n d) f9)"
  "(\<And>x. holds P (f10 x)) \<Longrightarrow> holds P (go_bind (ReadFromBuf cb n d k) f10)"
  "(\<And>x. holds P (f11 x)) \<Longrightarrow> holds P (go_bind (ack_retransQueue now n rq) f11)"
  "(\<And>x. holds P (f12 x)) \<Longrightarrow> holds P (go_bind (drainEarlyArrivals rb) f12)"
  by (rule holds_any, blast)+

lemmas holds_rules = holds_reads holds_if holds_prod holds_list holds_Inl holds_Inr

lemma keeps_sendPureAck: "keeps e e0 \<Longrightarrow> ekeeps e (sendPureAck a e0)"
  unfolding sendPureAck_def by (intro holds_rules keeps_intros) simp_all

lemma keeps_sendSegment: "keeps e e0 \<Longrightarrow> ekeeps e (sendSegment d n fl e0)"
  unfolding sendSegment_def by (intro holds_rules keeps_intros) simp_all

lemma keeps_signal: "keeps e e0 \<Longrightarrow> ekeeps e (signal_dataToRead e0)"
  unfolding signal_dataToRead_def by (intro holds_rules keeps_intros)

lemma keeps_fin_switch: "keeps e e0 \<Longrightarrow> ekeeps e (fin_switch e0)"
  unfolding fin_switch_def timeWait_def
  by (auto split: tcp_state.split intro!: holds_rules keeps_intros keeps_signal)

lemma keeps_handleEarlyFin: "keeps e e0 \<Longrightarrow> ekeeps e (handleEarlyFin e0)"
  unfolding handleEarlyFin_def Let_def
  by (intro holds_rules) (auto intro!: holds_entry [OF keeps_sendPureAck] keeps_fin_switch keeps_intros)

lemma keeps_handleFin: "keeps e e0 \<Longrightarrow> ekeeps e (handleFin hdr e0)"
  unfolding handleFin_def Let_def
  by (intro holds_rules) (auto intro!: holds_entry [OF keeps_sendPureAck] keeps_fin_switch keeps_sendPureAck keeps_intros)

lemma keeps_payload_tail: "keeps e e0 \<Longrightarrow> ekeeps e (payload_tail hdr n rb e0)"
  unfolding payload_tail_def
  by (intro holds_rules holds_entry holds_any) (auto intro!: keeps_handleEarlyFin keeps_signal keeps_sendPureAck holds_rules keeps_intros)

lemma keeps_handlePayload: "keeps e e0 \<Longrightarrow> ekeeps e (handlePayload coin hdr payload e0)"
  unfolding handlePayload_def Let_def payload_tail_def [symmetric]
  by (intro holds_if holds_reads holds_prod) (auto intro!: keeps_payload_tail keeps_sendPureAck holds_Inr keeps_intros)

lemma keeps_VRead_loop: "keeps e e0 \<Longrightarrow> pkeeps e (VRead_loop fuel dest e0)"
proof (induction fuel arbitrary: e0)
  case (Suc fuel)
  show ?case unfolding VRead_loop.simps Let_def
    by (intro holds_rules) (auto intro!: Suc.IH Suc.prems keeps_intros)
qed (simp add: holds_Inr)

lemma keeps_VRead: "keeps e e0 \<Longrightarrow> pkeeps e (VRead fuel dest e0)"
  unfolding VRead_def by (intro holds_rules) (auto intro!: keeps_VRead_loop)

lemma keeps_teardown: "keeps e e0 \<Longrightarrow> ekeeps e (teardown e0)"
  unfolding teardown_def Let_def by (intro holds_rules keeps_intros)

lemma keeps_enqueue: "keeps e e0 \<Longrightarrow> ekeeps e (enqueue_retrans x e0)"
  unfolding enqueue_retrans_def Let_def by (intro holds_rules keeps_intros)

lemma keeps_upd_sendBuf: "keeps e e0 \<Longrightarrow> ekeeps e (upd_sendBuf f e0)"
  unfolding upd_sendBuf_def by (intro holds_rules holds_any keeps_intros)

lemma keeps_retransmit: "keeps e e0 \<Longrightarrow> ekeeps e (retransmitSegment e0)"
  unfolding retransmitSegment_def Let_def
  by (intro holds_rules) (auto intro!: keeps_teardown holds_entry [OF keeps_sendSegment] holds_rules keeps_intros)

lemma keeps_handlePureAck: "keeps e e0 \<Longrightarrow> ekeeps e (handlePureAck now seg e0)"
  unfolding handlePureAck_def Let_def handleLastAck_def ack_signals_def
  by (intro holds_rules holds_entry [OF keeps_upd_sendBuf] keeps_teardown keeps_upd_sendBuf keeps_intros)
    (auto intro!: keeps_intros)

lemma keeps_sendLoop_prepare: "keeps e e0 \<Longrightarrow> pkeeps e (sendLoop_prepare e0)"
  unfolding sendLoop_prepare_def Let_def
  by (intro holds_rules holds_any [of _ _ "if _ then _ else _"] holds_entry [OF keeps_sendSegment])
    (auto intro!: keeps_intros)

lemma keeps_sendLoop_transmit: "keeps e e0 \<Longrightarrow> ekeeps e (sendLoop_transmit now d m e0)"
  unfolding sendLoop_transmit_def by (intro holds_entry [OF keeps_sendSegment] keeps_enqueue)

lemma keeps_sendLoop_commit: "keeps e e0 \<Longrightarrow> ekeeps e (sendLoop_commit m e0)"
  unfolding sendLoop_commit_def by (intro holds_rules keeps_intros)

lemma keeps_sendLoop_outer: "keeps e e0 \<Longrightarrow> pkeeps e (sendLoop_outer b e0)"
  unfolding sendLoop_outer_def Let_def by (intro holds_rules) (auto intro!: keeps_intros)

lemma keeps_VWrite_loop: "keeps e e0 \<Longrightarrow> pkeeps e (VWrite_loop fuel data k e0)"
proof (induction fuel arbitrary: e0 k)
  case (Suc fuel)
  show ?case unfolding VWrite_loop.simps Let_def
    by (intro holds_rules) (auto intro!: Suc.IH Suc.prems keeps_intros)
qed (simp add: holds_Inr)

lemma keeps_VWrite: "keeps e e0 \<Longrightarrow> pkeeps e (VWrite fuel data e0)"
  unfolding VWrite_def by (intro holds_rules) (auto intro!: keeps_VWrite_loop)

lemma keeps_sendFin: "keeps e e0 \<Longrightarrow> ekeeps e (sendFin now e0)"
  unfolding sendFin_def Let_def
  by (intro holds_rules holds_entry [OF keeps_enqueue] keeps_intros) simp_all

lemma keeps_VClose: "keeps e e0 \<Longrightarrow> pkeeps e (VClose now e0)"
  unfolding VClose_def by (intro holds_rules holds_entry [OF keeps_sendFin]) auto

lemma keeps_handshake:
  "keeps e e0 \<Longrightarrow> keeps e (sendSyn e0)" "keeps e e0 \<Longrightarrow> keeps e (sendSynAck s e0)"
  "keeps e e0 \<Longrightarrow> keeps e (sendAckHandshake s e0)" "keeps e e0 \<Longrightarrow> keeps e (startSynRetransTimer e0)"
  "keeps e e0 \<Longrightarrow> keeps e (startSynAckRetransTimer s e0)" "keeps e e0 \<Longrightarrow> keeps e (stopHandshakeTimer e0)"
  "keeps e e0 \<Longrightarrow> keeps e (signalConnectResult st e0)"
  by (auto simp: sendSyn_def sendSynAck_def sendAckHandshake_def startSynRetransTimer_def
    startSynAckRetransTimer_def stopHandshakeTimer_def signalConnectResult_def intro!: keeps_intros)

lemma keeps_initBufs: "keeps e e0 \<Longrightarrow> ekeeps e (initBufs s e0)"
  unfolding initBufs_def by (intro holds_rules keeps_intros)

lemma keeps_handleSynAck: "keeps e e0 \<Longrightarrow> pkeeps e (handleSynAck hdr e0)"
  unfolding handleSynAck_def Let_def
  by (intro holds_rules holds_entry [OF keeps_initBufs] keeps_intros keeps_handshake)
    (auto intro!: keeps_intros keeps_handshake)

lemma keeps_handleAckHandshake: "keeps e e0 \<Longrightarrow> holds (\<lambda>(err, l, e'). keeps e e') (handleAckHandshake hdr e0)"
  unfolding handleAckHandshake_def Let_def
  by (intro holds_rules holds_entry [OF keeps_initBufs] keeps_intros keeps_handshake)
    (auto intro!: keeps_intros keeps_handshake)

lemma keeps_handshake_timer: "keeps e e0 \<Longrightarrow> keeps e (handshake_timer_fires e0)"
  by (auto simp: handshake_timer_fires_def sendSynRetrans_def sendSynAckRetrans_def
    split: hs_timer.split hs_callback.split intro!: keeps_intros keeps_handshake)

lemma keeps_handle_open: "keeps e e0 \<Longrightarrow> ekeeps e (handle_open coin now hdr payload e0)"
  unfolding handle_open_def
  by (intro holds_rules keeps_handleFin keeps_handshake keeps_handlePureAck keeps_handlePayload)

lemma keeps_handle_entry: "keeps e e0 \<Longrightarrow> pkeeps e (handle_entry coin now hdr payload e0)"
  unfolding handle_entry_def
  by (cases "te_state e0")
    (auto intro!: holds_rules holds_entry [OF keeps_handle_open] holds_entry [OF keeps_handlePureAck]
      holds_bind [OF keeps_handleSynAck] holds_bind [OF keeps_handleAckHandshake])

section \<open>The state diagram\<close>

text \<open>The transitions of RFC 9293 that the code has; any state may be reset to \<open>CLOSED\<close>.\<close>

definition tcp_edge :: "tcp_state \<Rightarrow> tcp_state \<Rightarrow> bool" where
  "tcp_edge s s' \<longleftrightarrow> s' = CLOSED \<or> (s, s') \<in> {(SYN_SENT, ESTABLISHED), (SYN_RECEIVED, ESTABLISHED),
     (ESTABLISHED, CLOSE_WAIT), (ESTABLISHED, FIN_WAIT_1), (FIN_WAIT_1, FIN_WAIT_2),
     (FIN_WAIT_1, TIME_WAIT), (FIN_WAIT_2, TIME_WAIT), (CLOSE_WAIT, LAST_ACK)}"

definition moves :: "tcp_state \<Rightarrow> table_entry \<Rightarrow> bool" where
  "moves s e \<longleftrightarrow> te_state e = s \<or> tcp_edge s (te_state e)"

abbreviation "estays s \<equiv> holds (\<lambda>e. te_state e = s)"
abbreviation "pstays s \<equiv> holds (\<lambda>x. te_state (snd x) = s)"
abbreviation "emoves s \<equiv> holds (moves s)"

lemma holds_mono: "holds P m \<Longrightarrow> (\<And>x. P x \<Longrightarrow> Q x) \<Longrightarrow> holds Q m"
  by (auto simp: holds_def)

lemma stays_moves: "estays s m \<Longrightarrow> emoves s m"
  by (erule holds_mono) (simp add: moves_def)

lemma te_state_simps [simp]:
  "te_state (set_conn f e) = te_state e"
  "te_state (sendSyn e) = te_state e" "te_state (sendSynAck n e) = te_state e"
  "te_state (sendAckHandshake n e) = te_state e" "te_state (startSynRetransTimer e) = te_state e"
  "te_state (startSynAckRetransTimer n e) = te_state e" "te_state (stopHandshakeTimer e) = te_state e"
  "te_state (signalConnectResult st e) = te_state e"
  by (simp_all add: set_conn_def sendSyn_def sendSynAck_def sendAckHandshake_def startSynRetransTimer_def
    startSynAckRetransTimer_def stopHandshakeTimer_def signalConnectResult_def)

lemma stays_simple:
  "estays (te_state e) (sendPureAck a e)" "estays (te_state e) (sendSegment d n fl e)"
  "estays (te_state e) (signal_dataToRead e)" "estays (te_state e) (enqueue_retrans x e)"
  "estays (te_state e) (upd_sendBuf f e)" "estays (te_state e) (teardown e)" "estays (te_state e) (initBufs n e)"
  "estays (te_state e) (sendLoop_commit m e)"
  unfolding sendPureAck_def sendSegment_def signal_dataToRead_def enqueue_retrans_def upd_sendBuf_def
    teardown_def initBufs_def sendLoop_commit_def Let_def
  by (intro holds_rules holds_any; simp)+

lemma stays_transmit: "estays (te_state e) (sendLoop_transmit now d m e)"
  unfolding sendLoop_transmit_def by (rule holds_bind [OF stays_simple(2)]) (metis stays_simple(4))

lemma stays_prepare: "pstays (te_state e) (sendLoop_prepare e)"
  unfolding sendLoop_prepare_def Let_def
  by (intro holds_rules holds_any [of _ _ "if _ then _ else _"]; (rule holds_bind [OF stays_simple(2)])?)
    (auto intro!: holds_Inr)

lemma stays_outer: "pstays (te_state e) (sendLoop_outer b e)"
  unfolding sendLoop_outer_def Let_def by (intro holds_rules) auto

lemma stays_VRead_loop: "pstays (te_state e) (VRead_loop fuel dest e)"
proof (induction fuel arbitrary: e)
  case (Suc fuel)
  have "pstays (te_state e) (VRead_loop fuel dest (set_recvBuf rb e))" for rb
    using Suc.IH [of "set_recvBuf rb e"] by simp
  then show ?case unfolding VRead_loop.simps Let_def by (intro holds_rules) simp_all
qed (simp add: holds_Inr)

lemma stays_VWrite_loop: "pstays (te_state e) (VWrite_loop fuel data k e)"
proof (induction fuel arbitrary: e k)
  case (Suc fuel)
  have "pstays (te_state e) (VWrite_loop fuel data k (set_sendBuf sb e))" for sb k
    using Suc.IH [of "set_sendBuf sb e" k] by simp
  then show ?case unfolding VWrite_loop.simps Let_def by (intro holds_rules) simp_all
qed (simp add: holds_Inr)

lemma moves_fin_switch: "emoves (te_state e) (fin_switch e)"
proof (cases "te_state e = ESTABLISHED")
  case True
  have "estays CLOSE_WAIT (signal_dataToRead (e\<lparr>te_state := CLOSE_WAIT\<rparr>))"
    using stays_simple(3) [of "e\<lparr>te_state := CLOSE_WAIT\<rparr>"] by simp
  then show ?thesis using True
    by (simp add: fin_switch_def) (erule holds_mono, simp add: moves_def tcp_edge_def)
next
  case False
  then show ?thesis
    by (cases "te_state e") (auto simp: fin_switch_def timeWait_def moves_def tcp_edge_def intro!: holds_Inr)
qed

lemma moves_ack_fin: "emoves (te_state e) (go_bind (sendPureAck a e) fin_switch)"
  by (rule holds_bind [OF stays_simple(1)]) (metis moves_fin_switch)

lemma moves_handleEarlyFin: "emoves (te_state e) (handleEarlyFin e)"
proof -
  have "emoves (te_state e) (go_bind (sendPureAck a (set_recvBuf rb e)) fin_switch)" for a rb
    using moves_ack_fin [of "set_recvBuf rb e" a] by simp
  then show ?thesis unfolding handleEarlyFin_def Let_def by (intro holds_rules) (simp_all add: moves_def)
qed

lemma moves_handleFin: "emoves (te_state e) (handleFin hdr e)"
proof -
  have "emoves (te_state e) (go_bind (sendPureAck a (set_recvBuf rb e)) fin_switch)" for a rb
    using moves_ack_fin [of "set_recvBuf rb e" a] by simp
  moreover have "emoves (te_state e) (sendPureAck a (set_recvBuf rb e))" for a rb
    using stays_moves [OF stays_simple(1), of "set_recvBuf rb e"] by simp
  ultimately show ?thesis unfolding handleFin_def Let_def by (intro holds_rules) (simp_all add: moves_def)
qed

lemma moves_payload_tail: "emoves (te_state e) (payload_tail hdr n rb e)"
proof -
  have early: "emoves (te_state e) (if b then handleEarlyFin (set_recvBuf rb1 e) else Inr (set_recvBuf rb1 e))" for b rb1
    using moves_handleEarlyFin [of "set_recvBuf rb1 e"] by (simp add: holds_Inr moves_def)
  have tail: "emoves (te_state e) (go_bind (signal_dataToRead e1) (sendPureAck a))" if "moves (te_state e) e1" for e1 a
    by (rule holds_bind [OF stays_simple(3)])
      (use that in \<open>auto intro!: holds_mono [OF stays_simple(1)] simp: moves_def\<close>)
  show ?thesis unfolding payload_tail_def
    by (intro holds_reads(12) holds_prod holds_bind [OF early] holds_reads(1,6) holds_any [of _ _ "if _ then _ else _"] tail)
qed

lemma moves_handlePayload: "emoves (te_state e) (handlePayload coin hdr payload e)"
proof -
  have ack: "emoves (te_state e) (sendPureAck a (set_recvBuf rb e))" "emoves (te_state e) (sendPureAck a e)" for a rb
    using stays_moves [OF stays_simple(1), of "set_recvBuf rb e"] stays_moves [OF stays_simple(1)] by simp_all
  show ?thesis unfolding handlePayload_def Let_def payload_tail_def [symmetric]
    by (intro holds_if holds_reads holds_prod holds_Inr moves_payload_tail ack) (simp_all add: moves_def)
qed

lemma moves_teardown: "emoves s (teardown (e\<lparr>te_state := CLOSED\<rparr>))"
proof -
  have "estays CLOSED (teardown (e\<lparr>te_state := CLOSED\<rparr>))"
    using stays_simple(6) [of "e\<lparr>te_state := CLOSED\<rparr>"] by simp
  then show ?thesis by (rule holds_mono) (simp add: moves_def tcp_edge_def)
qed

lemma moves_retransmit: "emoves (te_state e) (retransmitSegment e)"
proof -
  have seg: "estays (te_state e) (sendSegment d n fl (set_retransQueue rq e))" for d n fl rq
    using stays_simple(2) [of "set_retransQueue rq e"] by simp
  show ?thesis unfolding retransmitSegment_def Let_def
    by (intro holds_reads holds_list holds_if holds_Inl moves_teardown holds_bind [OF seg] holds_Inr)
      (simp add: moves_def)
qed

lemma moves_handlePureAck: "emoves (te_state e) (handlePureAck now seg e)"
proof -
  have upd: "estays (te_state e') (upd_sendBuf f e')" for f e' by (rule stays_simple)
  have fin: "te_state (if c then e'\<lparr>te_state := FIN_WAIT_2\<rparr> else e') = te_state e' \<or>
      c \<and> te_state (if c then e'\<lparr>te_state := FIN_WAIT_2\<rparr> else e') = FIN_WAIT_2" for c and e' :: table_entry by simp
  have two: "emoves s (go_bind (upd_sendBuf f e') (upd_sendBuf g))" if "moves s e'" for s f g e'
    by (rule holds_bind [OF upd]) (use that in \<open>auto intro!: holds_mono [OF upd] simp: moves_def\<close>)
  have one: "emoves s (upd_sendBuf f e')" if "moves s e'" for s f e'
    using that by (auto intro!: holds_mono [OF upd] simp: moves_def)
  show ?thesis unfolding handlePureAck_def Let_def handleLastAck_def ack_signals_def
    by (intro holds_reads holds_if holds_Inr moves_teardown two one) (auto simp: moves_def tcp_edge_def)
qed

lemma moves_sendFin:
  assumes "te_state e = ESTABLISHED \<or> te_state e = CLOSE_WAIT"
  shows "emoves (te_state e) (sendFin now e)"
proof -
  have enq: "estays (te_state e) (enqueue_retrans x (send_packet hdr d e))" for x hdr d
    using stays_simple(4) [of "send_packet hdr d e"] by simp
  show ?thesis unfolding sendFin_def Let_def
    by (intro holds_reads holds_bind [OF enq] holds_Inr) (use assms in \<open>auto simp: moves_def tcp_edge_def\<close>)
qed

section \<open>Everything that can happen to an entry\<close>

text \<open>
  A segment arrives (with the coin of the drop flag and the time), possibly with RST; the application
  calls the socket; \<open>sendLoop\<close> runs one of its critical sections; a timer fires.
\<close>

datatype entry_event =
    SegmentIn bool int tcp_fields bytes
  | ResetIn
  | AppWrite nat bytes
  | AppRead nat bytes
  | AppClose int
  | LoopOuter bool
  | LoopPrepare
  | LoopTransmitEv int bytes u32
  | LoopCommitEv u32
  | RtoExpires
  | HandshakeTimer
  | TimeWaitExpires

fun entry_step :: "entry_event \<Rightarrow> table_entry \<Rightarrow> go_panic + (int option \<times> table_entry)" where
  "entry_step (SegmentIn coin now hdr payload) e = handle_entry coin now hdr payload e"
| "entry_step ResetIn e = go_bind (teardown (e\<lparr>te_state := CLOSED\<rparr>)) (\<lambda>e'. Inr (None, e'))"
| "entry_step (AppWrite fuel data) e = go_bind (VWrite fuel data e) (\<lambda>(r, e'). Inr (None, e'))"
| "entry_step (AppRead fuel dest) e = go_bind (VRead fuel dest e) (\<lambda>(r, e'). Inr (None, e'))"
| "entry_step (AppClose now) e = go_bind (VClose now e) (\<lambda>(r, e'). Inr (None, e'))"
| "entry_step (LoopOuter b) e = go_bind (sendLoop_outer b e) (\<lambda>(r, e'). Inr (None, e'))"
| "entry_step LoopPrepare e = go_bind (sendLoop_prepare e) (\<lambda>(d, e'). Inr (None, e'))"
| "entry_step (LoopTransmitEv now d m) e = go_bind (sendLoop_transmit now d m e) (\<lambda>e'. Inr (None, e'))"
| "entry_step (LoopCommitEv m) e = go_bind (sendLoop_commit m e) (\<lambda>e'. Inr (None, e'))"
| "entry_step RtoExpires e = go_bind (retransmitSegment e) (\<lambda>e'. Inr (None, e'))"
| "entry_step HandshakeTimer e = Inr (None, handshake_timer_fires e)"
| "entry_step TimeWaitExpires e = go_bind (timeWait_expires e) (\<lambda>e'. Inr (None, e'))"

lemma moves_refl [simp]: "moves (te_state e) e"
  by (simp add: moves_def)

lemma moves_same: "te_state e = s \<Longrightarrow> moves s e"
  by (simp add: moves_def)

lemma moves_handle_open: "emoves (te_state e) (handle_open coin now hdr payload e)"
  unfolding handle_open_def
  by (intro holds_if moves_handleFin moves_handlePureAck moves_handlePayload holds_Inr) (simp_all add: moves_def)

lemma moves_handleSynAck:
  assumes "te_state e = SYN_SENT"
  shows "holds (\<lambda>x. moves SYN_SENT (snd x)) (handleSynAck hdr e)"
proof -
  have init: "te_state e2 = ESTABLISHED \<Longrightarrow> estays ESTABLISHED (initBufs n e2)" for n e2
    using stays_simple(7) [of e2 n] by simp
  have r: "holds (\<lambda>x. moves SYN_SENT (snd x)) (go_bind (initBufs n e2) (\<lambda>e3. go_bind (get_sendBuf e3) (\<lambda>sb. Inr (HsOk, f e3 sb))))"
    if "te_state e2 = ESTABLISHED" "\<And>e3 sb. te_state (f e3 sb) = te_state e3" for n e2 f
    by (rule holds_bind [OF init [OF that(1)]]) (auto intro!: holds_rules simp: moves_def tcp_edge_def that(2))
  show ?thesis unfolding handleSynAck_def Let_def
    by (intro holds_if holds_Inr r) (simp_all add: assms moves_def)
qed

lemma handleAckHandshake_moves:
  assumes "te_state e = SYN_RECEIVED" and "handleAckHandshake hdr e = Inr (err, l, e')"
  shows "moves SYN_RECEIVED e' \<and> (l \<noteq> None \<longrightarrow> te_state e' = ESTABLISHED \<and> l = te_listenSocket e)"
  using assms unfolding handleAckHandshake_def Let_def initBufs_def
  by (auto simp: go_bind_eq_Inr moves_def tcp_edge_def stopHandshakeTimer_def set_defs split: if_splits)

lemma handle_entry_moves:
  assumes "handle_entry coin now hdr payload e = Inr (l, e')"
  shows "moves (te_state e) e' \<and> (l \<noteq> None \<longrightarrow> te_state e = SYN_RECEIVED \<and> te_state e' = ESTABLISHED \<and> l = te_listenSocket e)"
proof -
  have "moves (te_state e) e' \<and> l = None"
    if "go_bind (handle_open coin now hdr payload e) (\<lambda>e'. Inr (None, e')) = Inr (l, e')"
    using that holdsD [OF moves_handle_open] by (auto simp: go_bind_eq_Inr)
  moreover have "moves (te_state e) e' \<and> l = None"
    if "go_bind (handlePureAck now hdr e) (\<lambda>e'. Inr (None, e')) = Inr (l, e')"
    using that holdsD [OF moves_handlePureAck] by (auto simp: go_bind_eq_Inr)
  moreover have "moves (te_state e) e' \<and> l = None"
    if "te_state e = SYN_SENT" "go_bind (handleSynAck hdr e) (\<lambda>(err, e'). Inr (None, e')) = Inr (l, e')"
    using that holdsD [OF moves_handleSynAck [OF that(1)]] by (fastforce simp: go_bind_eq_Inr)
  moreover have "moves SYN_RECEIVED e' \<and> (l \<noteq> None \<longrightarrow> te_state e' = ESTABLISHED \<and> l = te_listenSocket e)"
    if "te_state e = SYN_RECEIVED" "go_bind (handleAckHandshake hdr e) (\<lambda>(err, l, e'). Inr (l, e')) = Inr (l, e')"
    using that handleAckHandshake_moves [OF that(1)] by (fastforce simp: go_bind_eq_Inr)
  moreover have "moves (te_state e) e" by simp
  ultimately show ?thesis using assms unfolding handle_entry_def
    by (cases "te_state e") (auto split: if_splits simp: moves_same)
qed

lemma handshake_timer_moves: "moves (te_state e) (handshake_timer_fires e)"
  by (auto simp: handshake_timer_fires_def sendSynRetrans_def sendSynAckRetrans_def moves_def tcp_edge_def
    split: hs_timer.split hs_callback.split)

lemma pair_result: "go_bind m (\<lambda>(r, e'). Inr (None, e')) = Inr (l, e1) \<Longrightarrow> \<exists>r. m = Inr (r, e1) \<and> l = None"
  by (auto simp: go_bind_eq_Inr)

lemma entry_result: "go_bind m (\<lambda>e'. Inr (None, e')) = Inr (l, e1) \<Longrightarrow> m = Inr e1 \<and> l = None"
  by (auto simp: go_bind_eq_Inr)

lemma entry_step_facts:
  assumes "entry_step ev e = Inr (l, e')"
  shows "keeps e e' \<and> (te_state e' = te_state e \<or> tcp_edge (te_state e) (te_state e'))
    \<and> (l \<noteq> None \<longrightarrow> te_state e = SYN_RECEIVED \<and> te_state e' = ESTABLISHED \<and> l = te_listenSocket e)"
proof -
  have k: "keeps e (e\<lparr>te_state := CLOSED\<rparr>)" by (intro keeps_intros keeps_refl)
  have "keeps e e' \<and> moves (te_state e) e' \<and> (l \<noteq> None \<longrightarrow> te_state e = SYN_RECEIVED \<and> te_state e' = ESTABLISHED
      \<and> l = te_listenSocket e)"
  proof (cases ev)
    case (SegmentIn coin now hdr payload)
    then show ?thesis using assms handle_entry_moves holdsD [OF keeps_handle_entry [OF keeps_refl]] by fastforce
  next
    case ResetIn
    then have "teardown (e\<lparr>te_state := CLOSED\<rparr>) = Inr e'" "l = None" using assms by (auto dest: entry_result)
    then show ?thesis using holdsD [OF keeps_teardown [OF k]] holdsD [OF moves_teardown] by blast
  next
    case (AppWrite fuel data)
    then obtain r where "VWrite fuel data e = Inr (r, e')" "l = None" using assms by (auto dest: pair_result)
    then show ?thesis using holdsD [OF keeps_VWrite [OF keeps_refl]] holdsD [OF stays_VWrite_loop]
      by (fastforce simp: VWrite_def moves_def split: if_splits)
  next
    case (AppRead fuel dest)
    then obtain r where "VRead fuel dest e = Inr (r, e')" "l = None" using assms by (auto dest: pair_result)
    then show ?thesis using holdsD [OF keeps_VRead [OF keeps_refl]] holdsD [OF stays_VRead_loop]
      by (fastforce simp: VRead_def moves_def split: if_splits)
  next
    case (AppClose now)
    then obtain r where r: "VClose now e = Inr (r, e')" "l = None" using assms by (auto dest: pair_result)
    then have "moves (te_state e) e'" using holdsD [OF moves_sendFin]
      by (auto simp: VClose_def go_bind_eq_Inr moves_def split: if_splits)
    then show ?thesis using r holdsD [OF keeps_VClose [OF keeps_refl]] by fastforce
  next
    case (LoopOuter b)
    then obtain r where "sendLoop_outer b e = Inr (r, e')" "l = None" using assms by (auto dest: pair_result)
    then show ?thesis using holdsD [OF keeps_sendLoop_outer [OF keeps_refl]] holdsD [OF stays_outer]
      by (fastforce simp: moves_def)
  next
    case LoopPrepare
    then obtain r where "sendLoop_prepare e = Inr (r, e')" "l = None" using assms by (auto dest: pair_result)
    then show ?thesis using holdsD [OF keeps_sendLoop_prepare [OF keeps_refl]] holdsD [OF stays_prepare]
      by (fastforce simp: moves_def)
  next
    case (LoopTransmitEv now d m)
    then show ?thesis using assms holdsD [OF keeps_sendLoop_transmit [OF keeps_refl]] holdsD [OF stays_transmit]
      by (auto simp: moves_def dest!: entry_result)
  next
    case (LoopCommitEv m)
    then show ?thesis using assms holdsD [OF keeps_sendLoop_commit [OF keeps_refl]] holdsD [OF stays_simple(8)]
      by (auto simp: moves_def dest!: entry_result)
  next
    case RtoExpires
    then show ?thesis using assms holdsD [OF keeps_retransmit [OF keeps_refl]] holdsD [OF moves_retransmit]
      by (auto dest!: entry_result)
  next
    case HandshakeTimer
    then show ?thesis using assms keeps_handshake_timer [OF keeps_refl] handshake_timer_moves by auto
  next
    case TimeWaitExpires
    then have "teardown (e\<lparr>te_state := CLOSED\<rparr>) = Inr e'" "l = None"
      using assms by (auto simp: timeWait_expires_def dest: entry_result)
    then show ?thesis using holdsD [OF keeps_teardown [OF k]] holdsD [OF moves_teardown] by blast
  qed
  then show ?thesis by (simp add: moves_def)
qed



end
