(* ===== verification/TcpSockets.thy ===== *)
theory TcpSockets
  imports TcpStates
begin

text \<open>
  The socket table as a whole: all steps of the stack as one relation, the invariant of the table
  over its reachable states, and the demultiplexing of segments that follows from it.
\<close>

section \<open>Steps of the stack\<close>

definition enumerates :: "'k list \<Rightarrow> ('k \<rightharpoonup> 'v) \<Rightarrow> bool" where
  "enumerates ks m \<longleftrightarrow> set ks = dom m"

text \<open>
  Segments arrive, the application calls the socket functions, goroutines and timers run on entries
  that may already have left the table, and requests go out to the IP layer.
\<close>

inductive stack_step :: "iptcp_headers \<Rightarrow> netstack \<Rightarrow> tcp_stack \<Rightarrow> tcp_stack \<Rightarrow> bool" for ih ns where
  receive: "enumerates ord (socketMap ts) \<Longrightarrow> HandleTCP ns ord coin now rand hdr payload ts = Inr ts' \<Longrightarrow>
    stack_step ih ns ts ts'"
| listen: "VListen port ts = (l, ts') \<Longrightarrow> stack_step ih ns ts ts'"
| accept: "VAccept l ts = Inr (r, ts') \<Longrightarrow> stack_step ih ns ts ts'"
| accept_resumes: "accept_receive l ts = Inr (r, ts') \<Longrightarrow> stack_step ih ns ts ts'"
| connect: "enumerates ord (socketMap ts) \<Longrightarrow> VConnect fwdOrd fuel ord intns rand addr port ts = (c, ts') \<Longrightarrow>
    stack_step ih ns ts ts'"
| connect_waits: "VConnect_wait sid ts = Inr (w, ts') \<Longrightarrow> stack_step ih ns ts ts'"
| close_listener: "listener_VClose l ts = Inr (b, ts') \<Longrightarrow> stack_step ih ns ts ts'"
| on_entry: "ts_entries ts sid = Some e \<Longrightarrow> entry_step ev e = Inr (None, e') \<Longrightarrow>
    stack_step ih ns ts (put_entry sid e' ts)"
| send_out: "sendPacketsOut_step ih ns fwdOrd fuel ts = Inr ts' \<Longrightarrow> stack_step ih ns ts ts'"

section \<open>The table invariant\<close>

text \<open>A live connection: in the table and not listening. Its four-tuple.\<close>

definition conn_at :: "tcp_stack \<Rightarrow> int \<Rightarrow> table_entry \<Rightarrow> bool" where
  "conn_at ts sid e \<longleftrightarrow> socketMap ts sid = Some e \<and> te_state e \<noteq> LISTEN"

definition tuple_of :: "table_entry \<Rightarrow> u16 \<times> netip_addr \<times> u16 \<times> netip_addr" where
  "tuple_of e = (te_localPort e, te_localIP e, te_destPort e, te_destIP e)"

definition stack_ok :: "tcp_stack \<Rightarrow> bool" where
  "stack_ok ts \<longleftrightarrow>
     (\<forall>sid e. ts_entries ts sid = Some e \<longrightarrow> te_socketID e = sid \<and> sid < ts_nextID ts
        \<and> (\<forall>l. te_listenSocket e = Some l \<longrightarrow> ts_listeners ts l \<noteq> None)
        \<and> (te_state e = LISTEN \<longrightarrow> te_normalSocket e = None \<and> te_listenSocket e = Some sid))
     \<and> (\<forall>i j e f. conn_at ts i e \<and> conn_at ts j f \<and> tuple_of e = tuple_of f \<longrightarrow> i = j)"

text \<open>
  Two ways in which a step may change the table: it updates one entry, keeping its identity, or it
  adds a new one at the next ID.
\<close>

lemma socketMap_Some: "socketMap ts sid = Some e \<longleftrightarrow> ts_entries ts sid = Some e \<and> \<not> te_removed e"
  by (auto simp: socketMap_def split: option.splits)

lemma stack_okD:
  assumes "stack_ok ts" and "ts_entries ts sid = Some e"
  shows "te_socketID e = sid" and "sid < ts_nextID ts"
    and "te_listenSocket e = Some l \<Longrightarrow> ts_listeners ts l \<noteq> None"
    and "te_state e = LISTEN \<Longrightarrow> te_normalSocket e = None \<and> te_listenSocket e = Some sid"
  using assms unfolding stack_ok_def by blast+

lemma stack_ok_unique:
  "stack_ok ts \<Longrightarrow> conn_at ts i e \<Longrightarrow> conn_at ts j f \<Longrightarrow> tuple_of e = tuple_of f \<Longrightarrow> i = j"
  unfolding stack_ok_def by blast

lemma stack_ok_update:
  assumes ok: "stack_ok ts" and e: "ts_entries ts sid = Some e" and k: "keeps e e'"
    and l: "te_state e' = LISTEN \<Longrightarrow> te_state e = LISTEN \<and> te_normalSocket e' = None"
    and l': "te_state e = LISTEN \<Longrightarrow> te_state e' = LISTEN \<or> te_removed e'"
    and ts': "ts_entries ts' = (ts_entries ts)(sid \<mapsto> e'\<lparr>te_sendRequests := q\<rparr>)" "ts_nextID ts' = ts_nextID ts"
      "\<And>l. ts_listeners ts l \<noteq> None \<Longrightarrow> ts_listeners ts' l \<noteq> None"
  shows "stack_ok ts'"
proof -
  have old: "\<exists>e0. conn_at ts i e0 \<and> tuple_of e0 = tuple_of f" if f: "conn_at ts' i f" for i f
  proof (cases "i = sid")
    case True
    then have fe: "f = e'\<lparr>te_sendRequests := q\<rparr>" "\<not> te_removed e'" "te_state e' \<noteq> LISTEN"
      using f ts'(1) by (auto simp: conn_at_def socketMap_Some)
    then have "conn_at ts sid e" using e k l' by (auto simp: conn_at_def socketMap_Some keeps_def)
    moreover have "tuple_of e = tuple_of f" using k fe(1) by (simp add: tuple_of_def keeps_def)
    ultimately show ?thesis using True by blast
  next
    case False
    then show ?thesis using f ts'(1) by (intro exI [of _ f]) (simp add: conn_at_def socketMap_def)
  qed
  have "i = j" if "conn_at ts' i f" "conn_at ts' j g" "tuple_of f = tuple_of g" for i j f g
    using old [OF that(1)] old [OF that(2)] that(3) stack_ok_unique [OF ok] by metis
  moreover have "te_socketID f = i \<and> i < ts_nextID ts' \<and> (\<forall>l. te_listenSocket f = Some l \<longrightarrow> ts_listeners ts' l \<noteq> None)
      \<and> (te_state f = LISTEN \<longrightarrow> te_normalSocket f = None \<and> te_listenSocket f = Some i)"
    if "ts_entries ts' i = Some f" for i f
  proof (cases "i = sid")
    case True
    then have "f = e'\<lparr>te_sendRequests := q\<rparr>" using that ts'(1) by simp
    then show ?thesis using True k l ts'(2,3) stack_okD [OF ok e] by (auto simp: keeps_def)
  next
    case False
    then have "ts_entries ts i = Some f" using that ts'(1) by simp
    then show ?thesis using stack_okD [OF ok] ts'(2,3) by metis
  qed
  ultimately show ?thesis unfolding stack_ok_def by blast
qed

lemma stack_ok_insert:
  assumes ok: "stack_ok ts"
    and new: "te_socketID e = ts_nextID ts" "te_state e = LISTEN \<Longrightarrow> te_normalSocket e = None \<and> te_listenSocket e = Some (ts_nextID ts)"
      "\<And>l. te_listenSocket e = Some l \<Longrightarrow> ts_listeners ts' l \<noteq> None"
    and fresh: "\<And>i f. te_state e \<noteq> LISTEN \<Longrightarrow> conn_at ts i f \<Longrightarrow> tuple_of f \<noteq> tuple_of e"
    and ts': "ts_entries ts' = (ts_entries ts)(ts_nextID ts \<mapsto> e\<lparr>te_sendRequests := q\<rparr>)" "ts_nextID ts' = ts_nextID ts + 1"
      "\<And>l. ts_listeners ts l \<noteq> None \<Longrightarrow> ts_listeners ts' l \<noteq> None"
  shows "stack_ok ts'"
proof -
  let ?n = "ts_nextID ts"
  have at: "conn_at ts' i f \<longleftrightarrow> (if i = ?n then f = e\<lparr>te_sendRequests := q\<rparr> \<and> \<not> te_removed e \<and> te_state e \<noteq> LISTEN
      else conn_at ts i f)" for i f
    using ts'(1) by (auto simp: conn_at_def socketMap_def)
  have tup: "tuple_of (e\<lparr>te_sendRequests := q\<rparr>) = tuple_of e" by (simp add: tuple_of_def)
  have "i = j" if "conn_at ts' i f" "conn_at ts' j g" "tuple_of f = tuple_of g" for i j f g
    using that fresh [of i f] fresh [of j g] stack_ok_unique [OF ok, of i f j g] tup
    by (cases "i = ?n"; cases "j = ?n") (auto simp: at)
  moreover have "te_socketID f = i \<and> i < ts_nextID ts' \<and> (\<forall>l. te_listenSocket f = Some l \<longrightarrow> ts_listeners ts' l \<noteq> None)
      \<and> (te_state f = LISTEN \<longrightarrow> te_normalSocket f = None \<and> te_listenSocket f = Some i)"
    if "ts_entries ts' i = Some f" for i f
  proof (cases "i = ?n")
    case True
    then have "f = e\<lparr>te_sendRequests := q\<rparr>" using that ts'(1) by simp
    then show ?thesis using True new ts'(2) by simp
  next
    case False
    then have "ts_entries ts i = Some f" using that ts'(1) by simp
    note d = stack_okD [OF ok this]
    have "i < ts_nextID ts'" using d(2) ts'(2) by simp
    then show ?thesis using d(1,4) d(3) ts'(3) by blast
  qed
  ultimately show ?thesis unfolding stack_ok_def by blast
qed

lemma stack_ok_same:
  assumes "stack_ok ts" and "ts_entries ts' = ts_entries ts" and "ts_nextID ts' = ts_nextID ts"
    and "\<And>l. ts_listeners ts l \<noteq> None \<Longrightarrow> ts_listeners ts' l \<noteq> None"
  shows "stack_ok ts'"
proof -
  have "socketMap ts' = socketMap ts" using assms(2) by (simp add: socketMap_def fun_eq_iff)
  then show ?thesis using assms by (simp add: stack_ok_def conn_at_def)
qed

section \<open>Matching\<close>

definition exact :: "u16 \<Rightarrow> netip_addr \<Rightarrow> u16 \<Rightarrow> netip_addr \<Rightarrow> table_entry \<Rightarrow> bool" where
  "exact srcPort srcIP destPort destIP e \<longleftrightarrow> te_state e \<noteq> LISTEN \<and> tuple_of e = (destPort, destIP, srcPort, srcIP)"

lemma tableMatch_loop_cases:
  "tableMatch_loop sp si dp di xs m = r \<Longrightarrow>
    (\<exists>x \<in> set xs. exact sp si dp di (snd x) \<and> r = Some x)
    \<or> (\<forall>x \<in> set xs. \<not> exact sp si dp di (snd x)) \<and>
      (r = m \<or> (\<exists>x \<in> set xs. te_state (snd x) = LISTEN \<and> te_localPort (snd x) = dp \<and> r = Some x))"
proof (induction xs arbitrary: m)
  case (Cons x xs)
  obtain sid e where x: "x = (sid, e)" by (cases x)
  show ?case
  proof (cases "exact sp si dp di e")
    case True
    then show ?thesis using Cons.prems x by (auto simp: exact_def tuple_of_def)
  next
    case False
    then have "tableMatch_loop sp si dp di xs (if te_state e = LISTEN \<and> te_localPort e = dp then Some x else m) = r"
      using Cons.prems x by (auto simp: exact_def tuple_of_def)
    from Cons.IH [OF this] False x show ?thesis by (auto split: if_splits)
  qed
qed simp

lemma tableMatch_cases:
  assumes "enumerates ord (socketMap ts)" and "tableMatch ord ts sp si dp di = r"
  obtains (conn) sid e where "r = Some (sid, e)" and "conn_at ts sid e" and "tuple_of e = (dp, di, sp, si)"
  | (listener) sid e where "r = Some (sid, e)" and "socketMap ts sid = Some e" and "te_state e = LISTEN"
      and "te_localPort e = dp" and "\<And>i f. conn_at ts i f \<Longrightarrow> tuple_of f \<noteq> (dp, di, sp, si)"
  | (none) "r = None" and "\<And>i f. conn_at ts i f \<Longrightarrow> tuple_of f \<noteq> (dp, di, sp, si)"
proof -
  have S: "(i, f) \<in> set (range_map (socketMap ts) ord) \<longleftrightarrow> socketMap ts i = Some f" for i f
    using assms(1) by (auto simp: set_range_map enumerates_def)
  have no: "tuple_of f \<noteq> (dp, di, sp, si)"
    if "\<forall>x \<in> set (range_map (socketMap ts) ord). \<not> exact sp si dp di (snd x)" "conn_at ts i f" for i f
    using that S [of i f] by (force simp: exact_def conn_at_def)
  from tableMatch_loop_cases [OF assms(2) [unfolded tableMatch_def]] show thesis
  proof (elim disjE bexE conjE)
    fix x assume x: "x \<in> set (range_map (socketMap ts) ord)" "exact sp si dp di (snd x)" "r = Some x"
    have "socketMap ts (fst x) = Some (snd x)" using x(1) S [of "fst x" "snd x"] by simp
    then show thesis using x(2,3) conn [of "fst x" "snd x"] by (simp add: exact_def conn_at_def)
  next
    assume "\<forall>x \<in> set (range_map (socketMap ts) ord). \<not> exact sp si dp di (snd x)" "r = None"
    then show thesis using none no by blast
  next
    fix x assume "\<forall>x \<in> set (range_map (socketMap ts) ord). \<not> exact sp si dp di (snd x)"
      "x \<in> set (range_map (socketMap ts) ord)" "te_state (snd x) = LISTEN" "te_localPort (snd x) = dp" "r = Some x"
    then show thesis using S listener [of "fst x" "snd x"] no by (cases x) auto
  qed
qed

section \<open>Every step keeps the invariant\<close>

text \<open>A listening entry has no socket of its own: nothing that happens to it changes its state.\<close>

lemma listening_get:
  assumes "te_normalSocket e = None"
  shows "get_conn e = Inl NilDereference" "get_recvBuf e = Inl NilDereference"
    "get_sendBuf e = Inl NilDereference" "get_retransQueue e = Inl NilDereference"
  using assms by (simp_all add: get_defs)

lemma listening_teardown: "te_normalSocket e = None \<Longrightarrow> teardown (e\<lparr>te_state := s\<rparr>) = Inl NilDereference"
  by (simp add: teardown_def get_conn_def)

lemma listening_stays:
  assumes "te_state e = LISTEN" and n: "te_normalSocket e = None" and "entry_step ev e = Inr (l, e')"
  shows "te_state e' = LISTEN \<and> te_normalSocket e' = None"
proof (cases ev)
  case (AppWrite fuel data)
  then show ?thesis using assms listening_get [OF n]
    by (cases fuel) (auto simp: VWrite_def closing_states_def split: if_splits)
next
  case (AppRead fuel dest)
  then show ?thesis using assms listening_get [OF n] by (cases fuel) (auto simp: VRead_def split: if_splits)
next
  case (LoopTransmitEv now d m)
  then show ?thesis using assms listening_get [OF n] by (simp add: sendLoop_transmit_def sendSegment_def)
next
  case HandshakeTimer
  then show ?thesis using assms by (auto simp: handshake_timer_fires_def sendSynRetrans_def sendSynAckRetrans_def
    split: hs_timer.splits hs_callback.splits)
next
  case RtoExpires
  then show ?thesis using assms listening_get [OF n] by (simp add: retransmitSegment_def)
qed (use assms listening_get [OF n] listening_teardown [OF n] in \<open>auto simp: handle_entry_def VClose_def
  closing_states_def sendLoop_outer_def sendLoop_prepare_def sendLoop_commit_def timeWait_expires_def\<close>)

lemma stack_ok_entry:
  assumes ok: "stack_ok ts" and e: "ts_entries ts sid = Some e" and s: "entry_step ev e = Inr (l, e')"
  shows "stack_ok (put_entry sid e' ts)"
proof (rule stack_ok_update [OF ok e])
  note k = entry_step_facts [OF s]
  show "keeps e e'" using k by blast
  show "te_state e' = LISTEN \<Longrightarrow> te_state e = LISTEN \<and> te_normalSocket e' = None"
    using k listening_stays [OF _ _ s] stack_okD(4) [OF ok e] by (auto simp: tcp_edge_def)
  show "te_state e = LISTEN \<Longrightarrow> te_state e' = LISTEN \<or> te_removed e'"
    using listening_stays [OF _ _ s] stack_okD(4) [OF ok e] by auto
qed (simp_all add: put_entry_def)

lemma newPassiveEntry_fields:
  "te_socketID (newPassiveEntry sid l isn hdr a b) = sid" "te_state (newPassiveEntry sid l isn hdr a b) = SYN_RECEIVED"
  "te_listenSocket (newPassiveEntry sid l isn hdr a b) = Some l"
  "tuple_of (newPassiveEntry sid l isn hdr a b) = (DstPort hdr, a, SrcPort hdr, b)"
  by (simp_all add: newPassiveEntry_def startSynAckRetransTimer_def sendSynAck_def send_packet_def tuple_of_def)

lemma newActiveEntry_fields:
  "te_socketID (newActiveEntry sid isn sp a port addr) = sid" "te_state (newActiveEntry sid isn sp a port addr) = SYN_SENT"
  "te_listenSocket (newActiveEntry sid isn sp a port addr) = None"
  "tuple_of (newActiveEntry sid isn sp a port addr) = (sp, a, port, addr)"
  by (simp_all add: newActiveEntry_def startSynRetransTimer_def sendSyn_def send_packet_def tuple_of_def zero_entry_def)

lemma send_conn_ok: "stack_ok ts \<Longrightarrow> send_conn l sid ts = Inr ts' \<Longrightarrow> stack_ok ts'"
  by (erule stack_ok_same) (auto simp: send_conn_def go_bind_eq_Inr split: if_splits)

lemma HandleTCP_ok:
  assumes ok: "stack_ok ts" and ord: "enumerates ord (socketMap ts)"
    and h: "HandleTCP ns ord coin now rand hdr payload ts = Inr ts'"
  shows "stack_ok ts'"
proof -
  obtain tcpHdr tcpPayload valid where p: "ParseAndValidateTCP ns hdr payload = Inr (tcpHdr, tcpPayload, valid)"
    using h by (auto simp: HandleTCP_def go_bind_eq_Inr)
  let ?m = "tableMatch ord ts (SrcPort tcpHdr) (ip_Src hdr) (DstPort tcpHdr) (ip_Dst hdr)"
  note h = h [unfolded HandleTCP_def p go_bind_Inr prod.case]
  show ?thesis
  proof (cases "valid \<and> ?m \<noteq> None")
    case False
    then have "ts' = ts" using h by (cases ?m) (auto split: if_splits)
    then show ?thesis using ok by simp
  next
    case True
    then obtain sid e where m: "?m = Some (sid, e)" by auto
    have live: "socketMap ts sid = Some e" and listener: "te_state e = LISTEN \<Longrightarrow> conn_at ts i f \<Longrightarrow>
        tuple_of f \<noteq> (DstPort tcpHdr, ip_Dst hdr, SrcPort tcpHdr, ip_Src hdr)" for i f
      using tableMatch_cases [OF ord m] by (auto simp: conn_at_def)
    then have e: "ts_entries ts sid = Some e" by (simp add: socketMap_Some)
    note h = h [unfolded m option.case prod.case]
    consider (rst) "has_flag tcpHdr TCPFlagRst" | (syn) "\<not> has_flag tcpHdr TCPFlagRst" "te_state e = LISTEN"
      | (conn) "\<not> has_flag tcpHdr TCPFlagRst" "te_state e \<noteq> LISTEN" by blast
    then show ?thesis
    proof cases
      case rst
      then obtain e' where "entry_step ResetIn e = Inr (None, e')" "ts' = put_entry sid e' ts"
        using h True by (auto simp: go_bind_eq_Inr)
      then show ?thesis using stack_ok_entry [OF ok e] by blast
    next
      case conn
      then obtain l e' where s: "entry_step (SegmentIn coin now tcpHdr tcpPayload) e = Inr (l, e')"
        and r: "(case l of None \<Rightarrow> Inr (put_entry sid e' ts) | Some l \<Rightarrow> send_conn l sid (put_entry sid e' ts)) = Inr ts'"
        using h True by (auto simp: go_bind_eq_Inr Let_def)
      then show ?thesis using stack_ok_entry [OF ok e s] send_conn_ok by (auto split: option.splits)
    next
      case syn
      then have hs: "handleSyn rand (te_listenSocket e) tcpHdr (ip_Dst hdr) (ip_Src hdr) ts = Inr ts'"
        using h True by simp
      then obtain l where l: "te_listenSocket e = Some l" "ts_listeners ts l \<noteq> None"
        by (auto simp: handleSyn_def go_bind_eq_Inr)
      let ?e = "newPassiveEntry (ts_nextID ts) l (GenerateNewSeq rand) tcpHdr (ip_Dst hdr) (ip_Src hdr)"
      have "ts' = ts \<or> ts' = put_entry (ts_nextID ts) ?e (ts\<lparr>ts_nextID := ts_nextID ts + 1\<rparr>)"
        using hs l by (auto simp: handleSyn_def go_bind_eq_Inr Let_def split: if_splits)
      moreover have "stack_ok (put_entry (ts_nextID ts) ?e (ts\<lparr>ts_nextID := ts_nextID ts + 1\<rparr>))"
        by (rule stack_ok_insert [OF ok, where e = ?e])
          (use l listener [OF syn(2)] in \<open>auto simp: newPassiveEntry_fields put_entry_def\<close>)
      ultimately show ?thesis using ok by blast
    qed
  qed
qed

lemma VConnect_ok:
  assumes ok: "stack_ok ts" and ord: "enumerates ord (socketMap ts)"
    and c: "VConnect fwdOrd fuel ord intns rand addr port ts = (c, ts')"
  shows "stack_ok ts'"
proof (cases "ts' = ts")
  case False
  then obtain srcPort entry nd ifc where p: "find (portIsUnique ord ts) (map RandomEphemeralPort intns) = Some srcPort"
    and lpm: "LongestPrefixMatch fwdOrd fuel (is_ForwardingTable (ts_ipStack ts)) addr = Some (LpmFound entry nd)"
    and i: "is_Interfaces (ts_ipStack ts) (fe_InterfaceName entry) = Some ifc"
    using c by (auto simp: VConnect_def split: option.splits lpm_result.splits)
  let ?e = "newActiveEntry (ts_nextID ts) (GenerateNewSeq rand) srcPort (if_IP ifc) port addr"
  have ts': "ts' = put_entry (ts_nextID ts) ?e (ts\<lparr>ts_nextID := ts_nextID ts + 1\<rparr>)"
    using c p lpm i by (simp add: VConnect_def Let_def)
  from p have unique: "portIsUnique ord ts srcPort" by (auto simp: find_Some_iff)
  have "tuple_of f \<noteq> tuple_of ?e" if "conn_at ts i f" for i f
  proof -
    have "(i, f) \<in> set (range_map (socketMap ts) ord)"
      using that ord by (auto simp: set_range_map enumerates_def conn_at_def)
    then have "te_localPort f \<noteq> srcPort" using unique by (auto simp: portIsUnique_def)
    then show ?thesis unfolding newActiveEntry_fields(4) by (simp add: tuple_of_def)
  qed
  then show ?thesis unfolding ts'
    by (intro stack_ok_insert [OF ok, where e = ?e])
      (auto simp: put_entry_def newActiveEntry_fields)
qed (use ok in simp)

lemma listener_VClose_ok:
  assumes ok: "stack_ok ts" and c: "listener_VClose l ts = Inr (b, ts')"
  shows "stack_ok ts'"
proof (cases "ts' = ts")
  case False
  then obtain e x where e: "ts_entries ts l = Some e"
    and ts': "ts_entries ts' = (ts_entries ts)(l \<mapsto> e\<lparr>te_state := CLOSED, te_removed := True\<rparr>)"
      "ts_nextID ts' = ts_nextID ts" "\<And>l. ts_listeners ts l \<noteq> None \<Longrightarrow> ts_listeners ts' l \<noteq> None"
    using c by (auto simp: listener_VClose_def listenerTeardown_def Remove_def go_bind_eq_Inr Let_def split: if_splits)
  show ?thesis
    by (rule stack_ok_update [OF ok e, of "e\<lparr>te_state := CLOSED, te_removed := True\<rparr>" _ "te_sendRequests e"])
      (use ts' in \<open>auto intro!: keeps_intros keeps_refl\<close>)
qed (use ok in simp)

section \<open>Reachable stacks\<close>

inductive stack_reach :: "iptcp_headers \<Rightarrow> netstack \<Rightarrow> tcp_stack \<Rightarrow> bool" for ih ns where
  initial: "stack_reach ih ns (InitTCPStack ip)"
| step: "stack_reach ih ns ts \<Longrightarrow> stack_step ih ns ts ts' \<Longrightarrow> stack_reach ih ns ts'"

inductive_cases stack_stepE: "stack_step ih ns ts ts'"

lemma VListen_ok: "stack_ok ts \<Longrightarrow> VListen port ts = (l, ts') \<Longrightarrow> stack_ok ts'"
proof -
  assume ok: "stack_ok ts" and l: "VListen port ts = (l, ts')"
  let ?e = "zero_entry\<lparr>te_localPort := port, te_state := LISTEN, te_socketID := ts_nextID ts,
    te_listenSocket := Some (ts_nextID ts)\<rparr>"
  show ?thesis
    by (rule stack_ok_insert [OF ok, where e = ?e and q = "[]"]) (use l in \<open>auto simp: VListen_def Let_def zero_entry_def\<close>)
qed

lemma accept_receive_ok:
  assumes ok: "stack_ok ts" and r: "accept_receive l ts = Inr (r, ts')"
  shows "stack_ok ts'"
proof -
  obtain x where x: "ts_listeners ts l = Some x" using r by (auto simp: accept_receive_def go_bind_eq_Inr)
  have "ts_entries ts' = ts_entries ts \<and> ts_nextID ts' = ts_nextID ts
      \<and> (\<forall>k. ts_listeners ts k \<noteq> None \<longrightarrow> ts_listeners ts' k \<noteq> None)"
    using r x by (cases "vl_connChan x") (auto simp: accept_receive_def split: if_splits)
  then show ?thesis by (intro stack_ok_same [OF ok]) auto
qed

lemma VAccept_ok:
  assumes ok: "stack_ok ts" and r: "VAccept l ts = Inr (r, ts')"
  shows "stack_ok ts'"
proof -
  obtain x ts1 where x: "ts_listeners ts l = Some x" and r1: "accept_receive l ts1 = Inr (r, ts')"
    and ts1: "ts_entries ts1 = ts_entries ts" "ts_nextID ts1 = ts_nextID ts"
      "\<And>k. ts_listeners ts k \<noteq> None \<Longrightarrow> ts_listeners ts1 k \<noteq> None"
    using r by (fastforce simp: VAccept_def go_bind_eq_Inr)
  show ?thesis by (rule accept_receive_ok [OF _ r1]) (rule stack_ok_same [OF ok ts1])
qed

lemma VConnect_wait_ok:
  assumes ok: "stack_ok ts" and w: "VConnect_wait sid ts = Inr (w, ts')"
  shows "stack_ok ts'"
proof -
  obtain e where e: "ts_entries ts sid = Some e" using w by (auto simp: VConnect_wait_def go_bind_eq_Inr)
  have "ts' = ts \<or> ts' = ts\<lparr>ts_entries := (ts_entries ts)(sid \<mapsto> e\<lparr>te_establishedChan := Some None\<rparr>)\<rparr>"
    using w e by (auto simp: VConnect_wait_def Let_def split: option.split_asm tcp_state.split_asm)
  moreover have "stack_ok (ts\<lparr>ts_entries := (ts_entries ts)(sid \<mapsto> e\<lparr>te_establishedChan := Some None\<rparr>)\<rparr>)"
    by (rule stack_ok_update [OF ok e, of "e\<lparr>te_establishedChan := Some None\<rparr>" _ "te_sendRequests e"])
      (use stack_okD(4) [OF ok e] in \<open>auto intro!: keeps_intros keeps_refl\<close>)
  ultimately show ?thesis using ok by blast
qed

lemma send_out_ok: "stack_ok ts \<Longrightarrow> sendPacketsOut_step ih ns fwdOrd fuel ts = Inr ts' \<Longrightarrow> stack_ok ts'"
  by (erule stack_ok_same) (auto simp: sendPacketsOut_step_def sendTCP_def Let_def go_bind_eq_Inr split: list.splits)

lemma stack_step_ok: "stack_step ih ns ts ts' \<Longrightarrow> stack_ok ts \<Longrightarrow> stack_ok ts'"
  by (erule stack_stepE) (blast intro: HandleTCP_ok VListen_ok accept_receive_ok VAccept_ok VConnect_ok VConnect_wait_ok
      listener_VClose_ok stack_ok_entry send_out_ok)+

lemma stack_reach_ok: "stack_reach ih ns ts \<Longrightarrow> stack_ok ts"
proof (induction rule: stack_reach.induct)
  case (initial ip)
  then show ?case by (simp add: stack_ok_def InitTCPStack_def conn_at_def socketMap_def)
qed (rule stack_step_ok)

text \<open>
  C11. Demultiplexing. In every reachable state of the stack, over all interleavings of segments,
  socket calls, goroutines and timers, a four-tuple belongs to at most one connection in the table,
  and a segment for it is matched to this connection whatever order the table is searched in; a
  segment for no connection is matched to a listener on its port or to nothing.
\<close>

theorem segments_reach_their_connection:
  assumes "stack_reach ih ns ts" and "set ord = dom (socketMap ts)"
  shows "(\<forall>i j e f. conn_at ts i e \<and> conn_at ts j f \<and> tuple_of e = tuple_of f \<longrightarrow> i = j)
    \<and> (\<forall>i e. conn_at ts i e \<longrightarrow>
        tableMatch ord ts (te_destPort e) (te_destIP e) (te_localPort e) (te_localIP e) = Some (i, e))
    \<and> (\<forall>sp si dp di. (\<forall>i e. conn_at ts i e \<longrightarrow> tuple_of e \<noteq> (dp, di, sp, si)) \<longrightarrow>
        (case tableMatch ord ts sp si dp di of None \<Rightarrow> True
         | Some (i, e) \<Rightarrow> socketMap ts i = Some e \<and> te_state e = LISTEN \<and> te_localPort e = dp))"
proof -
  have ok: "stack_ok ts" by (rule stack_reach_ok [OF assms(1)])
  have ord: "enumerates ord (socketMap ts)" using assms(2) by (simp add: enumerates_def)
  have "tableMatch ord ts (te_destPort e) (te_destIP e) (te_localPort e) (te_localIP e) = Some (i, e)"
    if c: "conn_at ts i e" for i e
    using ord refl
  proof (cases rule: tableMatch_cases [of ord ts "te_destPort e" "te_destIP e" "te_localPort e" "te_localIP e"])
    case (conn j f)
    then have "i = j" using stack_ok_unique [OF ok c conn(2)] by (simp add: tuple_of_def)
    then show ?thesis using c conn by (simp add: conn_at_def)
  qed (use c in \<open>auto simp: tuple_of_def\<close>)
  moreover have "case tableMatch ord ts sp si dp di of None \<Rightarrow> True
         | Some (i, e) \<Rightarrow> socketMap ts i = Some e \<and> te_state e = LISTEN \<and> te_localPort e = dp"
    if "\<forall>i e. conn_at ts i e \<longrightarrow> tuple_of e \<noteq> (dp, di, sp, si)" for sp si dp di
    by (cases rule: tableMatch_cases [OF ord refl, of sp si dp di]) (use that in auto)
  ultimately show ?thesis using stack_ok_unique [OF ok] by blast
qed

text \<open>A stack that listens on a port and has a connection, after its first SYN.\<close>

definition syn_sent_stack :: tcp_stack where
  "syn_sent_stack = snd (VConnect (\<lambda>_. [sample_net]) 1 [] [7] (0, 0, 3, 232) (ipv4_of 10 0 0 2) 80
     (InitTCPStack sample_router))"

lemma syn_sent_reach: "stack_reach ih ns syn_sent_stack"
proof (rule stack_reach.step [OF stack_reach.initial stack_step.connect])
  show "enumerates [] (socketMap (InitTCPStack sample_router))"
    by (auto simp: enumerates_def socketMap_def InitTCPStack_def dom_def)
  show "VConnect (\<lambda>_. [sample_net]) 1 [] [7] (0, 0, 3, 232) (ipv4_of 10 0 0 2) 80 (InitTCPStack sample_router)
      = (fst (VConnect (\<lambda>_. [sample_net]) 1 [] [7] (0, 0, 3, 232) (ipv4_of 10 0 0 2) 80 (InitTCPStack sample_router)),
         syn_sent_stack)" by (simp add: syn_sent_stack_def)
qed

lemma syn_sent_entries:
  "ts_entries syn_sent_stack = [0 \<mapsto> (newActiveEntry 0 (GenerateNewSeq (0, 0, 3, 232)) (RandomEphemeralPort 7)
     (ipv4_of 10 0 0 1) 80 (ipv4_of 10 0 0 2))\<lparr>te_sendRequests := []\<rparr>]"
proof -
  have lpm: "LongestPrefixMatch (\<lambda>_. [sample_net]) 1 [sample_net \<mapsto> sample_local] (ipv4_of 10 0 0 2)
      = Some (LpmFound sample_local (ipv4_of 10 0 0 2))" by code_simp
  have "portIsUnique [] (InitTCPStack sample_router) p" for p by (simp add: portIsUnique_def range_map_def)
  then show ?thesis using lpm
    by (simp add: syn_sent_stack_def VConnect_def Let_def put_entry_def InitTCPStack_def sample_router_def
      sample_iface_def sample_local_def)
qed

theorem segments_reach_their_connection_witness:
  "\<exists>e. tableMatch [0] syn_sent_stack 80 (ipv4_of 10 0 0 2) (RandomEphemeralPort 7) (ipv4_of 10 0 0 1) = Some (0, e)"
proof -
  let ?e = "(newActiveEntry 0 (GenerateNewSeq (0, 0, 3, 232)) (RandomEphemeralPort 7)
     (ipv4_of 10 0 0 1) 80 (ipv4_of 10 0 0 2))\<lparr>te_sendRequests := []\<rparr>"
  have e: "te_state ?e = SYN_SENT" "\<not> te_removed ?e" "te_localPort ?e = RandomEphemeralPort 7" "te_destPort ?e = 80"
    "te_localIP ?e = ipv4_of 10 0 0 1" "te_destIP ?e = ipv4_of 10 0 0 2"
    by (simp_all add: newActiveEntry_def startSynRetransTimer_def sendSyn_def send_packet_def zero_entry_def)
  then have s: "socketMap syn_sent_stack = [0 \<mapsto> ?e]" by (auto simp: socketMap_def syn_sent_entries fun_eq_iff)
  then have "set [0] = dom (socketMap syn_sent_stack)" by simp
  from segments_reach_their_connection [OF syn_sent_reach this]
  have "\<forall>i e. conn_at syn_sent_stack i e \<longrightarrow>
      tableMatch [0] syn_sent_stack (te_destPort e) (te_destIP e) (te_localPort e) (te_localIP e) = Some (i, e)" by blast
  moreover have "conn_at syn_sent_stack 0 ?e" using s e(1) by (simp add: conn_at_def)
  ultimately have "tableMatch [0] syn_sent_stack (te_destPort ?e) (te_destIP ?e) (te_localPort ?e) (te_localIP ?e)
      = Some (0, ?e)" by blast
  then show ?thesis unfolding e by blast
qed

end
