(* ===== verification/TcpConnect.thy ===== *)
theory TcpConnect
  imports TcpSockets
begin

text \<open>
  The three-way handshake between two ends: a connecting entry and the entry that a listener makes for
  its SYN, over a network that loses, repeats, delays and reorders, with the retransmission timers
  running. What both ends hold once they are established, and how the stream transfer starts from
  there.
\<close>

section \<open>The two ends\<close>

text \<open>
  The parameters of a connection: initial sequence numbers, ports, addresses, socket IDs and listener.
\<close>

record connecting =
  hc_isnA :: u32
  hc_isnB :: u32
  hc_portA :: u16
  hc_portB :: u16
  hc_ipA :: netip_addr
  hc_ipB :: netip_addr
  hc_sidA :: int
  hc_sidB :: int
  hc_listener :: int

definition active_start :: "connecting \<Rightarrow> table_entry" where
  "active_start k = newActiveEntry (hc_sidA k) (hc_isnA k) (hc_portA k) (hc_ipA k) (hc_portB k) (hc_ipB k)"

text \<open>
  A segment delivered to an entry: one of those that the other end has sent so far. The passive end is
  followed until it is established, the active one also beyond, since it still answers repeated
  SYN-ACKs.
\<close>

inductive connects :: "connecting \<Rightarrow> table_entry \<Rightarrow> table_entry option \<Rightarrow> bool" for k where
  start: "connects k (active_start k) None"
| syn_arrives: "connects k e None \<Longrightarrow> r \<in> set (te_sendRequests e) \<Longrightarrow>
    Flags (sr_tcpHeader r) AND TCPFlagSyn \<noteq> 0 \<Longrightarrow>
    connects k e (Some (newPassiveEntry (hc_sidB k) (hc_listener k) (hc_isnB k) (sr_tcpHeader r) (hc_ipB k) (hc_ipA k)))"
| to_passive: "connects k e (Some p) \<Longrightarrow> te_state p = SYN_RECEIVED \<Longrightarrow> r \<in> set (te_sendRequests e) \<Longrightarrow>
    handle_entry coin now (sr_tcpHeader r) (sr_data r) p = Inr (l, p') \<Longrightarrow> connects k e (Some p')"
| to_active: "connects k e (Some p) \<Longrightarrow> r \<in> set (te_sendRequests p) \<Longrightarrow>
    handle_entry coin now (sr_tcpHeader r) (sr_data r) e = Inr (l, e') \<Longrightarrow> connects k e' (Some p)"
| active_timer: "connects k e p \<Longrightarrow> connects k (handshake_timer_fires e) p"
| passive_timer: "connects k e (Some p) \<Longrightarrow> te_state p = SYN_RECEIVED \<Longrightarrow> connects k e (Some (handshake_timer_fires p))"

section \<open>What each end can be\<close>

definition syn_request :: "connecting \<Rightarrow> send_request \<Rightarrow> bool" where
  "syn_request k r \<longleftrightarrow> Flags (sr_tcpHeader r) = TCPFlagSyn \<and> SeqNum (sr_tcpHeader r) = hc_isnA k \<and> sr_data r = []
     \<and> SrcPort (sr_tcpHeader r) = hc_portA k \<and> DstPort (sr_tcpHeader r) = hc_portB k"

definition ack_request :: "connecting \<Rightarrow> send_request \<Rightarrow> bool" where
  "ack_request k r \<longleftrightarrow> Flags (sr_tcpHeader r) = TCPFlagAck \<and> SeqNum (sr_tcpHeader r) = hc_isnA k + 1
     \<and> AckNum (sr_tcpHeader r) = hc_isnB k + 1 \<and> sr_data r = []"

definition synack_request :: "connecting \<Rightarrow> send_request \<Rightarrow> bool" where
  "synack_request k r \<longleftrightarrow> Flags (sr_tcpHeader r) = TCPFlagSyn OR TCPFlagAck \<and> SeqNum (sr_tcpHeader r) = hc_isnB k
     \<and> AckNum (sr_tcpHeader r) = hc_isnA k + 1 \<and> sr_data r = []"

text \<open>An end that is established as the handshake leaves it, with both initial sequence numbers.\<close>

definition established :: "u32 \<Rightarrow> u32 \<Rightarrow> table_entry \<Rightarrow> bool" where
  "established ours theirs e \<longleftrightarrow> fresh_conn (ours + 1) e \<and> get_recvBuf e = Inr (newRecvBuf (theirs + 1))"

definition active_ok :: "connecting \<Rightarrow> table_entry \<Rightarrow> bool" where
  "active_ok k e \<longleftrightarrow>
     te_localPort e = hc_portA k \<and> te_destPort e = hc_portB k \<and> (\<forall>d s. te_handshakeTimer e \<noteq> ArmedHs d (RetransSynAck s))
     \<and> (if te_state e = ESTABLISHED then established (hc_isnA k) (hc_isnB k) e
          \<and> (\<forall>r \<in> set (te_sendRequests e). syn_request k r \<or> ack_request k r)
        else (te_state e = SYN_SENT \<or> te_state e = CLOSED) \<and> te_seqNum e = hc_isnA k \<and> te_normalSocket e \<noteq> None
          \<and> (\<forall>r \<in> set (te_sendRequests e). syn_request k r))"

definition passive_ok :: "connecting \<Rightarrow> table_entry \<Rightarrow> bool" where
  "passive_ok k p \<longleftrightarrow> (\<forall>r \<in> set (te_sendRequests p). synack_request k r) \<and> te_listenSocket p = Some (hc_listener k)
     \<and> (\<forall>d h. te_handshakeTimer p = ArmedHs d h \<longrightarrow> h = RetransSynAck (hc_isnA k))
     \<and> (if te_state p = ESTABLISHED then established (hc_isnB k) (hc_isnA k) p
        else (te_state p = SYN_RECEIVED \<or> te_state p = CLOSED) \<and> te_seqNum p = hc_isnB k \<and> te_normalSocket p \<noteq> None)"

lemmas request_defs = syn_request_def ack_request_def synack_request_def

section \<open>Steps\<close>

lemma send_packet_fields [simp]:
  "te_state (send_packet h d e) = te_state e" "te_seqNum (send_packet h d e) = te_seqNum e"
  "te_normalSocket (send_packet h d e) = te_normalSocket e" "te_handshakeTimer (send_packet h d e) = te_handshakeTimer e"
  "te_localPort (send_packet h d e) = te_localPort e" "te_destPort (send_packet h d e) = te_destPort e"
  "te_listenSocket (send_packet h d e) = te_listenSocket e" "te_establishedChan (send_packet h d e) = te_establishedChan e"
  "te_sendRequests (send_packet h d e) = te_sendRequests e
     @ [\<lparr>sr_tcpHeader = h, sr_data = d, sr_sourceIP = te_localIP e, sr_destIP = te_destIP e\<rparr>]"
  by (simp_all add: send_packet_def)

lemma signal_fields [simp]:
  "te_state (signalConnectResult s e) = te_state e" "te_seqNum (signalConnectResult s e) = te_seqNum e"
  "te_normalSocket (signalConnectResult s e) = te_normalSocket e"
  "te_handshakeTimer (signalConnectResult s e) = te_handshakeTimer e"
  "te_localPort (signalConnectResult s e) = te_localPort e" "te_destPort (signalConnectResult s e) = te_destPort e"
  "te_sendRequests (signalConnectResult s e) = te_sendRequests e"
  by (simp_all add: signalConnectResult_def)

lemma established_cong:
  assumes "te_state e' = te_state e" and "te_seqNum e' = te_seqNum e" and "te_normalSocket e' = te_normalSocket e"
    and "set (te_sendRequests e') \<subseteq> set (te_sendRequests e) \<union> {r. sr_data r = []}"
  shows "established a b e \<Longrightarrow> established a b e'"
proof -
  have "get_sendBuf e' = get_sendBuf e" "get_recvBuf e' = get_recvBuf e" "get_retransQueue e' = get_retransQueue e"
    using assms(3) by (simp_all add: get_defs)
  then show "established a b e \<Longrightarrow> established a b e'"
    using assms(1,2,4) unfolding established_def fresh_conn_def by auto
qed

lemma active_start_ok: "active_ok k (active_start k)"
  by (simp add: active_ok_def active_start_def newActiveEntry_def startSynRetransTimer_def sendSyn_def zero_entry_def syn_request_def)

lemma passive_start_ok:
  assumes "syn_request k r"
  shows "passive_ok k (newPassiveEntry (hc_sidB k) (hc_listener k) (hc_isnB k) (sr_tcpHeader r) ip ip')"
  using assms by (simp add: passive_ok_def newPassiveEntry_def startSynAckRetransTimer_def sendSynAck_def zero_entry_def
      syn_request_def synack_request_def)

lemma active_timer_ok:
  assumes "active_ok k e"
  shows "active_ok k (handshake_timer_fires e)"
proof (cases "\<exists>d. te_handshakeTimer e = ArmedHs d RetransSyn")
  case True
  then obtain d where d: "te_handshakeTimer e = ArmedHs d RetransSyn" by blast
  show ?thesis
  proof (cases "te_state e = SYN_SENT")
    case True
    then show ?thesis using assms d
      by (auto simp: handshake_timer_fires_def sendSynRetrans_def active_ok_def startSynRetransTimer_def sendSyn_def syn_request_def)
  next
    case False
    have "established a b e \<Longrightarrow> established a b (e\<lparr>te_handshakeTimer := FiredHsTimer\<rparr>)" for a b
      by (rule established_cong) simp_all
    then show ?thesis using assms d False by (auto simp: handshake_timer_fires_def sendSynRetrans_def active_ok_def)
  qed
next
  case False
  then have "handshake_timer_fires e = e"
    using assms by (auto simp: handshake_timer_fires_def active_ok_def split: hs_timer.split hs_callback.split)
  then show ?thesis using assms by simp
qed

lemma passive_timer_ok:
  assumes "passive_ok k p" and "te_state p = SYN_RECEIVED"
  shows "passive_ok k (handshake_timer_fires p) \<and> te_state (handshake_timer_fires p) \<noteq> ESTABLISHED"
proof (cases "te_handshakeTimer p")
  case (ArmedHs d h)
  then have "h = RetransSynAck (hc_isnA k)" using assms by (auto simp: passive_ok_def)
  then show ?thesis using assms ArmedHs
    by (auto simp: handshake_timer_fires_def sendSynAckRetrans_def passive_ok_def startSynAckRetransTimer_def
        sendSynAck_def synack_request_def)
qed (use assms in \<open>auto simp: handshake_timer_fires_def\<close>)

text \<open>A SYN-ACK at the active end: it establishes the connection, or is answered once more.\<close>

lemma active_synack:
  assumes ok: "active_ok k e" and r: "synack_request k r"
  shows "\<exists>e'. handle_entry coin now (sr_tcpHeader r) (sr_data r) e = Inr (None, e') \<and> active_ok k e'
    \<and> (te_state e = ESTABLISHED \<longrightarrow> te_state e' = ESTABLISHED)
    \<and> (te_state e = SYN_SENT \<longrightarrow> te_state e' = ESTABLISHED \<and> (\<exists>u \<in> set (te_sendRequests e'). ack_request k u))"
proof -
  consider "te_state e = CLOSED" | "te_state e = SYN_SENT" | "te_state e = ESTABLISHED"
    using ok by (auto simp: active_ok_def split: if_splits)
  then show ?thesis
  proof cases
    case 1
    then show ?thesis using ok by (simp add: handle_entry_def)
  next
    case 2
    let ?h = "sr_tcpHeader r"
    let ?e2 = "stopHandshakeTimer (e\<lparr>te_receivedSyn := True\<rparr>)\<lparr>te_seqNum := AckNum ?h, te_lastKnownAck := AckNum ?h, te_state := ESTABLISHED\<rparr>"
    let ?e3 = "set_sendBuf (newSendBuf (te_seqNum ?e2)) (set_recvBuf (newRecvBuf (SeqNum ?h + 1)) ?e2)"
    let ?e4 = "set_retransQueue newRetransQueue (set_sendBuf ((newSendBuf (te_seqNum ?e2))\<lparr>sb_otherSideWindow := WindowSize ?h\<rparr>) ?e3)"
    let ?e' = "signalConnectResult ESTABLISHED (sendAckHandshake (SeqNum ?h) ?e4)"
    obtain c where c: "te_normalSocket e = Some c" using ok 2 by (auto simp: active_ok_def)
    have "get_sendBuf ?e3 = Inr (newSendBuf (te_seqNum ?e2))" "get_conn ?e2 = Inr c"
      using c by (simp_all add: get_defs set_defs stopHandshakeTimer_def)
    then have run: "handle_entry coin now ?h (sr_data r) e = Inr (None, ?e')"
      using 2 r ok by (simp add: handle_entry_def handleSynAck_def Let_def synack_request_def active_ok_def
          initBufs_def stopHandshakeTimer_def sendAckHandshake_def set_defs)
    have "established (hc_isnA k) (hc_isnB k) ?e'"
      using c r ok 2 by (auto simp: established_def fresh_conn_def get_defs set_defs sendAckHandshake_def stopHandshakeTimer_def
          newRetransQueue_def synack_request_def active_ok_def syn_request_def)
    then have "active_ok k ?e'"
      using ok r 2 by (auto simp: active_ok_def sendAckHandshake_def set_defs stopHandshakeTimer_def request_defs)
    moreover have "\<exists>u \<in> set (te_sendRequests ?e'). ack_request k u"
      using r ok 2 by (auto simp: sendAckHandshake_def set_defs stopHandshakeTimer_def request_defs active_ok_def)
    ultimately show ?thesis using run 2 by (auto simp: sendAckHandshake_def set_defs)
  next
    case 3
    let ?e' = "sendAckHandshake (SeqNum (sr_tcpHeader r)) e"
    have run: "handle_entry coin now (sr_tcpHeader r) (sr_data r) e = Inr (None, ?e')"
      using 3 r by (simp add: handle_entry_def handle_open_def synack_request_def has_flag_def)
    have est: "established (hc_isnA k) (hc_isnB k) e" using ok 3 by (simp add: active_ok_def)
    then have "established (hc_isnA k) (hc_isnB k) ?e'"
      by (rule established_cong [rotated -1]) (simp_all add: sendAckHandshake_def)
    moreover have "te_seqNum e = hc_isnA k + 1" using est by (simp add: established_def fresh_conn_def)
    ultimately have "active_ok k ?e'"
      using ok r 3 by (auto simp: active_ok_def sendAckHandshake_def request_defs)
    then show ?thesis using run 3 by (auto simp: sendAckHandshake_def)
  qed
qed

text \<open>The active end's segments at the passive end: a SYN is ignored, an ACK establishes the connection.\<close>

lemma passive_segment:
  assumes ok: "passive_ok k p" and st: "te_state p = SYN_RECEIVED" and r: "syn_request k r \<or> ack_request k r"
  shows "\<exists>l p'. handle_entry coin now (sr_tcpHeader r) (sr_data r) p = Inr (l, p') \<and> passive_ok k p'
    \<and> (te_state p' = ESTABLISHED \<longleftrightarrow> ack_request k r) \<and> (te_state p' = ESTABLISHED \<longrightarrow> l = Some (hc_listener k))"
proof (cases "syn_request k r")
  case True
  then have "handle_entry coin now (sr_tcpHeader r) (sr_data r) p = Inr (None, p)"
    using st by (simp add: handle_entry_def handleAckHandshake_def syn_request_def)
  moreover have "\<not> ack_request k r" using True by (simp add: request_defs)
  ultimately show ?thesis using ok st by auto
next
  case False
  then have a: "ack_request k r" using r by simp
  let ?h = "sr_tcpHeader r"
  let ?e2 = "stopHandshakeTimer (p\<lparr>te_seqNum := te_seqNum p + 1, te_receivedSynAck := True\<rparr>)\<lparr>te_state := ESTABLISHED, te_lastKnownAck := AckNum ?h\<rparr>"
  let ?e3 = "set_sendBuf (newSendBuf (te_seqNum ?e2)) (set_recvBuf (newRecvBuf (SeqNum ?h)) ?e2)"
  let ?p' = "set_conn (\<lambda>c. c\<lparr>vc_socketID := te_socketID ?e3\<rparr>) (set_retransQueue newRetransQueue ?e3)"
  obtain c where c: "te_normalSocket p = Some c" using ok st by (auto simp: passive_ok_def)
  have l: "te_listenSocket p = Some (hc_listener k)" "te_seqNum p = hc_isnB k" using ok st by (auto simp: passive_ok_def)
  have "get_conn ?e2 = Inr c" using c by (simp add: get_defs stopHandshakeTimer_def)
  then have run: "handle_entry coin now ?h (sr_data r) p = Inr (Some (hc_listener k), ?p')"
    using st a l by (simp add: handle_entry_def handleAckHandshake_def Let_def ack_request_def initBufs_def
        stopHandshakeTimer_def set_defs)
  have est: "established (hc_isnB k) (hc_isnA k) ?p'"
    using c a l ok by (auto simp: established_def fresh_conn_def get_defs set_defs stopHandshakeTimer_def
        newRetransQueue_def newSendBuf_def ack_request_def passive_ok_def synack_request_def)
  then have "passive_ok k ?p'" using ok by (auto simp: passive_ok_def set_defs stopHandshakeTimer_def established_def fresh_conn_def)
  moreover have "te_state ?p' = ESTABLISHED" by (simp add: set_defs)
  ultimately show ?thesis using run a by blast
qed

section \<open>The invariant\<close>

definition ends_ok :: "connecting \<Rightarrow> table_entry \<Rightarrow> table_entry option \<Rightarrow> bool" where
  "ends_ok k e po \<longleftrightarrow> active_ok k e \<and> (\<forall>p. po = Some p \<longrightarrow> passive_ok k p \<and> (te_state p = ESTABLISHED \<longrightarrow> te_state e = ESTABLISHED))"

lemma timer_keeps_established: "te_state e = ESTABLISHED \<Longrightarrow> te_state (handshake_timer_fires e) = ESTABLISHED"
  by (simp add: handshake_timer_fires_def sendSynRetrans_def sendSynAckRetrans_def split: hs_timer.split hs_callback.split)

lemma active_requests:
  assumes "active_ok k e" and "r \<in> set (te_sendRequests e)"
  shows "syn_request k r \<or> ack_request k r" and "ack_request k r \<Longrightarrow> te_state e = ESTABLISHED"
  using assms by (auto simp: active_ok_def request_defs split: if_splits)

lemma connects_ok: "connects k e po \<Longrightarrow> ends_ok k e po"
proof (induction rule: connects.induct)
  case start
  then show ?case by (simp add: ends_ok_def active_start_ok)
next
  case (syn_arrives e r)
  then have "syn_request k r" using active_requests(1) [of k e r] by (auto simp: ends_ok_def ack_request_def)
  then show ?case using syn_arrives.IH passive_start_ok newPassiveEntry_fields(2) by (simp add: ends_ok_def)
next
  case (to_passive e p r coin now l p')
  then have ok: "active_ok k e" "passive_ok k p" by (auto simp: ends_ok_def)
  from passive_segment [OF ok(2) to_passive(2) active_requests(1) [OF ok(1) to_passive(3)], of coin now] to_passive(4)
  have "passive_ok k p'" "te_state p' = ESTABLISHED \<longleftrightarrow> ack_request k r" by auto
  then show ?case using ok(1) active_requests(2) [OF ok(1) to_passive(3)] by (auto simp: ends_ok_def)
next
  case (to_active e p r coin now l e')
  then have ok: "active_ok k e" "passive_ok k p" "te_state p = ESTABLISHED \<longrightarrow> te_state e = ESTABLISHED" by (auto simp: ends_ok_def)
  have "synack_request k r" using ok(2) to_active(2) by (auto simp: passive_ok_def)
  from active_synack [OF ok(1) this, of coin now] to_active(3) show ?case using ok(2,3) by (auto simp: ends_ok_def)
next
  case (active_timer e p)
  then show ?case using active_timer_ok timer_keeps_established by (auto simp: ends_ok_def)
next
  case (passive_timer e p)
  then show ?case using passive_timer_ok by (auto simp: ends_ok_def)
qed

section \<open>Properties\<close>


text \<open>A connection set up by a SYN, a SYN-ACK and an ACK, each delivered once.\<close>

definition sample_connecting :: connecting where
  "sample_connecting = \<lparr>hc_isnA = 1000, hc_isnB = 7, hc_portA = 50000, hc_portB = 80, hc_ipA = IPv4 1, hc_ipB = IPv4 2,
     hc_sidA = 0, hc_sidB = 1, hc_listener = 0\<rparr>"

lemma connection_exists: "\<exists>e p. connects k e (Some p) \<and> te_state p = ESTABLISHED"
proof -
  let ?e0 = "active_start k"
  obtain s where s: "s \<in> set (te_sendRequests ?e0)" "syn_request k s"
    using active_start_ok [of k]
    by (auto simp: active_ok_def active_start_def newActiveEntry_def startSynRetransTimer_def sendSyn_def zero_entry_def)
  let ?p0 = "newPassiveEntry (hc_sidB k) (hc_listener k) (hc_isnB k) (sr_tcpHeader s) (hc_ipB k) (hc_ipA k)"
  have c1: "connects k ?e0 (Some ?p0)"
    by (rule connects.syn_arrives [OF connects.start s(1)]) (use s(2) in \<open>simp add: syn_request_def\<close>)
  obtain t where t: "t \<in> set (te_sendRequests ?p0)"
    by (auto simp: newPassiveEntry_def startSynAckRetransTimer_def sendSynAck_def)
  have ok: "active_ok k ?e0" "passive_ok k ?p0" using connects_ok [OF c1] by (auto simp: ends_ok_def)
  then have "synack_request k t" using t by (auto simp: passive_ok_def)
  moreover have "te_state ?e0 = SYN_SENT" by (simp add: active_start_def newActiveEntry_fields)
  ultimately obtain e1 where e1: "handle_entry False 0 (sr_tcpHeader t) (sr_data t) ?e0 = Inr (None, e1)" "te_state e1 = ESTABLISHED"
    "active_ok k e1" "\<exists>u \<in> set (te_sendRequests e1). ack_request k u" using active_synack [OF ok(1)] by blast
  have c2: "connects k e1 (Some ?p0)" by (rule connects.to_active [OF c1 t e1(1)])
  obtain u where u: "u \<in> set (te_sendRequests e1)" "ack_request k u" using e1(4) by blast
  have p0: "te_state ?p0 = SYN_RECEIVED" by (simp add: newPassiveEntry_fields)
  obtain l p where p: "handle_entry False 0 (sr_tcpHeader u) (sr_data u) ?p0 = Inr (l, p)" "te_state p = ESTABLISHED"
    using passive_segment [OF ok(2) p0, of u] u(2) by blast
  from connects.to_passive [OF c2 p0 u(1) p(1)] p(2) show ?thesis by blast
qed


section \<open>Where the handshake goes wrong\<close>

lemma repeated_payload:
  assumes "get_recvBuf e = Inr rb" and "SeqNum h < rb_nxt rb" and "\<not> te_dropForRetrans e"
  shows "handlePayload coin h d e = sendPureAck (rb_nxt rb) e"
proof -
  have "\<not> rb_nxt rb < SeqNum h" using assms(2) by auto
  with assms show ?thesis by (simp add: handlePayload_def)
qed

lemma newRecvBuf_nxt: "rb_nxt (newRecvBuf s) = s"
  by (simp add: newRecvBuf_def)

text \<open>
  C40. The handshake takes its first data from any ACK. When the last segment of the handshake and the
  first data segment are lost, the second data segment completes the handshake: its payload is dropped,
  but its sequence number becomes the next one expected. The first segment, sent again, is acknowledged
  as a repetition; its bytes never reach the application although the sender is told that they did.
\<close>

theorem lost_handshake_ack_skips_data:
  assumes "te_state p = SYN_RECEIVED" and "te_normalSocket p \<noteq> None" and "te_listenSocket p = Some l"
    and "\<not> te_dropForRetrans p"
    and "Flags second = TCPFlagAck" and "AckNum second = te_seqNum p + 1"
    and "Flags first = TCPFlagAck" and "SeqNum first < SeqNum second" and "d1 \<noteq> []"
  shows "\<exists>p1 p2 q. handle_entry coin now second d2 p = Inr (Some l, p1) \<and> te_state p1 = ESTABLISHED
    \<and> handle_entry coin' now' first d1 p1 = Inr (None, p2)
    \<and> get_recvBuf p2 = Inr (newRecvBuf (SeqNum second))
    \<and> te_sendRequests p2 = te_sendRequests p1 @ [q] \<and> AckNum (sr_tcpHeader q) = SeqNum second"
proof -
  let ?e2 = "stopHandshakeTimer (p\<lparr>te_seqNum := te_seqNum p + 1, te_receivedSynAck := True\<rparr>)\<lparr>te_state := ESTABLISHED, te_lastKnownAck := AckNum second\<rparr>"
  let ?e3 = "set_sendBuf (newSendBuf (te_seqNum ?e2)) (set_recvBuf (newRecvBuf (SeqNum second)) ?e2)"
  let ?p1 = "set_conn (\<lambda>c. c\<lparr>vc_socketID := te_socketID ?e3\<rparr>) (set_retransQueue newRetransQueue ?e3)"
  obtain c where c: "te_normalSocket p = Some c" using assms(2) by blast
  have "get_conn ?e2 = Inr c" using c by (simp add: get_defs stopHandshakeTimer_def)
  then have 1: "handle_entry coin now second d2 p = Inr (Some l, ?p1)"
    using assms(1,3,5,6) by (simp add: handle_entry_def handleAckHandshake_def Let_def initBufs_def stopHandshakeTimer_def set_defs)
  have st: "te_state ?p1 = ESTABLISHED" "\<not> te_dropForRetrans ?p1" using assms(4) by (simp_all add: set_defs stopHandshakeTimer_def)
  have rb: "get_recvBuf ?p1 = Inr (newRecvBuf (SeqNum second))"
    using c by (simp add: get_defs set_defs stopHandshakeTimer_def)
  obtain h where h: "sendPureAck (SeqNum second) ?p1 = Inr (send_packet h [] ?p1)" "AckNum h = SeqNum second"
    by (rule sendPureAck_ok [OF rb]) blast
  have "handlePayload coin' first d1 ?p1 = sendPureAck (rb_nxt (newRecvBuf (SeqNum second))) ?p1"
    using repeated_payload [OF rb _ st(2), of first] assms(8) unfolding newRecvBuf_nxt by blast
  then have "handlePayload coin' first d1 ?p1 = Inr (send_packet h [] ?p1)"
    unfolding newRecvBuf_nxt h(1) .
  then have 2: "handle_entry coin' now' first d1 ?p1 = Inr (None, send_packet h [] ?p1)"
    using st(1) assms(7,9) by (simp add: handle_entry_def handle_open_def has_flag_def)
  have "get_recvBuf (send_packet h [] ?p1) = get_recvBuf ?p1" by (simp add: get_defs)
  then show ?thesis using 1 2 st(1) rb h(2)
    by (intro exI [of _ ?p1] exI [of _ "send_packet h [] ?p1"]) simp
qed

definition sample_passive :: table_entry where
  "sample_passive = newPassiveEntry 1 0 7 \<lparr>SrcPort = 50000, DstPort = 80, SeqNum = 1000, AckNum = 0, DataOffset = 20,
     Flags = 2, WindowSize = 65535, Checksum = 0, UrgentPointer = 0\<rparr> (IPv4 2) (IPv4 1)"

definition data_header :: "u32 \<Rightarrow> tcp_fields" where
  "data_header s = \<lparr>SrcPort = 50000, DstPort = 80, SeqNum = s, AckNum = 8, DataOffset = 20, Flags = 16,
     WindowSize = 65535, Checksum = 0, UrgentPointer = 0\<rparr>"

theorem lost_handshake_ack_skips_data_witness:
  "\<exists>p1 p2 q. handle_entry False 0 (data_header 1004) [5, 6, 7] sample_passive = Inr (Some 0, p1)
    \<and> handle_entry False 0 (data_header 1001) [1, 2, 3] p1 = Inr (None, p2)
    \<and> get_recvBuf p2 = Inr (newRecvBuf 1004) \<and> te_sendRequests p2 = te_sendRequests p1 @ [q] \<and> AckNum (sr_tcpHeader q) = 1004"
  using lost_handshake_ack_skips_data [of sample_passive 0 "data_header 1004" "data_header 1001" "[1, 2, 3]" False 0 "[5, 6, 7]" False 0]
  by (simp add: data_header_def sample_passive_def newPassiveEntry_def startSynAckRetransTimer_def sendSynAck_def
      send_packet_def zero_entry_def) blast

text \<open>The SYNs of an entry that is not answered.\<close>

definition waiting_entry :: "nat \<Rightarrow> table_entry \<Rightarrow> bool" where
  "waiting_entry n e \<longleftrightarrow> te_state e = SYN_SENT \<and> \<not> te_receivedSyn e \<and> te_numSynRetransmissions e = int n
     \<and> (\<exists>d. te_handshakeTimer e = ArmedHs d RetransSyn) \<and> te_establishedChan e = Some None \<and> \<not> te_removed e
     \<and> (\<exists>r. te_sendRequests e = replicate (Suc n) r \<and> (\<forall>s. sendSyn s = send_packet (sr_tcpHeader r) [] s
            \<or> te_localPort s \<noteq> te_localPort e \<or> te_destPort s \<noteq> te_destPort e \<or> te_seqNum s \<noteq> te_seqNum e)
          \<and> sr_data r = [] \<and> sr_sourceIP r = te_localIP e \<and> sr_destIP r = te_destIP e)"

lemma waiting_step:
  assumes "waiting_entry n e" and "n < 4"
  shows "waiting_entry (Suc n) (handshake_timer_fires e)"
proof -
  obtain d r where e: "te_state e = SYN_SENT" "\<not> te_receivedSyn e" "te_numSynRetransmissions e = int n"
    "te_handshakeTimer e = ArmedHs d RetransSyn" "te_establishedChan e = Some None" "\<not> te_removed e"
    "te_sendRequests e = replicate (Suc n) r" "sr_data r = []" "sr_sourceIP r = te_localIP e" "sr_destIP r = te_destIP e"
    and syn: "\<And>s. sendSyn s = send_packet (sr_tcpHeader r) [] s
            \<or> te_localPort s \<noteq> te_localPort e \<or> te_destPort s \<noteq> te_destPort e \<or> te_seqNum s \<noteq> te_seqNum e"
    using assms(1) unfolding waiting_entry_def by auto
  let ?s = "e\<lparr>te_handshakeTimer := FiredHsTimer, te_numSynRetransmissions := te_numSynRetransmissions e + 1\<rparr>"
  have "handshake_timer_fires e = startSynRetransTimer (send_packet (sr_tcpHeader r) [] ?s)"
    using e assms(2) syn [of ?s] by (simp add: handshake_timer_fires_def sendSynRetrans_def)
  moreover have "\<lparr>sr_tcpHeader = sr_tcpHeader r, sr_data = [], sr_sourceIP = te_localIP e, sr_destIP = te_destIP e\<rparr> = r"
    using e(8-10) by (cases r) simp
  moreover have "replicate (Suc n) r @ [r] = replicate (Suc (Suc n)) r" by (simp add: replicate_append_same)
  ultimately show ?thesis using e syn
    by (auto simp: waiting_entry_def startSynRetransTimer_def send_packet_def intro!: exI [of _ r])
qed

lemma waiting_start: "waiting_entry 0 (active_start k)"
  by (auto simp: waiting_entry_def active_start_def newActiveEntry_def startSynRetransTimer_def sendSyn_def send_packet_def zero_entry_def)

lemma waiting_runs: "n \<le> 4 \<Longrightarrow> waiting_entry n ((handshake_timer_fires ^^ n) (active_start k))"
  by (induction n) (simp_all add: waiting_start waiting_step)

text \<open>
  Connecting ends. When no answer comes, the SYN is sent five times, the same each time; the fifth
  timeout closes the entry, takes it from the table and reports an error to the waiting
  \<open>VConnect\<close>, which returns it, and no timer is armed any more.
\<close>

theorem connecting_gives_up:
  assumes "n \<le> 4"
  shows "te_state ((handshake_timer_fires ^^ n) (active_start k)) = SYN_SENT
    \<and> (\<exists>r. te_sendRequests ((handshake_timer_fires ^^ n) (active_start k)) = replicate (Suc n) r \<and> syn_request k r)
    \<and> (let e = (handshake_timer_fires ^^ 5) (active_start k) in
        te_state e = CLOSED \<and> te_removed e \<and> length (te_sendRequests e) = 5 \<and> handshake_timer_fires e = e
        \<and> (ts_entries ts sid = Some e \<longrightarrow> (\<exists>ts'. VConnect_wait sid ts = Inr (WaitFailed, ts'))))"
proof -
  let ?e = "(handshake_timer_fires ^^ 4) (active_start k)"
  have w: "waiting_entry n ((handshake_timer_fires ^^ n) (active_start k))" by (rule waiting_runs [OF assms])
  have ok: "active_ok k ((handshake_timer_fires ^^ m) (active_start k))" for m
    by (induction m) (simp_all add: active_start_ok active_timer_ok)
  have "waiting_entry 4 ?e" by (rule waiting_runs) simp
  then obtain d r where e: "te_state ?e = SYN_SENT" "\<not> te_receivedSyn ?e" "te_numSynRetransmissions ?e = 4"
    "te_handshakeTimer ?e = ArmedHs d RetransSyn" "te_establishedChan ?e = Some None" "te_sendRequests ?e = replicate 5 r"
    by (auto simp: waiting_entry_def eval_nat_numeral)
  have five: "(handshake_timer_fires ^^ 5) (active_start k) = handshake_timer_fires ?e" by (simp add: eval_nat_numeral)
  have last: "handshake_timer_fires ?e = signalConnectResult ERROR (?e\<lparr>te_handshakeTimer := FiredHsTimer, te_state := CLOSED, te_removed := True\<rparr>)"
    using e by (simp add: handshake_timer_fires_def sendSynRetrans_def)
  have "syn_request k r'" if "r' \<in> set (te_sendRequests ((handshake_timer_fires ^^ n) (active_start k)))" for r'
    using ok [of n] that w by (auto simp: active_ok_def waiting_entry_def)
  moreover have "handshake_timer_fires (handshake_timer_fires ?e) = handshake_timer_fires ?e"
    unfolding last by (simp add: handshake_timer_fires_def signalConnectResult_def e)
  ultimately show ?thesis using w e unfolding five last Let_def
    by (auto simp: waiting_entry_def signalConnectResult_def VConnect_wait_def)
qed

theorem connecting_gives_up_witness:
  "te_state ((handshake_timer_fires ^^ 3) (active_start sample_connecting)) = SYN_SENT"
  using connecting_gives_up [of 3 sample_connecting] by simp

lemma tableMatch_loop_listener:
  "tableMatch_loop sp si dp di xs m = None \<Longrightarrow>
     m = None \<and> (\<forall>x \<in> set xs. \<not> (te_state (snd x) = LISTEN \<and> te_localPort (snd x) = dp))"
  by (induction sp si dp di xs m rule: tableMatch_loop.induct) (auto split: if_splits)

text \<open>
  A reset to a listening port ends the process. In any reachable state of the stack, a segment with
  a valid checksum and the RST flag that matches no connection but the port of a listener, from any
  sender, makes the handler dereference the listener's missing connection.
\<close>

theorem reset_to_listener_panics:
  assumes "stack_reach ih ns ts" and "set ord = dom (socketMap ts)"
    and "socketMap ts i = Some e" and "te_state e = LISTEN" and "te_localPort e = DstPort h"
    and "\<forall>j f. conn_at ts j f \<longrightarrow> tuple_of f \<noteq> (DstPort h, ip_Dst hdr, SrcPort h, ip_Src hdr)"
    and "ParseAndValidateTCP ns hdr payload = Inr (h, d, True)" and "has_flag h TCPFlagRst"
  shows "HandleTCP ns ord coin now rand hdr payload ts = Inl NilDereference"
proof -
  have ok: "stack_ok ts" by (rule stack_reach_ok [OF assms(1)])
  have ord: "enumerates ord (socketMap ts)" using assms(2) by (simp add: enumerates_def)
  obtain j f where m: "tableMatch ord ts (SrcPort h) (ip_Src hdr) (DstPort h) (ip_Dst hdr) = Some (j, f)"
    "socketMap ts j = Some f" "te_state f = LISTEN"
  proof (rule tableMatch_cases [OF ord refl, of "SrcPort h" "ip_Src hdr" "DstPort h" "ip_Dst hdr"], goal_cases)
    case (3)
    have "(i, e) \<in> set (range_map (socketMap ts) ord)" using assms(3) ord by (auto simp: set_range_map enumerates_def)
    then show ?case using tableMatch_loop_listener [OF 3(2) [unfolded tableMatch_def]] assms(4,5) by force
  qed (use assms(6) in blast)+
  have "ts_entries ts j = Some f" using m(2) by (simp add: socketMap_Some)
  from stack_okD(4) [OF ok this m(3)] have "te_normalSocket f = None" ..
  then have "teardown (f\<lparr>te_state := CLOSED\<rparr>) = Inl NilDereference" by (simp add: teardown_def get_defs)
  then show ?thesis using m(1) assms(7,8) by (simp add: HandleTCP_def)
qed

definition listening_stack :: tcp_stack where
  "listening_stack = snd (VListen 80 (InitTCPStack sample_router))"

definition reset_header :: tcp_fields where
  "reset_header = \<lparr>SrcPort = 50000, DstPort = 80, SeqNum = 0, AckNum = 0, DataOffset = 20, Flags = TCPFlagRst,
     WindowSize = 0, Checksum = 0, UrgentPointer = 0\<rparr>"

theorem reset_to_listener_panics_witness:
  "\<exists>hdr payload. HandleTCP sample_netstack [0] False 0 (0, 0, 0, 0) hdr payload listening_stack = Inl NilDereference"
proof -
  let ?e = "zero_entry\<lparr>te_localPort := 80, te_state := LISTEN, te_socketID := 0, te_listenSocket := Some 0\<rparr>"
  let ?r = "\<lparr>sr_tcpHeader = reset_header, sr_data = [], sr_sourceIP = IPv4 1, sr_destIP = IPv4 2\<rparr>"
  let ?i = "\<lparr>ip_Version = 4, ip_Len = 20, ip_TOS = 0, ip_TotalLen = 40, ip_ID = 0, ip_Flags = 0,
      ip_FragOff = 0, ip_TTL = 32, ip_Protocol = 6, ip_Checksum = 0, ip_Src = IPv4 1, ip_Dst = IPv4 2,
      ip_Options = []\<rparr>"
  have reach: "stack_reach ih sample_netstack listening_stack" for ih
    unfolding listening_stack_def
    by (rule stack_reach.step [OF stack_reach.initial stack_step.listen [OF surjective_pairing]])
  have map: "socketMap listening_stack = [0 \<mapsto> ?e]"
    by (auto simp: socketMap_def listening_stack_def VListen_def InitTCPStack_def zero_entry_def fun_eq_iff)
  have parse: "ParseAndValidateTCP sample_netstack ?i (segment_bytes sample_netstack ?r) = Inr (reset_header, [], True)"
    by code_simp
  have "HandleTCP sample_netstack [0] False 0 (0, 0, 0, 0) ?i (segment_bytes sample_netstack ?r) listening_stack = Inl NilDereference"
    by (rule reset_to_listener_panics [OF reach _ _ _ _ _ parse])
      (auto simp: map conn_at_def reset_header_def has_flag_def zero_entry_def split: if_splits)
  then show ?thesis by blast
qed

end
