(* ===== verification/TlsMessages.thy ===== *)
theory TlsMessages
  imports Protocol
begin

text \<open>
  The three handshake messages of \<open>src/pkg/tlsStack/messages.go\<close>: their types, serialisation and
  deserialisation. An error that a function returns is \<open>None\<close>; what the message says is not kept.
\<close>

section \<open>Lengths and message types\<close>

abbreviation (input) X25519PublicKeyLen :: nat where "X25519PublicKeyLen \<equiv> 32"
abbreviation (input) Ed25519SignatureLen :: nat where "Ed25519SignatureLen \<equiv> 64"
abbreviation (input) AESGCMKeyLen :: nat where "AESGCMKeyLen \<equiv> 32"
abbreviation (input) AESGCMTagLen :: nat where "AESGCMTagLen \<equiv> 16"

definition UserToServer_DHPublicValue_Type :: u8 where "UserToServer_DHPublicValue_Type = 1"
definition ServerToUser_DHPublicValue_Type :: u8 where "ServerToUser_DHPublicValue_Type = 2"
definition UserToServer_DHSignature_Type :: u8 where "UserToServer_DHSignature_Type = 3"

lemmas message_types = UserToServer_DHPublicValue_Type_def ServerToUser_DHPublicValue_Type_def
  UserToServer_DHSignature_Type_def

record user_dh_message =
  um_UserDHPublicValue :: bytes

record server_dh_message =
  sm_ServerDHPublicValue :: bytes
  sm_UserDHPublicValue :: bytes
  sm_ServerSignature :: bytes

record user_sig_message =
  us_UserDHPublicValue :: bytes
  us_ServerDHPublicValue :: bytes
  us_UserSignature :: bytes

text \<open>The interface \<open>Serializable\<close>: the three types that implement it.\<close>

datatype serializable = UserDH user_dh_message | ServerDH server_dh_message | UserSig user_sig_message

section \<open>Serialisation\<close>

definition Serialize_UserDH :: "user_dh_message \<Rightarrow> bytes option" where
  "Serialize_UserDH m =
     (if length (um_UserDHPublicValue m) \<noteq> X25519PublicKeyLen then None
      else
        let out = replicate (1 + X25519PublicKeyLen) 0;
            i = 0;
            out = out[i := UserToServer_DHPublicValue_Type];
            i = i + 1
        in Some (blit i (um_UserDHPublicValue m) out))"

definition Deserialize_UserDH :: "bytes \<Rightarrow> user_dh_message option" where
  "Deserialize_UserDH data =
     (let expectedLen = 1 + X25519PublicKeyLen in
      if length data \<noteq> expectedLen then None
      else if data ! 0 \<noteq> UserToServer_DHPublicValue_Type then None
      else
        let i = 1 in Some \<lparr>um_UserDHPublicValue = subslice i X25519PublicKeyLen data\<rparr>)"

definition Serialize_ServerDH :: "server_dh_message \<Rightarrow> bytes option" where
  "Serialize_ServerDH m =
     (if length (sm_ServerDHPublicValue m) \<noteq> X25519PublicKeyLen then None
      else if length (sm_UserDHPublicValue m) \<noteq> X25519PublicKeyLen then None
      else if length (sm_ServerSignature m) \<noteq> Ed25519SignatureLen then None
      else
        let expectedLen = 1 + X25519PublicKeyLen + X25519PublicKeyLen + Ed25519SignatureLen;
            out = replicate expectedLen 0;
            i = 0;
            out = out[i := ServerToUser_DHPublicValue_Type];
            i = i + 1;
            out = blit i (sm_ServerDHPublicValue m) out;
            i = i + X25519PublicKeyLen;
            out = blit i (sm_UserDHPublicValue m) out;
            i = i + X25519PublicKeyLen
        in Some (blit i (sm_ServerSignature m) out))"

definition Deserialize_ServerDH :: "bytes \<Rightarrow> server_dh_message option" where
  "Deserialize_ServerDH data =
     (let expectedLen = 1 + X25519PublicKeyLen + X25519PublicKeyLen + Ed25519SignatureLen in
      if length data \<noteq> expectedLen then None
      else if data ! 0 \<noteq> ServerToUser_DHPublicValue_Type then None
      else
        let i = 1;
            serverDH = subslice i X25519PublicKeyLen data;
            i = i + X25519PublicKeyLen;
            userDH = subslice i X25519PublicKeyLen data;
            i = i + X25519PublicKeyLen;
            sig = subslice i Ed25519SignatureLen data
        in Some \<lparr>sm_ServerDHPublicValue = serverDH, sm_UserDHPublicValue = userDH, sm_ServerSignature = sig\<rparr>)"

definition Serialize_UserSig :: "user_sig_message \<Rightarrow> bytes option" where
  "Serialize_UserSig m =
     (if length (us_UserDHPublicValue m) \<noteq> X25519PublicKeyLen then None
      else if length (us_ServerDHPublicValue m) \<noteq> X25519PublicKeyLen then None
      else if length (us_UserSignature m) \<noteq> Ed25519SignatureLen then None
      else
        let expectedLen = 1 + X25519PublicKeyLen + X25519PublicKeyLen + Ed25519SignatureLen;
            out = replicate expectedLen 0;
            i = 0;
            out = out[i := UserToServer_DHSignature_Type];
            i = i + 1;
            out = blit i (us_UserDHPublicValue m) out;
            i = i + X25519PublicKeyLen;
            out = blit i (us_ServerDHPublicValue m) out;
            i = i + X25519PublicKeyLen
        in Some (blit i (us_UserSignature m) out))"

definition Deserialize_UserSig :: "bytes \<Rightarrow> user_sig_message option" where
  "Deserialize_UserSig data =
     (let expectedLen = 1 + X25519PublicKeyLen + X25519PublicKeyLen + Ed25519SignatureLen in
      if length data \<noteq> expectedLen then None
      else if data ! 0 \<noteq> UserToServer_DHSignature_Type then None
      else
        let i = 1;
            userDH = subslice i X25519PublicKeyLen data;
            i = i + X25519PublicKeyLen;
            serverDH = subslice i X25519PublicKeyLen data;
            i = i + X25519PublicKeyLen;
            sig = subslice i Ed25519SignatureLen data
        in Some \<lparr>us_UserDHPublicValue = userDH, us_ServerDHPublicValue = serverDH, us_UserSignature = sig\<rparr>)"

fun Serialize :: "serializable \<Rightarrow> bytes option" where
  "Serialize (UserDH m) = Serialize_UserDH m"
| "Serialize (ServerDH m) = Serialize_ServerDH m"
| "Serialize (UserSig m) = Serialize_UserSig m"

section \<open>What the messages look like\<close>

lemma Serialize_UserDH_eq:
  "Serialize_UserDH m = (if length (um_UserDHPublicValue m) = 32
     then Some (UserToServer_DHPublicValue_Type # um_UserDHPublicValue m) else None)"
  by (simp add: Serialize_UserDH_def blit_def numeral_eq_Suc)

lemma blit_three:
  assumes "length a = 32" and "length b = 32" and "length c = 64"
  shows "blit 65 c (blit 33 b (blit 1 a ((replicate 129 0)[0 := t]))) = t # a @ b @ c"
  using assms by (simp add: blit_def numeral_eq_Suc)

lemma Serialize_ServerDH_eq:
  "Serialize_ServerDH m = (if length (sm_ServerDHPublicValue m) = 32 \<and> length (sm_UserDHPublicValue m) = 32
      \<and> length (sm_ServerSignature m) = 64
     then Some (ServerToUser_DHPublicValue_Type # sm_ServerDHPublicValue m @ sm_UserDHPublicValue m @ sm_ServerSignature m)
     else None)"
  by (simp add: Serialize_ServerDH_def blit_three [simplified])

lemma Serialize_UserSig_eq:
  "Serialize_UserSig m = (if length (us_UserDHPublicValue m) = 32 \<and> length (us_ServerDHPublicValue m) = 32
      \<and> length (us_UserSignature m) = 64
     then Some (UserToServer_DHSignature_Type # us_UserDHPublicValue m @ us_ServerDHPublicValue m @ us_UserSignature m)
     else None)"
  by (simp add: Serialize_UserSig_def blit_three [simplified])

lemma Deserialize_UserDH_eq:
  "length a = 32 \<Longrightarrow> Deserialize_UserDH (t # a) =
     (if t = UserToServer_DHPublicValue_Type then Some \<lparr>um_UserDHPublicValue = a\<rparr> else None)"
  by (simp add: Deserialize_UserDH_def subslice_def)

lemma Deserialize_ServerDH_eq:
  "length a = 32 \<Longrightarrow> length b = 32 \<Longrightarrow> length c = 64 \<Longrightarrow> Deserialize_ServerDH (t # a @ b @ c) =
     (if t = ServerToUser_DHPublicValue_Type
      then Some \<lparr>sm_ServerDHPublicValue = a, sm_UserDHPublicValue = b, sm_ServerSignature = c\<rparr> else None)"
  by (simp add: Deserialize_ServerDH_def subslice_def Let_def)

lemma Deserialize_UserSig_eq:
  "length a = 32 \<Longrightarrow> length b = 32 \<Longrightarrow> length c = 64 \<Longrightarrow> Deserialize_UserSig (t # a @ b @ c) =
     (if t = UserToServer_DHSignature_Type
      then Some \<lparr>us_UserDHPublicValue = a, us_ServerDHPublicValue = b, us_UserSignature = c\<rparr> else None)"
  by (simp add: Deserialize_UserSig_def subslice_def Let_def)

lemma Deserialize_length:
  "Deserialize_UserDH d = Some m \<Longrightarrow> length (um_UserDHPublicValue m) = 32"
  "Deserialize_ServerDH d = Some s \<Longrightarrow> length (sm_ServerDHPublicValue s) = 32 \<and> length (sm_UserDHPublicValue s) = 32
     \<and> length (sm_ServerSignature s) = 64"
  "Deserialize_UserSig d = Some u \<Longrightarrow> length (us_UserDHPublicValue u) = 32 \<and> length (us_ServerDHPublicValue u) = 32
     \<and> length (us_UserSignature u) = 64"
  by (auto simp: Deserialize_UserDH_def Deserialize_ServerDH_def Deserialize_UserSig_def Let_def split: if_splits)

end
