(* ===== verification/TlsTransport.thy ===== *)
theory TlsTransport
  imports TlsMessages TcpTransfer
begin

text \<open>
  The TCP message helpers of \<open>src/pkg/tlsStack/doTls.go\<close>, over a TCP connection as the TLS code sees
  it: \<open>ReadFull\<close>, \<open>WriteFull\<close>, and the reading and writing of handshake messages.
\<close>

section \<open>The connection\<close>

text \<open>
  Results of TLS operations: a value, an error, or a call that is still waiting in \<open>VRead\<close> or
  \<open>VWrite\<close>.
\<close>

datatype tls_error =
    ErrEOF | ErrClosing | ErrUnexpectedEOF | ErrShortWrite
  | ErrSerialize | ErrUnknownType | ErrDeserialize | ErrWrongEcho | ErrBadSignature
  | ErrKeyPair | ErrSharedSecret | ErrKeys | ErrRecordTooShort | ErrSeal | ErrOpen
  | ErrConnect | ErrAccept

datatype 'a tls_result = TlsOk 'a | TlsErr tls_error | TlsWaits

text \<open>
  A history of the calls of the cryptographic primitives, with their arguments: which strings were
  signed and verified with which key, which plaintexts were sealed and opened under which key and
  nonce. The code does not keep it; it is there to state what the code relies on and provides.
\<close>

datatype crypto_event =
    Signed bytes bytes
  | Verified bytes bytes
  | Sealed bytes bytes bytes
  | Opened bytes bytes bytes

text \<open>
  \<open>vn_in\<close> is the part of the peer's stream that is still to be read in this run and \<open>vn_in_end\<close> what
  \<open>VRead\<close> gives after it. Of \<open>vn_in\<close>, the next \<open>VRead\<close> finds one byte plus the first number of
  \<open>vn_found\<close> in the receive buffer, and everything when the list is empty. \<open>vn_writes\<close> are the
  outcomes of the next calls of \<open>VWrite\<close>, the rest of which write everything; \<open>vn_out\<close> is what was
  written.
\<close>

datatype read_end = EndClosing | EndEOF | EndParked

fun read_end_result :: "read_end \<Rightarrow> vread_result" where
  "read_end_result EndClosing = ReadClosing"
| "read_end_result EndEOF = ReadEOF"
| "read_end_result EndParked = ReadParked"

datatype write_outcome = WritesAll | WriteRefuses | WriteBlocks nat

record vconn =
  vn_in :: bytes
  vn_in_end :: read_end
  vn_found :: "nat list"
  vn_writes :: "write_outcome list"
  vn_out :: bytes
  vn_closeCalled :: bool
  vn_history :: "crypto_event list"

definition conn_VRead :: "nat \<Rightarrow> vconn \<Rightarrow> vread_result \<times> vconn" where
  "conn_VRead len c =
     (if vn_in c = [] then (read_end_result (vn_in_end c), c)
      else
        let avail = (case vn_found c of [] \<Rightarrow> length (vn_in c) | k # _ \<Rightarrow> min (Suc k) (length (vn_in c)));
            n = min len avail
        in (ReadOk (take n (vn_in c)) n, c\<lparr>vn_in := drop n (vn_in c), vn_found := tl (vn_found c)\<rparr>))"

definition conn_VWrite :: "bytes \<Rightarrow> vconn \<Rightarrow> vwrite_result \<times> vconn" where
  "conn_VWrite data c =
     (let c' = c\<lparr>vn_writes := tl (vn_writes c)\<rparr> in
      case vn_writes c of
        WriteRefuses # _ \<Rightarrow> (WriteClosing, c')
      | WriteBlocks k # _ \<Rightarrow> (WriteParked (min k (length data)), c'\<lparr>vn_out := vn_out c @ take k data\<rparr>)
      | _ \<Rightarrow> (WriteDone (length data), c'\<lparr>vn_out := vn_out c @ data\<rparr>))"

definition conn_VClose :: "vconn \<Rightarrow> vconn" where
  "conn_VClose c = c\<lparr>vn_closeCalled := True\<rparr>"

section \<open>Sequencing\<close>

type_synonym 'a tls = "vconn \<Rightarrow> 'a tls_result \<times> vconn"

definition tls_return :: "'a \<Rightarrow> 'a tls" where
  "tls_return x c = (TlsOk x, c)"

definition tls_fail :: "tls_error \<Rightarrow> 'a tls" where
  "tls_fail e c = (TlsErr e, c)"

definition tls_bind :: "'a tls \<Rightarrow> ('a \<Rightarrow> 'b tls) \<Rightarrow> 'b tls" where
  "tls_bind m f c = (case m c of
     (TlsOk x, c') \<Rightarrow> f x c'
   | (TlsErr e, c') \<Rightarrow> (TlsErr e, c')
   | (TlsWaits, c') \<Rightarrow> (TlsWaits, c'))"

definition tls_try :: "tls_error \<Rightarrow> 'a option \<Rightarrow> 'a tls" where
  "tls_try e x = (case x of None \<Rightarrow> tls_fail e | Some y \<Rightarrow> tls_return y)"

definition tls_check :: "bool \<Rightarrow> tls_error \<Rightarrow> unit tls" where
  "tls_check b e = (if b then tls_return () else tls_fail e)"

definition tls_note :: "crypto_event \<Rightarrow> unit tls" where
  "tls_note ev c = (TlsOk (), c\<lparr>vn_history := vn_history c @ [ev]\<rparr>)"

named_theorems tls_simps \<open>rewrite rules of the TLS operations\<close>

lemma tls_run [simp, tls_simps]:
  "tls_return x c = (TlsOk x, c)"
  "tls_fail e c = (TlsErr e, c)"
  "tls_try e None c = (TlsErr e, c)"
  "tls_try e (Some y) c = (TlsOk y, c)"
  "b \<Longrightarrow> tls_check b e c = (TlsOk (), c)"
  "\<not> b \<Longrightarrow> tls_check b e c = (TlsErr e, c)"
  by (simp_all add: tls_return_def tls_fail_def tls_try_def tls_check_def)

lemma tls_bind_Ok: "m c = (TlsOk x, c') \<Longrightarrow> tls_bind m f c = f x c'"
  by (simp add: tls_bind_def)

lemma tls_bind_OkE:
  assumes "tls_bind m f c = (TlsOk y, c'')"
  obtains x c' where "m c = (TlsOk x, c')" and "f x c' = (TlsOk y, c'')"
  using assms by (auto simp: tls_bind_def split: prod.splits tls_result.splits)

lemma conn_VRead_Ok:
  "conn_VRead len c = (ReadOk d n, c') \<Longrightarrow> n = length d \<and> n \<le> length (vn_in c) \<and> d = take n (vn_in c)
     \<and> vn_in c' = drop n (vn_in c) \<and> (0 < len \<longrightarrow> 0 < n)"
  by (cases "vn_in_end c") (auto simp: conn_VRead_def Let_def min_def split: if_splits list.splits)

section \<open>Full reads and writes\<close>

text \<open>
  The buffer of \<open>ReadFull\<close> is freshly made by every caller; \<open>buf\<close> is the part of it that is filled.
\<close>

function ReadFull_loop :: "nat \<Rightarrow> bytes \<Rightarrow> bytes tls" where
  "ReadFull_loop len buf c =
     (if length buf < len then
        (case conn_VRead (len - length buf) c of
           (ReadClosing, c') \<Rightarrow> (TlsErr ErrClosing, c')
         | (ReadEOF, c') \<Rightarrow> (TlsErr ErrEOF, c')
         | (ReadParked, c') \<Rightarrow> (TlsWaits, c')
         | (ReadOk d n, c') \<Rightarrow>
             if n = 0 then (TlsErr ErrUnexpectedEOF, c') else ReadFull_loop len (buf @ take n d) c')
      else (TlsOk buf, c))"
  by pat_completeness auto

termination
  by (relation "measure (\<lambda>(len, buf, c). len - length buf)") (auto dest!: conn_VRead_Ok [OF sym] simp flip: length_greater_0_conv)

declare ReadFull_loop.simps [simp del]

definition ReadFull :: "nat \<Rightarrow> bytes tls" where
  "ReadFull len = ReadFull_loop len []"

text \<open>
  \<open>WriteFull\<close> from \<open>written\<close> on. \<open>VWrite\<close> writes everything, refuses, or blocks, so that the loop runs
  at most once; it is bounded by the length all the same.
\<close>

function WriteFull_loop :: "bytes \<Rightarrow> nat \<Rightarrow> unit tls" where
  "WriteFull_loop data written c =
     (if written < length data then
        (case conn_VWrite (drop written data) c of
           (WriteClosing, c') \<Rightarrow> (TlsErr ErrClosing, c')
         | (WriteParked n, c') \<Rightarrow> (TlsWaits, c')
         | (WriteDone n, c') \<Rightarrow>
             if n = 0 then (TlsErr ErrShortWrite, c') else WriteFull_loop data (written + n) c')
      else (TlsOk (), c))"
  by pat_completeness auto

termination by (relation "measure (\<lambda>(data, written, c). length data - written)") auto

declare WriteFull_loop.simps [simp del]

definition WriteFull :: "bytes \<Rightarrow> unit tls" where
  "WriteFull data = WriteFull_loop data 0"

section \<open>Messages\<close>

definition WriteSerializableMessage :: "serializable \<Rightarrow> unit tls" where
  "WriteSerializableMessage msg = tls_bind (tls_try ErrSerialize (Serialize msg)) WriteFull"

definition ReadSerializedMessage :: "bytes tls" where
  "ReadSerializedMessage =
     tls_bind (ReadFull 1) (\<lambda>typeBuf.
     let msgType = typeBuf ! 0 in
     tls_bind (tls_try ErrUnknownType
       (if msgType = UserToServer_DHPublicValue_Type then Some X25519PublicKeyLen
        else if msgType = ServerToUser_DHPublicValue_Type then
          Some (X25519PublicKeyLen + X25519PublicKeyLen + Ed25519SignatureLen)
        else if msgType = UserToServer_DHSignature_Type then
          Some (X25519PublicKeyLen + X25519PublicKeyLen + Ed25519SignatureLen)
        else None)) (\<lambda>remainingLen.
     tls_bind (ReadFull remainingLen) (\<lambda>body. tls_return (typeBuf @ body))))"

section \<open>What they do\<close>

text \<open>\<open>took k c\<close>: the connection after \<open>k\<close> bytes have been read, whatever was found by each call.\<close>

definition took :: "nat \<Rightarrow> vconn \<Rightarrow> vconn \<Rightarrow> bool" where
  "took k c c' \<longleftrightarrow> (\<exists>fs. c' = c\<lparr>vn_in := drop k (vn_in c), vn_found := fs\<rparr>)"

lemma tookD:
  assumes "took k c c'"
  shows "vn_in c' = drop k (vn_in c)" "vn_in_end c' = vn_in_end c" "vn_writes c' = vn_writes c"
    "vn_out c' = vn_out c" "vn_closeCalled c' = vn_closeCalled c" "vn_history c' = vn_history c"
  using assms by (auto simp: took_def)

lemma took_refl: "took 0 c c"
  by (auto simp: took_def intro: exI [of _ "vn_found c"])

lemma took_trans: "took j a b \<Longrightarrow> took k b c \<Longrightarrow> took (j + k) a c"
  by (auto simp: took_def add.commute)

lemma conn_VRead_took:
  assumes "conn_VRead len c = (ReadOk d n, c')"
  shows "took n c c'" and "d = take n (vn_in c)" and "n \<le> length (vn_in c)" and "0 < len \<Longrightarrow> 0 < n" and "n \<le> len"
proof -
  have "vn_in c \<noteq> []" using assms by (cases "vn_in_end c") (auto simp: conn_VRead_def)
  then show "took n c c'" "n \<le> len" using assms by (auto simp: conn_VRead_def took_def Let_def)
  show "d = take n (vn_in c)" "n \<le> length (vn_in c)" "0 < len \<Longrightarrow> 0 < n"
    using conn_VRead_Ok [OF assms] by blast+
qed

lemma ReadFull_loop_ok:
  "length buf \<le> len \<Longrightarrow> len - length buf \<le> length (vn_in c) \<Longrightarrow>
   \<exists>c'. ReadFull_loop len buf c = (TlsOk (buf @ take (len - length buf) (vn_in c)), c') \<and> took (len - length buf) c c'"
proof (induction len buf c rule: ReadFull_loop.induct)
  case (1 len buf c)
  show ?case
  proof (cases "length buf < len")
    case True
    then have ne: "vn_in c \<noteq> []" using 1(3) by auto
    obtain d n c1 where r: "conn_VRead (len - length buf) c = (ReadOk d n, c1)"
      using ne by (auto simp: conn_VRead_def Let_def)
    note t = conn_VRead_took [OF r]
    have n: "0 < n" using t(4) True by simp
    have d: "take n d = take n (vn_in c)" "length d = n" using t(2,3) by auto
    have "\<exists>c'. ReadFull_loop len (buf @ take n d) c1
        = (TlsOk ((buf @ take n d) @ take (len - length (buf @ take n d)) (vn_in c1)), c')
        \<and> took (len - length (buf @ take n d)) c1 c'"
      by (rule 1(1) [OF True r [symmetric] refl]) (use n d t(3,5) True 1(3) tookD(1) [OF t(1)] in auto)
    then obtain c' where c': "ReadFull_loop len (buf @ take n d) c1
        = (TlsOk ((buf @ take n d) @ take (len - length (buf @ take n d)) (vn_in c1)), c')"
      "took (len - length (buf @ take n d)) c1 c'" by blast
    have l: "len - length (buf @ take n d) = len - length buf - n" using d by simp
    have "n + (len - length buf - n) = len - length buf" using t(5) by simp
    then have "take n (vn_in c) @ take (len - length buf - n) (drop n (vn_in c)) = take (len - length buf) (vn_in c)"
      by (simp only: take_add [symmetric])
    moreover have "took (n + (len - length buf - n)) c c'" using took_trans [OF t(1)] c'(2) l by simp
    ultimately show ?thesis
      using c'(1) r n True t(5) l d tookD(1) [OF t(1)] by (auto simp: ReadFull_loop.simps [of len buf c])
  qed (use 1(2) took_refl in \<open>auto simp: ReadFull_loop.simps [of len buf c]\<close>)
qed

lemma ReadFull_ok:
  assumes "len \<le> length (vn_in c)"
  obtains c' where "ReadFull len c = (TlsOk (take len (vn_in c)), c')" and "took len c c'"
  using ReadFull_loop_ok [of "[]" len c] assms by (auto simp: ReadFull_def)

text \<open>With too little input the end of it decides.\<close>

fun end_outcome :: "read_end \<Rightarrow> 'a tls_result" where
  "end_outcome EndClosing = TlsErr ErrClosing"
| "end_outcome EndEOF = TlsErr ErrEOF"
| "end_outcome EndParked = TlsWaits"

lemma ReadFull_loop_short:
  "length buf + length (vn_in c) < len \<Longrightarrow>
   \<exists>c'. ReadFull_loop len buf c = (end_outcome (vn_in_end c), c') \<and> took (length (vn_in c)) c c'"
proof (induction len buf c rule: ReadFull_loop.induct)
  case (1 len buf c)
  then have lt: "length buf < len" by simp
  show ?case
  proof (cases "vn_in c = []")
    case True
    then have "conn_VRead (len - length buf) c = (read_end_result (vn_in_end c), c)" by (simp add: conn_VRead_def)
    then show ?thesis
      using True lt took_refl by (cases "vn_in_end c") (auto simp: ReadFull_loop.simps [of len buf c])
  next
    case False
    then obtain d n c1 where r: "conn_VRead (len - length buf) c = (ReadOk d n, c1)"
      by (auto simp: conn_VRead_def Let_def)
    note t = conn_VRead_took [OF r]
    have n: "n \<noteq> 0" "length (take n d) = n" using t(2-4) lt by auto
    have "\<exists>c'. ReadFull_loop len (buf @ take n d) c1 = (end_outcome (vn_in_end c1), c') \<and> took (length (vn_in c1)) c1 c'"
      by (rule 1(1) [OF lt r [symmetric] refl]) (use n t(3) 1(2) tookD(1) [OF t(1)] in auto)
    then obtain c' where c': "ReadFull_loop len (buf @ take n d) c1 = (end_outcome (vn_in_end c), c')"
      "took (length (vn_in c) - n) c1 c'" using tookD(1,2) [OF t(1)] by auto
    have "took (n + (length (vn_in c) - n)) c c'" by (rule took_trans [OF t(1) c'(2)])
    then show ?thesis using c'(1) r n lt t(3) by (auto simp: ReadFull_loop.simps [of len buf c])
  qed
qed

lemma ReadFull_short:
  assumes "length (vn_in c) < len"
  obtains c' where "ReadFull len c = (end_outcome (vn_in_end c), c')" and "took (length (vn_in c)) c c'"
  using ReadFull_loop_short [of "[]" c len] assms by (auto simp: ReadFull_def)

lemma end_outcome_not_Ok [simp]: "end_outcome e \<noteq> TlsOk x"
  by (cases e) auto

lemma ReadFull_OkE:
  assumes "ReadFull len c = (TlsOk x, c')"
  obtains "len \<le> length (vn_in c)" and "x = take len (vn_in c)" and "took len c c'"
proof (cases "len \<le> length (vn_in c)")
  case True
  then show thesis using that ReadFull_ok [OF True] assms by (metis prod.inject tls_result.inject(1))
next
  case False
  then show thesis using ReadFull_short [of c len] assms by (metis not_le prod.inject end_outcome_not_Ok)
qed

text \<open>A write that returns no error has appended its data and changed nothing else of interest.\<close>

definition wrote :: "bytes \<Rightarrow> vconn \<Rightarrow> vconn \<Rightarrow> bool" where
  "wrote d c c' \<longleftrightarrow> (\<exists>ws. c' = c\<lparr>vn_writes := ws, vn_out := vn_out c @ d\<rparr>)"

lemma wroteD:
  assumes "wrote d c c'"
  shows "vn_in c' = vn_in c" "vn_in_end c' = vn_in_end c" "vn_found c' = vn_found c"
    "vn_out c' = vn_out c @ d" "vn_closeCalled c' = vn_closeCalled c" "vn_history c' = vn_history c"
  using assms by (auto simp: wrote_def)

lemma wrote_refl: "wrote [] c c"
  by (auto simp: wrote_def intro: exI [of _ "vn_writes c"])

lemma WriteFull_ok:
  assumes "vn_writes c = []"
  shows "WriteFull data c = (TlsOk (), c\<lparr>vn_out := vn_out c @ data\<rparr>)"
proof (cases "data = []")
  case True
  then show ?thesis by (simp add: WriteFull_def WriteFull_loop.simps)
next
  case False
  have "c\<lparr>vn_writes := [], vn_out := vn_out c @ data\<rparr> = c\<lparr>vn_out := vn_out c @ data\<rparr>"
    using assms by simp
  then show ?thesis using assms False
    by (simp add: WriteFull_def WriteFull_loop.simps [of data 0] WriteFull_loop.simps [of data "length data"] conn_VWrite_def)
qed

lemma WriteFull_OkE:
  assumes "WriteFull data c = (TlsOk u, c')"
  shows "wrote data c c'"
proof (cases "data = []")
  case True
  then show ?thesis using assms wrote_refl by (simp add: WriteFull_def WriteFull_loop.simps)
next
  case False
  then show ?thesis using assms
    by (auto simp: WriteFull_def WriteFull_loop.simps [of data 0] WriteFull_loop.simps [of data "length data"]
        conn_VWrite_def wrote_def Let_def split: list.split_asm write_outcome.split_asm)
qed

text \<open>Whatever its outcome, a write extends the output by a part of its data.\<close>

lemma WriteFull_any:
  assumes "WriteFull data c = (r, c')"
  obtains k where "wrote (take k data) c c'"
proof (cases "data = []")
  case True
  then show thesis using assms wrote_refl that by (auto simp: WriteFull_def WriteFull_loop.simps)
next
  case False
  then obtain v where v: "conn_VWrite data c = (v, c')"
    using assms by (auto simp: WriteFull_def WriteFull_loop.simps [of data 0] WriteFull_loop.simps [of data "length data"]
        conn_VWrite_def Let_def split: list.split_asm write_outcome.split_asm)
  have "\<exists>k ws. c' = c\<lparr>vn_writes := ws, vn_out := vn_out c @ take k data\<rparr>"
  proof (cases "vn_writes c")
    case Nil
    then show ?thesis using v by (intro exI [of _ "length data"] exI [of _ "[]"]) (auto simp: conn_VWrite_def)
  next
    case (Cons w ws)
    then show ?thesis using v
    proof (cases w)
      case (WriteBlocks k)
      then show ?thesis using v Cons by (intro exI [of _ k] exI [of _ ws]) (auto simp: conn_VWrite_def)
    next
      case WriteRefuses
      then show ?thesis using v Cons by (intro exI [of _ 0] exI [of _ ws]) (auto simp: conn_VWrite_def)
    next
      case WritesAll
      then show ?thesis using v Cons by (intro exI [of _ "length data"] exI [of _ ws]) (auto simp: conn_VWrite_def)
    qed
  qed
  then show thesis using that by (auto simp: wrote_def)
qed

section \<open>Framing of the handshake messages\<close>

text \<open>How many bytes follow a type byte.\<close>

definition body_length :: "u8 \<Rightarrow> nat option" where
  "body_length t = (if t = UserToServer_DHPublicValue_Type then Some 32
     else if t = ServerToUser_DHPublicValue_Type then Some (32 + 32 + 64)
     else if t = UserToServer_DHSignature_Type then Some (32 + 32 + 64) else None)"

lemma ReadSerializedMessage_ok:
  assumes "body_length t = Some k" and "length body = k" and "vn_in c = t # body @ rest"
  obtains c' where "ReadSerializedMessage c = (TlsOk (t # body), c')" and "took (Suc k) c c'"
proof -
  obtain c1 where r1: "ReadFull 1 c = (TlsOk [t], c1)" and t1: "took 1 c c1"
    using ReadFull_ok [of 1 c] assms(3) by auto
  have "k \<le> length (vn_in c1)" "take k (vn_in c1) = body" using assms tookD(1) [OF t1] by auto
  then obtain c2 where r2: "ReadFull k c1 = (TlsOk body, c2)" and t2: "took k c1 c2"
    using ReadFull_ok [of k c1] by metis
  have "took (Suc k) c c2" using took_trans [OF t1 t2] by simp
  moreover have "ReadSerializedMessage c = (TlsOk (t # body), c2)"
    using r1 r2 assms(1) unfolding ReadSerializedMessage_def body_length_def
    by (auto simp: tls_bind_def Let_def message_types split: if_splits)
  ultimately show thesis using that by blast
qed

lemma ReadSerializedMessage_OkE:
  assumes "ReadSerializedMessage c = (TlsOk m, c')"
  obtains k where "took k c c'" and "m = take k (vn_in c)" and "k \<le> length (vn_in c)"
proof -
  have eq: "ReadSerializedMessage = tls_bind (ReadFull 1) (\<lambda>t. tls_bind (tls_try ErrUnknownType (body_length (t ! 0)))
      (\<lambda>k. tls_bind (ReadFull k) (\<lambda>body. tls_return (t @ body))))"
    by (simp add: ReadSerializedMessage_def body_length_def Let_def)
  obtain t c1 where r1: "ReadFull 1 c = (TlsOk t, c1)"
    and "tls_bind (tls_try ErrUnknownType (body_length (t ! 0))) (\<lambda>k.
      tls_bind (ReadFull k) (\<lambda>body. tls_return (t @ body))) c1 = (TlsOk m, c')"
    using assms unfolding eq by (rule tls_bind_OkE)
  then obtain k body where k: "body_length (t ! 0) = Some k" and r2: "ReadFull k c1 = (TlsOk body, c')" "m = t @ body"
    by (cases "body_length (t ! 0)") (auto simp: tls_bind_def split: prod.splits tls_result.splits)
  from r1 have 1: "1 \<le> length (vn_in c)" "t = take 1 (vn_in c)" "took 1 c c1" by (auto elim: ReadFull_OkE)
  from r2(1) have 2: "k \<le> length (vn_in c1)" "body = take k (vn_in c1)" "took k c1 c'" by (auto elim: ReadFull_OkE)
  have "m = take (1 + k) (vn_in c)" 
    unfolding r2(2) 2(2) tookD(1) [OF 1(3)] take_add using 1(2) by simp
  then show thesis
    using that [of "1 + k"] took_trans [OF 1(3) 2(3)] 1(1) 2(1) tookD(1) [OF 1(3)] by auto
qed

end
