(* ===== verification/TlsCrypto.thy ===== *)
theory TlsCrypto
  imports TlsTransport
begin

text \<open>
  \<open>src/pkg/tlsStack/crypto.go\<close> and the types it works on: key pairs, the shared secret, the strings
  that are signed, the derivation of the two write keys, nonces, and sealing and opening of data.
  The primitives of \<open>crypto/...\<close> and of the third-party package \<open>hkdf\<close> are the fields of the parameter
  \<open>crypto\<close>.
\<close>

section \<open>The primitives\<close>

text \<open>
  Keys are byte strings. \<open>cr_NewPublicKey\<close> says whether the curve accepts a public key, \<open>cr_ECDH\<close>
  fails on a result that is zero, and \<open>cr_hkdf secret salt info n\<close> are the first \<open>n\<close> bytes of the
  stream. The third argument of \<open>cr_Seal\<close> is the plaintext, that of \<open>cr_Open\<close> the sealed data; the
  additional data are always empty.
\<close>

record crypto =
  cr_PublicKey :: "bytes \<Rightarrow> bytes"
  cr_NewPublicKey :: "bytes \<Rightarrow> bool"
  cr_ECDH :: "bytes \<Rightarrow> bytes \<Rightarrow> bytes option"
  cr_NewKeyFromSeed :: "bytes \<Rightarrow> bytes"
  cr_SignPublic :: "bytes \<Rightarrow> bytes"
  cr_Sign :: "bytes \<Rightarrow> bytes \<Rightarrow> bytes"
  cr_Verify :: "bytes \<Rightarrow> bytes \<Rightarrow> bytes \<Rightarrow> bool"
  cr_sha256 :: "bytes \<Rightarrow> bytes"
  cr_hkdf :: "bytes \<Rightarrow> bytes \<Rightarrow> bytes \<Rightarrow> nat \<Rightarrow> bytes option"
  cr_Seal :: "bytes \<Rightarrow> bytes \<Rightarrow> bytes \<Rightarrow> bytes"
  cr_Open :: "bytes \<Rightarrow> bytes \<Rightarrow> bytes \<Rightarrow> bytes option"

text \<open>
  Their documented behaviour: lengths, a signature verifies under its public key, sealed data open to
  their plaintext, and both ends of a Diffie-Hellman exchange compute the same secret. None of it
  says that the primitives are secure.
\<close>

definition crypto_ok :: "crypto \<Rightarrow> bool" where
  "crypto_ok cr \<longleftrightarrow>
     (\<forall>k. length (cr_PublicKey cr k) = 32 \<and> cr_NewPublicKey cr (cr_PublicKey cr k))
     \<and> (\<forall>a b. cr_ECDH cr a (cr_PublicKey cr b) = cr_ECDH cr b (cr_PublicKey cr a))
     \<and> (\<forall>a b s. cr_ECDH cr a b = Some s \<longrightarrow> s \<noteq> [])
     \<and> (\<forall>k m. length (cr_Sign cr k m) = 64 \<and> cr_Verify cr (cr_SignPublic cr k) m (cr_Sign cr k m))
     \<and> (\<forall>s t i. \<exists>b. cr_hkdf cr s t i 64 = Some b \<and> length b = 64)
     \<and> (\<forall>k n p. length (cr_Seal cr k n p) = length p + 16 \<and> cr_Open cr k n (cr_Seal cr k n p) = Some p)"

lemma crypto_okD:
  assumes "crypto_ok cr"
  shows "length (cr_PublicKey cr k) = 32" and "cr_NewPublicKey cr (cr_PublicKey cr k)"
    and "cr_ECDH cr a (cr_PublicKey cr b) = cr_ECDH cr b (cr_PublicKey cr a)"
    and "cr_ECDH cr x y = Some s \<Longrightarrow> s \<noteq> []"
    and "length (cr_Sign cr k m) = 64" and "cr_Verify cr (cr_SignPublic cr k) m (cr_Sign cr k m)"
    and "\<exists>b. cr_hkdf cr s' t i 64 = Some b \<and> length b = 64"
    and "length (cr_Seal cr k n p) = length p + 16" and "cr_Open cr k n (cr_Seal cr k n p) = Some p"
  using assms unfolding crypto_ok_def by blast+

section \<open>Types\<close>

record vtls_conn =
  vt_tcpConn :: vconn
  vt_readKey :: bytes
  vt_writeKey :: bytes
  vt_readSeq :: u64
  vt_writeSeq :: u64
  vt_readBuf :: bytes

record vtls_client_config =
  cc_UserSignKey :: bytes
  cc_ServerVerifyKey :: bytes

record vtls_server_config =
  sc_ServerSignKey :: bytes
  sc_UserVerifyKey :: bytes

definition LoadTestTlsConfigs :: "crypto \<Rightarrow> vtls_client_config \<times> vtls_server_config" where
  "LoadTestTlsConfigs cr =
     (let userSeed = cr_sha256 cr (ascii ''minitls test user signing key'');
          serverSeed = cr_sha256 cr (ascii ''minitls test server signing key'');
          userPriv = cr_NewKeyFromSeed cr userSeed;
          serverPriv = cr_NewKeyFromSeed cr serverSeed;
          userPub = cr_SignPublic cr userPriv;
          serverPub = cr_SignPublic cr serverPriv
      in (\<lparr>cc_UserSignKey = userPriv, cc_ServerVerifyKey = serverPub\<rparr>,
          \<lparr>sc_ServerSignKey = serverPriv, sc_UserVerifyKey = userPub\<rparr>))"

section \<open>Key exchange helpers\<close>

text \<open>\<open>rand\<close> is the private key that the random source gives, \<open>None\<close> when it fails.\<close>

definition GenerateDHPair :: "crypto \<Rightarrow> bytes option \<Rightarrow> (bytes \<times> bytes) option" where
  "GenerateDHPair cr rand = (case rand of None \<Rightarrow> None | Some priv \<Rightarrow> Some (priv, cr_PublicKey cr priv))"

definition ComputeSharedSecret :: "crypto \<Rightarrow> bytes \<Rightarrow> bytes \<Rightarrow> bytes option" where
  "ComputeSharedSecret cr priv peerPubBytes =
     (if length peerPubBytes \<noteq> X25519PublicKeyLen then None
      else if \<not> cr_NewPublicKey cr peerPubBytes then None
      else cr_ECDH cr priv peerPubBytes)"

definition ServerSignedDHPublicValues :: "bytes \<Rightarrow> bytes \<Rightarrow> bytes" where
  "ServerSignedDHPublicValues serverDHPub userDHPub = serverDHPub @ userDHPub"

definition UserSignedDHPublicValues :: "bytes \<Rightarrow> bytes \<Rightarrow> bytes" where
  "UserSignedDHPublicValues userDHPub serverDHPub = userDHPub @ serverDHPub"

text \<open>The result is the client's write key and the server's.\<close>

definition DeriveWriteKeys :: "crypto \<Rightarrow> bytes \<Rightarrow> bytes \<Rightarrow> bytes \<Rightarrow> (bytes \<times> bytes) option" where
  "DeriveWriteKeys cr sharedSecret userDHPub serverDHPub =
     (if length sharedSecret = 0 then None
      else if length userDHPub \<noteq> X25519PublicKeyLen then None
      else if length serverDHPub \<noteq> X25519PublicKeyLen then None
      else
        let salt = cr_sha256 cr (userDHPub @ serverDHPub) in
        (case cr_hkdf cr sharedSecret salt (ascii ''write keys'') (2 * AESGCMKeyLen) of
           None \<Rightarrow> None
         | Some keyMaterial \<Rightarrow> Some (take AESGCMKeyLen keyMaterial, drop AESGCMKeyLen keyMaterial)))"

section \<open>Sealing and opening\<close>

text \<open>\<open>binary.BigEndian.PutUint64\<close>, and the nonce of a sequence number.\<close>

definition be64 :: "u64 \<Rightarrow> bytes" where
  "be64 w = be32 (ucast (drop_bit 32 w)) @ be32 (ucast w)"

definition getNonce :: "u64 \<Rightarrow> bytes" where
  "getNonce seq = blit 4 (be64 seq) (replicate 12 0)"

text \<open>\<open>aes.NewCipher\<close> wants a key of 16, 24 or 32 bytes; \<open>cipher.NewGCM\<close> accepts its block size.\<close>

definition aes_key_ok :: "bytes \<Rightarrow> bool" where
  "aes_key_ok key \<longleftrightarrow> length key = 16 \<or> length key = 24 \<or> length key = 32"

definition SealData :: "crypto \<Rightarrow> bytes \<Rightarrow> vtls_conn \<Rightarrow> bytes option" where
  "SealData cr plaintext c =
     (let nonce = getNonce (vt_writeSeq c) in
      if \<not> aes_key_ok (vt_writeKey c) then None
      else Some (cr_Seal cr (vt_writeKey c) nonce plaintext))"

definition OpenData :: "crypto \<Rightarrow> bytes \<Rightarrow> vtls_conn \<Rightarrow> bytes option" where
  "OpenData cr sealedData c =
     (let nonce = getNonce (vt_readSeq c) in
      if \<not> aes_key_ok (vt_readKey c) then None
      else cr_Open cr (vt_readKey c) nonce sealedData)"

section \<open>Lemmas\<close>

lemma be64_inj: "be64 v = be64 w \<longleftrightarrow> v = w"
proof
  assume "be64 v = be64 w"
  then have "ucast (drop_bit 32 v) = (ucast (drop_bit 32 w) :: u32)" "ucast v = (ucast w :: u32)"
    by (simp_all add: be64_def)
  then have h: "\<And>n. n < 32 \<Longrightarrow> bit v (32 + n) = bit w (32 + n)" "\<And>n. n < 32 \<Longrightarrow> bit v n = bit w n"
    unfolding bit_eq_iff by (force simp: bit_simps)+
  show "v = w"
  proof (rule bit_word_eqI)
    fix n assume n: "n < LENGTH(64)"
    show "bit v n = bit w n"
    proof (cases "n < 32")
      case False
      then show ?thesis using h(1) [of "n - 32"] n by simp
    qed (rule h(2))
  qed
qed simp

text \<open>Different sequence numbers have different nonces.\<close>

lemma getNonce_inj: "getNonce v = getNonce w \<longleftrightarrow> v = w"
proof -
  have "getNonce x = replicate 4 0 @ be64 x" for x
    by (simp add: getNonce_def blit_def be64_def numeral_eq_Suc)
  then show ?thesis by (simp add: be64_inj)
qed

lemma length_getNonce: "length (getNonce v) = 12"
  by (simp add: getNonce_def be64_def)

lemma ComputeSharedSecret_agree:
  "crypto_ok cr \<Longrightarrow> ComputeSharedSecret cr a (cr_PublicKey cr b) = ComputeSharedSecret cr b (cr_PublicKey cr a)"
  unfolding ComputeSharedSecret_def by (simp only: crypto_okD(1-3))

lemma DeriveWriteKeys_ok:
  assumes ok: "crypto_ok cr" and "s \<noteq> []" and "length u = 32" and "length v = 32"
  obtains ck sk where "DeriveWriteKeys cr s u v = Some (ck, sk)" and "length ck = 32" and "length sk = 32"
proof -
  obtain b where "cr_hkdf cr s (cr_sha256 cr (u @ v)) (ascii ''write keys'') 64 = Some b" "length b = 64"
    using crypto_okD(7) [OF ok] by blast
  then show thesis using assms that by (simp add: DeriveWriteKeys_def)
qed

end
