(* ===== verification/TlsHandshake.thy ===== *)
theory TlsHandshake
  imports TlsCrypto
begin

text \<open>
  The authenticated Diffie-Hellman exchange of \<open>src/pkg/tlsStack/handshake.go\<close>, one definition per
  side, over whatever bytes the connection delivers. First the exchange of two honest ends, then what
  each end knows when the network is in the hands of an attacker.
\<close>

section \<open>Signatures\<close>

text \<open>\<open>ed25519.Sign\<close> and a successful \<open>ed25519.Verify\<close> enter the history under the public key.\<close>

definition ed25519_Sign :: "crypto \<Rightarrow> bytes \<Rightarrow> bytes \<Rightarrow> bytes tls" where
  "ed25519_Sign cr key m = tls_bind (tls_note (Signed (cr_SignPublic cr key) m)) (\<lambda>_. tls_return (cr_Sign cr key m))"

definition ed25519_Verify :: "crypto \<Rightarrow> bytes \<Rightarrow> bytes \<Rightarrow> bytes \<Rightarrow> bool tls" where
  "ed25519_Verify cr pub m sig =
     (if cr_Verify cr pub m sig then tls_bind (tls_note (Verified pub m)) (\<lambda>_. tls_return True)
      else tls_return False)"

section \<open>The user's side\<close>

text \<open>The exchange up to its two keys, the client's write key and the server's.\<close>

definition user_exchange :: "crypto \<Rightarrow> bytes option \<Rightarrow> bytes \<Rightarrow> bytes \<Rightarrow> (bytes \<times> bytes) tls" where
  "user_exchange cr rand userSignKey serverVerifyKey =
     tls_bind (tls_try ErrKeyPair (GenerateDHPair cr rand)) (\<lambda>(userDHPriv, userDHPub).
     tls_bind (WriteSerializableMessage (UserDH \<lparr>um_UserDHPublicValue = userDHPub\<rparr>)) (\<lambda>_.
     tls_bind ReadSerializedMessage (\<lambda>rawServerMsg.
     tls_bind (tls_try ErrDeserialize (Deserialize_ServerDH rawServerMsg)) (\<lambda>serverDHMsg.
     tls_bind (tls_check (sm_UserDHPublicValue serverDHMsg = userDHPub) ErrWrongEcho) (\<lambda>_.
     let serverSignedData = ServerSignedDHPublicValues (sm_ServerDHPublicValue serverDHMsg)
           (sm_UserDHPublicValue serverDHMsg) in
     tls_bind (ed25519_Verify cr serverVerifyKey serverSignedData (sm_ServerSignature serverDHMsg)) (\<lambda>ok.
     tls_bind (tls_check ok ErrBadSignature) (\<lambda>_.
     let userSignedData = UserSignedDHPublicValues userDHPub (sm_ServerDHPublicValue serverDHMsg) in
     tls_bind (ed25519_Sign cr userSignKey userSignedData) (\<lambda>userSig.
     tls_bind (WriteSerializableMessage (UserSig \<lparr>us_UserDHPublicValue = userDHPub,
         us_ServerDHPublicValue = sm_ServerDHPublicValue serverDHMsg, us_UserSignature = userSig\<rparr>)) (\<lambda>_.
     tls_bind (tls_try ErrSharedSecret (ComputeSharedSecret cr userDHPriv (sm_ServerDHPublicValue serverDHMsg)))
       (\<lambda>sharedSecret.
     tls_try ErrKeys (DeriveWriteKeys cr sharedSecret userDHPub (sm_ServerDHPublicValue serverDHMsg))))))))))))"

definition HandleUserKeyExchange :: "crypto \<Rightarrow> bytes option \<Rightarrow> bytes \<Rightarrow> bytes \<Rightarrow> vtls_conn \<Rightarrow> unit tls_result \<times> vtls_conn" where
  "HandleUserKeyExchange cr rand userSignKey serverVerifyKey conn =
     (case user_exchange cr rand userSignKey serverVerifyKey (vt_tcpConn conn) of
        (TlsErr e, c) \<Rightarrow> (TlsErr e, conn\<lparr>vt_tcpConn := c\<rparr>)
      | (TlsWaits, c) \<Rightarrow> (TlsWaits, conn\<lparr>vt_tcpConn := c\<rparr>)
      | (TlsOk (clientWriteKey, serverWriteKey), c) \<Rightarrow>
          (TlsOk (), conn\<lparr>vt_tcpConn := c, vt_writeKey := clientWriteKey, vt_readKey := serverWriteKey,
             vt_writeSeq := 0, vt_readSeq := 0\<rparr>))"

section \<open>The server's side\<close>

definition server_exchange :: "crypto \<Rightarrow> bytes option \<Rightarrow> bytes \<Rightarrow> bytes \<Rightarrow> (bytes \<times> bytes) tls" where
  "server_exchange cr rand serverSignKey userVerifyKey =
     tls_bind ReadSerializedMessage (\<lambda>rawUserMsg.
     tls_bind (tls_try ErrDeserialize (Deserialize_UserDH rawUserMsg)) (\<lambda>userDHMsg.
     let userDHPub = um_UserDHPublicValue userDHMsg in
     tls_bind (tls_try ErrKeyPair (GenerateDHPair cr rand)) (\<lambda>(serverDHPriv, serverDHPub).
     let serverSignedData = ServerSignedDHPublicValues serverDHPub userDHPub in
     tls_bind (ed25519_Sign cr serverSignKey serverSignedData) (\<lambda>serverSig.
     tls_bind (WriteSerializableMessage (ServerDH \<lparr>sm_ServerDHPublicValue = serverDHPub,
         sm_UserDHPublicValue = userDHPub, sm_ServerSignature = serverSig\<rparr>)) (\<lambda>_.
     tls_bind ReadSerializedMessage (\<lambda>rawUserSigMsg.
     tls_bind (tls_try ErrDeserialize (Deserialize_UserSig rawUserSigMsg)) (\<lambda>userSigMsg.
     tls_bind (tls_check (us_UserDHPublicValue userSigMsg = userDHPub) ErrWrongEcho) (\<lambda>_.
     tls_bind (tls_check (us_ServerDHPublicValue userSigMsg = serverDHPub) ErrWrongEcho) (\<lambda>_.
     let userSignedData = UserSignedDHPublicValues (us_UserDHPublicValue userSigMsg)
           (us_ServerDHPublicValue userSigMsg) in
     tls_bind (ed25519_Verify cr userVerifyKey userSignedData (us_UserSignature userSigMsg)) (\<lambda>ok.
     tls_bind (tls_check ok ErrBadSignature) (\<lambda>_.
     tls_bind (tls_try ErrSharedSecret (ComputeSharedSecret cr serverDHPriv userDHPub)) (\<lambda>sharedSecret.
     tls_try ErrKeys (DeriveWriteKeys cr sharedSecret userDHPub serverDHPub)))))))))))))"

definition HandleServerKeyExchange :: "crypto \<Rightarrow> bytes option \<Rightarrow> bytes \<Rightarrow> bytes \<Rightarrow> vtls_conn \<Rightarrow> unit tls_result \<times> vtls_conn" where
  "HandleServerKeyExchange cr rand serverSignKey userVerifyKey conn =
     (case server_exchange cr rand serverSignKey userVerifyKey (vt_tcpConn conn) of
        (TlsErr e, c) \<Rightarrow> (TlsErr e, conn\<lparr>vt_tcpConn := c\<rparr>)
      | (TlsWaits, c) \<Rightarrow> (TlsWaits, conn\<lparr>vt_tcpConn := c\<rparr>)
      | (TlsOk (clientWriteKey, serverWriteKey), c) \<Rightarrow>
          (TlsOk (), conn\<lparr>vt_tcpConn := c, vt_writeKey := serverWriteKey, vt_readKey := clientWriteKey,
             vt_writeSeq := 0, vt_readSeq := 0\<rparr>))"

section \<open>Histories\<close>

text \<open>Reading and writing messages make no cryptographic calls.\<close>

definition quiet :: "'a tls \<Rightarrow> bool" where
  "quiet m \<longleftrightarrow> (\<forall>c. vn_history (snd (m c)) = vn_history c)"

lemma quietD: "quiet m \<Longrightarrow> m c = (r, c') \<Longrightarrow> vn_history c' = vn_history c"
  unfolding quiet_def by (metis snd_conv)

lemma quiet_bind: "quiet m \<Longrightarrow> (\<And>x. quiet (f x)) \<Longrightarrow> quiet (tls_bind m f)"
  unfolding quiet_def tls_bind_def by (auto split: prod.split tls_result.split) (metis snd_conv)+

lemma quiet_try: "quiet (tls_try e x)" "quiet (tls_check b e)" "quiet (tls_return y)"
  by (auto simp: quiet_def tls_try_def tls_check_def split: option.split)

lemma quiet_ReadFull: "quiet (ReadFull len)"
  unfolding quiet_def
proof
  fix c show "vn_history (snd (ReadFull len c)) = vn_history c"
    using ReadFull_ok [of len c] ReadFull_short [of c len] tookD(6) by (metis linorder_not_le snd_conv)
qed

lemma quiet_WriteFull: "quiet (WriteFull d)"
  unfolding quiet_def
proof
  fix c obtain r c' where r: "WriteFull d c = (r, c')" by force
  from WriteFull_any [OF r] show "vn_history (snd (WriteFull d c)) = vn_history c"
    using r wroteD(6) by (metis snd_conv)
qed

lemma quiet_messages: "quiet ReadSerializedMessage" "quiet (WriteSerializableMessage m)"
  unfolding ReadSerializedMessage_def WriteSerializableMessage_def Let_def
  by (intro quiet_bind quiet_ReadFull quiet_WriteFull quiet_try)+

text \<open>
  A small program logic for histories: run from the history \<open>h\<close>, a computation ends with \<open>F\<close> of the
  history if it fails or waits, and with \<open>G\<close> of its result and the history if it succeeds.
\<close>

definition hist_post :: "'a tls \<Rightarrow> crypto_event list \<Rightarrow> (crypto_event list \<Rightarrow> bool) \<Rightarrow>
    ('a \<Rightarrow> crypto_event list \<Rightarrow> bool) \<Rightarrow> bool" where
  "hist_post m h F G \<longleftrightarrow> (\<forall>c r c'. vn_history c = h \<longrightarrow> m c = (r, c') \<longrightarrow>
     (case r of TlsOk x \<Rightarrow> G x (vn_history c') | _ \<Rightarrow> F (vn_history c')))"

named_theorems hist_rules \<open>rules of the program logic for histories\<close>

lemma hist_postD: "hist_post m h F G \<Longrightarrow> vn_history c = h \<Longrightarrow> m c = (r, c') \<Longrightarrow>
    (case r of TlsOk x \<Rightarrow> G x (vn_history c') | _ \<Rightarrow> F (vn_history c'))"
  unfolding hist_post_def by blast

lemma hist_bind:
  assumes m: "hist_post m h F G'" and f: "\<And>x h'. G' x h' \<Longrightarrow> hist_post (f x) h' F G"
  shows "hist_post (tls_bind m f) h F G"
  unfolding hist_post_def
proof (intro allI impI)
  fix c r c'
  assume c: "vn_history c = h" and r: "tls_bind m f c = (r, c')"
  obtain r1 c1 where m1: "m c = (r1, c1)" by force
  note p = hist_postD [OF m c m1]
  show "case r of TlsOk x \<Rightarrow> G x (vn_history c') | _ \<Rightarrow> F (vn_history c')"
  proof (cases r1)
    case (TlsOk x)
    then have "f x c1 = (r, c')" using r m1 by (simp add: tls_bind_def)
    then show ?thesis using hist_postD [OF f refl] p TlsOk by fastforce
  qed (use r m1 p in \<open>auto simp: tls_bind_def\<close>)
qed

lemma hist_quiet:
  assumes "quiet m" and "F h" and "\<And>x. hist_post (f x) h F G"
  shows "hist_post (tls_bind m f) h F G"
proof (rule hist_bind)
  show "hist_post m h F (\<lambda>x h'. h' = h)"
    unfolding hist_post_def using quietD [OF assms(1)] assms(2) by (auto split: tls_result.split)
qed (simp add: assms(3))

lemmas hist_messages [hist_rules] = quiet_messages [THEN hist_quiet]

lemma hist_try [hist_rules]:
  assumes "F h" and "\<And>y. x = Some y \<Longrightarrow> hist_post (f y) h F G"
  shows "hist_post (tls_bind (tls_try e x) f) h F G"
  using assms by (cases x) (auto simp: hist_post_def tls_bind_def)

lemma hist_check [hist_rules]:
  assumes "F h" and "\<And>u. b \<Longrightarrow> hist_post (f u) h F G"
  shows "hist_post (tls_bind (tls_check b e) f) h F G"
  using assms by (cases b) (auto simp: hist_post_def tls_bind_def)

lemma ed25519_runs:
  "ed25519_Sign cr key m c = (TlsOk (cr_Sign cr key m), c\<lparr>vn_history := vn_history c @ [Signed (cr_SignPublic cr key) m]\<rparr>)"
  "cr_Verify cr pub m s \<Longrightarrow> ed25519_Verify cr pub m s c = (TlsOk True, c\<lparr>vn_history := vn_history c @ [Verified pub m]\<rparr>)"
  "\<not> cr_Verify cr pub m s \<Longrightarrow> ed25519_Verify cr pub m s c = (TlsOk False, c)"
  by (simp_all add: ed25519_Sign_def ed25519_Verify_def tls_bind_def tls_note_def)

lemma hist_Sign [hist_rules]:
  assumes "\<And>s. hist_post (f s) (h @ [Signed (cr_SignPublic cr key) m]) F G"
  shows "hist_post (tls_bind (ed25519_Sign cr key m) f) h F G"
  unfolding hist_post_def
proof (intro allI impI)
  fix c r c'
  assume c: "vn_history c = h" and "tls_bind (ed25519_Sign cr key m) f c = (r, c')"
  then have run: "f (cr_Sign cr key m) (c\<lparr>vn_history := h @ [Signed (cr_SignPublic cr key) m]\<rparr>) = (r, c')"
    by (simp add: tls_bind_def ed25519_runs)
  show "case r of TlsOk x \<Rightarrow> G x (vn_history c') | _ \<Rightarrow> F (vn_history c')"
    by (rule hist_postD [OF assms _ run]) simp
qed

lemma hist_Verify [hist_rules]:
  assumes "F h" and "\<And>u. hist_post (f u) (h @ [Verified pub m]) F G"
  shows "hist_post (tls_bind (ed25519_Verify cr pub m s) (\<lambda>ok. tls_bind (tls_check ok e) f)) h F G"
  unfolding hist_post_def
proof (intro allI impI)
  fix c r c'
  assume c: "vn_history c = h" and run: "tls_bind (ed25519_Verify cr pub m s) (\<lambda>ok. tls_bind (tls_check ok e) f) c = (r, c')"
  show "case r of TlsOk x \<Rightarrow> G x (vn_history c') | _ \<Rightarrow> F (vn_history c')"
  proof (cases "cr_Verify cr pub m s")
    case True
    then have run': "f () (c\<lparr>vn_history := h @ [Verified pub m]\<rparr>) = (r, c')"
      using run c by (simp add: tls_bind_def ed25519_runs)
    show ?thesis by (rule hist_postD [OF assms(2) _ run']) simp
  next
    case False
    then show ?thesis using run c assms(1) by (auto simp: tls_bind_def ed25519_runs)
  qed
qed

text \<open>
  What the histories of the two sides can be. \<open>X\<close> is the public value that the bytes from the network
  claim to be the peer's.
\<close>

definition keys_from :: "crypto \<Rightarrow> bytes \<Rightarrow> bytes \<Rightarrow> bytes \<Rightarrow> bytes \<Rightarrow> bytes \<times> bytes \<Rightarrow> bool" where
  "keys_from cr priv peer userPub serverPub keys \<longleftrightarrow>
     (\<exists>s. ComputeSharedSecret cr priv peer = Some s \<and> DeriveWriteKeys cr s userPub serverPub = Some keys)"

lemma hist_keys [hist_rules]:
  assumes "F h" and "\<And>keys. keys_from cr priv peer userPub serverPub keys \<Longrightarrow> G keys h"
  shows "hist_post (tls_bind (tls_try e (ComputeSharedSecret cr priv peer))
    (\<lambda>s. tls_try e' (DeriveWriteKeys cr s userPub serverPub))) h F G"
proof (rule hist_try)
  show "F h" by (rule assms(1))
next
  fix s assume s: "ComputeSharedSecret cr priv peer = Some s"
  show "hist_post (tls_try e' (DeriveWriteKeys cr s userPub serverPub)) h F G"
    using assms s by (cases "DeriveWriteKeys cr s userPub serverPub") (auto simp: hist_post_def keys_from_def)
qed

definition user_history :: "crypto \<Rightarrow> bytes \<Rightarrow> bytes \<Rightarrow> bytes \<Rightarrow> bytes \<Rightarrow> crypto_event list" where
  "user_history cr a usk svk X = [Verified svk (X @ cr_PublicKey cr a), Signed (cr_SignPublic cr usk) (cr_PublicKey cr a @ X)]"

definition server_history :: "crypto \<Rightarrow> bytes \<Rightarrow> bytes \<Rightarrow> bytes \<Rightarrow> bytes \<Rightarrow> crypto_event list" where
  "server_history cr b ssk uvk U = [Signed (cr_SignPublic cr ssk) (cr_PublicKey cr b @ U), Verified uvk (U @ cr_PublicKey cr b)]"

lemmas history_simps = user_history_def server_history_def ServerSignedDHPublicValues_def UserSignedDHPublicValues_def

lemma user_exchange_history:
  "hist_post (user_exchange cr (Some a) usk svk) []
     (\<lambda>h. h = [] \<or> (\<exists>X. length X = 32 \<and> h = user_history cr a usk svk X))
     (\<lambda>keys h. \<exists>X. length X = 32 \<and> h = user_history cr a usk svk X
        \<and> keys_from cr a X (cr_PublicKey cr a) X keys)"
  unfolding user_exchange_def GenerateDHPair_def option.case Let_def
proof (rule hist_try, simp, clarsimp, intro hist_keys hist_rules)
qed (auto simp: history_simps dest: Deserialize_length(2))

lemma server_exchange_history:
  "hist_post (server_exchange cr (Some b) ssk uvk) []
     (\<lambda>h. h = [] \<or> (\<exists>U. length U = 32 \<and> prefix h (server_history cr b ssk uvk U)))
     (\<lambda>keys h. \<exists>U. length U = 32 \<and> h = server_history cr b ssk uvk U
        \<and> keys_from cr b U U (cr_PublicKey cr b) keys)"
  unfolding server_exchange_def GenerateDHPair_def option.case Let_def
proof (intro hist_messages hist_try, goal_cases)
  case (4 x y z)
  then show ?case by (cases z, simp) (intro hist_keys hist_rules; auto simp: history_simps dest: Deserialize_length(1))
qed simp_all

section \<open>Two honest ends\<close>

text \<open>The three messages of the exchange.\<close>

definition first_message :: "crypto \<Rightarrow> bytes \<Rightarrow> bytes" where
  "first_message cr a = UserToServer_DHPublicValue_Type # cr_PublicKey cr a"

definition second_message :: "crypto \<Rightarrow> bytes \<Rightarrow> bytes \<Rightarrow> bytes \<Rightarrow> bytes" where
  "second_message cr ssk a b = ServerToUser_DHPublicValue_Type # cr_PublicKey cr b @ cr_PublicKey cr a
     @ cr_Sign cr ssk (cr_PublicKey cr b @ cr_PublicKey cr a)"

definition third_message :: "crypto \<Rightarrow> bytes \<Rightarrow> bytes \<Rightarrow> bytes \<Rightarrow> bytes" where
  "third_message cr usk a b = UserToServer_DHSignature_Type # cr_PublicKey cr a @ cr_PublicKey cr b
     @ cr_Sign cr usk (cr_PublicKey cr a @ cr_PublicKey cr b)"

lemma writes_messages:
  assumes "crypto_ok cr" and "vn_writes c = []"
  shows "WriteSerializableMessage (UserDH \<lparr>um_UserDHPublicValue = cr_PublicKey cr a\<rparr>) c
      = (TlsOk (), c\<lparr>vn_out := vn_out c @ first_message cr a\<rparr>)"
    and "WriteSerializableMessage (ServerDH \<lparr>sm_ServerDHPublicValue = cr_PublicKey cr b,
         sm_UserDHPublicValue = cr_PublicKey cr a, sm_ServerSignature = cr_Sign cr ssk (cr_PublicKey cr b @ cr_PublicKey cr a)\<rparr>) c
      = (TlsOk (), c\<lparr>vn_out := vn_out c @ second_message cr ssk a b\<rparr>)"
    and "WriteSerializableMessage (UserSig \<lparr>us_UserDHPublicValue = cr_PublicKey cr a,
         us_ServerDHPublicValue = cr_PublicKey cr b, us_UserSignature = cr_Sign cr usk (cr_PublicKey cr a @ cr_PublicKey cr b)\<rparr>) c
      = (TlsOk (), c\<lparr>vn_out := vn_out c @ third_message cr usk a b\<rparr>)"
  using assms by (simp_all add: WriteSerializableMessage_def tls_bind_def Serialize_UserDH_eq Serialize_ServerDH_eq
      Serialize_UserSig_eq crypto_okD first_message_def second_message_def third_message_def WriteFull_ok)

lemma reads_messages:
  assumes ok: "crypto_ok cr"
  shows "vn_in c = first_message cr a @ rest \<Longrightarrow> \<exists>c'. ReadSerializedMessage c = (TlsOk (first_message cr a), c') \<and> took 33 c c'"
    and "vn_in c = second_message cr ssk a b @ rest \<Longrightarrow>
      \<exists>c'. ReadSerializedMessage c = (TlsOk (second_message cr ssk a b), c') \<and> took 129 c c'"
    and "vn_in c = third_message cr usk a b @ rest \<Longrightarrow>
      \<exists>c'. ReadSerializedMessage c = (TlsOk (third_message cr usk a b), c') \<and> took 129 c c'"
proof -
  note l = crypto_okD(1,5) [OF ok]
  show "vn_in c = first_message cr a @ rest \<Longrightarrow> \<exists>c'. ReadSerializedMessage c = (TlsOk (first_message cr a), c') \<and> took 33 c c'"
    by (rule ReadSerializedMessage_ok [of UserToServer_DHPublicValue_Type 32 "cr_PublicKey cr a" c rest])
      (auto simp: body_length_def first_message_def l)
  show "vn_in c = second_message cr ssk a b @ rest \<Longrightarrow>
      \<exists>c'. ReadSerializedMessage c = (TlsOk (second_message cr ssk a b), c') \<and> took 129 c c'"
    by (rule ReadSerializedMessage_ok [of ServerToUser_DHPublicValue_Type 128 "tl (second_message cr ssk a b)" c rest])
      (auto simp: body_length_def second_message_def l message_types)
  show "vn_in c = third_message cr usk a b @ rest \<Longrightarrow>
      \<exists>c'. ReadSerializedMessage c = (TlsOk (third_message cr usk a b), c') \<and> took 129 c c'"
    by (rule ReadSerializedMessage_ok [of UserToServer_DHSignature_Type 128 "tl (third_message cr usk a b)" c rest])
      (auto simp: body_length_def third_message_def l message_types)
qed

lemma waits_for_message:
  assumes "vn_in c = []" and "vn_in_end c = EndParked"
  obtains c' where "ReadSerializedMessage c = (TlsWaits, c')" and "took 0 c c'"
proof -
  obtain c' where "ReadFull 1 c = (TlsWaits, c')" and "took 0 c c'"
    using ReadFull_short [of c 1] assms by (metis end_outcome.simps(3) length_0_conv less_numeral_extra(1) list.size(3))
  then show thesis using that by (simp add: ReadSerializedMessage_def tls_bind_def)
qed

lemma parses_messages:
  assumes "crypto_ok cr"
  shows "Deserialize_UserDH (first_message cr a) = Some \<lparr>um_UserDHPublicValue = cr_PublicKey cr a\<rparr>"
    and "Deserialize_ServerDH (second_message cr ssk a b) = Some \<lparr>sm_ServerDHPublicValue = cr_PublicKey cr b,
         sm_UserDHPublicValue = cr_PublicKey cr a, sm_ServerSignature = cr_Sign cr ssk (cr_PublicKey cr b @ cr_PublicKey cr a)\<rparr>"
    and "Deserialize_UserSig (third_message cr usk a b) = Some \<lparr>us_UserDHPublicValue = cr_PublicKey cr a,
         us_ServerDHPublicValue = cr_PublicKey cr b, us_UserSignature = cr_Sign cr usk (cr_PublicKey cr a @ cr_PublicKey cr b)\<rparr>"
  using crypto_okD(1,5) [OF assms]
  by (simp_all add: first_message_def second_message_def third_message_def Deserialize_UserDH_eq
      Deserialize_ServerDH_eq Deserialize_UserSig_eq)

lemma message_lengths:
  assumes "crypto_ok cr"
  shows "length (first_message cr a) = 33" "length (second_message cr ssk a b) = 129" "length (third_message cr usk a b) = 129"
  using crypto_okD(1,5) [OF assms] by (simp_all add: first_message_def second_message_def third_message_def)

text \<open>The four runs: each side, with nothing more to read than its peer has sent by then.\<close>

lemma user_first:
  assumes "crypto_ok cr" and "vn_writes c = []" and "vn_in c = []" and "vn_in_end c = EndParked"
  shows "\<exists>c'. user_exchange cr (Some a) usk svk c = (TlsWaits, c') \<and> vn_out c' = vn_out c @ first_message cr a \<and> vn_in c' = []"
proof -
  let ?c = "c\<lparr>vn_out := vn_out c @ first_message cr a\<rparr>"
  obtain c' where "ReadSerializedMessage ?c = (TlsWaits, c')" "took 0 ?c c'"
    using waits_for_message [of ?c] assms(3,4) by auto
  then show ?thesis using writes_messages(1) [OF assms(1,2)] tookD(1,4) assms(3)
    by (auto simp: user_exchange_def GenerateDHPair_def Let_def tls_bind_def)
qed

lemma server_first:
  assumes ok: "crypto_ok cr" and w: "vn_writes c = []" and i: "vn_in c = first_message cr a" and e: "vn_in_end c = EndParked"
  shows "\<exists>c'. server_exchange cr (Some b) ssk uvk c = (TlsWaits, c') \<and> vn_out c' = vn_out c @ second_message cr ssk a b \<and> vn_in c' = []"
proof -
  obtain c1 where r: "ReadSerializedMessage c = (TlsOk (first_message cr a), c1)" and t: "took 33 c c1"
    using reads_messages(1) [OF ok, of c a "[]"] i by auto
  let ?c = "c1\<lparr>vn_history := vn_history c1 @ [Signed (cr_SignPublic cr ssk) (cr_PublicKey cr b @ cr_PublicKey cr a)]\<rparr>"
  let ?d = "?c\<lparr>vn_out := vn_out ?c @ second_message cr ssk a b\<rparr>"
  have "vn_writes ?c = []" "vn_in ?d = []" "vn_in_end ?d = EndParked"
    using tookD [OF t] w i e message_lengths(1) [OF ok] by simp_all
  then obtain c' where "ReadSerializedMessage ?d = (TlsWaits, c')" "took 0 ?d c'" using waits_for_message [of ?d] by auto
  then show ?thesis
    using r writes_messages(2) [OF ok \<open>vn_writes ?c = []\<close>] parses_messages(1) [OF ok] tookD(4) [OF t] tookD(1,4)
      \<open>vn_in ?d = []\<close>
    by (auto simp: server_exchange_def GenerateDHPair_def Let_def tls_bind_def ed25519_runs ServerSignedDHPublicValues_def)
qed

lemma user_second:
  assumes ok: "crypto_ok cr" and w: "vn_writes c = []" and i: "vn_in c = second_message cr ssk a b @ rest"
    and k: "keys_from cr a (cr_PublicKey cr b) (cr_PublicKey cr a) (cr_PublicKey cr b) keys"
  shows "\<exists>c'. user_exchange cr (Some a) usk (cr_SignPublic cr ssk) c = (TlsOk keys, c')
    \<and> vn_out c' = vn_out c @ first_message cr a @ third_message cr usk a b \<and> vn_in c' = rest
    \<and> vn_history c' = vn_history c @ user_history cr a usk (cr_SignPublic cr ssk) (cr_PublicKey cr b)"
proof -
  let ?c = "c\<lparr>vn_out := vn_out c @ first_message cr a\<rparr>"
  obtain c1 where r: "ReadSerializedMessage ?c = (TlsOk (second_message cr ssk a b), c1)" and t: "took 129 ?c c1"
    using reads_messages(2) [OF ok, of ?c ssk a b rest] i by auto
  let ?c2 = "c1\<lparr>vn_history := vn_history c1 @ user_history cr a usk (cr_SignPublic cr ssk) (cr_PublicKey cr b)\<rparr>"
  have w2: "vn_writes ?c2 = []" using tookD(3) [OF t] w by simp
  obtain s where "ComputeSharedSecret cr a (cr_PublicKey cr b) = Some s"
    "DeriveWriteKeys cr s (cr_PublicKey cr a) (cr_PublicKey cr b) = Some keys" using k by (auto simp: keys_from_def)
  then show ?thesis
    using writes_messages(1) [OF ok w] r writes_messages(3) [OF ok w2] parses_messages(2) [OF ok] crypto_okD(6) [OF ok]
      tookD(1,4,6) [OF t] i message_lengths(2) [OF ok]
    by (simp add: user_exchange_def GenerateDHPair_def Let_def tls_bind_def ed25519_runs history_simps)
qed

lemma server_second:
  assumes ok: "crypto_ok cr" and w: "vn_writes c = []" and i: "vn_in c = first_message cr a @ third_message cr usk a b @ rest"
    and k: "keys_from cr b (cr_PublicKey cr a) (cr_PublicKey cr a) (cr_PublicKey cr b) keys"
  shows "\<exists>c'. server_exchange cr (Some b) ssk (cr_SignPublic cr usk) c = (TlsOk keys, c')
    \<and> vn_out c' = vn_out c @ second_message cr ssk a b \<and> vn_in c' = rest
    \<and> vn_history c' = vn_history c @ server_history cr b ssk (cr_SignPublic cr usk) (cr_PublicKey cr a)"
proof -
  obtain c1 where r: "ReadSerializedMessage c = (TlsOk (first_message cr a), c1)" and t: "took 33 c c1"
    using reads_messages(1) [OF ok] i by blast
  let ?c = "c1\<lparr>vn_history := vn_history c1 @ [Signed (cr_SignPublic cr ssk) (cr_PublicKey cr b @ cr_PublicKey cr a)]\<rparr>"
  let ?d = "?c\<lparr>vn_out := vn_out ?c @ second_message cr ssk a b\<rparr>"
  have w2: "vn_writes ?c = []" and i2: "vn_in ?d = third_message cr usk a b @ rest"
    using tookD [OF t] w i message_lengths(1) [OF ok] by simp_all
  obtain c2 where r2: "ReadSerializedMessage ?d = (TlsOk (third_message cr usk a b), c2)" and t2: "took 129 ?d c2"
    using reads_messages(3) [OF ok i2] by blast
  have "vn_in c2 = rest" unfolding tookD(1) [OF t2] i2 using message_lengths(3) [OF ok] by simp
  moreover
  obtain s where "ComputeSharedSecret cr b (cr_PublicKey cr a) = Some s"
    "DeriveWriteKeys cr s (cr_PublicKey cr a) (cr_PublicKey cr b) = Some keys" using k by (auto simp: keys_from_def)
  ultimately show ?thesis
    using r writes_messages(2) [OF ok w2] r2 parses_messages(1,3) [OF ok] crypto_okD(6) [OF ok]
      tookD(4,6) [OF t] tookD(4,6) [OF t2]
    by (simp add: server_exchange_def GenerateDHPair_def Let_def tls_bind_def ed25519_runs history_simps)
qed

section \<open>Authentication\<close>

text \<open>
  Sessions of one side: the private value, the connection before, the result and the connection
  after. The bytes that came in are whatever the network made of them.
\<close>

type_synonym session = "bytes \<times> vtls_conn \<times> unit tls_result \<times> vtls_conn"

definition history_of :: "vtls_conn \<Rightarrow> crypto_event list" where
  "history_of k = vn_history (vt_tcpConn k)"

definition user_session :: "crypto \<Rightarrow> bytes \<Rightarrow> bytes \<Rightarrow> session \<Rightarrow> bool" where
  "user_session cr usk svk = (\<lambda>(a, k0, r, k1). history_of k0 = [] \<and> HandleUserKeyExchange cr (Some a) usk svk k0 = (r, k1))"

definition server_session :: "crypto \<Rightarrow> bytes \<Rightarrow> bytes \<Rightarrow> session \<Rightarrow> bool" where
  "server_session cr ssk uvk = (\<lambda>(b, k0, r, k1). history_of k0 = [] \<and> HandleServerKeyExchange cr (Some b) ssk uvk k0 = (r, k1))"

text \<open>No forgery: what was verified under a key has been signed with it in one of the sessions.\<close>

definition no_forgery :: "bytes \<Rightarrow> vtls_conn \<Rightarrow> session set \<Rightarrow> bool" where
  "no_forgery pub k S \<longleftrightarrow> (\<forall>m. Verified pub m \<in> set (history_of k) \<longrightarrow>
     (\<exists>(a, k0, r, k1) \<in> S. Signed pub m \<in> set (history_of k1)))"

definition keys_match :: "vtls_conn \<Rightarrow> vtls_conn \<Rightarrow> bool" where
  "keys_match k j \<longleftrightarrow> vt_writeKey k = vt_readKey j \<and> vt_readKey k = vt_writeKey j
     \<and> vt_writeSeq k = vt_readSeq j \<and> vt_readSeq k = vt_writeSeq j"

lemma user_session_run:
  assumes "user_session cr usk svk (a, k0, r, k1)"
  shows "history_of k1 = [] \<and> r \<noteq> TlsOk () \<or> (\<exists>X. length X = 32 \<and> history_of k1 = user_history cr a usk svk X
    \<and> (r = TlsOk () \<longrightarrow> keys_from cr a X (cr_PublicKey cr a) X (vt_writeKey k1, vt_readKey k1)
          \<and> vt_writeSeq k1 = 0 \<and> vt_readSeq k1 = 0))"
proof -
  obtain q c where q: "user_exchange cr (Some a) usk svk (vt_tcpConn k0) = (q, c)" by force
  have "vn_history (vt_tcpConn k0) = []" using assms by (simp add: user_session_def history_of_def)
  note p = hist_postD [OF user_exchange_history this q]
  show ?thesis using p q assms
    by (cases q) (auto simp: user_session_def HandleUserKeyExchange_def history_of_def)
qed

lemma server_session_run:
  assumes "server_session cr ssk uvk (b, k0, r, k1)"
  shows "history_of k1 = [] \<and> r \<noteq> TlsOk () \<or> (\<exists>U. length U = 32 \<and> prefix (history_of k1) (server_history cr b ssk uvk U)
    \<and> (r = TlsOk () \<longrightarrow> history_of k1 = server_history cr b ssk uvk U
          \<and> keys_from cr b U U (cr_PublicKey cr b) (vt_readKey k1, vt_writeKey k1)
          \<and> vt_writeSeq k1 = 0 \<and> vt_readSeq k1 = 0))"
proof -
  obtain q c where q: "server_exchange cr (Some b) ssk uvk (vt_tcpConn k0) = (q, c)" by force
  have "vn_history (vt_tcpConn k0) = []" using assms by (simp add: server_session_def history_of_def)
  note p = hist_postD [OF server_exchange_history this q]
  show ?thesis using p q assms
    by (cases q) (auto simp: server_session_def HandleServerKeyExchange_def history_of_def)
qed

lemma keys_from_agree:
  assumes ok: "crypto_ok cr"
    and "keys_from cr a (cr_PublicKey cr b) (cr_PublicKey cr a) (cr_PublicKey cr b) ks"
    and "keys_from cr b (cr_PublicKey cr a) (cr_PublicKey cr a) (cr_PublicKey cr b) ks'"
  shows "ks = ks'"
  using assms(2,3) ComputeSharedSecret_agree [OF ok, of a b] by (auto simp: keys_from_def)

section \<open>A sample suite of primitives\<close>

text \<open>
  Primitives that meet the documented behaviour, to run the exchange on: public keys are padded
  private keys, the shared secret is a sum, signatures and tags are padded copies of what they cover.
\<close>

definition pad :: "nat \<Rightarrow> bytes \<Rightarrow> bytes" where
  "pad n b = take n (b @ replicate n 0)"

lemma length_pad [simp]: "length (pad n b) = n"
  by (simp add: pad_def)

lemma pad_idem [simp]: "pad n (pad n b) = pad n b"
  by (simp add: pad_def)

definition sample_crypto :: crypto where
  "sample_crypto = \<lparr>cr_PublicKey = pad 32, cr_NewPublicKey = (\<lambda>b. True),
     cr_ECDH = (\<lambda>a b. Some (map2 (+) (pad 32 a) (pad 32 b))),
     cr_NewKeyFromSeed = (\<lambda>s. s), cr_SignPublic = (\<lambda>k. k), cr_Sign = (\<lambda>k m. pad 64 (m @ k)),
     cr_Verify = (\<lambda>k m s. s = pad 64 (m @ k)), cr_sha256 = pad 32,
     cr_hkdf = (\<lambda>s t i n. Some (pad n (s @ map (\<lambda>x. x + 1) s))),
     cr_Seal = (\<lambda>k n p. p @ pad 16 n), cr_Open = (\<lambda>k n c. if 16 \<le> length c \<and> drop (length c - 16) c = pad 16 n
       then Some (take (length c - 16) c) else None)\<rparr>"

lemma map2_add_comm: "length a = length b \<Longrightarrow> map2 (+) a (b :: bytes) = map2 (+) b a"
  by (induction a b rule: list_induct2) (simp_all add: add.commute)

lemma sample_crypto_ok: "crypto_ok sample_crypto"
  unfolding crypto_ok_def
proof (intro conjI allI impI)
  fix a b s
  show "cr_ECDH sample_crypto a (cr_PublicKey sample_crypto b) = cr_ECDH sample_crypto b (cr_PublicKey sample_crypto a)"
    by (simp add: sample_crypto_def map2_add_comm)
  show "cr_ECDH sample_crypto a b = Some s \<Longrightarrow> s \<noteq> []"
    using length_pad [of 32 a] length_pad [of 32 b] by (auto simp: sample_crypto_def zip_eq_Nil_iff simp del: length_pad)
qed (simp_all add: sample_crypto_def)

lemma sample_keys: "\<exists>keys. keys_from sample_crypto a (cr_PublicKey sample_crypto b) (cr_PublicKey sample_crypto a')
    (cr_PublicKey sample_crypto b') keys"
proof -
  obtain s where "ComputeSharedSecret sample_crypto a (cr_PublicKey sample_crypto b) = Some s" "s \<noteq> []"
    using crypto_okD(4) [OF sample_crypto_ok]
    by (fastforce simp: ComputeSharedSecret_def sample_crypto_def)
  then show ?thesis
    using DeriveWriteKeys_ok [OF sample_crypto_ok, of s] crypto_okD(1) [OF sample_crypto_ok] by (metis keys_from_def)
qed

text \<open>A fresh connection that will read the given bytes, at most three at a time.\<close>

definition fresh_vtls :: "bytes \<Rightarrow> vtls_conn" where
  "fresh_vtls input = \<lparr>vt_tcpConn = \<lparr>vn_in = input, vn_in_end = EndParked, vn_found = replicate 300 2,
       vn_writes = [], vn_out = [], vn_closeCalled = False, vn_history = []\<rparr>,
     vt_readKey = [], vt_writeKey = [], vt_readSeq = 0, vt_writeSeq = 0, vt_readBuf = []\<rparr>"

lemma fresh_vtls_simps [simp]:
  "vt_tcpConn (fresh_vtls i) = \<lparr>vn_in = i, vn_in_end = EndParked, vn_found = replicate 300 2,
       vn_writes = [], vn_out = [], vn_closeCalled = False, vn_history = []\<rparr>"
  "history_of (fresh_vtls i) = []"
  by (simp_all add: fresh_vtls_def history_of_def)

lemma sample_user_session:
  "\<exists>k1. user_session sample_crypto [5] [6] ([1], fresh_vtls (second_message sample_crypto [6] [1] [2]), TlsOk (), k1)
     \<and> history_of k1 = user_history sample_crypto [1] [5] [6] (cr_PublicKey sample_crypto [2])"
proof -
  obtain keys where "keys_from sample_crypto [1] (cr_PublicKey sample_crypto [2]) (cr_PublicKey sample_crypto [1])
      (cr_PublicKey sample_crypto [2]) keys" using sample_keys by blast
  from user_second [OF sample_crypto_ok _ _ this, of "vt_tcpConn (fresh_vtls (second_message sample_crypto [6] [1] [2]))" "[6]" "[]"]
  have "\<exists>c'. user_exchange sample_crypto (Some [1]) [5] (cr_SignPublic sample_crypto [6])
      (vt_tcpConn (fresh_vtls (second_message sample_crypto [6] [1] [2]))) = (TlsOk keys, c')
      \<and> vn_history c' = user_history sample_crypto [1] [5] (cr_SignPublic sample_crypto [6]) (cr_PublicKey sample_crypto [2])" by auto
  moreover have "cr_SignPublic sample_crypto [6] = [6]" by (simp add: sample_crypto_def)
  ultimately show ?thesis by (cases keys) (auto simp: user_session_def HandleUserKeyExchange_def history_of_def)
qed

lemma sample_server_session:
  "\<exists>k1. server_session sample_crypto [6] [5]
     ([2], fresh_vtls (first_message sample_crypto [1] @ third_message sample_crypto [5] [1] [2]), TlsOk (), k1)
     \<and> history_of k1 = server_history sample_crypto [2] [6] [5] (cr_PublicKey sample_crypto [1])"
proof -
  let ?i = "first_message sample_crypto [1] @ third_message sample_crypto [5] [1] [2]"
  obtain keys where "keys_from sample_crypto [2] (cr_PublicKey sample_crypto [1]) (cr_PublicKey sample_crypto [1])
      (cr_PublicKey sample_crypto [2]) keys" using sample_keys by blast
  from server_second [OF sample_crypto_ok _ _ this, of "vt_tcpConn (fresh_vtls ?i)" "[5]" "[]"]
  have "\<exists>c'. server_exchange sample_crypto (Some [2]) [6] (cr_SignPublic sample_crypto [5])
      (vt_tcpConn (fresh_vtls ?i)) = (TlsOk keys, c')
      \<and> vn_history c' = server_history sample_crypto [2] [6] (cr_SignPublic sample_crypto [5]) (cr_PublicKey sample_crypto [1])" by auto
  moreover have "cr_SignPublic sample_crypto [5] = [5]" by (simp add: sample_crypto_def)
  ultimately show ?thesis by (cases keys) (auto simp: server_session_def HandleServerKeyExchange_def history_of_def)
qed

section \<open>Properties\<close>

text \<open>
  C4. Authentication of the user. A server completes an exchange over a network that an attacker
  controls. If no signature of the user's key was forged, a session of the user exists that worked with
  the same two public values and had verified the server's signature of them; if that session
  completes too, the two connections have the same keys in the right directions and start with the same
  sequence numbers.
\<close>

theorem server_authenticates_user:
  assumes "crypto_ok cr" and "server_session cr ssk (cr_SignPublic cr usk) (b, k0, TlsOk (), k1)"
    and "\<forall>s \<in> S. user_session cr usk svk s" and "no_forgery (cr_SignPublic cr usk) k1 S"
  shows "\<exists>(a, j0, r, j1) \<in> S. Verified svk (cr_PublicKey cr b @ cr_PublicKey cr a) \<in> set (history_of j1)
    \<and> keys_from cr b (cr_PublicKey cr a) (cr_PublicKey cr a) (cr_PublicKey cr b) (vt_readKey k1, vt_writeKey k1)
    \<and> (r = TlsOk () \<longrightarrow> keys_match k1 j1)"
proof -
  obtain U where U: "length U = 32" "history_of k1 = server_history cr b ssk (cr_SignPublic cr usk) U"
    and k: "keys_from cr b U U (cr_PublicKey cr b) (vt_readKey k1, vt_writeKey k1)" "vt_writeSeq k1 = 0" "vt_readSeq k1 = 0"
    using server_session_run [OF assms(2)] by auto
  then obtain a j0 r j1 where s: "(a, j0, r, j1) \<in> S" "Signed (cr_SignPublic cr usk) (U @ cr_PublicKey cr b) \<in> set (history_of j1)"
    using assms(4) by (fastforce simp: no_forgery_def server_history_def)
  have "user_session cr usk svk (a, j0, r, j1)" using assms(3) s(1) by blast
  from user_session_run [OF this] s(2) obtain X where X: "length X = 32" "history_of j1 = user_history cr a usk svk X"
    and j: "r = TlsOk () \<longrightarrow> keys_from cr a X (cr_PublicKey cr a) X (vt_writeKey j1, vt_readKey j1)
          \<and> vt_writeSeq j1 = 0 \<and> vt_readSeq j1 = 0" by auto
  have eq: "U = cr_PublicKey cr a" "X = cr_PublicKey cr b"
    using s(2) X U(1) crypto_okD(1) [OF assms(1)] by (auto simp: user_history_def)
  have "keys_match k1 j1" if "r = TlsOk ()"
    using keys_from_agree [OF assms(1), of a b] j that k eq by (fastforce simp: keys_match_def)
  then show ?thesis using X(2) k(1) eq by (intro bexI [OF _ s(1)]) (simp add: user_history_def)
qed

theorem server_authenticates_user_witness:
  "\<exists>k1 j1. server_session sample_crypto [6] [5]
       ([2], fresh_vtls (first_message sample_crypto [1] @ third_message sample_crypto [5] [1] [2]), TlsOk (), k1)
     \<and> user_session sample_crypto [5] [6] ([1], fresh_vtls (second_message sample_crypto [6] [1] [2]), TlsOk (), j1)
     \<and> keys_match k1 j1"
proof -
  have own: "cr_SignPublic sample_crypto x = x" for x by (simp add: sample_crypto_def)
  obtain k1 where k1: "server_session sample_crypto [6] (cr_SignPublic sample_crypto [5])
      ([2], fresh_vtls (first_message sample_crypto [1] @ third_message sample_crypto [5] [1] [2]), TlsOk (), k1)"
    "history_of k1 = server_history sample_crypto [2] [6] [5] (cr_PublicKey sample_crypto [1])"
    using sample_server_session by (auto simp: own)
  obtain j1 where j1: "user_session sample_crypto [5] [6] ([1], fresh_vtls (second_message sample_crypto [6] [1] [2]), TlsOk (), j1)"
    "history_of j1 = user_history sample_crypto [1] [5] [6] (cr_PublicKey sample_crypto [2])"
    using sample_user_session by blast
  have "no_forgery (cr_SignPublic sample_crypto [5]) k1
      {([1], fresh_vtls (second_message sample_crypto [6] [1] [2]), TlsOk (), j1)}"
    using k1(2) j1(2) by (simp add: no_forgery_def history_simps own)
  from server_authenticates_user [OF sample_crypto_ok k1(1) _ this, of "[6]"] j1(1) k1(1)
  show ?thesis by (auto simp: own)
qed

text \<open>
  C5. Authentication of the server, the other way round: when a user completes the exchange and no
  signature of the server's key was forged, a session of the server has signed the same two public
  values; if it completes, the connections have the same keys.
\<close>

theorem user_authenticates_server:
  assumes "crypto_ok cr" and "user_session cr usk (cr_SignPublic cr ssk) (a, k0, TlsOk (), k1)"
    and "\<forall>s \<in> S. server_session cr ssk uvk s" and "no_forgery (cr_SignPublic cr ssk) k1 S"
  shows "\<exists>(b, j0, r, j1) \<in> S. Signed (cr_SignPublic cr ssk) (cr_PublicKey cr b @ cr_PublicKey cr a) \<in> set (history_of j1)
    \<and> keys_from cr a (cr_PublicKey cr b) (cr_PublicKey cr a) (cr_PublicKey cr b) (vt_writeKey k1, vt_readKey k1)
    \<and> (r = TlsOk () \<longrightarrow> keys_match k1 j1)"
proof -
  obtain X where X: "length X = 32" "history_of k1 = user_history cr a usk (cr_SignPublic cr ssk) X"
    and k: "keys_from cr a X (cr_PublicKey cr a) X (vt_writeKey k1, vt_readKey k1)" "vt_writeSeq k1 = 0" "vt_readSeq k1 = 0"
    using user_session_run [OF assms(2)] by auto
  then obtain b j0 r j1 where s: "(b, j0, r, j1) \<in> S" "Signed (cr_SignPublic cr ssk) (X @ cr_PublicKey cr a) \<in> set (history_of j1)"
    using assms(4) by (fastforce simp: no_forgery_def user_history_def)
  have "server_session cr ssk uvk (b, j0, r, j1)" using assms(3) s(1) by blast
  from server_session_run [OF this] s(2) obtain U where U: "length U = 32" "prefix (history_of j1) (server_history cr b ssk uvk U)"
    and j: "r = TlsOk () \<longrightarrow> keys_from cr b U U (cr_PublicKey cr b) (vt_readKey j1, vt_writeKey j1)
          \<and> vt_writeSeq j1 = 0 \<and> vt_readSeq j1 = 0" by auto
  have "Signed (cr_SignPublic cr ssk) (X @ cr_PublicKey cr a) \<in> set (server_history cr b ssk uvk U)"
    using s(2) U(2) set_mono_prefix by blast
  then have eq: "X = cr_PublicKey cr b" "U = cr_PublicKey cr a"
    using X U(1) crypto_okD(1) [OF assms(1)] by (auto simp: server_history_def)
  have "keys_match k1 j1" if "r = TlsOk ()"
    using keys_from_agree [OF assms(1), of a b] j that k eq by (fastforce simp: keys_match_def)
  then show ?thesis using s(2) k(1) eq by (intro bexI [OF _ s(1)]) simp
qed


theorem user_authenticates_server_witness:
  "\<exists>k1 j1. user_session sample_crypto [5] [6] ([1], fresh_vtls (second_message sample_crypto [6] [1] [2]), TlsOk (), k1)
     \<and> server_session sample_crypto [6] [5]
       ([2], fresh_vtls (first_message sample_crypto [1] @ third_message sample_crypto [5] [1] [2]), TlsOk (), j1)
     \<and> keys_match k1 j1"
proof -
  have own: "cr_SignPublic sample_crypto x = x" for x by (simp add: sample_crypto_def)
  obtain j1 where j1: "server_session sample_crypto [6] [5]
      ([2], fresh_vtls (first_message sample_crypto [1] @ third_message sample_crypto [5] [1] [2]), TlsOk (), j1)"
    "history_of j1 = server_history sample_crypto [2] [6] [5] (cr_PublicKey sample_crypto [1])"
    using sample_server_session by blast
  obtain k1 where k1: "user_session sample_crypto [5] (cr_SignPublic sample_crypto [6])
      ([1], fresh_vtls (second_message sample_crypto [6] [1] [2]), TlsOk (), k1)"
    "history_of k1 = user_history sample_crypto [1] [5] [6] (cr_PublicKey sample_crypto [2])"
    using sample_user_session by (auto simp: own)
  have "no_forgery (cr_SignPublic sample_crypto [6]) k1
      {([2], fresh_vtls (first_message sample_crypto [1] @ third_message sample_crypto [5] [1] [2]), TlsOk (), j1)}"
    using k1(2) j1(2) by (simp add: no_forgery_def history_simps own)
  from user_authenticates_server [OF sample_crypto_ok k1(1) _ this, of "[5]"] j1(1) k1(1)
  show ?thesis by (auto simp: own)
qed

text \<open>
  C24. Progress and agreement of the exchange. Over a connection that neither loses bytes nor refuses
  writes, in whatever pieces the bytes arrive: the user sends its message and waits, the server answers
  it and waits, the user, given the answer, completes and leaves what follows unread, and so does the
  server, given the user's two messages. Both have the same keys in the right directions, of 32 bytes
  each, and start at sequence number 0.
\<close>

definition with_input :: "bytes \<Rightarrow> vtls_conn \<Rightarrow> vtls_conn" where
  "with_input i k = k\<lparr>vt_tcpConn := (vt_tcpConn k)\<lparr>vn_in := i, vn_in_end := EndParked\<rparr>\<rparr>"

definition outcome :: "vtls_conn \<Rightarrow> unit tls_result \<times> vtls_conn \<Rightarrow> unit tls_result \<Rightarrow> bytes \<Rightarrow> bytes \<Rightarrow> bool" where
  "outcome k run r written unread \<longleftrightarrow> fst run = r \<and> vn_out (vt_tcpConn (snd run)) = vn_out (vt_tcpConn k) @ written
     \<and> vn_in (vt_tcpConn (snd run)) = unread"

theorem handshake_completes:
  assumes "crypto_ok cr" and "cr_ECDH cr a (cr_PublicKey cr b) = Some s"
    and "vn_writes (vt_tcpConn k) = []" and "vn_writes (vt_tcpConn j) = []"
    and "user = (\<lambda>i. HandleUserKeyExchange cr (Some a) usk (cr_SignPublic cr ssk) (with_input i k))"
    and "server = (\<lambda>i. HandleServerKeyExchange cr (Some b) ssk (cr_SignPublic cr usk) (with_input i j))"
  shows "\<exists>m1 m2 m3. outcome k (user []) TlsWaits m1 [] \<and> outcome j (server m1) TlsWaits m2 []
    \<and> (\<forall>rest rest'. outcome k (user (m2 @ rest)) (TlsOk ()) (m1 @ m3) rest
        \<and> outcome j (server (m1 @ m3 @ rest')) (TlsOk ()) m2 rest'
        \<and> keys_match (snd (user (m2 @ rest))) (snd (server (m1 @ m3 @ rest')))
        \<and> length (vt_writeKey (snd (user (m2 @ rest)))) = 32 \<and> length (vt_readKey (snd (user (m2 @ rest)))) = 32
        \<and> vt_writeSeq (snd (user (m2 @ rest))) = 0 \<and> vt_readSeq (snd (user (m2 @ rest))) = 0)"
proof -
  note ok = assms(1)
  have secret: "ComputeSharedSecret cr a (cr_PublicKey cr b) = Some s" "ComputeSharedSecret cr b (cr_PublicKey cr a) = Some s"
    using assms(2) crypto_okD(1,2) [OF ok] ComputeSharedSecret_agree [OF ok, of a b] by (auto simp: ComputeSharedSecret_def)
  obtain ck sk where "DeriveWriteKeys cr s (cr_PublicKey cr a) (cr_PublicKey cr b) = Some (ck, sk)" and l: "length ck = 32" "length sk = 32"
    using DeriveWriteKeys_ok [OF ok crypto_okD(4) [OF ok assms(2)]] crypto_okD(1) [OF ok] by blast
  with secret have ka: "keys_from cr a (cr_PublicKey cr b) (cr_PublicKey cr a) (cr_PublicKey cr b) (ck, sk)"
    and kb: "keys_from cr b (cr_PublicKey cr a) (cr_PublicKey cr a) (cr_PublicKey cr b) (ck, sk)"
    by (auto simp: keys_from_def)
  let ?u = "\<lambda>i. vt_tcpConn (with_input i k)" and ?s = "\<lambda>i. vt_tcpConn (with_input i j)"
  have w: "vn_writes (?u i) = []" "vn_writes (?s i) = []" "vn_in (?u i) = i" "vn_in (?s i) = i" "vn_in_end (?u i) = EndParked"
    "vn_in_end (?s i) = EndParked" "vn_out (?u i) = vn_out (vt_tcpConn k)" "vn_out (?s i) = vn_out (vt_tcpConn j)" for i
    using assms(3,4) by (simp_all add: with_input_def)
  have 1: "outcome k (user []) TlsWaits (first_message cr a) []"
    using user_first [OF ok w(1) w(3) w(5), where a = a and usk = usk and svk = "cr_SignPublic cr ssk"] w(7)
    by (auto simp: assms(5) HandleUserKeyExchange_def outcome_def)
  have 2: "outcome j (server (first_message cr a)) TlsWaits (second_message cr ssk a b) []"
    using server_first [OF ok w(2) w(4) w(6), where a = a and b = b and ssk = ssk and uvk = "cr_SignPublic cr usk"] w(8)
    by (auto simp: assms(6) HandleServerKeyExchange_def outcome_def)
  have 3: "outcome k (user (second_message cr ssk a b @ rest)) (TlsOk ()) (first_message cr a @ third_message cr usk a b) rest
      \<and> vt_writeKey (snd (user (second_message cr ssk a b @ rest))) = ck \<and> vt_readKey (snd (user (second_message cr ssk a b @ rest))) = sk
      \<and> vt_writeSeq (snd (user (second_message cr ssk a b @ rest))) = 0 \<and> vt_readSeq (snd (user (second_message cr ssk a b @ rest))) = 0" for rest
    using user_second [OF ok w(1) w(3) ka, where usk = usk and ssk = ssk and rest = rest] w(7)
    by (auto simp: assms(5) HandleUserKeyExchange_def outcome_def)
  have 4: "outcome j (server ((first_message cr a @ third_message cr usk a b) @ rest)) (TlsOk ()) (second_message cr ssk a b) rest
      \<and> vt_writeKey (snd (server ((first_message cr a @ third_message cr usk a b) @ rest))) = sk
      \<and> vt_readKey (snd (server ((first_message cr a @ third_message cr usk a b) @ rest))) = ck
      \<and> vt_writeSeq (snd (server ((first_message cr a @ third_message cr usk a b) @ rest))) = 0
      \<and> vt_readSeq (snd (server ((first_message cr a @ third_message cr usk a b) @ rest))) = 0" for rest
    using server_second [OF ok w(2) [of "first_message cr a @ third_message cr usk a b @ rest"] _ kb,
        where usk = usk and ssk = ssk and rest = rest] w(4,8)
    by (auto simp: assms(6) HandleServerKeyExchange_def outcome_def)
  show ?thesis
    by (intro exI [of _ "first_message cr a"] exI [of _ "second_message cr ssk a b"] exI [of _ "third_message cr usk a b"] conjI 1 2 allI)
      (use 3 4 l in \<open>simp_all add: keys_match_def\<close>)
qed

theorem handshake_completes_witness:
  "\<exists>m1 m2 m3. outcome (fresh_vtls []) (HandleUserKeyExchange sample_crypto (Some [1]) [5] [6] (with_input [] (fresh_vtls []))) TlsWaits m1 []
     \<and> outcome (fresh_vtls []) (HandleUserKeyExchange sample_crypto (Some [1]) [5] [6] (with_input (m2 @ [9]) (fresh_vtls [])))
         (TlsOk ()) (m1 @ m3) [9]"
proof -
  have "cr_ECDH sample_crypto [1] (cr_PublicKey sample_crypto [2]) = Some (map2 (+) (pad 32 [1]) (pad 32 [2]))"
    "cr_SignPublic sample_crypto [6] = [6]" by (simp_all add: sample_crypto_def)
  with handshake_completes [OF sample_crypto_ok this(1), of "fresh_vtls []" "fresh_vtls []" _ "[5]" "[6]"]
  show ?thesis by fastforce
qed

end
