(* ===== verification/TlsRecord.thy ===== *)
theory TlsRecord
  imports TlsHandshake
begin

text \<open>
  The application interface of \<open>src/pkg/tlsStack/tlsApi.go\<close>: sealed records over the TCP connection,
  dialling, listening and accepting, and the table of connections of the TLS stack.
\<close>

section \<open>Records\<close>

text \<open>Runs a transport operation on the TCP connection of a TLS connection.\<close>

definition on_tcp :: "'a tls \<Rightarrow> vtls_conn \<Rightarrow> 'a tls_result \<times> vtls_conn" where
  "on_tcp m c = (let (r, t) = m (vt_tcpConn c) in (r, c\<lparr>vt_tcpConn := t\<rparr>))"

text \<open>The bytes that \<open>VTLSWrite\<close> sends for sealed data: their length and themselves.\<close>

definition write_record :: "vtls_conn \<Rightarrow> bytes \<Rightarrow> bytes \<Rightarrow> unit tls" where
  "write_record c data sealedData =
     tls_bind (tls_note (Sealed (vt_writeKey c) (getNonce (vt_writeSeq c)) data)) (\<lambda>_.
     let lenBuf = be32 (of_nat (length sealedData)) in
     tls_bind (WriteFull lenBuf) (\<lambda>_. WriteFull sealedData))"

text \<open>A successful write returns the length of the plaintext.\<close>

definition VTLSWrite :: "crypto \<Rightarrow> bytes \<Rightarrow> vtls_conn \<Rightarrow> nat tls_result \<times> vtls_conn" where
  "VTLSWrite cr data c =
     (case SealData cr data c of
        None \<Rightarrow> (TlsErr ErrSeal, c)
      | Some sealedData \<Rightarrow>
          (case on_tcp (write_record c data sealedData) c of
             (TlsErr e, c') \<Rightarrow> (TlsErr e, c')
           | (TlsWaits, c') \<Rightarrow> (TlsWaits, c')
           | (TlsOk u, c') \<Rightarrow> (TlsOk (length data), c'\<lparr>vt_writeSeq := vt_writeSeq c' + 1\<rparr>)))"

text \<open>The record that \<open>VTLSRead\<close> reads when it has no plaintext left.\<close>

definition read_record :: "crypto \<Rightarrow> vtls_conn \<Rightarrow> bytes tls" where
  "read_record cr c =
     tls_bind (ReadFull 4) (\<lambda>lenBuf.
     let recordLen = word32 (lenBuf ! 0) (lenBuf ! 1) (lenBuf ! 2) (lenBuf ! 3) in
     tls_bind (tls_check (\<not> recordLen < of_nat AESGCMTagLen) ErrRecordTooShort) (\<lambda>_.
     tls_bind (ReadFull (unat recordLen)) (\<lambda>sealedData.
     tls_bind (tls_try ErrOpen (OpenData cr sealedData c)) (\<lambda>plaintext.
     tls_bind (tls_note (Opened (vt_readKey c) (getNonce (vt_readSeq c)) plaintext)) (\<lambda>_.
     tls_return plaintext)))))"

text \<open>A read into a buffer of \<open>len\<close> bytes returns the bytes put there.\<close>

definition VTLSRead :: "crypto \<Rightarrow> nat \<Rightarrow> vtls_conn \<Rightarrow> bytes tls_result \<times> vtls_conn" where
  "VTLSRead cr len c =
     (if 0 < length (vt_readBuf c) then
        let n = min len (length (vt_readBuf c)) in
        (TlsOk (take n (vt_readBuf c)), c\<lparr>vt_readBuf := drop n (vt_readBuf c)\<rparr>)
      else
        (case on_tcp (read_record cr c) c of
           (TlsErr e, c') \<Rightarrow> (TlsErr e, c')
         | (TlsWaits, c') \<Rightarrow> (TlsWaits, c')
         | (TlsOk plaintext, c') \<Rightarrow>
             let n = min len (length plaintext) in
             (TlsOk (take n plaintext), c'\<lparr>vt_readSeq := vt_readSeq c' + 1, vt_readBuf := drop n plaintext\<rparr>)))"

definition VTLSClose :: "vtls_conn \<Rightarrow> vtls_conn" where
  "VTLSClose c = c\<lparr>vt_tcpConn := conn_VClose (vt_tcpConn c)\<rparr>"

section \<open>Connecting and accepting\<close>

definition new_vtls_conn :: "vconn \<Rightarrow> vtls_conn" where
  "new_vtls_conn tcpConn = \<lparr>vt_tcpConn = tcpConn, vt_readKey = [], vt_writeKey = [], vt_readSeq = 0,
     vt_writeSeq = 0, vt_readBuf = []\<rparr>"

text \<open>
  \<open>VTLSDial\<close> with the outcome of \<open>VConnect\<close>, \<open>None\<close> for its error; the second result is what becomes
  of the connection, which is closed when the exchange fails.
\<close>

definition VTLSDial :: "crypto \<Rightarrow> bytes option \<Rightarrow> vtls_client_config \<Rightarrow> vconn option \<Rightarrow> unit tls_result \<times> vtls_conn option" where
  "VTLSDial cr rand config dialled =
     (case dialled of
        None \<Rightarrow> (TlsErr ErrConnect, None)
      | Some tcpConn \<Rightarrow>
          (case HandleUserKeyExchange cr rand (cc_UserSignKey config) (cc_ServerVerifyKey config) (new_vtls_conn tcpConn) of
             (TlsErr e, c) \<Rightarrow> (TlsErr e, Some (VTLSClose c))
           | (r, c) \<Rightarrow> (r, Some c)))"

text \<open>\<open>VTLSListen\<close> and \<open>VTLSAccept\<close>, the latter with the outcome of \<open>VAccept\<close>.\<close>

record vtls_listener =
  vl_tcpListener :: int
  vl_serverSignKey :: bytes
  vl_userVerifyKey :: bytes

definition VTLSListen :: "vtls_server_config \<Rightarrow> int \<Rightarrow> vtls_listener" where
  "VTLSListen config tcpListener = \<lparr>vl_tcpListener = tcpListener, vl_serverSignKey = sc_ServerSignKey config,
     vl_userVerifyKey = sc_UserVerifyKey config\<rparr>"

definition VTLSAccept :: "crypto \<Rightarrow> bytes option \<Rightarrow> vconn option \<Rightarrow> vtls_listener \<Rightarrow> unit tls_result \<times> vtls_conn option" where
  "VTLSAccept cr rand accepted l =
     (case accepted of
        None \<Rightarrow> (TlsErr ErrAccept, None)
      | Some tcpConn \<Rightarrow>
          (case HandleServerKeyExchange cr rand (vl_serverSignKey l) (vl_userVerifyKey l) (new_vtls_conn tcpConn) of
             (TlsErr e, c) \<Rightarrow> (TlsErr e, Some (VTLSClose c))
           | (r, c) \<Rightarrow> (r, Some c)))"

section \<open>Runs of writes and reads\<close>

text \<open>One write after the other until one fails or blocks; reads with the given buffer sizes likewise.\<close>

fun write_all :: "crypto \<Rightarrow> bytes list \<Rightarrow> vtls_conn \<Rightarrow> vtls_conn" where
  "write_all cr [] c = c"
| "write_all cr (p # ps) c = (case VTLSWrite cr p c of
     (TlsOk n, c') \<Rightarrow> write_all cr ps c' | (_, c') \<Rightarrow> c')"

fun read_all :: "crypto \<Rightarrow> nat list \<Rightarrow> vtls_conn \<Rightarrow> bytes list \<times> vtls_conn" where
  "read_all cr [] c = ([], c)"
| "read_all cr (len # lens) c = (case VTLSRead cr len c of
     (TlsOk d, c') \<Rightarrow> (let (ds, c'') = read_all cr lens c' in (d # ds, c'')) | (_, c') \<Rightarrow> ([], c'))"

text \<open>The events of records with the plaintexts \<open>ps\<close>, numbered from \<open>i\<close>.\<close>

fun numbered :: "(bytes \<Rightarrow> bytes \<Rightarrow> crypto_event) \<Rightarrow> u64 \<Rightarrow> bytes list \<Rightarrow> crypto_event list" where
  "numbered ev i [] = []"
| "numbered ev i (p # ps) = ev (getNonce i) p # numbered ev (i + 1) ps"

lemma numbered_append: "numbered ev i (ps @ qs) = numbered ev i ps @ numbered ev (i + of_nat (length ps)) qs"
  by (induction ps arbitrary: i) (simp_all add: algebra_simps)

lemma length_numbered [simp]: "length (numbered ev i ps) = length ps"
  by (induction ps arbitrary: i) simp_all

lemma nth_numbered: "n < length ps \<Longrightarrow> numbered ev i ps ! n = ev (getNonce (i + of_nat n)) (ps ! n)"
proof (induction ps arbitrary: i n)
  case (Cons p ps)
  then show ?case by (cases n) (simp_all add: add.assoc)
qed simp

lemma in_numbered: "x \<in> set (numbered ev i ps) \<longleftrightarrow> (\<exists>n < length ps. x = ev (getNonce (i + of_nat n)) (ps ! n))"
  by (auto simp: in_set_conv_nth nth_numbered)

lemma write_record_history:
  assumes "on_tcp (write_record c p s) c = (r, c')"
  shows "history_of c' = history_of c @ [Sealed (vt_writeKey c) (getNonce (vt_writeSeq c)) p]"
    and "c' = c\<lparr>vt_tcpConn := vt_tcpConn c'\<rparr>"
proof -
  let ?m = "tls_bind (WriteFull (be32 (of_nat (length s)))) (\<lambda>_. WriteFull s)"
  let ?c = "(vt_tcpConn c)\<lparr>vn_history := history_of c @ [Sealed (vt_writeKey c) (getNonce (vt_writeSeq c)) p]\<rparr>"
  obtain q t where m: "?m ?c = (q, t)" by force
  have "quiet ?m" by (intro quiet_bind quiet_WriteFull)
  from quietD [OF this m] have h: "vn_history t = history_of c @ [Sealed (vt_writeKey c) (getNonce (vt_writeSeq c)) p]" by simp
  have "on_tcp (write_record c p s) c = (q, c\<lparr>vt_tcpConn := t\<rparr>)"
    using m by (simp add: write_record_def on_tcp_def tls_bind_def [of "tls_note _"] tls_note_def history_of_def Let_def)
  then show "history_of c' = history_of c @ [Sealed (vt_writeKey c) (getNonce (vt_writeSeq c)) p]"
    "c' = c\<lparr>vt_tcpConn := vt_tcpConn c'\<rparr>" using assms h by (auto simp: history_of_def)
qed

lemma VTLSWrite_run:
  assumes "VTLSWrite cr p c = (r, c')"
  shows "(c' = c \<and> r = TlsErr ErrSeal) \<or> (history_of c' = history_of c @ [Sealed (vt_writeKey c) (getNonce (vt_writeSeq c)) p]
    \<and> vt_writeKey c' = vt_writeKey c \<and> (\<forall>n. r = TlsOk n \<longrightarrow> vt_writeSeq c' = vt_writeSeq c + 1))"
proof (cases "SealData cr p c")
  case (Some s)
  obtain q t where run: "on_tcp (write_record c p s) c = (q, t)" by force
  note h = write_record_history [OF run]
  have "vt_writeKey t = vt_writeKey c" "vt_writeSeq t = vt_writeSeq c" by (subst h(2), simp)+
  then show ?thesis using assms h(1)
    by (cases q) (auto simp: VTLSWrite_def Some run history_of_def)
qed (use assms in \<open>simp add: VTLSWrite_def\<close>)

lemma write_all_history:
  "\<exists>n \<le> length ps. history_of (write_all cr ps c) = history_of c @ numbered (Sealed (vt_writeKey c)) (vt_writeSeq c) (take n ps)"
proof (induction ps arbitrary: c)
  case (Cons p ps)
  obtain r c1 where r: "VTLSWrite cr p c = (r, c1)" by force
  consider "c1 = c" "r = TlsErr ErrSeal" | "history_of c1 = history_of c @ [Sealed (vt_writeKey c) (getNonce (vt_writeSeq c)) p]"
    "vt_writeKey c1 = vt_writeKey c" "\<forall>n. r = TlsOk n \<longrightarrow> vt_writeSeq c1 = vt_writeSeq c + 1"
    using VTLSWrite_run [OF r] by blast
  then show ?case
  proof cases
    case 1
    then show ?thesis using r by (intro exI [of _ 0]) simp
  next
    case 2
    show ?thesis
    proof (cases r)
      case (TlsOk n)
      obtain m where "m \<le> length ps" "history_of (write_all cr ps c1) = history_of c1 @ numbered (Sealed (vt_writeKey c1)) (vt_writeSeq c1) (take m ps)"
        using Cons.IH by blast
      then show ?thesis using 2 r TlsOk by (intro exI [of _ "Suc m"]) simp
    qed (use 2 r in \<open>intro exI [of _ 1]; simp\<close>)+
  qed
qed simp

lemma hist_return [hist_rules]: "G x h \<Longrightarrow> hist_post (tls_return x) h F G"
  by (auto simp: hist_post_def)

lemma hist_note [hist_rules]:
  assumes "\<And>u. hist_post (f u) (h @ [ev]) F G"
  shows "hist_post (tls_bind (tls_note ev) f) h F G"
  unfolding hist_post_def
proof (intro allI impI)
  fix c r c'
  assume c: "vn_history c = h" and "tls_bind (tls_note ev) f c = (r, c')"
  then have run: "f () (c\<lparr>vn_history := h @ [ev]\<rparr>) = (r, c')" by (simp add: tls_bind_def tls_note_def)
  show "case r of TlsOk x \<Rightarrow> G x (vn_history c') | _ \<Rightarrow> F (vn_history c')"
    by (rule hist_postD [OF assms _ run]) simp
qed

lemma read_record_history:
  "hist_post (read_record cr c) h (\<lambda>h'. h' = h)
     (\<lambda>p h'. h' = h @ [Opened (vt_readKey c) (getNonce (vt_readSeq c)) p])"
  unfolding read_record_def Let_def
  by (intro hist_quiet [OF quiet_ReadFull] hist_check hist_try hist_note hist_return) simp_all

lemma VTLSRead_run:
  assumes "VTLSRead cr len c = (r, c')"
  shows "vt_readKey c' = vt_readKey c \<and> (\<exists>ps. history_of c' = history_of c @ numbered (Opened (vt_readKey c)) (vt_readSeq c) ps
    \<and> vt_readSeq c' = vt_readSeq c + of_nat (length ps)
    \<and> (case r of TlsOk d \<Rightarrow> d @ vt_readBuf c' = vt_readBuf c @ concat ps | _ \<Rightarrow> ps = [] \<and> vt_readBuf c' = vt_readBuf c))"
proof (cases "vt_readBuf c = []")
  case False
  then show ?thesis using assms
    by (auto simp: VTLSRead_def Let_def history_of_def intro!: exI [of _ "[]"])
next
  case True
  obtain q t where m: "read_record cr c (vt_tcpConn c) = (q, t)" by force
  have h: "case q of TlsOk p \<Rightarrow> vn_history t = history_of c @ [Opened (vt_readKey c) (getNonce (vt_readSeq c)) p]
      | _ \<Rightarrow> vn_history t = history_of c"
    unfolding history_of_def by (rule hist_postD [OF read_record_history refl m])
  show ?thesis
  proof (cases q)
    case (TlsOk p)
    then show ?thesis using assms h True
      by (auto simp: VTLSRead_def on_tcp_def m history_of_def Let_def intro!: exI [of _ "[p]"])
  qed (use assms h True in \<open>auto simp: VTLSRead_def on_tcp_def m history_of_def intro!: exI [of _ "[]"]\<close>)
qed

lemma read_all_run:
  assumes "read_all cr lens c = (ds, c')"
  shows "\<exists>ps. history_of c' = history_of c @ numbered (Opened (vt_readKey c)) (vt_readSeq c) ps
    \<and> prefix (concat ds) (vt_readBuf c @ concat ps)"
  using assms
proof (induction lens arbitrary: c ds)
  case Nil
  then show ?case by (auto intro!: exI [of _ "[]"])
next
  case (Cons len lens)
  obtain r c1 where r: "VTLSRead cr len c = (r, c1)" by force
  obtain ps where ps: "history_of c1 = history_of c @ numbered (Opened (vt_readKey c)) (vt_readSeq c) ps"
    "vt_readSeq c1 = vt_readSeq c + of_nat (length ps)" "vt_readKey c1 = vt_readKey c"
    "case r of TlsOk d \<Rightarrow> d @ vt_readBuf c1 = vt_readBuf c @ concat ps | _ \<Rightarrow> ps = [] \<and> vt_readBuf c1 = vt_readBuf c"
    using VTLSRead_run [OF r] by blast
  show ?case
  proof (cases r)
    case (TlsOk d)
    then obtain es where es: "read_all cr lens c1 = (es, c')" "ds = d # es"
      using Cons.prems r by (auto simp: Let_def split: prod.splits)
    obtain qs where qs: "history_of c' = history_of c1 @ numbered (Opened (vt_readKey c1)) (vt_readSeq c1) qs"
      "prefix (concat es) (vt_readBuf c1 @ concat qs)" using Cons.IH [OF es(1)] by blast
    have d: "d @ vt_readBuf c1 = vt_readBuf c @ concat ps" using ps(4) TlsOk by simp
    have "prefix (d @ concat es) (d @ vt_readBuf c1 @ concat qs)" using qs(2) by simp
    then have "prefix (concat ds) (vt_readBuf c @ concat (ps @ qs))"
      unfolding es(2) using d by (metis append.assoc concat.simps(2) concat_append)
    then show ?thesis using ps(1-3) qs(1)
      by (intro exI [of _ "ps @ qs"]) (simp add: numbered_append)
  qed (use Cons.prems r ps in \<open>auto intro!: exI [of _ "[]"]\<close>)
qed

section \<open>Records that arrive unchanged\<close>

text \<open>The bytes of the record of a plaintext.\<close>

definition record_bytes :: "crypto \<Rightarrow> bytes \<Rightarrow> u64 \<Rightarrow> bytes \<Rightarrow> bytes" where
  "record_bytes cr key seq p = be32 (of_nat (length p + 16)) @ cr_Seal cr key (getNonce seq) p"

lemma VTLSWrite_ok:
  assumes ok: "crypto_ok cr" and "aes_key_ok (vt_writeKey c)" and w: "vn_writes (vt_tcpConn c) = []"
  obtains c' where "VTLSWrite cr p c = (TlsOk (length p), c')"
    and "vn_out (vt_tcpConn c') = vn_out (vt_tcpConn c) @ record_bytes cr (vt_writeKey c) (vt_writeSeq c) p"
    and "vn_writes (vt_tcpConn c') = []" and "vt_writeKey c' = vt_writeKey c" and "vt_writeSeq c' = vt_writeSeq c + 1"
    and "vn_in (vt_tcpConn c') = vn_in (vt_tcpConn c)"
  using assms that crypto_okD(8) [OF ok]
  by (simp add: VTLSWrite_def SealData_def write_record_def on_tcp_def tls_bind_def tls_note_def Let_def
      WriteFull_ok record_bytes_def)

lemma be32_word32: "word32 (be32 w ! 0) (be32 w ! 1) (be32 w ! 2) (be32 w ! 3) = w"
  by (simp add: be32_def)

lemma read_record_ok:
  assumes ok: "crypto_ok cr" and "aes_key_ok (vt_readKey d)" and p: "length p + 16 < 2 ^ 32"
    and i: "vn_in t = record_bytes cr (vt_readKey d) (vt_readSeq d) p @ rest"
  obtains t' where "read_record cr d t = (TlsOk p, t')" and "vn_in t' = rest" and "vn_in_end t' = vn_in_end t"
proof -
  let ?l = "of_nat (length p + 16) :: u32" and ?s = "cr_Seal cr (vt_readKey d) (getNonce (vt_readSeq d)) p"
  have l: "unat ?l = length p + 16" "length ?s = length p + 16" using unat_of_nat_u32 [OF p] crypto_okD(8) [OF ok] by simp_all
  obtain t1 where t1: "ReadFull 4 t = (TlsOk (be32 ?l), t1)" "took 4 t t1"
    using ReadFull_ok [of 4 t] i by (auto simp: record_bytes_def)
  have "vn_in t1 = ?s @ rest" using tookD(1) [OF t1(2)] i by (simp add: record_bytes_def)
  then obtain t2 where t2: "ReadFull (length p + 16) t1 = (TlsOk ?s, t2)" "took (length p + 16) t1 t2"
    using ReadFull_ok [of "length p + 16" t1] l(2) by auto
  have "vn_in t2 = rest" using tookD(1) [OF t2(2)] \<open>vn_in t1 = ?s @ rest\<close> l(2) by simp
  moreover have "vn_in_end t2 = vn_in_end t" using tookD(2) [OF t1(2)] tookD(2) [OF t2(2)] by simp
  moreover have "\<not> ?l < of_nat 16" using l(1) by (simp add: word_less_nat_alt)
  ultimately show thesis
    using t1(1) t2(1) l(1) assms(2) crypto_okD(9) [OF ok] that
    by (simp add: read_record_def tls_bind_def tls_note_def Let_def be32_word32 [simplified] OpenData_def)
qed

lemma VTLSRead_ok:
  assumes ok: "crypto_ok cr" and "aes_key_ok (vt_readKey d)" and "length p + 16 < 2 ^ 32"
    and "vn_in (vt_tcpConn d) = record_bytes cr (vt_readKey d) (vt_readSeq d) p @ rest" and "vt_readBuf d = []"
  obtains d' where "VTLSRead cr (length p) d = (TlsOk p, d')" and "vn_in (vt_tcpConn d') = rest"
    and "vt_readKey d' = vt_readKey d" and "vt_readSeq d' = vt_readSeq d + 1" and "vt_readBuf d' = []"
    and "history_of d' = history_of d @ [Opened (vt_readKey d) (getNonce (vt_readSeq d)) p]"
proof -
  obtain t' where t: "read_record cr d (vt_tcpConn d) = (TlsOk p, t')" "vn_in t' = rest"
    using read_record_ok [OF assms(1-4)] by blast
  moreover have "vn_history t' = history_of d @ [Opened (vt_readKey d) (getNonce (vt_readSeq d)) p]"
    using hist_postD [OF read_record_history refl t(1)] by (simp add: history_of_def)
  ultimately show thesis using assms(5) that by (simp add: VTLSRead_def on_tcp_def history_of_def)
qed

lemma write_all_out:
  assumes ok: "crypto_ok cr"
  shows "aes_key_ok (vt_writeKey c) \<Longrightarrow> vn_writes (vt_tcpConn c) = [] \<Longrightarrow> vt_readKey d = vt_writeKey c \<Longrightarrow>
    vt_readSeq d = vt_writeSeq c \<Longrightarrow> vt_readBuf d = [] \<Longrightarrow> \<forall>p \<in> set ps. length p + 16 < 2 ^ 32 \<Longrightarrow>
    \<exists>b. vn_out (vt_tcpConn (write_all cr ps c)) = vn_out (vt_tcpConn c) @ b
      \<and> (vn_in (vt_tcpConn d) = b @ rest \<longrightarrow> (\<exists>d'. read_all cr (map length ps) d = (ps, d') \<and> vn_in (vt_tcpConn d') = rest))"
proof (induction ps arbitrary: c d)
  case (Cons p ps)
  obtain c1 where c1: "VTLSWrite cr p c = (TlsOk (length p), c1)"
    "vn_out (vt_tcpConn c1) = vn_out (vt_tcpConn c) @ record_bytes cr (vt_writeKey c) (vt_writeSeq c) p"
    "vn_writes (vt_tcpConn c1) = []" "vt_writeKey c1 = vt_writeKey c" "vt_writeSeq c1 = vt_writeSeq c + 1"
    using VTLSWrite_ok [OF ok Cons.prems(1,2)] by metis
  obtain b where b: "vn_out (vt_tcpConn (write_all cr ps c1)) = vn_out (vt_tcpConn c1) @ b"
    using Cons.IH [of c1 "d\<lparr>vt_readSeq := vt_writeSeq c1\<rparr>"] Cons.prems c1 by auto
  have "\<exists>d'. read_all cr (map length (p # ps)) d = (p # ps, d') \<and> vn_in (vt_tcpConn d') = rest"
    if i: "vn_in (vt_tcpConn d) = record_bytes cr (vt_writeKey c) (vt_writeSeq c) p @ b @ rest"
  proof -
    obtain d1 where d1: "VTLSRead cr (length p) d = (TlsOk p, d1)" "vn_in (vt_tcpConn d1) = b @ rest"
      "vt_readKey d1 = vt_readKey d" "vt_readSeq d1 = vt_readSeq d + 1" "vt_readBuf d1 = []"
      using VTLSRead_ok [OF ok _ _ _ Cons.prems(5), of p "b @ rest"] i Cons.prems(1,3,4,6) by auto
    obtain b' where "vn_out (vt_tcpConn (write_all cr ps c1)) = vn_out (vt_tcpConn c1) @ b'"
      "vn_in (vt_tcpConn d1) = b' @ rest \<longrightarrow> (\<exists>d'. read_all cr (map length ps) d1 = (ps, d') \<and> vn_in (vt_tcpConn d') = rest)"
      using Cons.IH [of c1 d1] Cons.prems c1 d1 by auto
    then show ?thesis using b d1 by auto
  qed
  then show ?case using b c1 by (intro exI [of _ "record_bytes cr (vt_writeKey c) (vt_writeSeq c) p @ b"]) simp
qed auto

section \<open>The secure channel\<close>

lemma opened_prefix:
  assumes "history_of c = []" and "length ps < 2 ^ 64" and "vt_readSeq d = vt_writeSeq c" and "vt_readKey d = vt_writeKey c"
    and qs: "history_of d' = numbered (Opened (vt_readKey d)) (vt_readSeq d) qs"
    and "\<forall>n p. Opened (vt_readKey d) n p \<in> set (history_of d') \<longrightarrow>
      Sealed (vt_readKey d) n p \<in> set (history_of (write_all cr ps c))"
  shows "prefix qs ps"
proof -
  obtain m where m: "m \<le> length ps"
    "history_of (write_all cr ps c) = numbered (Sealed (vt_writeKey c)) (vt_writeSeq c) (take m ps)"
    using write_all_history [of ps cr c] assms(1) by auto
  have nth: "n < length ps \<and> qs ! n = ps ! n" if "n < length qs" "n < 2 ^ 64" for n
  proof -
    have "Sealed (vt_readKey d) (getNonce (vt_readSeq d + of_nat n)) (qs ! n) \<in> set (history_of (write_all cr ps c))"
      using assms(6) qs that(1) by (auto simp: in_numbered)
    then obtain j where j: "j < m" "j < length ps" "getNonce (vt_readSeq d + of_nat n) = getNonce (vt_writeSeq c + of_nat j)" "qs ! n = ps ! j"
      using m by (auto simp: in_numbered)
    then have "(of_nat n :: u64) = of_nat j" using assms(3) by (simp add: getNonce_inj)
    then have "unat (of_nat n :: u64) = unat (of_nat j :: u64)" by simp
    then have "n = j" using that(2) j(2) assms(2) by (simp add: unat_of_nat take_bit_nat_eq_self)
    then show ?thesis using j by simp
  qed
  have len: "length qs \<le> length ps"
  proof (rule ccontr)
    assume "\<not> length qs \<le> length ps"
    then show False using nth [of "length ps"] assms(2) by simp
  qed
  have "qs = take (length qs) ps"
    using len nth assms(2) by (intro nth_equalityI) auto
  then show ?thesis by (metis take_is_prefix)
qed

lemma prefix_concat: "prefix qs ps \<Longrightarrow> prefix (concat qs) (concat ps)"
  by (auto simp: prefix_def)

text \<open>
  C6. The channel between two ends that share a key, over a network in the hands of an attacker. One
  end writes a sequence of messages, the other reads with buffers of any sizes whatever bytes the
  attacker delivers. If every record that opened had been sealed with this key and nonce by the writer
  (no forgery), what the reader's application got is a prefix of what the writer's application wrote:
  nothing changed, reordered, repeated, dropped in the middle or inserted.
\<close>

theorem reader_gets_prefix:
  assumes "vt_readKey d = vt_writeKey c" and "vt_readSeq d = vt_writeSeq c" and "vt_readBuf d = []"
    and "history_of c = []" and "history_of d = []" and "length ps < 2 ^ 64"
    and "read_all cr lens d = (ds, d')"
    and "\<forall>n p. Opened (vt_readKey d) n p \<in> set (history_of d') \<longrightarrow>
      Sealed (vt_readKey d) n p \<in> set (history_of (write_all cr ps c))"
  shows "prefix (concat ds) (concat ps)"
proof -
  obtain qs where qs: "history_of d' = numbered (Opened (vt_readKey d)) (vt_readSeq d) qs" "prefix (concat ds) (concat qs)"
    using read_all_run [OF assms(7)] assms(3,5) by auto
  have "prefix qs ps" by (rule opened_prefix [OF assms(4,6,2,1) qs(1) assms(8)])
  then show ?thesis using qs(2) prefix_concat prefix_order.trans by blast
qed

text \<open>
  C25. What is written is read: over a connection that delivers the bytes of the writer unchanged, in
  pieces of any size, every message comes out as it went in, one read each, and what follows the
  records stays unread.
\<close>

theorem records_roundtrip:
  assumes "crypto_ok cr" and "aes_key_ok (vt_writeKey c)" and "vn_writes (vt_tcpConn c) = []"
    and "vt_readKey d = vt_writeKey c" and "vt_readSeq d = vt_writeSeq c" and "vt_readBuf d = []"
    and "\<forall>p \<in> set ps. length p + 16 < 2 ^ 32"
    and "vn_out (vt_tcpConn (write_all cr ps c)) = vn_out (vt_tcpConn c) @ b"
    and "vn_in (vt_tcpConn d) = b @ rest"
  shows "\<exists>d'. read_all cr (map length ps) d = (ps, d') \<and> vn_in (vt_tcpConn d') = rest"
  using write_all_out [OF assms(1-7)] assms(8,9) by auto

text \<open>A record of which only a part has arrived is not read.\<close>

lemma read_record_short:
  assumes p: "length p + 16 < 2 ^ 32" and ok: "crypto_ok cr"
    and i: "vn_in t = take k (record_bytes cr key seq p)" and k: "k < length (record_bytes cr key seq p)"
  obtains t' where "read_record cr d t = (end_outcome (vn_in_end t), t')"
proof -
  let ?l = "of_nat (length p + 16) :: u32"
  have len: "length (vn_in t) = k" "length (record_bytes cr key seq p) = length p + 20"
    using i k crypto_okD(8) [OF ok] by (auto simp: record_bytes_def)
  have step: "tls_bind m f t = (end_outcome en, t1)" if "m t = (end_outcome en, t1)" for m :: "'b tls" and f :: "'b \<Rightarrow> bytes tls" and en t t1
    using that by (cases en) (simp_all add: tls_bind_def)
  show thesis
  proof (cases "k < 4")
    case True
    then obtain t' where "ReadFull 4 t = (end_outcome (vn_in_end t), t')" using ReadFull_short [of t 4] len(1) by auto
    then show thesis using that step unfolding read_record_def by blast
  next
    case False
    then obtain t1 where t1: "ReadFull 4 t = (TlsOk (be32 ?l), t1)" "took 4 t t1"
      using ReadFull_ok [of 4 t] len(1) i by (auto simp: record_bytes_def min_def)
    have l: "unat ?l = length p + 16" by (rule unat_of_nat_u32 [OF p])
    have "length (vn_in t1) < length p + 16" "vn_in_end t1 = vn_in_end t"
      using tookD(1,2) [OF t1(2)] len k by auto
    then obtain t2 where "ReadFull (length p + 16) t1 = (end_outcome (vn_in_end t), t2)"
      using ReadFull_short [of t1 "length p + 16"] by auto
    then have "tls_bind (ReadFull (length p + 16)) f t1 = (end_outcome (vn_in_end t), t2)" for f :: "bytes \<Rightarrow> bytes tls"
      by (rule step)
    moreover have "\<not> ?l < of_nat 16" using l by (simp add: word_less_nat_alt)
    ultimately show thesis using that t1(1) l
      by (simp add: read_record_def tls_bind_Ok Let_def be32_word32 [simplified])
  qed
qed

text \<open>
  Truncation is taken for the end. However many bytes of a record, fewer than all, have arrived
  when the peer's stream ends, \<open>VTLSRead\<close> reports \<open>io.EOF\<close>, the same as at a clean end of the stream.
\<close>

theorem truncation_reads_as_end:
  assumes "length p + 16 < 2 ^ 32" and "crypto_ok cr" and "vt_readBuf d = []" and "vn_in_end (vt_tcpConn d) = EndEOF"
    and "vn_in (vt_tcpConn d) = take k (record_bytes cr key seq p)" and "k < length (record_bytes cr key seq p)"
  shows "fst (VTLSRead cr len d) = TlsErr ErrEOF"
proof -
  obtain t' where "read_record cr d (vt_tcpConn d) = (TlsErr ErrEOF, t')"
    using read_record_short [OF assms(1,2,5,6)] assms(4) by (metis end_outcome.simps(2))
  then show ?thesis using assms(3) by (simp add: VTLSRead_def on_tcp_def)
qed

text \<open>
  C39. Overlapping writes reuse a nonce. Writes run in goroutines of their own, and the sequence number
  is increased only after the record is in the send buffer. While one write is blocked by a full buffer,
  a second one on the same connection seals other data with the same key and nonce, which AES-GCM does
  not survive.
\<close>

theorem overlapping_writes_reuse_nonce:
  assumes "aes_key_ok (vt_writeKey c)" and "VTLSWrite cr p c = (TlsWaits, c1)" and "VTLSWrite cr q c1 = (r, c2)"
  shows "history_of c2 = history_of c @ [Sealed (vt_writeKey c) (getNonce (vt_writeSeq c)) p,
      Sealed (vt_writeKey c) (getNonce (vt_writeSeq c)) q]"
proof -
  have seal: "SealData cr x c \<noteq> None" "SealData cr x c1 \<noteq> None \<longleftrightarrow> aes_key_ok (vt_writeKey c1)" for x
    using assms(1) by (auto simp: SealData_def)
  obtain s where s: "SealData cr p c = Some s" using seal(1) by blast
  then have w: "on_tcp (write_record c p s) c = (TlsWaits, c1)"
    using assms(2) by (auto simp: VTLSWrite_def split: prod.split_asm tls_result.split_asm)
  note h = write_record_history [OF w]
  have k: "vt_writeKey c1 = vt_writeKey c" "vt_writeSeq c1 = vt_writeSeq c" by (subst h(2), simp)+
  obtain s' where s': "SealData cr q c1 = Some s'" using seal(2) assms(1) k by auto
  obtain x c3 where w': "on_tcp (write_record c1 q s') c1 = (x, c3)" by force
  have "history_of c2 = history_of c3"
    using assms(3) s' w' by (cases x) (auto simp: VTLSWrite_def history_of_def)
  then show ?thesis using write_record_history(1) [OF w'] h(1) k by simp
qed

section \<open>Witnesses\<close>

text \<open>Two ends with a key, and what the writer sends for two messages.\<close>

definition sample_key :: bytes where
  "sample_key = replicate 32 7"

definition sample_writer :: vtls_conn where
  "sample_writer = (fresh_vtls [])\<lparr>vt_writeKey := sample_key\<rparr>"

definition sample_reader :: "bytes \<Rightarrow> vtls_conn" where
  "sample_reader i = (fresh_vtls i)\<lparr>vt_readKey := sample_key\<rparr>"

lemma sample_ends [simp]:
  "vt_writeKey sample_writer = sample_key" "vt_writeSeq sample_writer = 0" "vn_writes (vt_tcpConn sample_writer) = []"
  "vt_readKey (sample_reader i) = sample_key" "vt_readSeq (sample_reader i) = 0" "vt_readBuf (sample_reader i) = []"
  "vn_in (vt_tcpConn (sample_reader i)) = i" "vn_out (vt_tcpConn sample_writer) = []" "history_of sample_writer = []"
  "history_of (sample_reader i) = []" "aes_key_ok sample_key"
  by (simp_all add: sample_writer_def sample_reader_def fresh_vtls_def sample_key_def history_of_def aes_key_ok_def)

theorem records_roundtrip_witness:
  "\<exists>d'. read_all sample_crypto [3, 0] (sample_reader (vn_out (vt_tcpConn (write_all sample_crypto [[1, 2, 3], []] sample_writer)) @ [9]))
     = ([[1, 2, 3], []], d') \<and> vn_in (vt_tcpConn d') = [9]"
  using records_roundtrip [OF sample_crypto_ok, of sample_writer
      "sample_reader (vn_out (vt_tcpConn (write_all sample_crypto [[1, 2, 3], []] sample_writer)) @ [9])" "[[1, 2, 3], []]"
      "vn_out (vt_tcpConn (write_all sample_crypto [[1, 2, 3], []] sample_writer))" "[9]"]
  by (simp add: numeral_3_eq_3 del: write_all.simps read_all.simps)

theorem truncation_reads_as_end_witness:
  "fst (VTLSRead sample_crypto 100 ((sample_reader [0, 0, 0, 19, 1])\<lparr>vt_tcpConn :=
     (vt_tcpConn (sample_reader [0, 0, 0, 19, 1]))\<lparr>vn_in_end := EndEOF\<rparr>\<rparr>)) = TlsErr ErrEOF"
proof -
  have b: "record_bytes sample_crypto sample_key 0 [1, 2, 3] = [0, 0, 0, 19] @ [1, 2, 3] @ pad 16 (getNonce 0)"
    by (simp add: record_bytes_def be32_def sample_crypto_def)
  show ?thesis
    by (rule truncation_reads_as_end [of "[1, 2, 3]" sample_crypto _ 5 sample_key 0]) (use b sample_crypto_ok in simp_all)
qed

text \<open>The attacker delivers the first of two records and garbage.\<close>

theorem reader_gets_prefix_witness:
  "\<exists>ds d'. read_all sample_crypto [3] (sample_reader (record_bytes sample_crypto sample_key 0 [1, 2, 3] @ [0, 0, 9])) = (ds, d')
     \<and> ds = [[1, 2, 3]] \<and> prefix (concat ds) (concat [[1, 2, 3], [4]])"
proof -
  let ?d = "sample_reader (record_bytes sample_crypto sample_key 0 [1, 2, 3] @ [0, 0, 9])"
  obtain d' where d: "VTLSRead sample_crypto 3 ?d = (TlsOk [1, 2, 3], d')" "history_of d' = [Opened sample_key (getNonce 0) [1, 2, 3]]"
    by (rule VTLSRead_ok [OF sample_crypto_ok, of ?d "[1, 2, 3]" "[0, 0, 9]"]) (simp_all add: numeral_3_eq_3)
  obtain c where c: "VTLSWrite sample_crypto [1, 2, 3] sample_writer = (TlsOk 3, c)"
    by (rule VTLSWrite_ok [OF sample_crypto_ok, of sample_writer "[1, 2, 3]"]) simp_all
  obtain n where "history_of (write_all sample_crypto [[4]] c) = history_of c @ numbered (Sealed (vt_writeKey c)) (vt_writeSeq c) (take n [[4]])"
    using write_all_history by blast
  moreover have "history_of c = [Sealed sample_key (getNonce 0) [1, 2, 3]]" using VTLSWrite_run [OF c] by simp
  ultimately have sealed: "Sealed sample_key (getNonce 0) [1, 2, 3] \<in> set (history_of (write_all sample_crypto [[1, 2, 3], [4]] sample_writer))"
    using c by simp
  have "read_all sample_crypto [3] ?d = ([[1, 2, 3]], d')" using d(1) by simp
  from reader_gets_prefix [OF _ _ _ _ _ _ this, of sample_writer "[[1, 2, 3], [4]]"] sealed d(2) this
  show ?thesis by simp
qed

text \<open>A write that finds room for the length field only, and one after it.\<close>

definition slow_writer :: vtls_conn where
  "slow_writer = sample_writer\<lparr>vt_tcpConn := (vt_tcpConn sample_writer)\<lparr>vn_writes := [WritesAll, WriteBlocks 0]\<rparr>\<rparr>"

theorem overlapping_writes_reuse_nonce_witness:
  "\<exists>c1 r c2. VTLSWrite sample_crypto [1] slow_writer = (TlsWaits, c1) \<and> VTLSWrite sample_crypto [2] c1 = (r, c2)
     \<and> history_of c2 = [Sealed sample_key (getNonce 0) [1], Sealed sample_key (getNonce 0) [2]]"
proof -
  have k: "vt_writeKey slow_writer = sample_key" "vt_writeSeq slow_writer = 0" "history_of slow_writer = []"
    by (simp_all add: slow_writer_def history_of_def sample_writer_def fresh_vtls_def)
  have w: "vn_writes (vt_tcpConn slow_writer) = [WritesAll, WriteBlocks 0]" by (simp add: slow_writer_def)
  obtain s where s: "SealData sample_crypto [1] slow_writer = Some s" "s \<noteq> []"
    using k crypto_okD(8) [OF sample_crypto_ok, of sample_key "getNonce 0" "[1]"] by (fastforce simp: SealData_def)
  have "fst (VTLSWrite sample_crypto [1] slow_writer) = TlsWaits"
    using s w by (simp add: VTLSWrite_def write_record_def on_tcp_def tls_bind_def tls_note_def Let_def WriteFull_def
        WriteFull_loop.simps [of "be32 _" 0] WriteFull_loop.simps [of "be32 _" 4] WriteFull_loop.simps [of s 0] conn_VWrite_def)
  then obtain c1 where c1: "VTLSWrite sample_crypto [1] slow_writer = (TlsWaits, c1)" by (metis prod.collapse)
  obtain r c2 where c2: "VTLSWrite sample_crypto [2] c1 = (r, c2)" by force
  from overlapping_writes_reuse_nonce [OF _ c1 c2] c1 c2 k show ?thesis by simp
qed

end
