(* ===== verification/FileTransfer.thy ===== *)
theory FileTransfer
  imports TlsRecord
begin

text \<open>
  The file transfers of the command lines: \<open>sf\<close> and \<open>rf\<close> over TCP (\<open>src/pkg/tcpStack/tcpRepl.go\<close>) and
  \<open>tlssf\<close> and \<open>tlsrf\<close> over TLS (\<open>src/pkg/tlsStack/tlsRepl.go\<close>). The loops of both are the same, over
  different connections; what they need of a connection is stated as two locales, \<open>byte_sink\<close> and
  \<open>byte_source\<close>, that both kinds of connection are shown to meet.
\<close>

section \<open>The loops\<close>

text \<open>
  The source file as the results of its \<open>Read\<close> calls with a buffer of 4096 bytes; after the list come
  empty reads with \<open>io.EOF\<close>.
\<close>

datatype file_err = NoFileErr | FileEOF | FileFails

type_synonym file_reads = "(bytes \<times> file_err) list"

datatype send_outcome = SentFile nat | ShortWrite | SendFails | SendWaits

fun send_loop :: "(bytes \<Rightarrow> 'c \<Rightarrow> nat tls_result \<times> 'c) \<Rightarrow> file_reads \<Rightarrow> nat \<Rightarrow> 'c \<Rightarrow> send_outcome \<times> 'c" where
  "send_loop send [] totalBytesWritten c = (SentFile totalBytesWritten, c)"
| "send_loop send ((buf, readErr) # reads) totalBytesWritten c =
     (if readErr = FileFails then (SendFails, c)
      else if 0 < length buf then
        (case send buf c of
           (TlsErr e, c') \<Rightarrow> (SendFails, c')
         | (TlsWaits, c') \<Rightarrow> (SendWaits, c')
         | (TlsOk bytesWritten, c') \<Rightarrow>
             if bytesWritten \<noteq> length buf then (ShortWrite, c')
             else if readErr = FileEOF then (SentFile (totalBytesWritten + bytesWritten), c')
             else send_loop send reads (totalBytesWritten + bytesWritten) c')
      else if readErr = FileEOF then (SentFile totalBytesWritten, c)
      else send_loop send reads totalBytesWritten c)"

text \<open>
  The receiving loop, with fuel: \<open>file\<close> is what has been written to the destination, and \<open>disk n\<close> says
  that a file of \<open>n\<close> bytes can be written.
\<close>

datatype recv_outcome = ReceivedFile nat | RecvFails | RecvWaits | RecvRunning

fun recv_loop :: "(nat \<Rightarrow> 'c \<Rightarrow> bytes tls_result \<times> 'c) \<Rightarrow> (nat \<Rightarrow> bool) \<Rightarrow> nat \<Rightarrow> bytes \<Rightarrow> 'c \<Rightarrow> recv_outcome \<times> bytes \<times> 'c" where
  "recv_loop recv disk 0 file c = (RecvRunning, file, c)"
| "recv_loop recv disk (Suc fuel) file c =
     (case recv 4096 c of
        (TlsErr e, c') \<Rightarrow> (if e = ErrEOF then ReceivedFile (length file) else RecvFails, file, c')
      | (TlsWaits, c') \<Rightarrow> (RecvWaits, file, c')
      | (TlsOk d, c') \<Rightarrow>
          if 0 < length d then
            (if disk (length file + length d) then recv_loop recv disk fuel (file @ d) c' else (RecvFails, file, c'))
          else recv_loop recv disk fuel file c')"

text \<open>The contents of a file that reads without errors.\<close>

fun file_of :: "file_reads \<Rightarrow> bytes" where
  "file_of [] = []"
| "file_of ((buf, readErr) # reads) = (if readErr = NoFileErr then buf @ file_of reads else buf)"

definition readable :: "file_reads \<Rightarrow> bool" where
  "readable reads \<longleftrightarrow> (\<forall>(buf, e) \<in> set reads. e \<noteq> FileFails \<and> length buf \<le> 4096)"

section \<open>Connections that carry bytes\<close>

text \<open>
  A sink: a call that succeeds reports the length of its data, and \<open>gave c d c'\<close> relates the states
  before and after the bytes \<open>d\<close> were given to it.
\<close>

locale byte_sink =
  fixes send :: "bytes \<Rightarrow> 'c \<Rightarrow> nat tls_result \<times> 'c" and gave :: "'c \<Rightarrow> bytes \<Rightarrow> 'c \<Rightarrow> bool"
  assumes gave_nothing: "gave c [] c"
    and gave_more: "gave c d c1 \<Longrightarrow> gave c1 e c2 \<Longrightarrow> gave c (d @ e) c2"
    and send_all: "send d c = (TlsOk n, c') \<Longrightarrow> n = length d \<and> gave c d c'"
begin

lemma sends_file:
  "send_loop send reads t0 c = (SentFile n, c') \<Longrightarrow> n = t0 + length (file_of reads) \<and> gave c (file_of reads) c'"
proof (induction reads arbitrary: t0 c)
  case (Cons x reads)
  obtain buf e where x: "x = (buf, e)" by (cases x)
  obtain r c1 where r: "send buf c = (r, c1)" by force
  have e: "e \<noteq> FileFails" using Cons.prems x by auto
  show ?case
  proof (cases "buf = []")
    case True
    then show ?thesis using Cons e x gave_nothing by (cases e) auto
  next
    case False
    with Cons.prems x r e obtain k where k: "r = TlsOk k" "k = length buf"
      by (cases r) (auto split: if_splits)
    have g: "gave c buf c1" using send_all r k(1) by blast
    show ?thesis
    proof (cases "e = FileEOF")
      case True
      with Cons.prems x r k False g show ?thesis by simp
    next
      case more: False
      then have "send_loop send reads (t0 + k) c1 = (SentFile n, c')" using Cons.prems x r k False e by simp
      from Cons.IH [OF this] gave_more [OF g] show ?thesis using x e more k by (cases e) auto
    qed
  qed
qed (simp add: gave_nothing)

lemma never_short: "fst (send_loop send reads t0 c) \<noteq> ShortWrite"
proof (induction reads arbitrary: t0 c)
  case (Cons x reads)
  obtain buf e where x: "x = (buf, e)" by (cases x)
  show ?case
  proof (cases "send buf c")
    case (Pair r c1)
    then show ?thesis using Cons.IH x send_all [of buf c _ c1] by (cases r) auto
  qed
qed simp

end

text \<open>A source: \<open>took c d c'\<close> relates the states before and after the bytes \<open>d\<close> were taken from it.\<close>

locale byte_source =
  fixes recv :: "nat \<Rightarrow> 'c \<Rightarrow> bytes tls_result \<times> 'c" and took :: "'c \<Rightarrow> bytes \<Rightarrow> 'c \<Rightarrow> bool"
  assumes took_nothing: "took c [] c"
    and took_more: "took c d c1 \<Longrightarrow> took c1 e c2 \<Longrightarrow> took c (d @ e) c2"
    and recv_data: "recv len c = (TlsOk d, c') \<Longrightarrow> took c d c'"
    and recv_end: "recv len c = (r, c') \<Longrightarrow> (\<And>d. r \<noteq> TlsOk d) \<Longrightarrow> took c [] c'"
begin

text \<open>The file is what was taken, but for the last bytes when the disk fails.\<close>

lemma writes_taken:
  "recv_loop recv disk fuel dst c = (r, dst', c') \<Longrightarrow> \<exists>d lost. dst' = dst @ d \<and> took c (d @ lost) c'
     \<and> (r \<noteq> RecvFails \<longrightarrow> lost = []) \<and> (\<forall>n. r = ReceivedFile n \<longrightarrow> n = length dst')"
proof (induction fuel arbitrary: dst c)
  case (Suc fuel)
  obtain q c1 where q: "recv 4096 c = (q, c1)" by force
  show ?case
  proof (cases q)
    case (TlsOk d)
    then have t: "took c d c1" using recv_data q by blast
    show ?thesis
    proof (cases "d \<noteq> [] \<and> \<not> disk (length dst + length d)")
      case True
      then show ?thesis using Suc.prems q TlsOk t by (intro exI [of _ "[]"] exI [of _ d]) auto
    next
      case False
      then have "recv_loop recv disk fuel (dst @ d) c1 = (r, dst', c')" using Suc.prems q TlsOk by (auto split: if_splits)
      from Suc.IH [OF this] obtain d' lost where "dst' = (dst @ d) @ d'" "took c1 (d' @ lost) c'"
        "r \<noteq> RecvFails \<longrightarrow> lost = []" "\<forall>n. r = ReceivedFile n \<longrightarrow> n = length dst'" by blast
      then show ?thesis using took_more [OF t] by (intro exI [of _ "d @ d'"] exI [of _ lost]) auto
    qed
  next
    case (TlsErr e)
    then show ?thesis using Suc.prems q recv_end [OF q] by (cases "e = ErrEOF") (auto intro!: exI [of _ "[]"])
  next
    case TlsWaits
    then show ?thesis using Suc.prems q recv_end [OF q] by (intro exI [of _ "[]"]) auto
  qed
qed (auto intro: took_nothing)

end

section \<open>TCP\<close>

text \<open>\<open>VWrite\<close> and \<open>VRead\<close> as the loops see them.\<close>

definition tcp_send :: "bytes \<Rightarrow> vconn \<Rightarrow> nat tls_result \<times> vconn" where
  "tcp_send d c = (case conn_VWrite d c of
     (WriteDone n, c') \<Rightarrow> (TlsOk n, c') | (WriteClosing, c') \<Rightarrow> (TlsErr ErrClosing, c') | (WriteParked n, c') \<Rightarrow> (TlsWaits, c'))"

definition tcp_recv :: "nat \<Rightarrow> vconn \<Rightarrow> bytes tls_result \<times> vconn" where
  "tcp_recv len c = (case conn_VRead len c of
     (ReadOk d n, c') \<Rightarrow> (TlsOk (take n d), c') | (ReadEOF, c') \<Rightarrow> (TlsErr ErrEOF, c')
   | (ReadClosing, c') \<Rightarrow> (TlsErr ErrClosing, c') | (ReadParked, c') \<Rightarrow> (TlsWaits, c'))"

interpretation tcp_sink: byte_sink tcp_send "\<lambda>c d c'. vn_out c' = vn_out c @ d"
  by unfold_locales (auto simp: tcp_send_def conn_VWrite_def Let_def split: list.splits write_outcome.splits vwrite_result.splits)

lemma tcp_recv_empty:
  "vn_in c = [] \<Longrightarrow> tcp_recv len c =
    (case vn_in_end c of EndEOF \<Rightarrow> TlsErr ErrEOF | EndClosing \<Rightarrow> TlsErr ErrClosing | EndParked \<Rightarrow> TlsWaits, c)"
  by (cases "vn_in_end c") (simp_all add: tcp_recv_def conn_VRead_def)

lemma tcp_recv_some:
  assumes "vn_in c \<noteq> []"
  obtains n where "tcp_recv len c = (TlsOk (take n (vn_in c)), c\<lparr>vn_in := drop n (vn_in c), vn_found := tl (vn_found c)\<rparr>)"
    and "n \<le> len" and "n \<le> length (vn_in c)" and "0 < len \<Longrightarrow> 0 < n"
proof -
  define a where "a = (case vn_found c of [] \<Rightarrow> length (vn_in c) | k # _ \<Rightarrow> min (Suc k) (length (vn_in c)))"
  have "tcp_recv len c = (TlsOk (take (min len a) (take (min len a) (vn_in c))),
      c\<lparr>vn_in := drop (min len a) (vn_in c), vn_found := tl (vn_found c)\<rparr>)"
    using assms by (simp add: tcp_recv_def conn_VRead_def Let_def flip: a_def)
  moreover have "a \<le> length (vn_in c)" "0 < a" using assms by (auto simp: a_def split: list.splits)
  ultimately show thesis using that [of "min len a"] by simp
qed

interpretation tcp_source: byte_source tcp_recv "\<lambda>c d c'. vn_in c = d @ vn_in c' \<and> vn_in_end c' = vn_in_end c"
proof (unfold_locales, goal_cases)
  case (3 len c d c')
  show ?case
  proof (cases "vn_in c = []")
    case True
    then show ?thesis using 3 by (simp add: tcp_recv_empty split: read_end.splits)
  next
    case False
    show ?thesis by (rule tcp_recv_some [OF False, of len]) (use 3 in auto)
  qed
next
  case (4 len c r c')
  show ?case
  proof (cases "vn_in c = []")
    case True
    then show ?thesis using 4 by (simp add: tcp_recv_empty)
  next
    case False
    show ?thesis by (rule tcp_recv_some [OF False, of len]) (use 4 in auto)
  qed
qed auto

lemma tcp_receives_all:
  "vn_in_end c = EndEOF \<Longrightarrow> length (vn_in c) < fuel \<Longrightarrow>
     \<exists>c'. recv_loop tcp_recv (\<lambda>_. True) fuel dst c = (ReceivedFile (length dst + length (vn_in c)), dst @ vn_in c, c')"
proof (induction fuel arbitrary: dst c)
  case (Suc fuel)
  show ?case
  proof (cases "vn_in c = []")
    case True
    then show ?thesis using Suc.prems(1) by (simp add: tcp_recv_empty)
  next
    case False
    then obtain n where n: "tcp_recv 4096 c = (TlsOk (take n (vn_in c)), c\<lparr>vn_in := drop n (vn_in c), vn_found := tl (vn_found c)\<rparr>)"
      "n \<le> length (vn_in c)" "0 < n" by (rule tcp_recv_some [of c 4096]) auto
    let ?c = "c\<lparr>vn_in := drop n (vn_in c), vn_found := tl (vn_found c)\<rparr>"
    have "vn_in_end ?c = EndEOF" "length (vn_in ?c) < fuel" using Suc.prems n(2,3) by simp_all
    from Suc.IH [OF this] obtain c' where "recv_loop tcp_recv (\<lambda>_. True) fuel (dst @ take n (vn_in c)) ?c
        = (ReceivedFile (length (dst @ take n (vn_in c)) + length (vn_in ?c)), (dst @ take n (vn_in c)) @ vn_in ?c, c')" by blast
    then show ?thesis using n False by (auto simp: min_def)
  qed
qed simp

text \<open>
  \<open>sf\<close> with the outcomes of \<open>VConnect\<close> and \<open>os.Open\<close>. Only the last branch closes the connection. \<open>rf\<close>
  with the connection that was accepted; \<open>disk 0\<close> says whether the file can be created.
\<close>

definition sfCommand :: "vconn option \<Rightarrow> file_reads option \<Rightarrow> send_outcome \<times> vconn option" where
  "sfCommand dialled srcFile = (case dialled of
     None \<Rightarrow> (SendFails, None)
   | Some conn \<Rightarrow> (case srcFile of
       None \<Rightarrow> (SendFails, Some conn)
     | Some reads \<Rightarrow> (case send_loop tcp_send reads 0 conn of
         (SentFile n, conn') \<Rightarrow> (SentFile n, Some (conn_VClose conn'))
       | (r, conn') \<Rightarrow> (r, Some conn'))))"

definition rfCommand :: "(nat \<Rightarrow> bool) \<Rightarrow> nat \<Rightarrow> vconn \<Rightarrow> recv_outcome \<times> bytes \<times> vconn" where
  "rfCommand disk fuel conn =
     (if \<not> disk 0 then (RecvFails, [], conn)
      else case recv_loop tcp_recv disk fuel [] conn of
        (ReceivedFile n, dst, conn') \<Rightarrow> (ReceivedFile n, dst, conn_VClose conn')
      | (r, dst, conn') \<Rightarrow> (r, dst, conn'))"

section \<open>TLS\<close>

text \<open>
  \<open>tlssf\<close> and \<open>tlsrf\<close> from the connection that the exchange has made; both close it at their end
  unless they are still waiting.
\<close>

definition tlsSFCommand :: "crypto \<Rightarrow> file_reads option \<Rightarrow> vtls_conn \<Rightarrow> send_outcome \<times> vtls_conn" where
  "tlsSFCommand cr srcFile conn = (case srcFile of
     None \<Rightarrow> (SendFails, VTLSClose conn)
   | Some reads \<Rightarrow> (case send_loop (VTLSWrite cr) reads 0 conn of
       (SendWaits, conn') \<Rightarrow> (SendWaits, conn')
     | (r, conn') \<Rightarrow> (r, VTLSClose conn')))"

definition tlsRFCommand :: "crypto \<Rightarrow> (nat \<Rightarrow> bool) \<Rightarrow> nat \<Rightarrow> vtls_conn \<Rightarrow> recv_outcome \<times> bytes \<times> vtls_conn" where
  "tlsRFCommand cr disk fuel conn =
     (if \<not> disk 0 then (RecvFails, [], VTLSClose conn)
      else case recv_loop (VTLSRead cr) disk fuel [] conn of
        (RecvWaits, dst, conn') \<Rightarrow> (RecvWaits, dst, conn')
      | (RecvRunning, dst, conn') \<Rightarrow> (RecvRunning, dst, conn')
      | (r, dst, conn') \<Rightarrow> (r, dst, VTLSClose conn'))"

definition sealed_from :: "vtls_conn \<Rightarrow> bytes \<Rightarrow> vtls_conn \<Rightarrow> bool" where
  "sealed_from c d c' \<longleftrightarrow> (\<exists>ps. history_of c' = history_of c @ numbered (Sealed (vt_writeKey c)) (vt_writeSeq c) ps
     \<and> vt_writeKey c' = vt_writeKey c \<and> vt_writeSeq c' = vt_writeSeq c + of_nat (length ps) \<and> concat ps = d)"

definition opened_from :: "vtls_conn \<Rightarrow> bytes \<Rightarrow> vtls_conn \<Rightarrow> bool" where
  "opened_from c d c' \<longleftrightarrow> (\<exists>ps. history_of c' = history_of c @ numbered (Opened (vt_readKey c)) (vt_readSeq c) ps
     \<and> vt_readKey c' = vt_readKey c \<and> vt_readSeq c' = vt_readSeq c + of_nat (length ps)
     \<and> d @ vt_readBuf c' = vt_readBuf c @ concat ps)"

interpretation tls_sink: byte_sink "VTLSWrite cr" sealed_from for cr
proof (unfold_locales, goal_cases)
  case (1 c)
  show ?case unfolding sealed_from_def by (intro exI [of _ "[]"]) simp
next
  case (2 c d c1 e c2)
  then obtain ps qs where "history_of c1 = history_of c @ numbered (Sealed (vt_writeKey c)) (vt_writeSeq c) ps"
    "vt_writeKey c1 = vt_writeKey c" "vt_writeSeq c1 = vt_writeSeq c + of_nat (length ps)" "concat ps = d"
    "history_of c2 = history_of c1 @ numbered (Sealed (vt_writeKey c1)) (vt_writeSeq c1) qs"
    "vt_writeKey c2 = vt_writeKey c1" "vt_writeSeq c2 = vt_writeSeq c1 + of_nat (length qs)" "concat qs = e"
    unfolding sealed_from_def by blast
  then show ?case unfolding sealed_from_def by (intro exI [of _ "ps @ qs"]) (simp add: numbered_append)
next
  case (3 d c n c')
  have "n = length d" using 3 by (auto simp: VTLSWrite_def split: option.splits prod.splits tls_result.splits)
  with VTLSWrite_run [OF 3] show ?case unfolding sealed_from_def by (auto intro!: exI [of _ "[d]"])
qed

interpretation tls_source: byte_source "VTLSRead cr" opened_from for cr
proof (unfold_locales, goal_cases)
  case (1 c)
  show ?case unfolding opened_from_def by (intro exI [of _ "[]"]) simp
next
  case (2 c d c1 e c2)
  then obtain ps qs where "history_of c1 = history_of c @ numbered (Opened (vt_readKey c)) (vt_readSeq c) ps"
    "vt_readKey c1 = vt_readKey c" "vt_readSeq c1 = vt_readSeq c + of_nat (length ps)" "d @ vt_readBuf c1 = vt_readBuf c @ concat ps"
    "history_of c2 = history_of c1 @ numbered (Opened (vt_readKey c1)) (vt_readSeq c1) qs"
    "vt_readKey c2 = vt_readKey c1" "vt_readSeq c2 = vt_readSeq c1 + of_nat (length qs)" "e @ vt_readBuf c2 = vt_readBuf c1 @ concat qs"
    unfolding opened_from_def by blast
  moreover from this have "(d @ e) @ vt_readBuf c2 = vt_readBuf c @ concat (ps @ qs)" by (metis append.assoc concat_append)
  ultimately show ?case unfolding opened_from_def by (intro exI [of _ "ps @ qs"]) (simp add: numbered_append)
next
  case (3 len c d c')
  from VTLSRead_run [OF 3] show ?case unfolding opened_from_def by auto
next
  case (4 len c r c')
  from VTLSRead_run [OF 4(1)] 4(2) show ?case unfolding opened_from_def
    by (cases r) (auto intro!: exI [of _ "[]"])
qed

section \<open>A file over TLS\<close>

text \<open>The sending loop writes messages that make up the file, or the beginning of it.\<close>

lemma send_loop_write_all:
  "\<exists>ps. snd (send_loop (VTLSWrite cr) reads t c) = write_all cr ps c \<and> prefix (concat ps) (file_of reads)
     \<and> length ps \<le> length reads \<and> (\<forall>p \<in> set ps. p \<noteq> [] \<and> p \<in> fst ` set reads)"
proof (induction reads arbitrary: t c)
  case (Cons x reads)
  obtain buf e where x: "x = (buf, e)" by (cases x)
  obtain r c1 where r: "VTLSWrite cr buf c = (r, c1)" by force
  show ?case
  proof (cases "e = FileFails \<or> buf = [] \<and> e = FileEOF")
    case True
    then show ?thesis using x by (intro exI [of _ "[]"]) auto
  next
    case False
    note F = False
    show ?thesis
    proof (cases "buf = []")
      case True
      then have e: "e = NoFileErr" using F by (cases e) auto
      obtain ps where "snd (send_loop (VTLSWrite cr) reads t c) = write_all cr ps c" "prefix (concat ps) (file_of reads)"
        "length ps \<le> length reads" "\<forall>p \<in> set ps. p \<noteq> [] \<and> p \<in> fst ` set reads" using Cons.IH by blast
      then show ?thesis using True e x by (intro exI [of _ ps]) simp
    next
      case buf: False
      show ?thesis
      proof (cases "r = TlsOk (length buf) \<and> e = NoFileErr")
        case True
        obtain ps where "snd (send_loop (VTLSWrite cr) reads (t + length buf) c1) = write_all cr ps c1"
          "prefix (concat ps) (file_of reads)" "length ps \<le> length reads" "\<forall>p \<in> set ps. p \<noteq> [] \<and> p \<in> fst ` set reads"
          using Cons.IH by blast
        then show ?thesis using r True buf x by (intro exI [of _ "buf # ps"]) auto
      next
        case False
        have "write_all cr [buf] c = c1" using r by (cases r) auto
        moreover have "snd (send_loop (VTLSWrite cr) (x # reads) t c) = c1"
          using r False buf F x tls_sink.send_all [of cr buf c _ c1] by (cases r; cases e) auto
        ultimately show ?thesis using x buf by (intro exI [of _ "[buf]"]) (auto simp: prefix_def)
      qed
    qed
  qed
qed (auto intro: exI [of _ "[]"])

text \<open>
  C27. The file that \<open>tlsrf\<close> has written is a beginning of the file that \<open>tlssf\<close> reads, at any time and
  whatever an attacker does to the bytes between them, unless a record is forged.
\<close>

theorem received_file_is_prefix:
  assumes "vt_readKey d = vt_writeKey c" and "vt_readSeq d = vt_writeSeq c" and "vt_readBuf d = []"
    and "history_of c = []" and "history_of d = []" and "length reads < 2 ^ 64"
    and "send_loop (VTLSWrite cr) reads 0 c = (r, c')" and "recv_loop (VTLSRead cr) disk fuel [] d = (q, dst, d')"
    and "\<forall>n p. Opened (vt_readKey d) n p \<in> set (history_of d') \<longrightarrow> Sealed (vt_readKey d) n p \<in> set (history_of c')"
  shows "prefix dst (file_of reads)"
proof -
  obtain ps where ps: "c' = write_all cr ps c" "prefix (concat ps) (file_of reads)" "length ps \<le> length reads"
    using send_loop_write_all [of cr reads 0 c] assms(7) by auto
  obtain lost where "opened_from d (dst @ lost) d'"
    using tls_source.writes_taken [OF assms(8)] by auto
  then obtain qs where qs: "history_of d' = numbered (Opened (vt_readKey d)) (vt_readSeq d) qs"
    "(dst @ lost) @ vt_readBuf d' = concat qs" using assms(3,5) by (auto simp: opened_from_def)
  have "length ps < 2 ^ 64" using ps(3) assms(6) by simp
  from opened_prefix [OF assms(4) this assms(2,1) qs(1)] assms(9) ps(1) have "prefix qs ps" by simp
  then have "prefix (concat qs) (file_of reads)" using ps(2) prefix_concat prefix_order.trans by blast
  then show ?thesis using qs(2) by (metis append.assoc prefixI prefix_order.trans)
qed

text \<open>One read of the receiving loop on a record that fits in the buffer, and at the end of the stream.\<close>

lemma VTLSRead_fits:
  assumes "crypto_ok cr" and "aes_key_ok (vt_readKey d)" and "length p \<le> 4096"
    and i: "vn_in (vt_tcpConn d) = record_bytes cr (vt_readKey d) (vt_readSeq d) p @ rest" and "vt_readBuf d = []"
  obtains t where "VTLSRead cr 4096 d = (TlsOk p, d\<lparr>vt_tcpConn := t, vt_readSeq := vt_readSeq d + 1, vt_readBuf := []\<rparr>)"
    and "vn_in t = rest" and "vn_in_end t = vn_in_end (vt_tcpConn d)"
    and "vn_history t = history_of d @ [Opened (vt_readKey d) (getNonce (vt_readSeq d)) p]"
proof -
  have "length p + 16 < 2 ^ 32" using assms(3) by simp
  then obtain t where t: "read_record cr d (vt_tcpConn d) = (TlsOk p, t)" "vn_in t = rest" "vn_in_end t = vn_in_end (vt_tcpConn d)"
    using read_record_ok [OF assms(1,2) _ i] by blast
  moreover have "vn_history t = history_of d @ [Opened (vt_readKey d) (getNonce (vt_readSeq d)) p]"
    using hist_postD [OF read_record_history refl t(1)] by (simp add: history_of_def)
  ultimately show thesis using assms(3,5) that by (simp add: VTLSRead_def on_tcp_def)
qed

lemma VTLSRead_at_end:
  assumes "vn_in (vt_tcpConn d) = []" and "vn_in_end (vt_tcpConn d) = EndEOF" and "vt_readBuf d = []"
  shows "\<exists>d'. VTLSRead cr len d = (TlsErr ErrEOF, d')"
proof -
  obtain t where "ReadFull 4 (vt_tcpConn d) = (TlsErr ErrEOF, t)" using ReadFull_short [of "vt_tcpConn d" 4] assms(1,2) by auto
  then show ?thesis using assms(3) by (simp add: VTLSRead_def on_tcp_def read_record_def tls_bind_def)
qed

lemma tls_file_arrives:
  assumes ok: "crypto_ok cr"
  shows "readable reads \<Longrightarrow> aes_key_ok (vt_writeKey c) \<Longrightarrow> vn_writes (vt_tcpConn c) = [] \<Longrightarrow>
    vt_readKey d = vt_writeKey c \<Longrightarrow> vt_readSeq d = vt_writeSeq c \<Longrightarrow> vt_readBuf d = [] \<Longrightarrow>
    vn_in_end (vt_tcpConn d) = EndEOF \<Longrightarrow> length reads < fuel \<Longrightarrow>
    \<exists>c' b. send_loop (VTLSWrite cr) reads t c = (SentFile (t + length (file_of reads)), c')
      \<and> vn_out (vt_tcpConn c') = vn_out (vt_tcpConn c) @ b
      \<and> (vn_in (vt_tcpConn d) = b \<longrightarrow> (\<exists>d'. recv_loop (VTLSRead cr) (\<lambda>_. True) fuel dst d
            = (ReceivedFile (length dst + length (file_of reads)), dst @ file_of reads, d')))"
proof (induction reads arbitrary: c d t dst fuel)
  case Nil
  obtain n where n: "fuel = Suc n" using Nil.prems(8) by (cases fuel) auto
  have "\<exists>d'. recv_loop (VTLSRead cr) (\<lambda>_. True) fuel dst d = (ReceivedFile (length dst), dst, d')" if "vn_in (vt_tcpConn d) = []"
    using VTLSRead_at_end [OF that Nil.prems(7,6), of cr 4096] n by auto
  then show ?case by simp
next
  case (Cons x reads)
  obtain buf e where x: "x = (buf, e)" by (cases x)
  have e: "e \<noteq> FileFails" "length buf \<le> 4096" "readable reads" using Cons.prems(1) x by (auto simp: readable_def)
  obtain m where m: "fuel = Suc m" "length reads < m" using Cons.prems(8) by (cases fuel) auto
  show ?case
  proof (cases "buf = []")
    case True
    show ?thesis
    proof (cases "e = NoFileErr")
      case False
      then have "e = FileEOF" using e(1) by (cases e) auto
      moreover have "\<exists>d'. recv_loop (VTLSRead cr) (\<lambda>_. True) fuel dst d = (ReceivedFile (length dst), dst, d')" if "vn_in (vt_tcpConn d) = []"
        using VTLSRead_at_end [OF that Cons.prems(7,6), of cr 4096] m(1) by auto
      ultimately show ?thesis using True x by simp
    next
      case e': True
      have "length reads < fuel" using m by simp
      from Cons.IH [OF e(3) Cons.prems(2-7) this, of t dst] True e' x show ?thesis by auto
    qed
  next
    case False
    obtain c1 where c1: "VTLSWrite cr buf c = (TlsOk (length buf), c1)"
      "vn_out (vt_tcpConn c1) = vn_out (vt_tcpConn c) @ record_bytes cr (vt_writeKey c) (vt_writeSeq c) buf"
      "vn_writes (vt_tcpConn c1) = []" "vt_writeKey c1 = vt_writeKey c" "vt_writeSeq c1 = vt_writeSeq c + 1"
      using VTLSWrite_ok [OF ok Cons.prems(2,3)] by metis
    have read: "\<exists>s. VTLSRead cr 4096 d = (TlsOk buf, d\<lparr>vt_tcpConn := s, vt_readSeq := vt_readSeq d + 1, vt_readBuf := []\<rparr>)
        \<and> vn_in s = b \<and> vn_in_end s = EndEOF"
      if "vn_in (vt_tcpConn d) = record_bytes cr (vt_writeKey c) (vt_writeSeq c) buf @ b" for b
      using VTLSRead_fits [OF ok _ e(2) _ Cons.prems(6), of b] that Cons.prems(2,4,5,7) by metis
    show ?thesis
    proof (cases "e = FileEOF")
      case True
      have "\<exists>d'. recv_loop (VTLSRead cr) (\<lambda>_. True) fuel dst d = (ReceivedFile (length dst + length buf), dst @ buf, d')"
        if i: "vn_in (vt_tcpConn d) = record_bytes cr (vt_writeKey c) (vt_writeSeq c) buf"
      proof -
        obtain s where s: "VTLSRead cr 4096 d = (TlsOk buf, d\<lparr>vt_tcpConn := s, vt_readSeq := vt_readSeq d + 1, vt_readBuf := []\<rparr>)"
          "vn_in s = []" "vn_in_end s = EndEOF" using read [of "[]"] i by auto
        obtain k where "m = Suc k" using m by (cases m) auto
        then show ?thesis using s m(1) False
            VTLSRead_at_end [of "d\<lparr>vt_tcpConn := s, vt_readSeq := vt_readSeq d + 1, vt_readBuf := []\<rparr>" cr 4096] by auto
      qed
      then show ?thesis using True x False c1 by auto
    next
      case e': False
      let ?d = "\<lambda>s. d\<lparr>vt_tcpConn := s, vt_readSeq := vt_readSeq d + 1, vt_readBuf := []\<rparr>"
      have prems: "aes_key_ok (vt_writeKey c1)" "vt_readKey (?d s) = vt_writeKey c1" "vt_readSeq (?d s) = vt_writeSeq c1"
        "vt_readBuf (?d s) = []" for s using c1 Cons.prems(2,4,5) by simp_all
      define s where "s = vt_tcpConn d"
      have "vn_in_end (vt_tcpConn (?d s)) = EndEOF" using Cons.prems(7) by (simp add: s_def)
      from Cons.IH [OF e(3) prems(1) c1(3) prems(2-4) this m(2), of "t + length buf" "dst @ buf"]
      obtain c' b where send: "send_loop (VTLSWrite cr) reads (t + length buf) c1 = (SentFile (t + length buf + length (file_of reads)), c')"
        "vn_out (vt_tcpConn c') = vn_out (vt_tcpConn c1) @ b" by blast
      have "\<exists>d'. recv_loop (VTLSRead cr) (\<lambda>_. True) fuel dst d = (ReceivedFile (length dst + length (buf @ file_of reads)), dst @ buf @ file_of reads, d')"
        if i: "vn_in (vt_tcpConn d) = record_bytes cr (vt_writeKey c) (vt_writeSeq c) buf @ b"
      proof -
        obtain s where s: "VTLSRead cr 4096 d = (TlsOk buf, ?d s)" "vn_in s = b" "vn_in_end s = EndEOF" using read [OF i] by blast
        then have "vn_in_end (vt_tcpConn (?d s)) = EndEOF" by simp
        from Cons.IH [OF e(3) prems(1) c1(3) prems(2-4) this m(2), of "t + length buf" "dst @ buf"] send s(2)
        obtain d' where "recv_loop (VTLSRead cr) (\<lambda>_. True) m (dst @ buf) (?d s)
            = (ReceivedFile (length (dst @ buf) + length (file_of reads)), (dst @ buf) @ file_of reads, d')" by auto
        then show ?thesis using s(1) m(1) False by simp
      qed
      moreover have "e = NoFileErr" using e' e(1) by (cases e) auto
      ultimately show ?thesis using x False c1(1,2) send by (simp add: add.assoc)
    qed
  qed
qed

text \<open>
  C28. A file sent with \<open>tlssf\<close> over a connection that delivers the bytes, in pieces of any size, and then
  ends is received by \<open>tlsrf\<close> unchanged: both report its length and close the connection.
\<close>

theorem file_transfer_completes:
  assumes "crypto_ok cr" and "aes_key_ok (vt_writeKey c)" and "vn_writes (vt_tcpConn c) = []" and "readable reads"
    and "vt_readKey d = vt_writeKey c" and "vt_readSeq d = vt_writeSeq c" and "vt_readBuf d = []"
    and "tlsSFCommand cr (Some reads) c = (r, c')"
    and "vn_out (vt_tcpConn c') = vn_out (vt_tcpConn c) @ vn_in (vt_tcpConn d)"
    and "vn_in_end (vt_tcpConn d) = EndEOF" and "length reads < fuel"
  shows "r = SentFile (length (file_of reads)) \<and> vn_closeCalled (vt_tcpConn c')
    \<and> (\<exists>d'. tlsRFCommand cr (\<lambda>_. True) fuel d = (ReceivedFile (length (file_of reads)), file_of reads, d') \<and> vn_closeCalled (vt_tcpConn d'))"
proof -
  obtain c1 b where c1: "send_loop (VTLSWrite cr) reads 0 c = (SentFile (length (file_of reads)), c1)"
    "vn_out (vt_tcpConn c1) = vn_out (vt_tcpConn c) @ b"
    "vn_in (vt_tcpConn d) = b \<longrightarrow> (\<exists>d'. recv_loop (VTLSRead cr) (\<lambda>_. True) fuel [] d
        = (ReceivedFile (length (file_of reads)), file_of reads, d'))"
    using tls_file_arrives [OF assms(1,4,2,3,5-7,10,11), of 0 "[]"] by auto
  then have c': "r = SentFile (length (file_of reads))" "c' = VTLSClose c1" using assms(8) by (simp_all add: tlsSFCommand_def)
  then have "vn_in (vt_tcpConn d) = b" using assms(9) c1(2) by (simp add: VTLSClose_def conn_VClose_def)
  then show ?thesis using c1(3) c' by (auto simp: tlsRFCommand_def VTLSClose_def conn_VClose_def)
qed

section \<open>A file over TCP\<close>

lemma tcp_sends_file:
  "readable reads \<Longrightarrow> vn_writes c = [] \<Longrightarrow>
     \<exists>c'. send_loop tcp_send reads t c = (SentFile (t + length (file_of reads)), c') \<and> vn_out c' = vn_out c @ file_of reads"
proof (induction reads arbitrary: t c)
  case (Cons x reads)
  obtain buf e where x: "x = (buf, e)" by (cases x)
  have e: "e \<noteq> FileFails" "readable reads" using Cons.prems(1) x by (auto simp: readable_def)
  let ?c = "if buf = [] then c else c\<lparr>vn_writes := [], vn_out := vn_out c @ buf\<rparr>"
  have w: "buf \<noteq> [] \<Longrightarrow> tcp_send buf c = (TlsOk (length buf), ?c)"
    using Cons.prems(2) by (simp add: tcp_send_def conn_VWrite_def)
  have "vn_writes ?c = []" using Cons.prems(2) by simp
  from Cons.IH [OF e(2) this, of "t + length buf"] obtain c' where
    c': "send_loop tcp_send reads (t + length buf) ?c = (SentFile (t + length buf + length (file_of reads)), c')"
    "vn_out c' = vn_out ?c @ file_of reads" by blast
  show ?case
  proof (cases e)
    case NoFileErr
    then show ?thesis using x w c' by (cases "buf = []") (auto simp: add.assoc)
  next
    case FileEOF
    then show ?thesis using x w by (cases "buf = []") auto
  qed (use e in simp)
qed simp

text \<open>\<open>sf\<close> and \<open>rf\<close>; when the file cannot be read to its end, \<open>sf\<close> leaves the connection open.\<close>

lemma file_over_tcp:
  assumes "readable reads" and "vn_writes c = []"
  shows "\<exists>c'. sfCommand (Some c) (Some reads) = (SentFile (length (file_of reads)), Some c')
      \<and> vn_out c' = vn_out c @ file_of reads \<and> vn_closeCalled c'"
    and "vn_in d = file_of reads \<Longrightarrow> vn_in_end d = EndEOF \<Longrightarrow> length (vn_in d) < fuel \<Longrightarrow>
      \<exists>d'. rfCommand (\<lambda>_. True) fuel d = (ReceivedFile (length (file_of reads)), file_of reads, d') \<and> vn_closeCalled d'"
    and "sfCommand (Some c) (Some [(buf, FileFails)]) = (SendFails, Some c)"
  using tcp_sends_file [OF assms, of 0] tcp_receives_all [of d fuel "[]"]
  by (auto simp: sfCommand_def rfCommand_def conn_VClose_def)

section \<open>A run\<close>

definition sample_reads :: file_reads where
  "sample_reads = [([1, 2, 3], NoFileErr), ([], NoFileErr), ([4], FileEOF)]"

definition sample_sent :: vtls_conn where
  "sample_sent = snd (tlsSFCommand sample_crypto (Some sample_reads) sample_writer)"

definition sample_receiver :: vtls_conn where
  "sample_receiver = (sample_reader [])\<lparr>vt_tcpConn := (vt_tcpConn (sample_reader []))
     \<lparr>vn_in := vn_out (vt_tcpConn sample_sent), vn_in_end := EndEOF\<rparr>\<rparr>"

lemma sample_receiver_simps [simp]:
  "vt_readKey sample_receiver = sample_key" "vt_readSeq sample_receiver = 0" "vt_readBuf sample_receiver = []"
  "vn_in (vt_tcpConn sample_receiver) = vn_out (vt_tcpConn sample_sent)" "vn_in_end (vt_tcpConn sample_receiver) = EndEOF"
  "history_of sample_receiver = []"
  by (simp_all add: sample_receiver_def sample_reader_def fresh_vtls_def history_of_def)

theorem file_transfer_completes_witness:
  "\<exists>d'. tlsRFCommand sample_crypto (\<lambda>_. True) 9 sample_receiver = (ReceivedFile 4, [1, 2, 3, 4], d')"
proof -
  have run: "tlsSFCommand sample_crypto (Some sample_reads) sample_writer
      = (fst (tlsSFCommand sample_crypto (Some sample_reads) sample_writer), sample_sent)" by (simp add: sample_sent_def)
  have ok: "readable sample_reads" "file_of sample_reads = [1, 2, 3, 4]" "length sample_reads < 9"
    by (simp_all add: sample_reads_def readable_def)
  show ?thesis
    using file_transfer_completes [OF sample_crypto_ok _ _ ok(1) _ _ _ run, of sample_receiver 9] ok(2,3) by (auto simp: eval_nat_numeral)
qed

text \<open>An attacker that lets the first record through, and then garbage.\<close>

theorem received_file_is_prefix_witness:
  "\<exists>d'. recv_loop (VTLSRead sample_crypto) (\<lambda>_. True) 1 []
        (sample_reader (record_bytes sample_crypto sample_key 0 [1, 2, 3] @ [0, 0, 9])) = (RecvRunning, [1, 2, 3], d')
     \<and> prefix [1, 2, 3] (file_of sample_reads)"
proof -
  let ?d = "sample_reader (record_bytes sample_crypto sample_key 0 [1, 2, 3] @ [0, 0, 9])"
  obtain t where t: "VTLSRead sample_crypto 4096 ?d = (TlsOk [1, 2, 3], ?d\<lparr>vt_tcpConn := t, vt_readSeq := vt_readSeq ?d + 1, vt_readBuf := []\<rparr>)"
    "vn_history t = history_of ?d @ [Opened (vt_readKey ?d) (getNonce (vt_readSeq ?d)) [1, 2, 3]]"
    by (rule VTLSRead_fits [OF sample_crypto_ok, of ?d "[1, 2, 3]" "[0, 0, 9]"]) simp_all
  obtain d' where d': "recv_loop (VTLSRead sample_crypto) (\<lambda>_. True) 1 [] ?d = (RecvRunning, [1, 2, 3], d')"
    "history_of d' = [Opened sample_key (getNonce 0) [1, 2, 3]]" using t by (simp add: history_of_def [of "_\<lparr>vt_readBuf := []\<rparr>"])
  obtain c1 where c1: "VTLSWrite sample_crypto [1, 2, 3] sample_writer = (TlsOk (length [1, 2, 3 :: u8]), c1)"
    "vn_writes (vt_tcpConn c1) = []" "vt_writeKey c1 = sample_key" "vt_writeSeq c1 = 1"
    by (rule VTLSWrite_ok [OF sample_crypto_ok, of sample_writer "[1, 2, 3]"]) simp_all
  have h1: "history_of c1 = [Sealed sample_key (getNonce 0) [1, 2, 3]]" using VTLSWrite_run [OF c1(1)] by simp
  obtain r c' where run: "send_loop (VTLSWrite sample_crypto) sample_reads 0 sample_writer = (r, c')" by force
  then have "send_loop (VTLSWrite sample_crypto) [([4], FileEOF)] 3 c1 = (r, c')"
    using c1(1) by (simp add: sample_reads_def eval_nat_numeral)
  then obtain ps where ps: "c' = write_all sample_crypto ps c1" using send_loop_write_all [of sample_crypto "[([4], FileEOF)]" 3 c1] by auto
  then have "Sealed sample_key (getNonce 0) [1, 2, 3] \<in> set (history_of c')"
    using write_all_history [of ps sample_crypto c1] h1 by auto
  then have "\<forall>n p. Opened (vt_readKey ?d) n p \<in> set (history_of d') \<longrightarrow> Sealed (vt_readKey ?d) n p \<in> set (history_of c')"
    using d'(2) by simp
  from received_file_is_prefix [OF _ _ _ _ _ _ run d'(1) this] d'(1) show ?thesis
    by (simp add: sample_reads_def)
qed

end
