(* ===== verification/IpRepl.thy ===== *)
theory IpRepl
  imports IpInit
begin

text \<open>
  The command line that the programs start (\<open>src/pkg/ipStack/replAndPrint.go\<close>): the dispatch of a
  line, the commands of the IP layer, the listings, and the two channels over which lines go to the TCP
  and the TLS command lines.
\<close>

section \<open>Refusals and arguments\<close>

datatype refusal = Usage | BadInteger | BadPort | BadAddress text_error | UnknownCommand

definition port_arg :: "string \<Rightarrow> (u16 \<Rightarrow> refusal + 'a) \<Rightarrow> refusal + 'a" where
  "port_arg s f = (case ParseInt s of
     None \<Rightarrow> Inl BadInteger
   | Some portInt \<Rightarrow> if portInt < 0 \<or> 65535 < portInt then Inl BadPort else f (of_int portInt))"

definition int_arg :: "string \<Rightarrow> (int \<Rightarrow> refusal + 'a) \<Rightarrow> refusal + 'a" where
  "int_arg s f = (case ParseInt s of None \<Rightarrow> Inl BadInteger | Some n \<Rightarrow> f n)"

definition addr_arg :: "string \<Rightarrow> (netip_addr \<Rightarrow> refusal + 'a) \<Rightarrow> refusal + 'a" where
  "addr_arg s f = (case ParseAddr s of Inl e \<Rightarrow> Inl (BadAddress e) | Inr a \<Rightarrow> f a)"

section \<open>The dispatch\<close>

text \<open>
  The command line of the IP layer (\<open>HandleCommand\<close>): its own commands, and the lines that it passes on
  to the other two.
\<close>

datatype ip_call =
    IpSend netip_addr bytes
  | IpListInterfaces
  | IpListNeighbours
  | IpListRoutes
  | IpDown string
  | IpUp string
  | IpPrint
  | IpQuit
  | ToTcp string
  | ToTls string

definition HandleCommand :: "string \<Rightarrow> refusal + ip_call" where
  "HandleCommand line =
     (let parts = SplitN 3 (CHR '' '') line; command = parts ! 0 in
      if command = ''send'' then
        (if length parts < 3 then Inl Usage
         else addr_arg (parts ! 1) (\<lambda>destIP. Inr (IpSend destIP (ascii (parts ! 2)))))
      else if command = ''li'' then Inr IpListInterfaces
      else if command = ''ln'' then Inr IpListNeighbours
      else if command = ''lr'' then Inr IpListRoutes
      else if command = ''down'' then (if length parts < 2 then Inl Usage else Inr (IpDown (parts ! 1)))
      else if command = ''up'' then (if length parts < 2 then Inl Usage else Inr (IpUp (parts ! 1)))
      else if command = ''me'' then Inr IpPrint
      else if command = ''q'' then Inr IpQuit
      else if command \<in> {''a'', ''c'', ''ls'', ''s'', ''r'', ''sf'', ''rf'', ''cl'', ''d'', ''prq'', ''rst'', ''v''} then Inr (ToTcp line)
      else if command \<in> {''tlsa'', ''tlsc'', ''tlss'', ''tlsr'', ''tlssf'', ''tlsrf'', ''tlsls'', ''tlscl''} then Inr (ToTls line)
      else Inl UnknownCommand)"

text \<open>\<open>StartREPL\<close>: the line without surrounding space, unless nothing is left.\<close>

definition repl_line :: "string \<Rightarrow> (refusal + ip_call) option" where
  "repl_line text = (let line = TrimSpace text in if line = '''' then None else Some (HandleCommand line))"

section \<open>Listings\<close>

fun typeToLetter :: "source_type \<Rightarrow> string" where
  "typeToLetter SourceTypeLocal = ''L''"
| "typeToLetter SourceTypeStatic = ''S''"
| "typeToLetter SourceTypeRIP = ''R''"

definition route_row :: "fwd_entry \<Rightarrow> string list" where
  "route_row e = [typeToLetter (fe_Type e), show_prefix (fe_Prefix e),
     (if fe_Type e = SourceTypeLocal then ''LOCAL:'' @ fe_InterfaceName e else show_addr (fe_NextHop e)),
     (if fe_Type e = SourceTypeStatic then ''-'' else decimal (unat (fe_Cost e)))]"

definition ListRoutes :: "netip_prefix list \<Rightarrow> ip_stack \<Rightarrow> string list list" where
  "ListRoutes ord st = map (\<lambda>(p, e). route_row e) (range_map (is_ForwardingTable st) ord)"

definition ListNeighbors :: "string list \<Rightarrow> (string \<Rightarrow> netip_addr list) \<Rightarrow> ip_stack \<Rightarrow> string list list" where
  "ListNeighbors ifOrd nbOrd st =
     concat (map (\<lambda>(n, i). map (\<lambda>(a, x). [if_Name i, show_addr a, show_addr_port (nb_UDPAddr x)])
       (range_map (if_Neighbours i) (nbOrd n))) (range_map (is_Interfaces st) ifOrd))"

text \<open>\<open>udp n\<close> is the local address of the socket of interface \<open>n\<close>.\<close>

definition ListInterfaces :: "string list \<Rightarrow> (string \<Rightarrow> string) \<Rightarrow> ip_stack \<Rightarrow> string list list" where
  "ListInterfaces ifOrd udp st = map (\<lambda>(n, i). [if_Name i, show_addr (if_IP i), udp n]) (range_map (is_Interfaces st) ifOrd)"

definition PrintInterfacesForDebugging :: "string list \<Rightarrow> (string \<Rightarrow> netip_addr list) \<Rightarrow> ip_stack \<Rightarrow> string list list" where
  "PrintInterfacesForDebugging ifOrd nbOrd st =
     map (\<lambda>(n, i). [if_Name i, show_addr (if_IP i), show_prefix (if_Prefix i),
         concat (map (\<lambda>(a, x). show_addr a @ [CHR 0x0A]) (range_map (if_Neighbours i) (nbOrd n)))])
       (range_map (is_Interfaces st) ifOrd)"

fun type_number :: "source_type \<Rightarrow> nat" where
  "type_number SourceTypeLocal = 0"
| "type_number SourceTypeRIP = 1"
| "type_number SourceTypeStatic = 2"

definition PrintForwardingTable :: "netip_prefix list \<Rightarrow> ip_stack \<Rightarrow> string list list" where
  "PrintForwardingTable ord st =
     map (\<lambda>(p, e). [show_prefix (fe_Prefix e), show_addr (fe_NextHop e),
         (if fe_InterfaceName e = '''' then ''-'' else fe_InterfaceName e),
         decimal (type_number (fe_Type e)), decimal (unat (fe_Cost e))])
       (range_map (is_ForwardingTable st) ord)"

section \<open>The loop\<close>

text \<open>
  The stack and the two channels, which hold five lines each; their receivers are the other two command
  lines, where the program has started them.
\<close>

record repl_state =
  rp_stack :: ip_stack
  rp_tcpChan :: "string list"
  rp_tlsChan :: "string list"

datatype repl_next = Continues | Blocks | Exits

definition chan_capacity :: nat where "chan_capacity = 5"

text \<open>
  One line. What it prints is left out, the errors of \<open>SendIP\<close>, \<open>IFDown\<close> and \<open>IFUp\<close> among it; a lookup
  that does not end stops the loop as well.
\<close>

definition repl_step :: "iptcp_headers \<Rightarrow> netstack \<Rightarrow> (nat \<Rightarrow> netip_prefix list) \<Rightarrow> nat \<Rightarrow> string \<Rightarrow> repl_state \<Rightarrow> go_panic + (repl_next \<times> repl_state)" where
  "repl_step ih ns ord fuel text r = (case repl_line text of
     None \<Rightarrow> Inr (Continues, r)
   | Some (Inl _) \<Rightarrow> Inr (Continues, r)
   | Some (Inr call) \<Rightarrow> (case call of
       IpSend destIP msg \<Rightarrow> go_bind (SendIP ih ns ord fuel destIP msg ProtocolTypeTest (rp_stack r)) (\<lambda>(ok, st).
         Inr (case ok of None \<Rightarrow> Blocks | Some _ \<Rightarrow> Continues, r\<lparr>rp_stack := st\<rparr>))
     | IpDown n \<Rightarrow> Inr (Continues, r\<lparr>rp_stack := snd (IFDown n (rp_stack r))\<rparr>)
     | IpUp n \<Rightarrow> Inr (Continues, r\<lparr>rp_stack := snd (IFUp n (rp_stack r))\<rparr>)
     | IpQuit \<Rightarrow> Inr (Exits, r)
     | ToTcp line \<Rightarrow> Inr (if length (rp_tcpChan r) < chan_capacity
         then (Continues, r\<lparr>rp_tcpChan := rp_tcpChan r @ [line]\<rparr>) else (Blocks, r))
     | ToTls line \<Rightarrow> Inr (if length (rp_tlsChan r) < chan_capacity
         then (Continues, r\<lparr>rp_tlsChan := rp_tlsChan r @ [line]\<rparr>) else (Blocks, r))
     | _ \<Rightarrow> Inr (Continues, r)))"

text \<open>\<open>StartREPL\<close> on the lines typed so far; the last result is what it has not looked at.\<close>

fun StartREPL :: "iptcp_headers \<Rightarrow> netstack \<Rightarrow> (nat \<Rightarrow> netip_prefix list) \<Rightarrow> nat \<Rightarrow> string list \<Rightarrow> repl_state \<Rightarrow> go_panic + (repl_next \<times> repl_state \<times> string list)" where
  "StartREPL ih ns ord fuel [] r = Inr (Continues, r, [])"
| "StartREPL ih ns ord fuel (t # ts) r = go_bind (repl_step ih ns ord fuel t r) (\<lambda>(next_step, r').
     case next_step of
       Continues \<Rightarrow> StartREPL ih ns ord fuel ts r'
     | _ \<Rightarrow> Inr (next_step, r', ts))"

lemma StartREPL_queues:
  assumes "\<forall>t \<in> set ts. \<exists>l. repl_line t = Some (Inr (ToTcp l))" and "length (rp_tcpChan r) + length ts \<le> chan_capacity"
  shows "\<exists>ls. length ls = length ts \<and>
    StartREPL ih ns ord fuel (ts @ later) r = StartREPL ih ns ord fuel later (r\<lparr>rp_tcpChan := rp_tcpChan r @ ls\<rparr>)"
  using assms
proof (induction ts arbitrary: r)
  case Nil
  show ?case by (intro exI [of _ "[]"]) simp
next
  case (Cons t ts)
  obtain l where l: "repl_line t = Some (Inr (ToTcp l))" using Cons.prems(1) by auto
  obtain ls where "length ls = length ts" "StartREPL ih ns ord fuel (ts @ later) (r\<lparr>rp_tcpChan := rp_tcpChan r @ [l]\<rparr>)
      = StartREPL ih ns ord fuel later (r\<lparr>rp_tcpChan := (rp_tcpChan r @ [l]) @ ls\<rparr>)"
    using Cons.IH [of "r\<lparr>rp_tcpChan := rp_tcpChan r @ [l]\<rparr>"] Cons.prems by auto
  then show ?case using l Cons.prems(2) by (intro exI [of _ "l # ls"]) (simp add: repl_step_def)
qed

text \<open>
  \<open>vrouter\<close> starts no TCP command line, so nobody receives from the channel: after five TCP commands
  the sixth blocks the whole command line for good, and no line after it is looked at, be it \<open>lr\<close>,
  \<open>up\<close> or \<open>q\<close>.
\<close>

theorem sixth_tcp_line_blocks_router:
  assumes "rp_tcpChan r = []" and "length ts = 6" and "\<forall>t \<in> set ts. \<exists>l. repl_line t = Some (Inr (ToTcp l))"
  shows "\<exists>r'. StartREPL ih ns ord fuel (ts @ later) r = Inr (Blocks, r', later) \<and> rp_stack r' = rp_stack r"
proof -
  obtain us t where ts: "ts = us @ [t]" "length us = 5" using assms(2) by (cases ts rule: rev_cases) auto
  obtain l where l: "repl_line t = Some (Inr (ToTcp l))" using assms(3) ts by auto
  have "\<exists>ls. length ls = length us \<and> StartREPL ih ns ord fuel (us @ [t] @ later) r
      = StartREPL ih ns ord fuel ([t] @ later) (r\<lparr>rp_tcpChan := rp_tcpChan r @ ls\<rparr>)"
    by (rule StartREPL_queues) (use assms(1,3) ts in \<open>auto simp: chan_capacity_def\<close>)
  then obtain ls where "length ls = 5" "StartREPL ih ns ord fuel (ts @ later) r
      = StartREPL ih ns ord fuel (t # later) (r\<lparr>rp_tcpChan := ls\<rparr>)" using ts assms(1) by auto
  then show ?thesis using l by (simp add: repl_step_def chan_capacity_def)
qed

theorem sixth_tcp_line_blocks_router_witness:
  "\<exists>r'. StartREPL sample_iptcp sample_ns (\<lambda>_. [sample_net]) 1 (replicate 6 ''ls'' @ [''q''])
       \<lparr>rp_stack = sample_router, rp_tcpChan = [], rp_tlsChan = []\<rparr> = Inr (Blocks, r', [''q''])"
proof -
  have "repl_line ''ls'' = Some (Inr (ToTcp ''ls''))" by code_simp
  then show ?thesis
    using sixth_tcp_line_blocks_router [of "\<lparr>rp_stack = sample_router, rp_tcpChan = [], rp_tlsChan = []\<rparr>" "replicate 6 ''ls''"
        sample_iptcp sample_ns "\<lambda>_. [sample_net]" 1 "[''q'']"] by auto
qed

text \<open>
  The link carries a packet of at most 1400 bytes. A longer one, that a \<open>send\<close> of more than 1380 bytes
  makes, arrives cut off, and the receiver does not notice: it compares no lengths, finds the checksum
  right and delivers the first 1380 bytes as the message.
\<close>

theorem long_messages_are_truncated:
  assumes "iptcp_ok ih" and "rfc1071 ns" and "sendable source dest message protocol 32"
    and "SerializePacket ih ns source dest message protocol 0 True = Inr wire"
    and "ih_ParseHeader ih wire = Some h" and "ip_Checksum h \<noteq> 0" and "if_Up i"
    and "\<exists>(n, j) \<in> set (range_map (is_Interfaces st) ifOrd). if_IP j = dest" and "is_recvHandlers st protocol = Some f"
  shows "\<exists>b. LinkLayerListen i wire = Some b
    \<and> DeserializeAndValidatePacket ih ns b = Inr (take 1380 message, Some h, True)
    \<and> ip_TotalLen h = 20 + int (length message)
    \<and> RunIPLayer_step ih ns ifOrd ord fuel b st = Inr (Delivered f, st)"
proof -
  have w: "DeserializeAndValidatePacket ih ns (take (20 + 1380) wire) = Inr (take 1380 message, Some h, True)
      \<and> (\<exists>c. h = new_header source dest message protocol 32 c) \<and> length wire = 20 + length message"
    by (rule wire_prefix_accepted [OF assms(1-3) _ _ assms(4-6)]) simp_all
  then obtain c where h: "h = new_header source dest message protocol 32 c" by blast
  have "ipForwarding ih ns ifOrd ord fuel h (take 1380 message) st = Inr (Delivered f, st)"
    using assms(8,9) h by (auto simp: ipForwarding_def new_header_def Let_def)
  then show ?thesis using w h assms(7)
    by (simp add: LinkLayerListen_def MaxMessageSize_def Let_def RunIPLayer_step_def new_header_def)
qed

theorem long_messages_are_truncated_witness:
  "\<exists>wire b h. SerializePacket sample_iptcp sample_ns (ipv4_of 10 0 0 2) (ipv4_of 10 0 0 1) (replicate 1400 7) 0 0 True = Inr wire
    \<and> LinkLayerListen sample_iface wire = Some b
    \<and> DeserializeAndValidatePacket sample_iptcp sample_ns b = Inr (replicate 1380 7, Some h, True) \<and> ip_TotalLen h = 1420"
proof -
  let ?m = "replicate 1400 7 :: bytes" and ?st = "vhost_main sample_router"
  let ?s = "SerializePacket sample_iptcp sample_ns (ipv4_of 10 0 0 2) (ipv4_of 10 0 0 1) ?m 0 0 True"
  have snd: "sendable (ipv4_of 10 0 0 2) (ipv4_of 10 0 0 1) ?m 0 32" by (simp add: sendable_def ipv4_of_def)
  have "case ?s of Inl _ \<Rightarrow> False | Inr wire \<Rightarrow> (case ih_ParseHeader sample_iptcp wire of None \<Rightarrow> False
      | Some h \<Rightarrow> ip_Checksum h \<noteq> 0)" by (simp add: sample_wire_defs)
  then obtain wire h where w: "?s = Inr wire" "ih_ParseHeader sample_iptcp wire = Some h" "ip_Checksum h \<noteq> 0"
    by (auto split: option.splits sum.splits)
  have up: "if_Up sample_iface" by (simp add: sample_iface_def)
  have here: "\<exists>(n, j) \<in> set (range_map (is_Interfaces ?st) [''if0'']). if_IP j = ipv4_of 10 0 0 1"
    by (simp add: range_map_def vhost_main_def RegisterRecvHandler_def sample_router_def sample_iface_def)
  have "is_recvHandlers ?st 0 = Some HandleTestMessage" by (simp add: vhost_main_def RegisterRecvHandler_def)
  from long_messages_are_truncated [OF sample_iptcp_ok sample_rfc1071 snd w up here this, of "\<lambda>_. []" 0] w(1)
  show ?thesis by auto
qed

end
