(* ===== verification/TcpRepl.thy ===== *)
theory TcpRepl
  imports TcpConnect FileTransfer IpRepl
begin

text \<open>
  The TCP command line of \<open>src/pkg/tcpStack/tcpRepl.go\<close>: how a line becomes a command, and what the
  commands do to the stack. A command that waits is modelled up to the place where it waits; the steps it goes on
  with are those of the socket calls.
\<close>

section \<open>From lines to commands\<close>

datatype tcp_call =
    CallAccept u16
  | CallConnect netip_addr u16
  | CallSend int bytes
  | CallRead int int
  | CallRecvFile string u16
  | CallSendFile string netip_addr u16
  | CallClose int
  | CallList
  | CallDrop int
  | CallPrq int
  | CallRst int
  | CallVerbose

type_synonym parsed_call = "refusal + tcp_call"

text \<open>The switch of \<open>HandleTcpReplCommands\<close>.\<close>

definition HandleTcpReplCommands :: "string \<Rightarrow> parsed_call" where
  "HandleTcpReplCommands cmd =
     (let parts = Split (CHR '' '') cmd; command = parts ! 0; n = length parts in
      if command = ''a'' then
        (if n < 2 then Inl Usage else port_arg (parts ! 1) (\<lambda>port. Inr (CallAccept port)))
      else if command = ''c'' then
        (if n \<noteq> 3 then Inl Usage
         else addr_arg (parts ! 1) (\<lambda>addr. port_arg (parts ! 2) (\<lambda>port. Inr (CallConnect addr port))))
      else if command = ''s'' then
        (if n \<noteq> 3 then Inl Usage else int_arg (parts ! 1) (\<lambda>sID. Inr (CallSend sID (ascii (parts ! 2)))))
      else if command = ''r'' then
        (if n \<noteq> 3 then Inl Usage
         else int_arg (parts ! 1) (\<lambda>sID. int_arg (parts ! 2) (\<lambda>numBytes. Inr (CallRead sID numBytes))))
      else if command = ''rf'' then
        (if n \<noteq> 3 then Inl Usage else port_arg (parts ! 2) (\<lambda>port. Inr (CallRecvFile (parts ! 1) port)))
      else if command = ''sf'' then
        (if n \<noteq> 4 then Inl Usage
         else port_arg (parts ! 3) (\<lambda>port. addr_arg (parts ! 2) (\<lambda>addr. Inr (CallSendFile (parts ! 1) addr port))))
      else if command = ''cl'' then
        (if n \<noteq> 2 then Inl Usage else int_arg (parts ! 1) (\<lambda>sID. Inr (CallClose sID)))
      else if command = ''ls'' then Inr CallList
      else if command = ''d'' then
        (if n \<noteq> 2 then Inl Usage else int_arg (parts ! 1) (\<lambda>sID. Inr (CallDrop sID)))
      else if command = ''prq'' then
        (if n \<noteq> 2 then Inl Usage else int_arg (parts ! 1) (\<lambda>sID. Inr (CallPrq sID)))
      else if command = ''rst'' then
        (if n \<noteq> 2 then Inl Usage else int_arg (parts ! 1) (\<lambda>sID. Inr (CallRst sID)))
      else if command = ''v'' then (if n \<noteq> 1 then Inl Usage else Inr CallVerbose)
      else Inl UnknownCommand)"

section \<open>Printing\<close>

fun stateToString :: "tcp_state \<Rightarrow> string" where
  "stateToString LISTEN = ''LISTEN''"
| "stateToString SYN_SENT = ''SYN-SENT''"
| "stateToString SYN_RECEIVED = ''SYN-RECVD''"
| "stateToString ESTABLISHED = ''ESTABLISHED''"
| "stateToString FIN_WAIT_1 = ''FIN_WAIT_1''"
| "stateToString CLOSE_WAIT = ''CLOSE_WAIT''"
| "stateToString LAST_ACK = ''LAST_ACK''"
| "stateToString FIN_WAIT_2 = ''FIN_WAIT_2''"
| "stateToString TIME_WAIT = ''TIME_WAIT''"
| "stateToString CLOSED = ''CLOSED''"
| "stateToString ERROR = ''?''"

definition addrToString :: "netip_addr \<Rightarrow> string" where
  "addrToString a = (if a = NoAddr then ''0.0.0.0'' else show_addr a)"

text \<open>The rows that \<open>listSockets\<close> hands to the table writer, in the order of the range statement.\<close>

definition socket_row :: "table_entry \<Rightarrow> string list" where
  "socket_row e = [decimal (nat (te_socketID e)), addrToString (te_localIP e), decimal (unat (te_localPort e)),
     addrToString (te_destIP e), decimal (unat (te_destPort e)), stateToString (te_state e)]"

definition listSockets :: "int list \<Rightarrow> tcp_stack \<Rightarrow> string list list" where
  "listSockets ord ts = map (\<lambda>(sid, e). socket_row e) (range_map (socketMap ts) ord)"

section \<open>The commands\<close>

definition getNormalSocket :: "int \<Rightarrow> tcp_stack \<Rightarrow> table_entry option" where
  "getNormalSocket socketNum ts = (case socketMap ts socketNum of
     None \<Rightarrow> None
   | Some e \<Rightarrow> if te_normalSocket e = None then None else Some e)"

text \<open>What the choices of the environment are: orders of range statements, random numbers, the clock.\<close>

record repl_env =
  re_fwdOrd :: "nat \<Rightarrow> netip_prefix list"
  re_fuel :: nat
  re_ord :: "int list"
  re_intns :: "nat list"
  re_rand :: "u8 \<times> u8 \<times> u8 \<times> u8"
  re_now :: int

text \<open>\<open>aCommand\<close> up to its first wait in \<open>VAccept\<close>; it goes round when a connection has come.\<close>

definition aCommand :: "u16 \<Rightarrow> tcp_stack \<Rightarrow> go_panic + tcp_stack" where
  "aCommand port ts = (case VListen port ts of (l, ts1) \<Rightarrow> go_bind (VAccept l ts1) (\<lambda>(r, ts2). Inr ts2))"

definition aCommand_again :: "int \<Rightarrow> tcp_stack \<Rightarrow> go_panic + tcp_stack" where
  "aCommand_again l ts = go_bind (accept_receive l ts) (\<lambda>(r, ts1). case r of
     AcceptParked \<Rightarrow> Inr ts1
   | Accepted sid \<Rightarrow> go_bind (VAccept l ts1) (\<lambda>(r, ts2). Inr ts2))"

definition cCommand :: "repl_env \<Rightarrow> netip_addr \<Rightarrow> u16 \<Rightarrow> tcp_stack \<Rightarrow> tcp_stack" where
  "cCommand env addr port ts =
     snd (VConnect (re_fwdOrd env) (re_fuel env) (re_ord env) (re_intns env) (re_rand env) addr port ts)"

definition sCommand :: "repl_env \<Rightarrow> int \<Rightarrow> bytes \<Rightarrow> tcp_stack \<Rightarrow> go_panic + tcp_stack" where
  "sCommand env socketNum data ts = (case getNormalSocket socketNum ts of
     None \<Rightarrow> Inr ts
   | Some e \<Rightarrow> go_bind (VWrite (re_fuel env) data e) (\<lambda>(r, e'). Inr (put_entry socketNum e' ts)))"

text \<open>\<open>make\<close> panics on a negative length.\<close>

definition rCommand :: "repl_env \<Rightarrow> int \<Rightarrow> int \<Rightarrow> tcp_stack \<Rightarrow> go_panic + tcp_stack" where
  "rCommand env socketNum numBytes ts = (case getNormalSocket socketNum ts of
     None \<Rightarrow> Inr ts
   | Some e \<Rightarrow> if numBytes < 0 then Inl LibraryPanic
       else go_bind (VRead (re_fuel env) (replicate (nat numBytes) 0) e) (\<lambda>(r, e'). Inr (put_entry socketNum e' ts)))"

definition clCommand :: "repl_env \<Rightarrow> int \<Rightarrow> tcp_stack \<Rightarrow> go_panic + tcp_stack" where
  "clCommand env socketNum ts = (case socketMap ts socketNum of
     None \<Rightarrow> Inr ts
   | Some e \<Rightarrow>
       if te_state e = LISTEN then
         (case te_listenSocket e of None \<Rightarrow> Inr ts | Some l \<Rightarrow> go_bind (listener_VClose l ts) (\<lambda>(ok, ts'). Inr ts'))
       else if te_normalSocket e = None then Inr ts
       else go_bind (VClose (re_now env) e) (\<lambda>(r, e'). Inr (put_entry socketNum e' ts)))"

definition dCommand :: "int \<Rightarrow> tcp_stack \<Rightarrow> tcp_stack" where
  "dCommand socketNum ts = (case socketMap ts socketNum of
     None \<Rightarrow> ts
   | Some e \<Rightarrow> put_entry socketNum (e\<lparr>te_dropForRetrans := \<not> te_dropForRetrans e\<rparr>) ts)"

text \<open>\<open>prq\<close> and \<open>rst\<close> use the pointer that they looked up without a test.\<close>

definition prqCommand :: "int \<Rightarrow> tcp_stack \<Rightarrow> go_panic + u32 list" where
  "prqCommand socketNum ts =
     go_bind (deref (getNormalSocket socketNum ts)) (\<lambda>e.
     go_bind (get_retransQueue e) (\<lambda>rq. Inr (map re_seqNum (rq_array rq))))"

definition rstCommand :: "int \<Rightarrow> tcp_stack \<Rightarrow> go_panic + tcp_stack" where
  "rstCommand sID ts =
     go_bind (deref (socketMap ts sID)) (\<lambda>e.
     go_bind (sendRST e) (\<lambda>e1.
     go_bind (teardown (e1\<lparr>te_state := CLOSED\<rparr>)) (\<lambda>e2. Inr (put_entry sID e2 ts))))"

definition vCommand :: "bool \<Rightarrow> bool" where
  "vCommand VERBOSE = (if VERBOSE = True then False else True)"

text \<open>\<open>rf\<close> and \<open>sf\<close> start like \<open>a\<close> and \<open>c\<close>; the transfer itself is in FileTransfer.\<close>

definition run_call :: "repl_env \<Rightarrow> tcp_call \<Rightarrow> tcp_stack \<Rightarrow> go_panic + tcp_stack" where
  "run_call env call ts = (case call of
     CallAccept port \<Rightarrow> aCommand port ts
   | CallConnect addr port \<Rightarrow> Inr (cCommand env addr port ts)
   | CallSend sID data \<Rightarrow> sCommand env sID data ts
   | CallRead sID numBytes \<Rightarrow> rCommand env sID numBytes ts
   | CallRecvFile destFile port \<Rightarrow> aCommand port ts
   | CallSendFile srcFile addr port \<Rightarrow> Inr (cCommand env addr port ts)
   | CallClose sID \<Rightarrow> clCommand env sID ts
   | CallList \<Rightarrow> Inr ts
   | CallDrop sID \<Rightarrow> Inr (dCommand sID ts)
   | CallPrq sID \<Rightarrow> go_bind (prqCommand sID ts) (\<lambda>seqs. Inr ts)
   | CallRst sID \<Rightarrow> rstCommand sID ts
   | CallVerbose \<Rightarrow> Inr ts)"

section \<open>Commands written out\<close>

fun unwords :: "string list \<Rightarrow> string" where
  "unwords [] = []"
| "unwords [w] = w"
| "unwords (w # v # ws) = w @ CHR '' '' # unwords (v # ws)"

text \<open>How each command is typed, after the usage messages.\<close>

fun call_words :: "tcp_call \<Rightarrow> string list" where
  "call_words (CallAccept port) = [''a'', decimal (unat port)]"
| "call_words (CallConnect addr port) = [''c'', show_addr addr, decimal (unat port)]"
| "call_words (CallSend sID data) = [''s'', decimal (nat sID), map (\<lambda>b. char_of (unat b)) data]"
| "call_words (CallRead sID n) = [''r'', decimal (nat sID), decimal (nat n)]"
| "call_words (CallRecvFile destFile port) = [''rf'', destFile, decimal (unat port)]"
| "call_words (CallSendFile srcFile addr port) = [''sf'', srcFile, show_addr addr, decimal (unat port)]"
| "call_words (CallClose sID) = [''cl'', decimal (nat sID)]"
| "call_words CallList = [''ls'']"
| "call_words (CallDrop sID) = [''d'', decimal (nat sID)]"
| "call_words (CallPrq sID) = [''prq'', decimal (nat sID)]"
| "call_words (CallRst sID) = [''rst'', decimal (nat sID)]"
| "call_words CallVerbose = [''v'']"

definition word :: "string \<Rightarrow> bool" where
  "word w \<longleftrightarrow> w \<noteq> [] \<and> list_all (\<lambda>c. \<not> is_space c) w"

definition id_ok :: "int \<Rightarrow> bool" where
  "id_ok n \<longleftrightarrow> 0 \<le> n \<and> n < 2 ^ 63"

fun call_ok :: "tcp_call \<Rightarrow> bool" where
  "call_ok (CallConnect addr port) \<longleftrightarrow> addr \<noteq> NoAddr"
| "call_ok (CallSend sID data) \<longleftrightarrow> id_ok sID \<and> word (map (\<lambda>b. char_of (unat b)) data)"
| "call_ok (CallRead sID n) \<longleftrightarrow> id_ok sID \<and> id_ok n"
| "call_ok (CallRecvFile destFile port) \<longleftrightarrow> word destFile"
| "call_ok (CallSendFile srcFile addr port) \<longleftrightarrow> word srcFile \<and> addr \<noteq> NoAddr"
| "call_ok (CallClose sID) \<longleftrightarrow> id_ok sID"
| "call_ok (CallDrop sID) \<longleftrightarrow> id_ok sID"
| "call_ok (CallPrq sID) \<longleftrightarrow> id_ok sID"
| "call_ok (CallRst sID) \<longleftrightarrow> id_ok sID"
| "call_ok _ \<longleftrightarrow> True"

lemma Split_unwords: "ws \<noteq> [] \<Longrightarrow> \<forall>w \<in> set ws. CHR '' '' \<notin> set w \<Longrightarrow> Split (CHR '' '') (unwords ws) = ws"
  by (induction ws rule: unwords.induct) (simp_all add: Split_word Split_last)

lemma word_no_space: "word w \<Longrightarrow> CHR '' '' \<notin> set w"
  by (auto simp: word_def is_space_def list_all_iff)

lemma word_decimal: "word (decimal n)"
  by (simp add: word_def decimal_free)

lemma word_show_addr: "a \<noteq> NoAddr \<Longrightarrow> word (show_addr a)"
  by (cases a) (simp_all add: word_def show_addr_chars del: show_addr.simps)

lemma word_commands:
  "word ''a''" "word ''c''" "word ''s''" "word ''r''" "word ''rf''" "word ''sf''" "word ''cl''" "word ''ls''"
  "word ''d''" "word ''prq''" "word ''rst''" "word ''v''"
  by code_simp+

lemma call_words_ok: "call_ok c \<Longrightarrow> w \<in> set (call_words c) \<Longrightarrow> word w"
  by (cases c) (auto simp: word_decimal word_show_addr word_commands simp del: show_addr.simps)

lemma ParseInt_id: "id_ok n \<Longrightarrow> ParseInt (decimal (nat n)) = Some n"
  using ParseInt_decimal [of "nat n"] by (simp add: id_ok_def nat_less_iff)

lemma port_arg_decimal: "port_arg (decimal (unat p)) f = f p"
proof -
  have "unat p < 65536" by (rule unat_u16_lt)
  moreover from this have "ParseInt (decimal (unat p)) = Some (int (unat p))" by (intro ParseInt_decimal) simp
  moreover have "int (unat p) \<le> 65535" using \<open>unat p < 65536\<close> by linarith
  ultimately show ?thesis by (simp add: port_arg_def)
qed

lemma int_arg_decimal: "id_ok n \<Longrightarrow> int_arg (decimal (nat n)) f = f n"
  by (simp add: int_arg_def ParseInt_id)

lemma addr_arg_show: "a \<noteq> NoAddr \<Longrightarrow> addr_arg (show_addr a) f = f a"
  by (cases a) (simp_all add: addr_arg_def ParseAddr_show del: show_addr.simps)

lemma ascii_chars: "ascii (map (\<lambda>b. char_of (unat b)) data) = data"
proof -
  have "word_of_nat (of_char (char_of (unat b) :: char)) = b" for b :: u8
    using unsigned_less [of b, where 'a = nat] by simp
  then show ?thesis by (simp add: ascii_def o_def)
qed

lemma parse_call_words:
  assumes "call_ok c"
  shows "HandleTcpReplCommands (unwords (call_words c)) = Inr c"
proof -
  have "Split (CHR '' '') (unwords (call_words c)) = call_words c"
    by (rule Split_unwords) (use call_words_ok [OF assms] word_no_space in \<open>auto intro: call_words.elims\<close>)
  then show ?thesis using assms
    by (cases c) (simp_all add: HandleTcpReplCommands_def Let_def port_arg_decimal int_arg_decimal addr_arg_show ascii_chars
      del: show_addr.simps)
qed

section \<open>The table under commands\<close>

text \<open>Everything that may happen to a stack that somebody types at: its own steps and the lines.\<close>

inductive repl_reach :: "iptcp_headers \<Rightarrow> netstack \<Rightarrow> tcp_stack \<Rightarrow> bool" for ih ns where
  start: "repl_reach ih ns (InitTCPStack ip)"
| stack: "repl_reach ih ns ts \<Longrightarrow> stack_step ih ns ts ts' \<Longrightarrow> repl_reach ih ns ts'"
| typed: "repl_reach ih ns ts \<Longrightarrow> HandleTcpReplCommands line = Inr call \<Longrightarrow> enumerates (re_ord env) (socketMap ts) \<Longrightarrow>
    run_call env call ts = Inr ts' \<Longrightarrow> repl_reach ih ns ts'"
| accepts_again: "repl_reach ih ns ts \<Longrightarrow> aCommand_again l ts = Inr ts' \<Longrightarrow> repl_reach ih ns ts'"

lemma getNormalSocket_Some:
  assumes "getNormalSocket sid ts = Some e"
  shows "ts_entries ts sid = Some e" "socketMap ts sid = Some e" "te_normalSocket e \<noteq> None"
  using assms by (auto simp: getNormalSocket_def socketMap_def split: option.split_asm if_split_asm)

lemma socketMap_entries: "socketMap ts sid = Some e \<Longrightarrow> ts_entries ts sid = Some e"
  by (simp add: socketMap_def split: option.split_asm if_split_asm)

text \<open>A command that works on one connection through one of its operations.\<close>

lemma on_entry_ok:
  assumes "stack_ok ts" and "ts_entries ts sid = Some e"
    and "go_bind m (\<lambda>(r, e'). Inr (put_entry sid e' ts)) = Inr ts'"
    and "entry_step ev e = go_bind m (\<lambda>(r, e'). Inr (None, e'))"
  shows "stack_ok ts'"
  using assms(3,4) stack_ok_entry [OF assms(1,2), of ev None] by (auto simp: go_bind_eq_Inr)

lemma dCommand_ok:
  assumes ok: "stack_ok ts"
  shows "stack_ok (dCommand sid ts)"
proof (cases "socketMap ts sid")
  case (Some e)
  note e = socketMap_entries [OF Some]
  show ?thesis unfolding dCommand_def Some option.case
    by (rule stack_ok_update [OF ok e, of "e\<lparr>te_dropForRetrans := \<not> te_dropForRetrans e\<rparr>" _ "[]"])
      (use stack_okD(4) [OF ok e] in \<open>auto simp: put_entry_def keeps_def\<close>)
qed (simp add: dCommand_def ok)

lemma rstCommand_ok:
  assumes ok: "stack_ok ts" and r: "rstCommand sid ts = Inr ts'"
  shows "stack_ok ts'"
proof -
  obtain e e1 e2 where m: "socketMap ts sid = Some e" and s: "sendRST e = Inr e1"
    and t: "teardown (e1\<lparr>te_state := CLOSED\<rparr>) = Inr e2" and ts': "ts' = put_entry sid e2 ts"
    using r by (auto simp: rstCommand_def go_bind_eq_Inr)
  have "keeps e e1" using s by (auto simp: sendRST_def go_bind_eq_Inr intro!: keeps_intros keeps_refl)
  then have "ekeeps e (teardown (e1\<lparr>te_state := CLOSED\<rparr>))" by (intro keeps_teardown keeps_intros)
  then have k: "keeps e e2" using t by (auto dest: holdsD)
  have "te_state e2 = CLOSED \<and> te_removed e2" using t by (auto simp: teardown_def go_bind_eq_Inr Let_def set_defs)
  then show ?thesis unfolding ts'
    by (intro stack_ok_update [OF ok socketMap_entries [OF m] k]) (simp_all add: put_entry_def)
qed

lemma clCommand_ok:
  assumes ok: "stack_ok ts" and r: "clCommand env sid ts = Inr ts'"
  shows "stack_ok ts'"
proof (cases "socketMap ts sid")
  case None
  then show ?thesis using r ok by (simp add: clCommand_def)
next
  case (Some e)
  consider "ts' = ts" | l b where "listener_VClose l ts = Inr (b, ts')"
    | "go_bind (VClose (re_now env) e) (\<lambda>(r, e'). Inr (put_entry sid e' ts)) = Inr ts'"
    using r by (auto simp: clCommand_def Some go_bind_eq_Inr split: if_split_asm option.split_asm)
  then show ?thesis
  proof cases
    case 3
    then show ?thesis by (rule on_entry_ok [OF ok socketMap_entries [OF Some], of _ _ "AppClose (re_now env)"]) simp
  qed (use ok listener_VClose_ok in auto)
qed

lemma aCommand_ok: "stack_ok ts \<Longrightarrow> aCommand port ts = Inr ts' \<Longrightarrow> stack_ok ts'"
  by (auto simp: aCommand_def go_bind_eq_Inr split: prod.split_asm intro: VAccept_ok VListen_ok)

lemma aCommand_again_ok: "stack_ok ts \<Longrightarrow> aCommand_again l ts = Inr ts' \<Longrightarrow> stack_ok ts'"
  by (auto simp: aCommand_again_def go_bind_eq_Inr intro: VAccept_ok accept_receive_ok accept_result.exhaust
    split: accept_result.splits)

lemma cCommand_ok: "stack_ok ts \<Longrightarrow> enumerates (re_ord env) (socketMap ts) \<Longrightarrow> stack_ok (cCommand env addr port ts)"
  unfolding cCommand_def by (rule VConnect_ok [OF _ _ surjective_pairing])

lemma run_call_ok:
  assumes ok: "stack_ok ts" and ord: "enumerates (re_ord env) (socketMap ts)" and r: "run_call env call ts = Inr ts'"
  shows "stack_ok ts'"
proof (cases call)
  case (CallSend sid data)
  then show ?thesis using r ok
    by (auto simp: run_call_def sCommand_def split: option.split_asm
      intro: on_entry_ok [where ev = "AppWrite (re_fuel env) data"] getNormalSocket_Some)
next
  case (CallRead sid n)
  then show ?thesis using r ok
    by (auto simp: run_call_def rCommand_def split: option.split_asm if_split_asm
      intro: on_entry_ok [where ev = "AppRead (re_fuel env) (replicate (nat n) 0)"] getNormalSocket_Some)
qed (use r ok cCommand_ok [OF ok ord] in \<open>auto simp: run_call_def go_bind_eq_Inr
  intro: aCommand_ok clCommand_ok rstCommand_ok dCommand_ok\<close>)

lemma repl_reach_ok: "repl_reach ih ns ts \<Longrightarrow> stack_ok ts"
  by (induction rule: repl_reach.induct)
    (auto intro: stack_step_ok run_call_ok aCommand_again_ok stack_reach_ok stack_reach.initial)

text \<open>C26.
  Whatever somebody types, and however the lines interleave with segments, timers and the sending
  goroutines, the socket table stays sound: every entry is found under its own ID, the IDs stay below the
  counter, a listening entry has its listener, and no two connections have the same four-tuple.
\<close>

theorem typed_commands_keep_table:
  assumes "repl_reach ih ns ts" and "socketMap ts i = Some e"
  shows "te_socketID e = i \<and> i < ts_nextID ts
     \<and> (te_state e = LISTEN \<longrightarrow> te_normalSocket e = None \<and> te_listenSocket e = Some i \<and> ts_listeners ts i \<noteq> None)
     \<and> (\<forall>j f. conn_at ts i e \<and> conn_at ts j f \<and> tuple_of e = tuple_of f \<longrightarrow> i = j)"
  using stack_okD [OF repl_reach_ok [OF assms(1)] socketMap_entries [OF assms(2)]]
    stack_ok_unique [OF repl_reach_ok [OF assms(1)]] by blast

definition sample_env :: repl_env where
  "sample_env = \<lparr>re_fwdOrd = (\<lambda>_. [sample_net]), re_fuel = 1, re_ord = [], re_intns = [7], re_rand = (0, 0, 3, 232), re_now = 0\<rparr>"

lemma typed_connect_reach: "repl_reach ih ns syn_sent_stack"
proof (rule repl_reach.typed [OF repl_reach.start parse_call_words, where env = sample_env])
  let ?c = "CallConnect (ipv4_of 10 0 0 2) 80"
  show "call_ok ?c" by (simp add: ipv4_of_def)
  show "enumerates (re_ord sample_env) (socketMap (InitTCPStack sample_router))"
    by (auto simp: enumerates_def socketMap_def InitTCPStack_def dom_def sample_env_def)
  show "run_call sample_env ?c (InitTCPStack sample_router) = Inr syn_sent_stack"
    by (simp add: run_call_def cCommand_def sample_env_def syn_sent_stack_def)
qed

theorem typed_commands_keep_table_witness:
  "\<exists>e. socketMap syn_sent_stack 0 = Some e \<and> te_state e = SYN_SENT \<and> te_socketID e = 0"
proof -
  have "\<exists>e. socketMap syn_sent_stack 0 = Some e \<and> te_state e = SYN_SENT"
    by (simp add: socketMap_def syn_sent_entries newActiveEntry_def startSynRetransTimer_def sendSyn_def send_packet_def zero_entry_def)
  then show ?thesis using typed_commands_keep_table [OF typed_connect_reach] by blast
qed

section \<open>Commands on sockets that are not there\<close>

text \<open>
  A command that names a socket ID that is not in the table is refused and changes nothing, except
  that \<open>prq\<close> and \<open>rst\<close> crash the program: they use the pointer they looked up without a test.
\<close>

theorem unknown_socket_commands:
  assumes "socketMap ts sid = None"
  shows "run_call env (CallSend sid data) ts = Inr ts \<and> run_call env (CallRead sid n) ts = Inr ts
    \<and> run_call env (CallClose sid) ts = Inr ts \<and> run_call env (CallDrop sid) ts = Inr ts
    \<and> run_call env (CallPrq sid) ts = Inl NilDereference \<and> run_call env (CallRst sid) ts = Inl NilDereference"
  using assms by (simp add: run_call_def sCommand_def rCommand_def clCommand_def dCommand_def prqCommand_def
    rstCommand_def getNormalSocket_def)

theorem unknown_socket_commands_witness:
  "run_call sample_env (CallRst 0) (InitTCPStack sample_router) = Inl NilDereference
   \<and> run_call sample_env (CallClose 0) (InitTCPStack sample_router) = Inr (InitTCPStack sample_router)"
  using unknown_socket_commands [of "InitTCPStack sample_router" 0 sample_env "[]" 0]
  by (simp add: socketMap_def InitTCPStack_def)

text \<open>
  The same pointer arithmetic on sockets that are there: a reset or a queue listing before the
  buffers exist, and a read of a negative number of bytes.
\<close>

lemma commands_before_buffers:
  assumes "socketMap ts sid = Some e" and "te_normalSocket e = Some c" and "vc_recvBuf c = None" and "vc_retransQueue c = None"
  shows "run_call env (CallPrq sid) ts = Inl NilDereference" and "run_call env (CallRst sid) ts = Inl NilDereference"
  using assms by (simp_all add: run_call_def prqCommand_def rstCommand_def getNormalSocket_def sendRST_def get_defs)

lemma reset_of_listener:
  assumes "stack_ok ts" and "socketMap ts sid = Some e" and "te_state e = LISTEN"
  shows "run_call env (CallRst sid) ts = Inl NilDereference"
proof -
  have "te_normalSocket e = None" using stack_okD(4) [OF assms(1) socketMap_entries [OF assms(2)] assms(3)] by simp
  then show ?thesis using assms(2) by (simp add: run_call_def rstCommand_def sendRST_def listening_get)
qed

lemma negative_read: "getNormalSocket sid ts = Some e \<Longrightarrow> n < 0 \<Longrightarrow> run_call env (CallRead sid n) ts = Inl LibraryPanic"
  by (simp add: run_call_def rCommand_def)

section \<open>A typed line is the command it spells\<close>

lemma TrimSpace_words:
  assumes "ws \<noteq> []" and "\<forall>w \<in> set ws. word w"
  shows "TrimSpace (unwords ws) = unwords ws"
proof -
  have h: "unwords ws \<noteq> [] \<and> \<not> is_space (hd (unwords ws))"
    using assms by (induction ws rule: unwords.induct) (auto simp: word_def list_all_iff)
  have l: "unwords ws \<noteq> [] \<and> \<not> is_space (last (unwords ws))"
    using assms by (induction ws rule: unwords.induct) (auto simp: word_def list_all_iff)
  have "dropWhile is_space (unwords ws) = unwords ws" using h by (cases "unwords ws") auto
  moreover have "dropWhile is_space (rev (unwords ws)) = rev (unwords ws)"
    using l by (cases "unwords ws" rule: rev_cases) auto
  ultimately show ?thesis by (simp add: TrimSpace_def)
qed

lemma SplitN_head:
  assumes "word w" and "\<forall>v \<in> set ws. word v"
  shows "SplitN 3 (CHR '' '') (unwords (w # ws)) ! 0 = w"
proof -
  have t: "takeWhile (\<lambda>c. c \<noteq> CHR '' '') w = w" using word_no_space [OF assms(1)] by (auto simp: takeWhile_eq_all_conv)
  have u: "takeWhile (\<lambda>c. c \<noteq> CHR '' '') (unwords (w # ws)) = w"
    using t takeWhile_append2 [of w "\<lambda>c. c \<noteq> CHR '' ''"] word_no_space [OF assms(1)] by (cases ws) auto
  have "unwords (w # ws) = w" if "length w = length (unwords (w # ws))"
    using takeWhile_eq_take [of "\<lambda>c. c \<noteq> CHR '' ''" "unwords (w # ws)"] u that by simp
  then show ?thesis by (auto simp: eval_nat_numeral Let_def u)
qed

lemma call_words_Cons: "\<exists>w ws. call_words c = w # ws \<and> w \<in> {''a'', ''c'', ''ls'', ''s'', ''r'', ''sf'', ''rf'', ''cl'', ''d'', ''prq'', ''rst'', ''v''}"
  by (cases c) simp_all

text \<open>Every TCP command, typed as its usage message says, reaches the TCP layer through the trimming and
  the dispatch of the IP command line and is parsed there as exactly that command.
\<close>

theorem tcp_command_roundtrip:
  assumes "call_ok c"
  shows "\<exists>line. repl_line (unwords (call_words c)) = Some (Inr (ToTcp line)) \<and> HandleTcpReplCommands line = Inr c"
proof -
  obtain w ws where c: "call_words c = w # ws"
    and w: "w \<in> {''a'', ''c'', ''ls'', ''s'', ''r'', ''sf'', ''rf'', ''cl'', ''d'', ''prq'', ''rst'', ''v''}"
    using call_words_Cons [of c] by (elim exE conjE)
  have ok: "word w" "\<forall>v \<in> set ws. word v" using call_words_ok [OF assms] c by auto
  have "TrimSpace (unwords (w # ws)) = unwords (w # ws)" using ok by (intro TrimSpace_words) auto
  moreover have "unwords (w # ws) \<noteq> []" using ok(1) by (cases ws) (auto simp: word_def)
  moreover have "HandleCommand (unwords (w # ws)) = Inr (ToTcp (unwords (w # ws)))"
    unfolding HandleCommand_def Let_def SplitN_head [OF ok] using w by (auto simp del: insert_iff simp: insert_iff)
  ultimately show ?thesis using parse_call_words [OF assms] by (simp add: repl_line_def c Let_def)
qed

theorem tcp_command_roundtrip_witness:
  "\<exists>line. repl_line (unwords (call_words (CallConnect (ipv4_of 10 0 0 2) 80))) = Some (Inr (ToTcp line))
     \<and> HandleTcpReplCommands line = Inr (CallConnect (ipv4_of 10 0 0 2) 80)"
  by (rule tcp_command_roundtrip) (simp add: ipv4_of_def)

end
