(* ===== verification/TlsRepl.thy ===== *)
theory TlsRepl
  imports TcpRepl
begin

text \<open>
  The TLS command line of \<open>src/pkg/tlsStack/tlsRepl.go\<close>: parsing, the table of TLS connections, and the
  commands on it. A listening command is modelled as its loop over what \<open>VAccept\<close> returns, a
  connecting one by what \<open>VConnect\<close> returns.
\<close>

section \<open>From lines to commands\<close>

datatype tls_call =
    TlsAccept u16
  | TlsConnect netip_addr u16
  | TlsSend int bytes
  | TlsReceive int int
  | TlsSendFile string netip_addr u16
  | TlsRecvFile string u16
  | TlsList
  | TlsClose int

definition TrimPrefix :: "string \<Rightarrow> string \<Rightarrow> string" where
  "TrimPrefix s p = (if prefix p s then drop (length p) s else s)"

definition TrimLeft :: "string \<Rightarrow> string" where
  "TrimLeft = dropWhile (\<lambda>c. c = CHR '' '' \<or> c = CHR 0x09)"

text \<open>
  \<open>handleTlsS\<close> cuts the command and the ID off the line, to see whether a message is left. What it
  sends is not this text but the remaining words, joined again with single blanks.
\<close>

definition tlss_msg :: "string \<Rightarrow> string list \<Rightarrow> string" where
  "tlss_msg cmd parts = TrimLeft (TrimPrefix (TrimLeft (TrimPrefix (TrimSpace cmd) (parts ! 0))) (parts ! 1))"

definition handleTlsS :: "string \<Rightarrow> refusal + tls_call" where
  "handleTlsS cmd =
     (let parts = Fields cmd in
      if length parts < 3 then Inl Usage
      else if tlss_msg cmd parts = '''' then Inl Usage
      else int_arg (parts ! 1) (\<lambda>sID. Inr (TlsSend sID (ascii (unwords (drop 2 parts))))))"

text \<open>The argument checks of the other handlers.\<close>

definition tlsa_args :: "string list \<Rightarrow> refusal + tls_call" where
  "tlsa_args parts = (if length parts \<noteq> 2 then Inl Usage else port_arg (parts ! 1) (\<lambda>port. Inr (TlsAccept port)))"

definition tlsc_args :: "string list \<Rightarrow> refusal + tls_call" where
  "tlsc_args parts = (if length parts \<noteq> 3 then Inl Usage
     else addr_arg (parts ! 1) (\<lambda>addr. port_arg (parts ! 2) (\<lambda>port. Inr (TlsConnect addr port))))"

definition tlssf_args :: "string list \<Rightarrow> refusal + tls_call" where
  "tlssf_args parts = (if length parts \<noteq> 4 then Inl Usage
     else addr_arg (parts ! 2) (\<lambda>addr. port_arg (parts ! 3) (\<lambda>port. Inr (TlsSendFile (parts ! 1) addr port))))"

definition tlsrf_args :: "string list \<Rightarrow> refusal + tls_call" where
  "tlsrf_args parts = (if length parts \<noteq> 3 then Inl Usage
     else port_arg (parts ! 2) (\<lambda>port. Inr (TlsRecvFile (parts ! 1) port)))"

definition tlsr_args :: "string list \<Rightarrow> refusal + tls_call" where
  "tlsr_args parts = (if length parts \<noteq> 3 then Inl Usage
     else int_arg (parts ! 1) (\<lambda>sID. int_arg (parts ! 2) (\<lambda>numBytes. Inr (TlsReceive sID numBytes))))"

definition tlscl_args :: "string list \<Rightarrow> refusal + tls_call" where
  "tlscl_args parts = (if length parts \<noteq> 2 then Inl Usage else int_arg (parts ! 1) (\<lambda>sID. Inr (TlsClose sID)))"

text \<open>The switch of \<open>HandleTlsReplCommands\<close>; a blank line is skipped.\<close>

definition HandleTlsReplCommands :: "string \<Rightarrow> (refusal + tls_call) option" where
  "HandleTlsReplCommands cmd =
     (let parts = Fields cmd in
      if length parts = 0 then None
      else Some (let command = parts ! 0 in
        if command = ''tlsa'' then tlsa_args parts
        else if command = ''tlsc'' then tlsc_args parts
        else if command = ''tlss'' then handleTlsS cmd
        else if command = ''tlsr'' then tlsr_args parts
        else if command = ''tlssf'' then tlssf_args parts
        else if command = ''tlsrf'' then tlsrf_args parts
        else if command = ''tlsls'' then Inr TlsList
        else if command = ''tlscl'' then tlscl_args parts
        else Inl UnknownCommand))"

text \<open>What is cut off are the first two words, so with a third word something is left.\<close>

lemma fields_from_first:
  "fields_from w s = p # ps \<Longrightarrow> w \<noteq> [] \<Longrightarrow> \<exists>v t. s = v @ t \<and> p = w @ v \<and> Fields t = ps"
proof (induction s arbitrary: w)
  case (Cons c s)
  show ?case
  proof (cases "is_space c")
    case True
    then show ?thesis using Cons.prems by (intro exI [of _ "[]"] exI [of _ "c # s"]) simp
  next
    case False
    then obtain v t where "s = v @ t" "p = (w @ [c]) @ v" "Fields t = ps" using Cons.IH [of "w @ [c]"] Cons.prems by auto
    then show ?thesis by (intro exI [of _ "c # v"] exI [of _ t]) simp
  qed
qed simp

lemma Fields_first:
  assumes "Fields s = p # ps" and "s \<noteq> []" and "\<not> is_space (hd s)"
  shows "prefix p s" and "Fields (drop (length p) s) = ps"
proof -
  obtain c cs where s: "s = c # cs" "\<not> is_space c" using assms(2,3) by (cases s) auto
  then obtain v t where "cs = v @ t" "p = [c] @ v" "Fields t = ps" using fields_from_first [of "[c]" cs p ps] assms(1) by auto
  then show "prefix p s" "Fields (drop (length p) s) = ps" using s by simp_all
qed

lemma Fields_dropWhile: "(\<And>c. P c \<Longrightarrow> is_space c) \<Longrightarrow> Fields (dropWhile P s) = Fields s"
  by (induction s) auto

lemma fields_from_spaces: "list_all is_space t \<Longrightarrow> fields_from w (s @ t) = fields_from w s"
proof (induction s arbitrary: w)
  case Nil
  then show ?case by (induction t arbitrary: w) auto
qed simp

lemma Fields_TrimSpace: "Fields (TrimSpace s) = Fields s"
proof -
  let ?s = "dropWhile is_space s"
  have "?s = rev (dropWhile is_space (rev ?s)) @ rev (takeWhile is_space (rev ?s))"
    by (metis rev_append rev_rev_ident takeWhile_dropWhile_id)
  moreover have "list_all is_space (rev (takeWhile is_space (rev ?s)))"
    by (auto simp: list_all_iff dest: set_takeWhileD)
  ultimately have "Fields ?s = Fields (TrimSpace s)" using fields_from_spaces by (metis TrimSpace_def)
  then show ?thesis using Fields_dropWhile [of is_space s] by simp
qed

lemma Fields_TrimLeft: "Fields (TrimLeft s) = Fields s"
  unfolding TrimLeft_def by (rule Fields_dropWhile) (auto simp: is_space_def)

lemma Fields_word_hd: "Fields s = p # ps \<Longrightarrow> p \<noteq> [] \<and> \<not> is_space (hd p)"
  using fields_from_words [of p "[]" s] by (cases p) auto

lemma Fields_TrimPrefix:
  assumes "Fields s = p # ps"
  shows "Fields (TrimPrefix s p) = (if prefix p s then ps else p # ps)"
proof (cases "prefix p s")
  case True
  then have "s \<noteq> []" "\<not> is_space (hd s)" using Fields_word_hd [OF assms] by (auto simp: prefix_def hd_append)
  then show ?thesis using True Fields_first(2) [OF assms] by (simp add: TrimPrefix_def)
qed (use assms in \<open>simp add: TrimPrefix_def\<close>)

lemma hd_TrimSpace: "TrimSpace s \<noteq> [] \<Longrightarrow> \<not> is_space (hd (TrimSpace s))"
proof -
  let ?s = "dropWhile is_space s"
  assume ne: "TrimSpace s \<noteq> []"
  have "?s = TrimSpace s @ rev (takeWhile is_space (rev ?s))"
    unfolding TrimSpace_def by (metis rev_append rev_rev_ident takeWhile_dropWhile_id)
  then have "hd (TrimSpace s) = hd ?s" using ne by (metis hd_append2)
  moreover have "?s \<noteq> []" using ne unfolding TrimSpace_def by (metis dropWhile.simps(1) rev.simps(1))
  ultimately show ?thesis using hd_dropWhile [of is_space s] by simp
qed

lemma tlss_msg_left:
  assumes "Fields cmd = p # q # ws" and "ws \<noteq> []"
  shows "tlss_msg cmd (Fields cmd) \<noteq> ''''"
proof -
  have t: "Fields (TrimSpace cmd) = p # q # ws" using assms(1) by (simp add: Fields_TrimSpace)
  then have "TrimSpace cmd \<noteq> []" by auto
  from Fields_first(1) [OF t this hd_TrimSpace [OF this]] have "prefix p (TrimSpace cmd)" .
  then have "Fields (TrimLeft (TrimPrefix (TrimSpace cmd) p)) = q # ws"
    using Fields_TrimPrefix [OF t] by (simp add: Fields_TrimLeft)
  from Fields_TrimPrefix [OF this] have "Fields (tlss_msg cmd (Fields cmd)) \<noteq> []"
    using assms by (simp add: tlss_msg_def Fields_TrimLeft)
  then show ?thesis by auto
qed

lemma Fields_unwords: "\<forall>w \<in> set ws. word w \<Longrightarrow> Fields (unwords ws) = ws"
proof (induction ws rule: unwords.induct)
  case (3 w v ws)
  have "is_space (CHR '' '')" by code_simp
  then show ?case using Fields_word [of w "CHR '' ''"] 3 by (simp add: word_def)
qed (simp_all add: word_def Fields_last)

section \<open>The table of connections\<close>

record vtls_stack =
  tlsConnMap :: "int \<rightharpoonup> vtls_conn"
  tls_nextID :: int

definition InitVTLSStack :: vtls_stack where
  "InitVTLSStack = \<lparr>tlsConnMap = Map.empty, tls_nextID = 0\<rparr>"

definition registerConn :: "vtls_conn \<Rightarrow> vtls_stack \<Rightarrow> int \<times> vtls_stack" where
  "registerConn conn tls = (tls_nextID tls,
     tls\<lparr>tlsConnMap := (tlsConnMap tls)(tls_nextID tls \<mapsto> conn), tls_nextID := tls_nextID tls + 1\<rparr>)"

definition getConn :: "int \<Rightarrow> vtls_stack \<Rightarrow> vtls_conn option" where
  "getConn sid tls = tlsConnMap tls sid"

text \<open>The table holds pointers: what happens to a connection is seen there.\<close>

definition put_conn :: "int \<Rightarrow> vtls_conn \<Rightarrow> vtls_stack \<Rightarrow> vtls_stack" where
  "put_conn sid conn tls = tls\<lparr>tlsConnMap := (tlsConnMap tls)(sid \<mapsto> conn)\<rparr>"

section \<open>The commands\<close>

text \<open>
  One round of the loop of \<open>tlsa\<close>, for what \<open>VAccept\<close> returned; the first result says whether the loop
  goes on. It does not after an error, nor while the key exchange waits.
\<close>

definition tlsa_round :: "crypto \<Rightarrow> vtls_listener \<Rightarrow> vconn option \<times> bytes option \<Rightarrow> vtls_stack \<Rightarrow> bool \<times> vtls_stack" where
  "tlsa_round cr l = (\<lambda>(accepted, rand) tls. case VTLSAccept cr rand accepted l of
     (TlsOk _, Some conn) \<Rightarrow> (True, snd (registerConn conn tls))
   | _ \<Rightarrow> (False, tls))"

fun handleTlsA :: "crypto \<Rightarrow> vtls_listener \<Rightarrow> (vconn option \<times> bytes option) list \<Rightarrow> vtls_stack \<Rightarrow> vtls_stack" where
  "handleTlsA cr l [] tls = tls"
| "handleTlsA cr l (x # xs) tls = (case tlsa_round cr l x tls of
     (True, tls') \<Rightarrow> handleTlsA cr l xs tls' | (False, tls') \<Rightarrow> tls')"

definition handleTlsC :: "crypto \<Rightarrow> bytes option \<Rightarrow> vtls_client_config \<Rightarrow> vconn option \<Rightarrow> vtls_stack \<Rightarrow> vtls_stack" where
  "handleTlsC cr rand clientConfig dialled tls = (case VTLSDial cr rand clientConfig dialled of
     (TlsOk _, Some conn) \<Rightarrow> snd (registerConn conn tls)
   | _ \<Rightarrow> tls)"

text \<open>What a command prints in the end; \<open>Waits\<close> while its goroutine is blocked.\<close>

datatype tls_output = Sent nat | ReadBytes bytes | Closed | Failed tls_error | NoConn | Waits | Listed "string list list" | Started

definition tls_send :: "crypto \<Rightarrow> int \<Rightarrow> bytes \<Rightarrow> vtls_stack \<Rightarrow> tls_output \<times> vtls_stack" where
  "tls_send cr sid msg tls = (case getConn sid tls of
     None \<Rightarrow> (NoConn, tls)
   | Some conn \<Rightarrow> (case VTLSWrite cr msg conn of
       (TlsOk n, conn') \<Rightarrow> (Sent n, put_conn sid conn' tls)
     | (TlsErr e, conn') \<Rightarrow> (Failed e, put_conn sid conn' tls)
     | (TlsWaits, conn') \<Rightarrow> (Waits, put_conn sid conn' tls)))"

definition handleTlsR :: "crypto \<Rightarrow> int \<Rightarrow> int \<Rightarrow> vtls_stack \<Rightarrow> go_panic + (tls_output \<times> vtls_stack)" where
  "handleTlsR cr sid numBytes tls = (case getConn sid tls of
     None \<Rightarrow> Inr (NoConn, tls)
   | Some conn \<Rightarrow> if numBytes < 0 then Inl LibraryPanic
       else Inr (case VTLSRead cr (nat numBytes) conn of
         (TlsOk bs, conn') \<Rightarrow> (ReadBytes bs, put_conn sid conn' tls)
       | (TlsErr e, conn') \<Rightarrow> (Failed e, put_conn sid conn' tls)
       | (TlsWaits, conn') \<Rightarrow> (Waits, put_conn sid conn' tls)))"

text \<open>\<open>tlscl\<close> forgets the connection unless \<open>VClose\<close> gives an error (\<open>closes\<close> is False).\<close>

definition handleTlsCl :: "bool \<Rightarrow> int \<Rightarrow> vtls_stack \<Rightarrow> tls_output \<times> vtls_stack" where
  "handleTlsCl closes sid tls = (case getConn sid tls of
     None \<Rightarrow> (NoConn, tls)
   | Some conn \<Rightarrow> if \<not> closes then (Failed ErrClosing, tls)
       else (Closed, tls\<lparr>tlsConnMap := (tlsConnMap tls)(sid := None)\<rparr>))"

text \<open>
  The listing of \<open>tlsls\<close>. The package repeats the state constants of the TCP package, so that its
  \<open>stateToString\<close> works on numbers that were written with the other set.
\<close>

fun state_number :: "tcp_state \<Rightarrow> nat" where
  "state_number CLOSED = 0"
| "state_number LISTEN = 1"
| "state_number SYN_SENT = 2"
| "state_number SYN_RECEIVED = 3"
| "state_number ESTABLISHED = 4"
| "state_number FIN_WAIT_1 = 5"
| "state_number CLOSE_WAIT = 6"
| "state_number LAST_ACK = 7"
| "state_number FIN_WAIT_2 = 8"
| "state_number TIME_WAIT = 9"
| "state_number ERROR = 10"

definition tls_states :: "(nat \<times> string) list" where
  "tls_states = [(0, ''CLOSED''), (1, ''LISTEN''), (2, ''SYN-SENT''), (3, ''SYN-RECVD''), (4, ''ESTABLISHED''),
     (5, ''FIN_WAIT_1''), (6, ''CLOSE_WAIT''), (7, ''LAST_ACK''), (8, ''FIN_WAIT_2''), (9, ''TIME_WAIT'')]"

definition tls_stateToString :: "nat \<Rightarrow> string" where
  "tls_stateToString n = (case map_of tls_states n of None \<Rightarrow> ''?'' | Some t \<Rightarrow> t)"

definition tls_addrToString :: "netip_addr \<Rightarrow> string" where
  "tls_addrToString a = (if a = NoAddr then ''0.0.0.0'' else show_addr a)"

lemma tls_states_agree: "tls_stateToString (state_number s) = stateToString s"
  by (cases s) (simp_all add: tls_stateToString_def tls_states_def)

lemma tls_addrToString_eq: "tls_addrToString a = addrToString a"
  by (simp add: tls_addrToString_def addrToString_def)

text \<open>\<open>info\<close> is what \<open>GetInfo\<close> says of the TCP connection of a TLS connection.\<close>

definition handleTlsLS :: "int list \<Rightarrow> (int \<Rightarrow> conn_info) \<Rightarrow> vtls_stack \<Rightarrow> string list list" where
  "handleTlsLS ord info tls = map (\<lambda>(sid, conn). let i = info sid in
     [decimal (nat sid), tls_addrToString (ci_LocalIP i), decimal (unat (ci_LocalPort i)),
      tls_addrToString (ci_RemoteIP i), decimal (unat (ci_RemotePort i)), tls_stateToString (state_number (ci_State i))])
     (range_map (tlsConnMap tls) ord)"

text \<open>
  The whole dispatch, in an environment that says what the other layers and the random source answer.
  The two file commands work on connections of their own that are not in the table.
\<close>

record tls_env =
  ev_dialled :: "vconn option"
  ev_rand :: "bytes option"
  ev_accepts :: "(vconn option \<times> bytes option) list"
  ev_listener :: int
  ev_closes :: bool
  ev_ord :: "int list"
  ev_info :: "int \<Rightarrow> conn_info"

definition run_tls :: "crypto \<Rightarrow> tls_env \<Rightarrow> tls_call \<Rightarrow> vtls_stack \<Rightarrow> go_panic + (tls_output \<times> vtls_stack)" where
  "run_tls cr env call tls = (case LoadTestTlsConfigs cr of (clientConfig, serverConfig) \<Rightarrow> (case call of
     TlsAccept port \<Rightarrow> Inr (Started, handleTlsA cr (VTLSListen serverConfig (ev_listener env)) (ev_accepts env) tls)
   | TlsConnect addr port \<Rightarrow> Inr (Started, handleTlsC cr (ev_rand env) clientConfig (ev_dialled env) tls)
   | TlsSend sid msg \<Rightarrow> Inr (tls_send cr sid msg tls)
   | TlsReceive sid numBytes \<Rightarrow> handleTlsR cr sid numBytes tls
   | TlsSendFile srcFile addr port \<Rightarrow> Inr (Started, tls)
   | TlsRecvFile destFile port \<Rightarrow> Inr (Started, tls)
   | TlsList \<Rightarrow> Inr (Listed (handleTlsLS (ev_ord env) (ev_info env) tls), tls)
   | TlsClose sid \<Rightarrow> Inr (handleTlsCl (ev_closes env) sid tls)))"

section \<open>Only authenticated connections\<close>

definition authentic :: "crypto \<Rightarrow> vtls_conn \<Rightarrow> bool" where
  "authentic cr c \<longleftrightarrow> length (vt_readKey c) = 32 \<and> length (vt_writeKey c) = 32
     \<and> (\<exists>m. Verified (cc_ServerVerifyKey (fst (LoadTestTlsConfigs cr))) m \<in> set (history_of c)
          \<or> Verified (sc_UserVerifyKey (snd (LoadTestTlsConfigs cr))) m \<in> set (history_of c))"

definition tls_ok :: "crypto \<Rightarrow> vtls_stack \<Rightarrow> bool" where
  "tls_ok cr tls \<longleftrightarrow> 0 \<le> tls_nextID tls \<and>
     (\<forall>sid c. tlsConnMap tls sid = Some c \<longrightarrow> 0 \<le> sid \<and> sid < tls_nextID tls \<and> authentic cr c)"

lemma authentic_grows:
  "authentic cr c \<Longrightarrow> vt_readKey c' = vt_readKey c \<Longrightarrow> vt_writeKey c' = vt_writeKey c \<Longrightarrow>
     set (history_of c) \<subseteq> set (history_of c') \<Longrightarrow> authentic cr c'"
  unfolding authentic_def by auto

lemma VTLSWrite_readKey: "VTLSWrite cr p c = (r, c') \<Longrightarrow> vt_readKey c' = vt_readKey c"
  using write_record_history(2)
  by (auto simp: VTLSWrite_def on_tcp_def split: option.split_asm prod.split_asm tls_result.split_asm)

lemma VTLSRead_writeKey: "VTLSRead cr n c = (r, c') \<Longrightarrow> vt_writeKey c' = vt_writeKey c"
  by (auto simp: VTLSRead_def on_tcp_def Let_def split: prod.split_asm tls_result.split_asm if_split_asm)

lemma keys_from_length:
  assumes "crypto_ok cr" and "keys_from cr priv peer u v (k, k')" and "length u = 32" and "length v = 32"
  shows "length k = 32" "length k' = 32"
proof -
  obtain s where s: "ComputeSharedSecret cr priv peer = Some s" "DeriveWriteKeys cr s u v = Some (k, k')"
    using assms(2) by (auto simp: keys_from_def)
  then have "s \<noteq> []" using crypto_okD(4) [OF assms(1)] by (auto simp: ComputeSharedSecret_def split: if_split_asm)
  then show "length k = 32" "length k' = 32"
    using DeriveWriteKeys_ok [OF assms(1) _ assms(3,4)] s(2) by (metis option.inject prod.inject)+
qed

lemma authentic_new:
  assumes ok: "crypto_ok cr" and h: "vn_history c = []"
  shows "VTLSDial cr rand (fst (LoadTestTlsConfigs cr)) (Some c) = (TlsOk u, Some k) \<Longrightarrow> authentic cr k"
    and "VTLSAccept cr rand (Some c) (VTLSListen (snd (LoadTestTlsConfigs cr)) l) = (TlsOk u, Some k) \<Longrightarrow> authentic cr k"
proof -
  let ?cc = "fst (LoadTestTlsConfigs cr)" and ?sc = "snd (LoadTestTlsConfigs cr)"
  have h0: "history_of (new_vtls_conn c) = []" using h by (simp add: new_vtls_conn_def history_of_def)
  { assume "VTLSDial cr rand ?cc (Some c) = (TlsOk u, Some k)"
    then have x: "HandleUserKeyExchange cr rand (cc_UserSignKey ?cc) (cc_ServerVerifyKey ?cc) (new_vtls_conn c) = (TlsOk (), k)"
      by (auto simp: VTLSDial_def split: prod.split_asm tls_result.split_asm)
    obtain a where a: "rand = Some a" using x
      by (cases rand) (auto simp: HandleUserKeyExchange_def user_exchange_def GenerateDHPair_def tls_try_def tls_fail_def tls_bind_def)
    have "user_session cr (cc_UserSignKey ?cc) (cc_ServerVerifyKey ?cc) (a, new_vtls_conn c, TlsOk (), k)"
      using x h0 a by (simp add: user_session_def)
    from user_session_run [OF this] obtain X where "length X = 32"
      "history_of k = user_history cr a (cc_UserSignKey ?cc) (cc_ServerVerifyKey ?cc) X"
      "keys_from cr a X (cr_PublicKey cr a) X (vt_writeKey k, vt_readKey k)" by auto
    then show "authentic cr k" using keys_from_length [OF ok] crypto_okD(1) [OF ok]
      unfolding authentic_def user_history_def by fastforce }
  { assume "VTLSAccept cr rand (Some c) (VTLSListen ?sc l) = (TlsOk u, Some k)"
    then have x: "HandleServerKeyExchange cr rand (sc_ServerSignKey ?sc) (sc_UserVerifyKey ?sc) (new_vtls_conn c) = (TlsOk (), k)"
      by (auto simp: VTLSAccept_def VTLSListen_def split: prod.split_asm tls_result.split_asm)
    obtain b where b: "rand = Some b"
    proof (cases rand)
      case None
      have "fst (server_exchange cr None s v t) \<noteq> TlsOk q" for s v t q
        by (auto simp: server_exchange_def GenerateDHPair_def tls_try_def tls_fail_def tls_bind_def Let_def
          split: prod.splits tls_result.splits option.splits)
      then show thesis using x None by (auto simp: HandleServerKeyExchange_def split: prod.split_asm tls_result.split_asm)
        (metis fst_conv)
    qed
    have "server_session cr (sc_ServerSignKey ?sc) (sc_UserVerifyKey ?sc) (b, new_vtls_conn c, TlsOk (), k)"
      using x h0 b by (simp add: server_session_def)
    from server_session_run [OF this] obtain U where "length U = 32"
      "history_of k = server_history cr b (sc_ServerSignKey ?sc) (sc_UserVerifyKey ?sc) U"
      "keys_from cr b U U (cr_PublicKey cr b) (vt_readKey k, vt_writeKey k)" by auto
    then show "authentic cr k" using keys_from_length [OF ok] crypto_okD(1) [OF ok]
      unfolding authentic_def server_history_def by fastforce }
qed

lemma registerConn_ok:
  "tls_ok cr tls \<Longrightarrow> authentic cr k \<Longrightarrow> tls_ok cr (snd (registerConn k tls))"
  by (force simp: tls_ok_def registerConn_def split: if_split_asm)

lemma put_conn_ok:
  "tls_ok cr tls \<Longrightarrow> getConn sid tls = Some c \<Longrightarrow> authentic cr c' \<Longrightarrow> tls_ok cr (put_conn sid c' tls)"
  by (auto simp: tls_ok_def put_conn_def getConn_def)

definition fresh_peers :: "tls_env \<Rightarrow> bool" where
  "fresh_peers env \<longleftrightarrow> (\<forall>c. ev_dialled env = Some c \<longrightarrow> vn_history c = [])
     \<and> (\<forall>x \<in> set (ev_accepts env). \<forall>c. fst x = Some c \<longrightarrow> vn_history c = [])"

lemma tlsa_round_ok:
  assumes "crypto_ok cr" and "tls_ok cr tls" and "\<forall>c. fst x = Some c \<longrightarrow> vn_history c = []"
  shows "tls_ok cr (snd (tlsa_round cr (VTLSListen (snd (LoadTestTlsConfigs cr)) l) x tls))"
proof (cases "fst x")
  case None
  then show ?thesis using assms(2) by (auto simp: tlsa_round_def VTLSAccept_def split: prod.splits)
next
  case (Some c)
  obtain r k where v: "VTLSAccept cr (snd x) (Some c) (VTLSListen (snd (LoadTestTlsConfigs cr)) l) = (r, k)" by force
  have "tls_ok cr (snd (registerConn k' tls))" if "r = TlsOk u" "k = Some k'" for u k'
    using registerConn_ok [OF assms(2) authentic_new(2) [OF assms(1)]] v that assms(3) Some by blast
  then show ?thesis using v Some assms(2)
    by (cases x) (auto simp: tlsa_round_def split: tls_result.splits option.splits)
qed

lemma handleTlsA_ok:
  assumes "crypto_ok cr"
  shows "tls_ok cr tls \<Longrightarrow> \<forall>x \<in> set xs. \<forall>c. fst x = Some c \<longrightarrow> vn_history c = [] \<Longrightarrow>
    tls_ok cr (handleTlsA cr (VTLSListen (snd (LoadTestTlsConfigs cr)) l) xs tls)"
proof (induction xs arbitrary: tls)
  case (Cons x xs)
  obtain b tls' where r: "tlsa_round cr (VTLSListen (snd (LoadTestTlsConfigs cr)) l) x tls = (b, tls')" by force
  have "tls_ok cr tls'" using tlsa_round_ok [OF assms Cons.prems(1), of x l] Cons.prems(2) r by simp
  then show ?case using Cons.IH [of tls'] Cons.prems(2) r by (cases b) simp_all
qed simp

lemma handleTlsC_ok:
  assumes "crypto_ok cr" and "tls_ok cr tls" and "\<forall>c. dialled = Some c \<longrightarrow> vn_history c = []"
  shows "tls_ok cr (handleTlsC cr rand (fst (LoadTestTlsConfigs cr)) dialled tls)"
proof (cases dialled)
  case (Some c)
  obtain r k where v: "VTLSDial cr rand (fst (LoadTestTlsConfigs cr)) (Some c) = (r, k)" by force
  have "tls_ok cr (snd (registerConn k' tls))" if "r = TlsOk u" "k = Some k'" for u k'
    using registerConn_ok [OF assms(2) authentic_new(1) [OF assms(1)]] v that assms(3) Some by blast
  then show ?thesis using v Some assms(2)
    by (auto simp: handleTlsC_def split: tls_result.splits option.splits)
qed (use assms(2) in \<open>simp add: handleTlsC_def VTLSDial_def\<close>)

lemma tls_send_ok:
  assumes "tls_ok cr tls"
  shows "tls_ok cr (snd (tls_send cr sid msg tls))"
proof (cases "getConn sid tls")
  case (Some c)
  obtain r c' where w: "VTLSWrite cr msg c = (r, c')" by force
  have "authentic cr c" using assms Some by (auto simp: tls_ok_def getConn_def)
  then have "authentic cr c'" using VTLSWrite_run [OF w] VTLSWrite_readKey [OF w] by (auto intro: authentic_grows)
  then show ?thesis using put_conn_ok [OF assms Some] w by (simp add: tls_send_def Some split: tls_result.splits)
qed (use assms in \<open>simp add: tls_send_def\<close>)

lemma handleTlsR_ok:
  assumes "tls_ok cr tls" and "handleTlsR cr sid n tls = Inr (out, tls')"
  shows "tls_ok cr tls'"
proof (cases "getConn sid tls")
  case (Some c)
  obtain r c' where w: "VTLSRead cr (nat n) c = (r, c')" by force
  have "authentic cr c" using assms(1) Some by (auto simp: tls_ok_def getConn_def)
  then have "authentic cr c'" using VTLSRead_run [OF w] VTLSRead_writeKey [OF w] by (auto intro: authentic_grows)
  then show ?thesis using put_conn_ok [OF assms(1) Some, of c'] assms(2) w
    by (auto simp: handleTlsR_def Some split: tls_result.split_asm if_split_asm)
qed (use assms in \<open>simp add: handleTlsR_def\<close>)

lemma handleTlsCl_ok: "tls_ok cr tls \<Longrightarrow> tls_ok cr (snd (handleTlsCl closes sid tls))"
  by (auto simp: tls_ok_def handleTlsCl_def split: option.splits)

lemma run_tls_ok:
  assumes "crypto_ok cr" and "tls_ok cr tls" and "fresh_peers env" and "run_tls cr env call tls = Inr (out, tls')"
  shows "tls_ok cr tls'"
proof (cases call)
  case (TlsAccept port)
  have "\<forall>x \<in> set (ev_accepts env). \<forall>c. fst x = Some c \<longrightarrow> vn_history c = []" using assms(3) by (simp add: fresh_peers_def)
  from handleTlsA_ok [OF assms(1,2) this] show ?thesis using assms(4) TlsAccept by (auto simp: run_tls_def split: prod.split_asm)
next
  case (TlsConnect addr port)
  show ?thesis using handleTlsC_ok [OF assms(1,2), of "ev_dialled env" "ev_rand env"] assms(3,4) TlsConnect
    by (auto simp: run_tls_def fresh_peers_def split: prod.split_asm)
next
  case (TlsSend sid msg)
  then show ?thesis using tls_send_ok [OF assms(2), of sid msg] assms(4) by (auto simp: run_tls_def split: prod.split_asm)
next
  case (TlsReceive sid n)
  then show ?thesis using handleTlsR_ok [OF assms(2)] assms(4) by (auto simp: run_tls_def split: prod.split_asm)
next
  case (TlsClose sid)
  then show ?thesis using handleTlsCl_ok [OF assms(2), of "ev_closes env" sid] assms(4) by (auto simp: run_tls_def split: prod.split_asm)
qed (use assms(2,4) in \<open>auto simp: run_tls_def split: prod.split_asm\<close>)

text \<open>
  Everything that may happen to the table: typed commands, and further rounds of the accept loops of
  earlier ones. New connections come from TCP without any cryptography done on them.
\<close>

inductive tls_reach :: "crypto \<Rightarrow> vtls_stack \<Rightarrow> bool" for cr where
  start: "tls_reach cr InitVTLSStack"
| typed: "tls_reach cr tls \<Longrightarrow> HandleTlsReplCommands line = Some (Inr call) \<Longrightarrow> fresh_peers env \<Longrightarrow>
    run_tls cr env call tls = Inr (out, tls') \<Longrightarrow> tls_reach cr tls'"
| accepted: "tls_reach cr tls \<Longrightarrow> \<forall>c. accepted = Some c \<longrightarrow> vn_history c = [] \<Longrightarrow>
    tls_reach cr (snd (tlsa_round cr (VTLSListen (snd (LoadTestTlsConfigs cr)) l) (accepted, rand) tls))"

lemma tls_reach_ok:
  assumes "crypto_ok cr"
  shows "tls_reach cr tls \<Longrightarrow> tls_ok cr tls"
proof (induction rule: tls_reach.induct)
  case start
  show ?case by (simp add: tls_ok_def InitVTLSStack_def)
next
  case (typed tls line call env out tls')
  then show ?case using run_tls_ok [OF assms] by blast
next
  case (accepted tls acc l rand)
  then show ?case using tlsa_round_ok [OF assms, of tls "(acc, rand)" l] by simp
qed

text \<open>C32.
  Every connection that the TLS command line ever offers for \<open>tlss\<close> and \<open>tlsr\<close> has been
  authenticated: a signature of the configured peer key was verified on it and it holds two 32-byte
  keys, whatever peers, closed connections and failed exchanges there have been. And an ID is never
  given twice: the next one is not in use, and it only grows.
\<close>

theorem tls_table_authenticated:
  assumes "crypto_ok cr" and "tls_reach cr tls"
  shows "(\<forall>sid c. getConn sid tls = Some c \<longrightarrow> authentic cr c \<and> sid < tls_nextID tls)
    \<and> getConn (fst (registerConn k tls)) tls = None
    \<and> tls_nextID tls < tls_nextID (snd (registerConn k tls))"
proof -
  have ok: "tls_ok cr tls" by (rule tls_reach_ok [OF assms])
  then have "getConn (tls_nextID tls) tls = None"
    by (cases "getConn (tls_nextID tls) tls") (auto simp: tls_ok_def getConn_def)
  moreover have "\<forall>sid c. getConn sid tls = Some c \<longrightarrow> authentic cr c \<and> sid < tls_nextID tls"
    using ok by (simp add: tls_ok_def getConn_def)
  ultimately show ?thesis by (simp add: registerConn_def)
qed

definition sample_tls_env :: tls_env where
  "sample_tls_env = \<lparr>ev_dialled = Some (vt_tcpConn (fresh_vtls (second_message sample_crypto
       (sc_ServerSignKey (snd (LoadTestTlsConfigs sample_crypto))) [1] [2]))), ev_rand = Some [1], ev_accepts = [],
     ev_listener = 0, ev_closes = True, ev_ord = [], ev_info = (\<lambda>_. \<lparr>ci_SocketID = 0, ci_LocalIP = NoAddr,
       ci_LocalPort = 0, ci_RemoteIP = NoAddr, ci_RemotePort = 0, ci_State = ESTABLISHED\<rparr>)\<rparr>"

lemma tlsc_line:
  "Fields line = [''tlsc'', a, p] \<Longrightarrow>
     HandleTlsReplCommands line = Some (addr_arg a (\<lambda>addr. port_arg p (\<lambda>port. Inr (TlsConnect addr port))))"
  by (simp add: HandleTlsReplCommands_def tlsc_args_def Let_def)

lemma sample_tls_reach:
  obtains tls c where "tls_reach sample_crypto tls" and "getConn 0 tls = Some c"
proof -
  let ?cc = "fst (LoadTestTlsConfigs sample_crypto)" and ?sc = "snd (LoadTestTlsConfigs sample_crypto)"
  let ?i = "second_message sample_crypto (sc_ServerSignKey ?sc) [1] [2]"
  let ?call = "TlsConnect (ipv4_of 10 0 0 2) 443"
  let ?words = "[''tlsc'', show_addr (ipv4_of 10 0 0 2), decimal (unat (443 :: u16))]"
  have "word ''tlsc''" by code_simp
  then have fields: "Fields (unwords ?words) = ?words"
    by (intro Fields_unwords) (simp add: word_decimal word_show_addr ipv4_of_def del: show_addr.simps)
  have line: "HandleTlsReplCommands (unwords ?words) = Some (Inr ?call)"
    unfolding tlsc_line [OF fields] port_arg_decimal by (subst addr_arg_show) (simp_all add: ipv4_of_def)
  have k: "cc_ServerVerifyKey ?cc = cr_SignPublic sample_crypto (sc_ServerSignKey ?sc)"
    by (simp add: LoadTestTlsConfigs_def Let_def)
  obtain keys where "keys_from sample_crypto [1] (cr_PublicKey sample_crypto [2]) (cr_PublicKey sample_crypto [1])
      (cr_PublicKey sample_crypto [2]) keys" using sample_keys by blast
  from user_second [OF sample_crypto_ok _ _ this, of "vt_tcpConn (fresh_vtls ?i)" "sc_ServerSignKey ?sc" "[]" "cc_UserSignKey ?cc"]
  obtain t where "user_exchange sample_crypto (Some [1]) (cc_UserSignKey ?cc) (cc_ServerVerifyKey ?cc) (vt_tcpConn (fresh_vtls ?i))
      = (TlsOk keys, t)" by (auto simp: k)
  then obtain c where "VTLSDial sample_crypto (Some [1]) ?cc (Some (vt_tcpConn (fresh_vtls ?i))) = (TlsOk (), Some c)"
    by (cases keys) (auto simp: VTLSDial_def HandleUserKeyExchange_def new_vtls_conn_def)
  then have "run_tls sample_crypto sample_tls_env ?call InitVTLSStack = Inr (Started, snd (registerConn c InitVTLSStack))"
    by (simp add: run_tls_def handleTlsC_def sample_tls_env_def case_prod_beta)
  from tls_reach.typed [OF tls_reach.start line _ this]
  have "tls_reach sample_crypto (snd (registerConn c InitVTLSStack))"
    by (simp add: fresh_peers_def sample_tls_env_def)
  then show thesis by (rule that) (simp add: getConn_def registerConn_def InitVTLSStack_def)
qed

theorem tls_table_authenticated_witness:
  "\<exists>tls c. tls_reach sample_crypto tls \<and> getConn 0 tls = Some c \<and> authentic sample_crypto c"
proof -
  obtain tls c where t: "tls_reach sample_crypto tls" "getConn 0 tls = Some c" by (rule sample_tls_reach)
  then show ?thesis using tls_table_authenticated [OF sample_crypto_ok t(1)] by blast
qed

section \<open>A bad client ends the listener\<close>

text \<open>The loop of \<open>tlsa\<close> returns on the first failed key exchange: one client whose first byte is no message
  type makes the server accept no TLS connection any more, whoever connects later.
\<close>

theorem one_bad_client_stops_tlsa:
  assumes "vn_in c = b # rest" and "b \<notin> {1, 2, 3}"
  shows "handleTlsA cr l ((Some c, rand) # later) tls = tls"
proof -
  obtain c1 where r: "ReadFull 1 c = (TlsOk [b], c1)" using ReadFull_ok [of 1 c] assms(1) by auto
  have "ReadSerializedMessage c = (TlsErr ErrUnknownType, c1)" using assms(2) r
    by (simp add: ReadSerializedMessage_def tls_bind_def message_types Let_def tls_try_def tls_fail_def del: One_nat_def)
  then have "\<exists>d. VTLSAccept cr rand (Some c) l = (TlsErr ErrUnknownType, Some d)"
    by (simp add: VTLSAccept_def HandleServerKeyExchange_def server_exchange_def tls_bind_def new_vtls_conn_def)
  then show ?thesis by (auto simp: tlsa_round_def)
qed

theorem one_bad_client_stops_tlsa_witness:
  "handleTlsA sample_crypto (VTLSListen (snd (LoadTestTlsConfigs sample_crypto)) 0)
     [(Some (vt_tcpConn (fresh_vtls [22])), Some [2]), (Some (vt_tcpConn (fresh_vtls (first_message sample_crypto [1]))), Some [3])]
     InitVTLSStack = InitVTLSStack"
  by (rule one_bad_client_stops_tlsa [of _ 22 "[]"], simp, code_simp)

section \<open>From one command line to the other\<close>

text \<open>C33.
  A message typed after \<open>tlss\<close>, with any spacing between its words, is what \<open>tlsr\<close> prints on the other
  side when the record arrives there unchanged: its words with single blanks, up to the number of bytes
  asked for; the rest stays for the next \<open>tlsr\<close>.
\<close>

theorem typed_message_arrives:
  assumes "crypto_ok cr" and "Fields line = ''tlss'' # decimal (nat i) # ws" and "ws \<noteq> []" and "id_ok i"
    and "getConn i tls = Some c" and "aes_key_ok (vt_writeKey c)" and "vn_writes (vt_tcpConn c) = []"
    and "length (unwords ws) + 16 < 2 ^ 32"
  shows "\<exists>tls1 c1 b. HandleTlsReplCommands line = Some (Inr (TlsSend i (ascii (unwords ws))))
    \<and> run_tls cr env (TlsSend i (ascii (unwords ws))) tls = Inr (Sent (length (unwords ws)), tls1)
    \<and> getConn i tls1 = Some c1 \<and> vn_out (vt_tcpConn c1) = vn_out (vt_tcpConn c) @ b
    \<and> (\<forall>j tls' d rest n. getConn j tls' = Some d \<and> vt_readKey d = vt_writeKey c \<and> vt_readSeq d = vt_writeSeq c
        \<and> vt_readBuf d = [] \<and> vn_in (vt_tcpConn d) = b @ rest \<longrightarrow>
        (\<exists>tls2 d2. run_tls cr env (TlsReceive j (int n)) tls' = Inr (ReadBytes (take n (ascii (unwords ws))), tls2)
          \<and> getConn j tls2 = Some d2 \<and> vt_readBuf d2 = drop n (ascii (unwords ws))))"
proof -
  let ?m = "ascii (unwords ws)"
  have l: "length ?m = length (unwords ws)" by (simp add: ascii_def)
  have line: "HandleTlsReplCommands line = Some (Inr (TlsSend i ?m))"
    using tlss_msg_left [OF assms(2,3)] assms(2-4)
    by (cases ws) (simp_all add: HandleTlsReplCommands_def handleTlsS_def Let_def int_arg_decimal)
  obtain c1 where w: "VTLSWrite cr ?m c = (TlsOk (length ?m), c1)"
    and out: "vn_out (vt_tcpConn c1) = vn_out (vt_tcpConn c) @ record_bytes cr (vt_writeKey c) (vt_writeSeq c) ?m"
    using VTLSWrite_ok [OF assms(1,6,7)] by metis
  have send: "run_tls cr env (TlsSend i ?m) tls = Inr (Sent (length (unwords ws)), put_conn i c1 tls)"
    using w assms(5) by (simp add: run_tls_def tls_send_def l split: prod.split)
  have receive: "\<exists>tls2 d2. run_tls cr env (TlsReceive j (int n)) tls' = Inr (ReadBytes (take n ?m), tls2)
      \<and> getConn j tls2 = Some d2 \<and> vt_readBuf d2 = drop n ?m"
    if d: "getConn j tls' = Some d" "vt_readKey d = vt_writeKey c" "vt_readSeq d = vt_writeSeq c" "vt_readBuf d = []"
      "vn_in (vt_tcpConn d) = record_bytes cr (vt_writeKey c) (vt_writeSeq c) ?m @ rest" for j tls' d rest n
  proof -
    have "aes_key_ok (vt_readKey d)" "length ?m + 16 < 2 ^ 32" using assms(6,8) d(2) l by simp_all
    then obtain t where "read_record cr d (vt_tcpConn d) = (TlsOk ?m, t)"
      using read_record_ok [OF assms(1), of d ?m "vt_tcpConn d" rest] d by auto
    then have "\<exists>d2. VTLSRead cr n d = (TlsOk (take n ?m), d2) \<and> vt_readBuf d2 = drop n ?m"
      using d(4) by (simp add: VTLSRead_def on_tcp_def Let_def min_def)
    then show ?thesis using d(1) by (auto simp: run_tls_def handleTlsR_def getConn_def put_conn_def split: prod.split)
  qed
  show ?thesis using line send out receive
    by (intro exI [of _ "put_conn i c1 tls"] exI [of _ c1] exI conjI) (auto simp: getConn_def put_conn_def)
qed

theorem typed_message_arrives_witness:
  "\<exists>tls1 c1 b. run_tls sample_crypto sample_tls_env (TlsSend 0 (ascii ''hi all''))
       (snd (registerConn sample_writer InitVTLSStack)) = Inr (Sent 6, tls1) \<and> getConn 0 tls1 = Some c1
     \<and> vn_out (vt_tcpConn c1) = b
     \<and> (\<exists>tls2 d2. run_tls sample_crypto sample_tls_env (TlsReceive 0 (int 4))
          (snd (registerConn (sample_reader b) InitVTLSStack)) = Inr (ReadBytes (ascii ''hi a''), tls2)
        \<and> getConn 0 tls2 = Some d2 \<and> vt_readBuf d2 = ascii ''ll'')"
proof -
  have line: "Fields ''tlss  0 hi   all '' = ''tlss'' # decimal (nat 0) # [''hi'', ''all'']" by code_simp
  have reg: "getConn 0 (snd (registerConn k InitVTLSStack)) = Some k" for k
    by (simp add: getConn_def registerConn_def InitVTLSStack_def)
  have ok: "id_ok 0" by (simp add: id_ok_def)
  have msg: "unwords [''hi'', ''all''] = ''hi all''" by simp
  from typed_message_arrives [OF sample_crypto_ok line _ ok reg, of sample_writer sample_tls_env, unfolded msg]
  obtain tls1 c1 b where r: "run_tls sample_crypto sample_tls_env (TlsSend 0 (ascii ''hi all''))
       (snd (registerConn sample_writer InitVTLSStack)) = Inr (Sent 6, tls1)" "getConn 0 tls1 = Some c1" "vn_out (vt_tcpConn c1) = b"
    and d: "\<forall>j tls' d rest n. getConn j tls' = Some d \<and> vt_readKey d = sample_key \<and> vt_readSeq d = 0
        \<and> vt_readBuf d = [] \<and> vn_in (vt_tcpConn d) = b @ rest \<longrightarrow>
        (\<exists>tls2 d2. run_tls sample_crypto sample_tls_env (TlsReceive j (int n)) tls' = Inr (ReadBytes (take n (ascii ''hi all'')), tls2)
          \<and> getConn j tls2 = Some d2 \<and> vt_readBuf d2 = drop n (ascii ''hi all''))"
    by auto
  have "take 4 (ascii ''hi all'') = ascii ''hi a''" "drop 4 (ascii ''hi all'') = ascii ''ll''" by (simp_all add: ascii_def)
  moreover have "getConn 0 (snd (registerConn (sample_reader b) InitVTLSStack)) = Some (sample_reader b)
     \<and> vt_readKey (sample_reader b) = sample_key \<and> vt_readSeq (sample_reader b) = 0
     \<and> vt_readBuf (sample_reader b) = [] \<and> vn_in (vt_tcpConn (sample_reader b)) = b @ []" by (simp add: reg)
  from d [rule_format, OF this, of 4] have "\<exists>tls2 d2. run_tls sample_crypto sample_tls_env (TlsReceive 0 (int 4))
        (snd (registerConn (sample_reader b) InitVTLSStack)) = Inr (ReadBytes (take 4 (ascii ''hi all'')), tls2)
      \<and> getConn 0 tls2 = Some d2 \<and> vt_readBuf d2 = drop 4 (ascii ''hi all'')" .
  ultimately show ?thesis using r by metis
qed

end
