(* ===== verification/ByteSource.thy ===== *)
theory ByteSource
  imports TlsRecord
begin

text \<open>
  Programs that read from a connection, among them \<open>ReadFull\<close>, the reading of records and \<open>VTLSRead\<close> of
  \<open>src/pkg/tlsStack/doTls.go\<close> and \<open>tlsApi.go\<close>, apart from the connection they run on. The locale
  \<open>served_stream\<close> states what such a program relies on, and its main lemma says that on any source it does
  what it does on the connection of the TLS stack (\<open>vconn\<close>).
\<close>

section \<open>Programs that read\<close>

text \<open>
  A program that reads from a connection: it returns, or calls \<open>VRead\<close> with a buffer of the given size
  and goes on with the bytes (or with what ended the reading), or notes a use of a primitive.
\<close>

datatype 'a client =
    Returns 'a
  | Asks nat "read_end + bytes \<Rightarrow> 'a client"
  | Notes crypto_event "'a client"

primrec cbind :: "'a client \<Rightarrow> ('a \<Rightarrow> 'b client) \<Rightarrow> 'b client" where
  "cbind (Returns x) f = f x"
| "cbind (Asks len k) f = Asks len (\<lambda>x. cbind (k x) f)"
| "cbind (Notes ev p) f = Notes ev (cbind p f)"

text \<open>What a program sees of a call of \<open>VRead\<close>.\<close>

fun seen :: "vread_result \<Rightarrow> read_end + bytes" where
  "seen ReadClosing = Inl EndClosing"
| "seen ReadEOF = Inl EndEOF"
| "seen ReadParked = Inl EndParked"
| "seen (ReadOk d n) = Inr (take n d)"

text \<open>Runs a program on a connection with the given \<open>VRead\<close>.\<close>

primrec run_client :: "(nat \<Rightarrow> 's \<Rightarrow> go_panic + (vread_result \<times> 's)) \<Rightarrow> (crypto_event \<Rightarrow> 's \<Rightarrow> 's) \<Rightarrow> 'a client
    \<Rightarrow> 's \<Rightarrow> go_panic + ('a \<times> 's)" where
  "run_client vread note (Returns x) s = Inr (x, s)"
| "run_client vread note (Asks len k) s =
     go_bind (vread len s) (\<lambda>y. run_client vread note (k (seen (fst y))) (snd y))"
| "run_client vread note (Notes ev p) s = run_client vread note p (note ev s)"

lemma run_cbind: "run_client vread note (cbind p f) s =
    go_bind (run_client vread note p s) (\<lambda>(x, s'). run_client vread note (f x) s')"
proof (induction p arbitrary: s)
  case (Asks len k)
  then show ?case by (simp add: go_bind_assoc cong: go_bind_cong)
qed simp_all

text \<open>
  A proper program reads into buffers that are not empty and fit an \<open>int\<close>, and returns, with a result in
  \<open>Q\<close>, when it gets no bytes.
\<close>

primrec proper :: "('a \<Rightarrow> bool) \<Rightarrow> 'a client \<Rightarrow> bool" where
  "proper Q (Returns x) \<longleftrightarrow> True"
| "proper Q (Asks len k) \<longleftrightarrow> 0 < len \<and> len < 4294967296 \<and> (\<forall>d. proper Q (k (Inr d)))
     \<and> (\<forall>en. \<exists>x. k (Inl en) = Returns x \<and> Q x)"
| "proper Q (Notes ev p) \<longleftrightarrow> proper Q p"

lemma proper_cbind:
  assumes "proper P p" and "\<And>x. P x \<Longrightarrow> \<exists>y. f x = Returns y \<and> Q y" and "\<And>x. proper Q (f x)"
  shows "proper Q (cbind p f)"
  using assms(1)
proof (induction p)
  case (Asks len k)
  have "\<exists>y. cbind (k (Inl en)) f = Returns y \<and> Q y" for en
  proof -
    obtain x where "k (Inl en) = Returns x" "P x" using Asks.prems by auto
    then show ?thesis using assms(2) by simp
  qed
  then show ?case using Asks by simp
qed (use assms(3) in simp_all)

section \<open>The TLS code as such programs\<close>

definition tls_then :: "'a tls_result client \<Rightarrow> ('a \<Rightarrow> 'b tls_result client) \<Rightarrow> 'b tls_result client" where
  "tls_then p f = cbind p (\<lambda>r. case r of
     TlsOk x \<Rightarrow> f x | TlsErr e \<Rightarrow> Returns (TlsErr e) | TlsWaits \<Rightarrow> Returns TlsWaits)"

function ReadFull_client :: "nat \<Rightarrow> bytes \<Rightarrow> bytes tls_result client" where
  "ReadFull_client len buf =
     (if length buf < len then
        Asks (len - length buf) (\<lambda>x. case x of
           Inl en \<Rightarrow> Returns (end_outcome en)
         | Inr d \<Rightarrow> if d = [] then Returns (TlsErr ErrUnexpectedEOF) else ReadFull_client len (buf @ d))
      else Returns (TlsOk buf))"
  by pat_completeness auto

termination
  by (relation "measure (\<lambda>(len, buf). len - length buf)") (auto simp flip: length_greater_0_conv)

declare ReadFull_client.simps [simp del]

definition read_record_client :: "crypto \<Rightarrow> vtls_conn \<Rightarrow> bytes tls_result client" where
  "read_record_client cr c =
     tls_then (ReadFull_client 4 []) (\<lambda>lenBuf.
     let recordLen = word32 (lenBuf ! 0) (lenBuf ! 1) (lenBuf ! 2) (lenBuf ! 3) in
     if recordLen < of_nat AESGCMTagLen then Returns (TlsErr ErrRecordTooShort) else
     tls_then (ReadFull_client (unat recordLen) []) (\<lambda>sealedData.
     case OpenData cr sealedData c of
       None \<Rightarrow> Returns (TlsErr ErrOpen)
     | Some plaintext \<Rightarrow>
         Notes (Opened (vt_readKey c) (getNonce (vt_readSeq c)) plaintext) (Returns (TlsOk plaintext))))"

text \<open>The fields of the TLS connection that are not the TCP connection are part of the result.\<close>

definition VTLSRead_client :: "crypto \<Rightarrow> nat \<Rightarrow> vtls_conn \<Rightarrow> (bytes tls_result \<times> vtls_conn) client" where
  "VTLSRead_client cr len c =
     (if 0 < length (vt_readBuf c) then
        let n = min len (length (vt_readBuf c)) in
        Returns (TlsOk (take n (vt_readBuf c)), c\<lparr>vt_readBuf := drop n (vt_readBuf c)\<rparr>)
      else
        cbind (read_record_client cr c) (\<lambda>r. case r of
           TlsErr e \<Rightarrow> Returns (TlsErr e, c)
         | TlsWaits \<Rightarrow> Returns (TlsWaits, c)
         | TlsOk plaintext \<Rightarrow>
             let n = min len (length plaintext) in
             Returns (TlsOk (take n plaintext), c\<lparr>vt_readSeq := vt_readSeq c + 1, vt_readBuf := drop n plaintext\<rparr>)))"

fun read_all_client :: "crypto \<Rightarrow> nat list \<Rightarrow> vtls_conn \<Rightarrow> (bytes list \<times> vtls_conn) client" where
  "read_all_client cr [] c = Returns ([], c)"
| "read_all_client cr (len # lens) c = cbind (VTLSRead_client cr len c) (\<lambda>(r, c'). case r of
     TlsOk d \<Rightarrow> cbind (read_all_client cr lens c') (\<lambda>(ds, c''). Returns (d # ds, c''))
   | _ \<Rightarrow> Returns ([], c'))"

subsection \<open>They are the code of the TLS stack\<close>

text \<open>On the connection of the TLS stack the programs do what the operations do.\<close>

definition note_vconn :: "crypto_event \<Rightarrow> vconn \<Rightarrow> vconn" where
  "note_vconn ev c = c\<lparr>vn_history := vn_history c @ [ev]\<rparr>"

abbreviation run_vconn :: "'a client \<Rightarrow> vconn \<Rightarrow> go_panic + ('a \<times> vconn)" where
  "run_vconn \<equiv> run_client (\<lambda>len c. Inr (conn_VRead len c)) note_vconn"

definition implements :: "'a tls_result client \<Rightarrow> 'a tls \<Rightarrow> bool" where
  "implements p m \<longleftrightarrow> (\<forall>c. run_vconn p c = Inr (m c))"

lemma implementsD: "implements p m \<Longrightarrow> run_vconn p c = Inr (m c)"
  by (simp add: implements_def)

lemma implements_then:
  assumes "implements p m" and "\<And>x. implements (q x) (f x)"
  shows "implements (tls_then p q) (tls_bind m f)"
  unfolding implements_def
proof
  fix c
  obtain r c' where "m c = (r, c')" by force
  then show "run_vconn (tls_then p q) c = Inr (tls_bind m f c)"
    by (cases r) (simp_all add: tls_then_def run_cbind tls_bind_def implementsD [OF assms(1)] implementsD [OF assms(2)])
qed

lemma implements_ReadFull_loop: "implements (ReadFull_client len buf) (ReadFull_loop len buf)"
  unfolding implements_def
proof
  fix c
  show "run_vconn (ReadFull_client len buf) c = Inr (ReadFull_loop len buf c)"
  proof (induction len buf c rule: ReadFull_loop.induct)
    case (1 len buf c)
    show ?case
    proof (cases "length buf < len")
      case lt: True
      obtain r c' where r: "conn_VRead (len - length buf) c = (r, c')" by force
      note unfold = ReadFull_client.simps [of len buf] ReadFull_loop.simps [of len buf c]
      show ?thesis
      proof (cases r)
        case (ReadOk d n)
        note r' = r [unfolded ReadOk]
        note t = conn_VRead_took [OF r']
        have n: "0 < n" using t(4) lt by simp
        have "length d = n" using t(2,3) by simp
        have ne: "take n d \<noteq> []" using n \<open>length d = n\<close> by auto
        have "run_vconn (ReadFull_client len (buf @ take n d)) c' = Inr (ReadFull_loop len (buf @ take n d) c')"
          by (rule 1 [OF lt r [symmetric] ReadOk]) (use n in simp)
        then show ?thesis unfolding unfold using lt r' n ne by simp
      qed (unfold unfold, use lt r in simp_all)
    next
      case False
      then show ?thesis by (simp add: ReadFull_client.simps [of len buf] ReadFull_loop.simps [of len buf c])
    qed
  qed
qed

lemma implements_ReadFull: "implements (ReadFull_client len []) (ReadFull len)"
  using implements_ReadFull_loop by (simp add: ReadFull_def)

lemma implements_read_record: "implements (read_record_client cr c) (read_record cr c)"
  unfolding read_record_client_def read_record_def Let_def
proof (rule implements_then [OF implements_ReadFull])
  fix lenBuf
  let ?n = "word32 (lenBuf ! 0) (lenBuf ! 1) (lenBuf ! 2) (lenBuf ! 3)"
  let ?f = "\<lambda>s. tls_bind (tls_try ErrOpen (OpenData cr s c))
    (\<lambda>p. tls_bind (tls_note (Opened (vt_readKey c) (getNonce (vt_readSeq c)) p)) (\<lambda>_. tls_return p))"
  let ?q = "\<lambda>s. case OpenData cr s c of None \<Rightarrow> Returns (TlsErr ErrOpen)
    | Some p \<Rightarrow> Notes (Opened (vt_readKey c) (getNonce (vt_readSeq c)) p) (Returns (TlsOk p))"
  have "implements (?q s) (?f s)" for s
    by (cases "OpenData cr s c") (simp_all add: implements_def tls_bind_def tls_note_def note_vconn_def)
  then have "implements (tls_then (ReadFull_client (unat ?n) []) ?q) (tls_bind (ReadFull (unat ?n)) ?f)"
    by (rule implements_then [OF implements_ReadFull])
  then show "implements (if ?n < of_nat AESGCMTagLen then Returns (TlsErr ErrRecordTooShort)
      else tls_then (ReadFull_client (unat ?n) []) ?q)
    (tls_bind (tls_check (\<not> ?n < of_nat AESGCMTagLen) ErrRecordTooShort) (\<lambda>_. tls_bind (ReadFull (unat ?n)) ?f))"
    by (simp add: implements_def tls_bind_def [of "tls_check _ _"])
qed

text \<open>The connection that the program carries along takes the TCP connection of the run.\<close>

lemma OpenData_tcpConn [simp]: "OpenData cr s (c\<lparr>vt_tcpConn := t\<rparr>) = OpenData cr s c"
  by (simp add: OpenData_def)

lemma read_record_tcpConn [simp]: "read_record cr (c\<lparr>vt_tcpConn := t\<rparr>) = read_record cr c"
  by (simp add: read_record_def)

lemma VTLSRead_client_runs:
  obtains r c' t' where "run_vconn (VTLSRead_client cr len c) t = Inr ((r, c'), t')"
    and "VTLSRead cr len (c\<lparr>vt_tcpConn := t\<rparr>) = (r, c'\<lparr>vt_tcpConn := t'\<rparr>)"
proof (cases "vt_readBuf c = []")
  case False
  then show thesis using that by (simp add: VTLSRead_client_def VTLSRead_def Let_def)
next
  case True
  obtain r t' where m: "read_record cr c t = (r, t')" by force
  then have "run_vconn (read_record_client cr c) t = Inr (r, t')"
    using implementsD [OF implements_read_record] by simp
  then show thesis using that True m
    by (cases r) (simp_all add: VTLSRead_client_def VTLSRead_def on_tcp_def run_cbind Let_def)
qed

lemma read_all_client_runs:
  "\<exists>ds c' t'. run_vconn (read_all_client cr lens c) t = Inr ((ds, c'), t')
     \<and> read_all cr lens (c\<lparr>vt_tcpConn := t\<rparr>) = (ds, c'\<lparr>vt_tcpConn := t'\<rparr>)"
proof (induction lens arbitrary: c t)
  case (Cons len lens)
  obtain r c1 t1 where r: "run_vconn (VTLSRead_client cr len c) t = Inr ((r, c1), t1)"
    "VTLSRead cr len (c\<lparr>vt_tcpConn := t\<rparr>) = (r, c1\<lparr>vt_tcpConn := t1\<rparr>)"
    by (rule VTLSRead_client_runs)
  obtain ds c2 t2 where "run_vconn (read_all_client cr lens c1) t1 = Inr ((ds, c2), t2)"
    "read_all cr lens (c1\<lparr>vt_tcpConn := t1\<rparr>) = (ds, c2\<lparr>vt_tcpConn := t2\<rparr>)"
    using Cons.IH by blast
  then show ?case using r by (cases r) (simp_all add: run_cbind)
qed simp

subsection \<open>They are proper\<close>

definition not_ok :: "'a tls_result \<Rightarrow> bool" where
  "not_ok r \<longleftrightarrow> (\<forall>x. r \<noteq> TlsOk x)"

lemma not_ok_simps [simp]: "\<not> not_ok (TlsOk x)" "not_ok (TlsErr e)" "not_ok TlsWaits"
  by (simp_all add: not_ok_def)

lemma not_ok_end [simp]: "not_ok (end_outcome en)"
  by (simp add: not_ok_def)

lemma proper_then: "proper not_ok p \<Longrightarrow> (\<And>x. proper not_ok (f x)) \<Longrightarrow> proper not_ok (tls_then p f)"
  unfolding tls_then_def by (rule proper_cbind [where P = not_ok]) (auto split: tls_result.split)

lemma proper_ReadFull: "len < 4294967296 \<Longrightarrow> proper not_ok (ReadFull_client len buf)"
proof (induction len buf rule: ReadFull_client.induct)
  case (1 len buf)
  show ?case
  proof (cases "length buf < len")
    case True
    then have "proper not_ok (ReadFull_client len (buf @ d))" if "d \<noteq> []" for d
      using 1 that by blast
    then show ?thesis using True 1(2) by (simp add: ReadFull_client.simps [of len buf])
  qed (simp add: ReadFull_client.simps [of len buf])
qed

lemma proper_read_record: "proper not_ok (read_record_client cr c)"
proof -
  have "unat (w :: u32) < 4294967296" for w using unsigned_less [of w] by simp
  then show ?thesis unfolding read_record_client_def Let_def
    by (intro proper_then proper_ReadFull) (auto intro!: proper_then proper_ReadFull split: option.split)
qed

lemma proper_VTLSRead: "proper (\<lambda>(r, c'). not_ok r) (VTLSRead_client cr len c)"
  unfolding VTLSRead_client_def Let_def
  by (auto intro!: proper_cbind [OF proper_read_record] split: tls_result.split)

lemma proper_read_all: "proper (\<lambda>_. True) (read_all_client cr lens c)"
proof (induction lens arbitrary: c)
  case (Cons len lens)
  have "proper (\<lambda>_. True) (cbind (read_all_client cr lens c') (\<lambda>(ds, c''). Returns (d # ds, c'')))" for c' d
    by (rule proper_cbind [OF Cons.IH]) (auto split: prod.split)
  then show ?case
    by (auto intro!: proper_cbind [OF proper_VTLSRead] split: tls_result.split prod.split)
qed simp

section \<open>Sources of bytes\<close>

text \<open>
  What a call of \<open>VRead\<close> may give of a stream \<open>S\<close> that has been read up to \<open>r\<close>: the next bytes, at least
  one of them, or no bytes, and the end of the stream only at its end.
\<close>

definition serves :: "bytes \<Rightarrow> nat \<Rightarrow> nat \<Rightarrow> nat \<Rightarrow> vread_result \<Rightarrow> bool" where
  "serves S len r r' res = (case res of
     ReadOk d n \<Rightarrow> 0 < n \<and> n \<le> len \<and> r' = r + n \<and> r' \<le> length S \<and> take n d = take n (drop r S)
   | ReadEOF \<Rightarrow> r' = r \<and> r = length S
   | _ \<Rightarrow> r' = r)"

locale served_stream =
  fixes S :: bytes
    and vread :: "nat \<Rightarrow> 's \<Rightarrow> go_panic + (vread_result \<times> 's)"
    and noting :: "crypto_event \<Rightarrow> 's \<Rightarrow> 's"
    and pos :: "nat \<Rightarrow> 's \<Rightarrow> bool"
    and events :: "'s \<Rightarrow> crypto_event list"
  assumes vread_serves: "pos r s \<Longrightarrow> 0 < len \<Longrightarrow> len < 4294967296 \<Longrightarrow>
      \<exists>res s' r'. vread len s = Inr (res, s') \<and> pos r' s' \<and> serves S len r r' res \<and> events s' = events s"
    and pos_length: "pos r s \<Longrightarrow> r \<le> length S"
    and pos_noting: "pos r s \<Longrightarrow> pos r (noting ev s)"
    and events_noting: "events (noting ev s) = events s @ [ev]"
begin

text \<open>
  A run on the source is a run on the connection of the TLS stack that holds the bytes which the program
  took, in the pieces in which it got them. When the program ended for lack of bytes (\<open>stopped\<close>) the
  connection holds no more of them; otherwise it may hold any others after them.
\<close>

definition same_run :: "'a client \<Rightarrow> nat \<Rightarrow> 's \<Rightarrow> 'a \<Rightarrow> nat \<Rightarrow> 's \<Rightarrow> read_end \<Rightarrow> nat list \<Rightarrow> bool \<Rightarrow> bool" where
  "same_run p r s x r' s' en fs stopped \<longleftrightarrow> pos r' s' \<and> r \<le> r' \<and> (en = EndEOF \<longrightarrow> r' = length S)
     \<and> (\<forall>c z. vn_history c = events s \<and> (stopped \<longrightarrow> z = []) \<longrightarrow>
         run_vconn p (c\<lparr>vn_in := take (r' - r) (drop r S) @ z, vn_in_end := en, vn_found := fs\<rparr>)
           = Inr (x, c\<lparr>vn_in := z, vn_in_end := en, vn_found := [], vn_history := events s'\<rparr>))"

text \<open>A call that returned no bytes, at the end of a run.\<close>

definition last_call :: "nat \<Rightarrow> read_end \<Rightarrow> 's \<Rightarrow> bool" where
  "last_call r en s' \<longleftrightarrow> (\<exists>s len. pos r s \<and> 0 < len \<and> len < 4294967296 \<and> vread len s = Inr (read_end_result en, s'))"

lemma same_run_ends:
  assumes "pos r s" and "en = EndEOF \<longrightarrow> r = length S" and "events s = events s0"
    and "\<And>c z. stopped \<longrightarrow> z = [] \<Longrightarrow> run_vconn p (c\<lparr>vn_in := z, vn_in_end := en, vn_found := []\<rparr>)
      = Inr (x, c\<lparr>vn_in := z, vn_in_end := en, vn_found := []\<rparr>)"
  shows "same_run p r s0 x r s en [] stopped"
proof -
  have "c\<lparr>vn_in := z, vn_in_end := en, vn_found := [], vn_history := events s0\<rparr> = c\<lparr>vn_in := z, vn_in_end := en, vn_found := []\<rparr>"
    if "vn_history c = events s0" for c :: vconn and z using that by (cases c) simp
  then show ?thesis using assms by (simp add: same_run_def)
qed

lemma same_run_notes:
  assumes "same_run p r (noting ev s) x r' s' en fs stopped"
  shows "same_run (Notes ev p) r s x r' s' en fs stopped"
proof -
  have "run_vconn (Notes ev p) (c\<lparr>vn_in := i, vn_in_end := en, vn_found := fs\<rparr>)
      = run_vconn p ((c\<lparr>vn_history := vn_history c @ [ev]\<rparr>)\<lparr>vn_in := i, vn_in_end := en, vn_found := fs\<rparr>)" for c i
    by (cases c) (simp add: note_vconn_def)
  then show ?thesis using assms by (simp add: same_run_def events_noting)
qed

lemma same_run_reads:
  assumes res: "serves S len r r1 (ReadOk d n)" and ev: "events s1 = events s"
    and run: "same_run (k (Inr (take n d))) r1 s1 x r' s' en fs stopped"
  shows "same_run (Asks len k) r s x r' s' en ((n - 1) # fs) stopped"
proof -
  have n: "0 < n" "n \<le> len" "r1 = r + n" "r + n \<le> length S" "take n d = take n (drop r S)"
    using res by (auto simp: serves_def)
  have r': "pos r' s'" "r + n \<le> r'" "r' \<le> length S" using run n(3) pos_length by (auto simp: same_run_def)
  let ?i = "take (r' - r) (drop r S)" and ?j = "take (r' - r1) (drop r1 S)"
  have i: "length ?i = r' - r" "n \<le> r' - r" "take n ?i = take n (drop r S)" "drop n ?i = ?j"
    using n r' by (auto simp: min_def drop_take add.commute)
  have z: "?i @ z \<noteq> []" "take n (?i @ z) = take n (drop r S)" "drop n (?i @ z) = ?j @ z" "n \<le> length (?i @ z)" for z
    using i n(1) by (auto simp del: length_take take_take length_drop simp: take_append drop_append)
  have "conn_VRead len (c\<lparr>vn_in := ?i @ z, vn_in_end := en, vn_found := (n - 1) # fs\<rparr>)
      = (ReadOk (take n d) n, c\<lparr>vn_in := ?j @ z, vn_in_end := en, vn_found := fs\<rparr>)" for c z
    using z [of z] n(1,2) by (simp add: conn_VRead_def n(5) del: append_is_Nil_conv length_append take_append drop_append)
  moreover have "take n (take n d) = take n d" by simp
  ultimately show ?thesis using run ev n r' by (simp add: same_run_def del: take_take)
qed

lemma run_same:
  "pos r s \<Longrightarrow> proper Q p \<Longrightarrow>
   \<exists>x r' s' en fs stopped. run_client vread noting p s = Inr (x, s') \<and> same_run p r s x r' s' en fs stopped
     \<and> (stopped \<longrightarrow> last_call r' en s')"
proof (induction p arbitrary: r s)
  case (Returns x)
  have "same_run (Returns x) r s x r s EndParked [] False" using Returns by (intro same_run_ends) simp_all
  then show ?case by fastforce
next
  case (Notes ev p)
  then obtain x r' s' en fs stopped where "run_client vread noting p (noting ev s) = Inr (x, s')"
    "same_run p r (noting ev s) x r' s' en fs stopped" "stopped \<longrightarrow> last_call r' en s'"
    using Notes.IH [OF pos_noting [OF Notes.prems(1)]] by fastforce
  moreover have "same_run (Notes ev p) r s x r' s' en fs stopped" by (rule same_run_notes) fact
  moreover have "run_client vread noting (Notes ev p) s = run_client vread noting p (noting ev s)" by simp
  ultimately show ?case by metis
next
  case (Asks len k)
  then obtain res s1 r1 where read: "vread len s = Inr (res, s1)" "pos r1 s1" "serves S len r r1 res" "events s1 = events s"
    using vread_serves [of r s len] by auto
  have stops: ?case if "seen res = Inl en" "r1 = r" "read_end_result en = res" for en
  proof -
    obtain x where x: "k (Inl en) = Returns x" using Asks.prems(2) by auto
    have "en = EndEOF \<longrightarrow> r = length S" using that(3) read(3) by (auto simp: serves_def)
    moreover have "run_vconn (Asks len k) (c\<lparr>vn_in := [], vn_in_end := en, vn_found := []\<rparr>)
        = Inr (x, c\<lparr>vn_in := [], vn_in_end := en, vn_found := []\<rparr>)" for c
      using that x by (simp add: conn_VRead_def)
    ultimately have same: "same_run (Asks len k) r s x r s1 en [] True"
      using read that by (intro same_run_ends [OF _ _ read(4)]) simp_all
    have run: "run_client vread noting (Asks len k) s = Inr (x, s1)" using that(1) x read(1) by simp
    have "0 < len" "len < 4294967296" using Asks.prems(2) by simp_all
    then have "last_call r en s1" using Asks.prems(1) read(1) that(3) unfolding last_call_def by auto
    then show ?thesis using run same by blast
  qed
  show ?case
  proof (cases res)
    case (ReadOk d n)
    have "proper Q (k (Inr (take n d)))" using Asks.prems(2) by simp
    from Asks.IH [OF rangeI read(2) this] obtain x r' s' en fs stopped where "run_client vread noting (k (Inr (take n d))) s1 = Inr (x, s')"
      "same_run (k (Inr (take n d))) r1 s1 x r' s' en fs stopped"
      "stopped \<longrightarrow> last_call r' en s'" by (elim exE conjE)
    moreover from this(2) have "same_run (Asks len k) r s x r' s' en ((n - 1) # fs) stopped"
      by (rule same_run_reads [OF read(3) [unfolded ReadOk] read(4)])
    moreover have "run_client vread noting (Asks len k) s = Inr (x, s')" using calculation(1) read(1) ReadOk by simp
    ultimately show ?thesis by blast
  qed (use read(3) stops in \<open>simp_all add: serves_def\<close>)
qed

end

text \<open>A source that has the whole stream: it always gives bytes while there are any.\<close>

locale full_source = served_stream +
  assumes vread_full: "pos r s \<Longrightarrow> r < length S \<Longrightarrow> 0 < len \<Longrightarrow> len < 4294967296 \<Longrightarrow>
    \<exists>d n s'. vread len s = Inr (ReadOk d n, s')"
begin

text \<open>On it a program does what it does on the connection that holds the whole stream.\<close>

lemma run_full:
  assumes "pos r s" and "proper Q p"
  shows "\<exists>x r' s' en fs. run_client vread noting p s = Inr (x, s') \<and> pos r' s'
    \<and> (\<forall>c. vn_history c = events s \<longrightarrow>
        run_vconn p (c\<lparr>vn_in := drop r S, vn_in_end := en, vn_found := fs\<rparr>)
          = Inr (x, c\<lparr>vn_in := drop r' S, vn_in_end := en, vn_found := [], vn_history := events s'\<rparr>))"
proof -
  obtain x r' s' en fs stopped where run: "run_client vread noting p s = Inr (x, s')"
    and same: "same_run p r s x r' s' en fs stopped"
    and stop: "stopped \<longrightarrow> last_call r' en s'"
    using run_same [OF assms] by blast
  have r': "pos r' s'" "r \<le> r'" using same by (simp_all add: same_run_def)
  have "read_end_result en \<noteq> ReadOk d n" for d n by (cases en) simp_all
  have "\<not> r' < length S" if last: "last_call r' en s'"
  proof
    assume lt: "r' < length S"
    obtain s1 len where "pos r' s1" "0 < len" "len < 4294967296" "vread len s1 = Inr (read_end_result en, s')"
      using last unfolding last_call_def by (elim exE conjE)
    with vread_full [OF _ lt, of s1 len] \<open>\<And>d n. read_end_result en \<noteq> ReadOk d n\<close> show False by auto
  qed
  then have "stopped \<longrightarrow> \<not> r' < length S" using stop by blast
  then have z: "stopped \<longrightarrow> drop r' S = []" by auto
  have split: "take (r' - r) (drop r S) @ drop r' S = drop r S"
    using append_take_drop_id [of "r' - r" "drop r S"] r'(2) by simp
  have "run_vconn p (c\<lparr>vn_in := drop r S, vn_in_end := en, vn_found := fs\<rparr>)
      = Inr (x, c\<lparr>vn_in := drop r' S, vn_in_end := en, vn_found := [], vn_history := events s'\<rparr>)"
    if "vn_history c = events s" for c
  proof -
    have "\<forall>c z. vn_history c = events s \<and> (stopped \<longrightarrow> z = []) \<longrightarrow>
         run_vconn p (c\<lparr>vn_in := take (r' - r) (drop r S) @ z, vn_in_end := en, vn_found := fs\<rparr>)
           = Inr (x, c\<lparr>vn_in := z, vn_in_end := en, vn_found := [], vn_history := events s'\<rparr>)"
      using same unfolding same_run_def by (elim conjE)
    from this [rule_format, of c "drop r' S"] show ?thesis using that z unfolding split by simp
  qed
  then show ?thesis using run r'(1) by blast
qed

end

text \<open>The connection of the TLS stack itself, whatever ends its bytes.\<close>

interpretation vconn_source: full_source S "\<lambda>len c. Inr (conn_VRead len c)" note_vconn
  "\<lambda>r c. r \<le> length S \<and> vn_in c = drop r S" vn_history for S
proof
  fix S :: bytes and r len :: nat and c :: vconn
  assume c: "r \<le> length S \<and> vn_in c = drop r S" and len: "0 < len"
  obtain res c' where run: "conn_VRead len c = (res, c')" by force
  have "\<exists>r'. (r' \<le> length S \<and> vn_in c' = drop r' S) \<and> serves S len r r' res \<and> vn_history c' = vn_history c"
  proof (cases res)
    case (ReadOk d n)
    note t = conn_VRead_took [OF run [unfolded ReadOk]]
    show ?thesis
      using c len ReadOk t(2-5) tookD(1,6) [OF t(1)]
      by (intro exI [of _ "r + n"]) (simp add: serves_def add.commute)
  qed (use c run in \<open>cases "vn_in_end c"; auto simp: conn_VRead_def serves_def Let_def split: if_splits\<close>)+
  then show "\<exists>res c' r'. Inr (conn_VRead len c) = Inr (res, c') \<and> (r' \<le> length S \<and> vn_in c' = drop r' S)
      \<and> serves S len r r' res \<and> vn_history c' = vn_history c" using run by simp
qed (auto simp: note_vconn_def conn_VRead_def Let_def)

end
