(* ===== verification/TcpSource.thy ===== *)
theory TcpSource
  imports ByteSource
begin

text \<open>
  Blocking calls of \<open>VRead\<close> (\<open>src/pkg/tcpStack/socketsAPI.go\<close>) while segments arrive: the receive path of a
  socket entry as a source of bytes, and the wakeups of the calls that wait.
\<close>

section \<open>The TCP receive path as a source\<close>

text \<open>Segments that the peer of the stream \<open>S\<close> sends.\<close>

definition arrival :: "u32 \<Rightarrow> bytes \<Rightarrow> recv_event \<Rightarrow> bool" where
  "arrival isn S ev \<longleftrightarrow> honest_event isn S ev \<and> (\<forall>len. ev \<noteq> AppReads len)"

definition arrive :: "recv_event list \<Rightarrow> table_entry \<Rightarrow> go_panic + table_entry" where
  "arrive evs e = go_bind (recv_run evs (e, [], False)) (\<lambda>(e', _). Inr e')"

text \<open>
  A call that waits on \<open>dataToRead\<close>: when the channel has a token it takes it and goes round the loop;
  two rounds end in a result or in the next wait.
\<close>

definition resume_VRead :: "nat \<Rightarrow> table_entry \<Rightarrow> go_panic + (vread_result option \<times> table_entry)" where
  "resume_VRead len e =
     go_bind (get_recvBuf e) (\<lambda>rb.
       if \<not> recv_ready (rb_dataToRead rb) then Inr (Some ReadParked, e)
       else VRead_loop 2 (replicate len 0) (set_recvBuf (rb\<lparr>rb_dataToRead := recv_chan (rb_dataToRead rb)\<rparr>) e))"

text \<open>
  A whole call of \<open>VRead\<close>. The lists of \<open>bs\<close> are what arrives before the call and during each of its
  waits; when they are used up the call still waits.
\<close>

fun await_VRead :: "recv_event list list \<Rightarrow> nat \<Rightarrow> table_entry \<Rightarrow> go_panic + (vread_result \<times> recv_event list list \<times> table_entry)" where
  "await_VRead [] len e = Inr (ReadParked, [], e)"
| "await_VRead (b # bs) len e =
     go_bind (arrive b e) (\<lambda>e1. go_bind (resume_VRead len e1) (\<lambda>(res, e2). case res of
        None \<Rightarrow> Inr (ReadParked, bs, e2)
      | Some ReadParked \<Rightarrow> await_VRead bs len e2
      | Some res' \<Rightarrow> Inr (res', bs, e2)))"

definition blocking_VRead :: "recv_event list list \<Rightarrow> nat \<Rightarrow> table_entry \<Rightarrow> go_panic + (vread_result \<times> recv_event list list \<times> table_entry)" where
  "blocking_VRead bs len e =
     go_bind (case bs of [] \<Rightarrow> Inr e | b # _ \<Rightarrow> arrive b e) (\<lambda>e1.
     go_bind (VRead 2 (replicate len 0) e1) (\<lambda>(res, e2). case res of
        None \<Rightarrow> Inr (ReadParked, tl bs, e2)
      | Some ReadParked \<Rightarrow> await_VRead (tl bs) len e2
      | Some res' \<Rightarrow> Inr (res', tl bs, e2)))"

record tcp_source =
  ts_arrivals :: "recv_event list list"
  ts_entry :: table_entry
  ts_history :: "crypto_event list"

definition tcp_VRead :: "nat \<Rightarrow> tcp_source \<Rightarrow> go_panic + (vread_result \<times> tcp_source)" where
  "tcp_VRead len s = go_bind (blocking_VRead (ts_arrivals s) len (ts_entry s)) (\<lambda>(res, bs, e).
     Inr (res, s\<lparr>ts_arrivals := bs, ts_entry := e\<rparr>))"

definition note_tcp :: "crypto_event \<Rightarrow> tcp_source \<Rightarrow> tcp_source" where
  "note_tcp ev s = s\<lparr>ts_history := ts_history s @ [ev]\<rparr>"

abbreviation run_tcp :: "'a client \<Rightarrow> tcp_source \<Rightarrow> go_panic + ('a \<times> tcp_source)" where
  "run_tcp \<equiv> run_client tcp_VRead note_tcp"

definition open_at :: "u32 \<Rightarrow> bytes \<Rightarrow> nat \<Rightarrow> table_entry \<Rightarrow> bool" where
  "open_at isn S r e \<longleftrightarrow> length S < 4294967295 \<and> (\<exists>w f. recv_inv isn S w r f e)"

definition all_arrive :: "u32 \<Rightarrow> bytes \<Rightarrow> recv_event list list \<Rightarrow> bool" where
  "all_arrive isn S bs \<longleftrightarrow> (\<forall>b \<in> set bs. \<forall>ev \<in> set b. arrival isn S ev)"

lemma all_arrive_simps [simp]:
  "all_arrive isn S []"
  "all_arrive isn S (b # bs) \<longleftrightarrow> (\<forall>ev \<in> set b. arrival isn S ev) \<and> all_arrive isn S bs"
  by (simp_all add: all_arrive_def)

lemma arrival_step:
  assumes "recv_inv isn S w r f e" and "length S < 4294967295" and "arrival isn S ev"
  shows "\<exists>e' w' f'. recv_event_step ev (e, [], False) = Inr (e', [], False) \<and> recv_inv isn S w' r f' e'"
proof (cases ev)
  case (SegmentArrives coin hdr payload)
  then have "stream_segment isn S (SeqNum hdr) payload" using assms(3) by (simp add: arrival_def)
  from handlePayload_inv [OF assms(1,2) this, of coin] obtain e' w' f' where
    "handlePayload coin hdr payload e = Inr e'" "recv_inv isn S (w @ w') r f' e'" by blast
  then show ?thesis using SegmentArrives by auto
next
  case (FinArrives hdr)
  then have "SeqNum hdr = isn + of_nat (length S)" using assms(3) by (simp add: arrival_def)
  from handleFin_inv [OF assms(1,2) this] obtain e' f' where "handleFin hdr e = Inr e'" "recv_inv isn S w r f' e'"
    by blast
  then show ?thesis using FinArrives by auto
qed (use assms(3) in \<open>simp add: arrival_def\<close>)

lemma arrive_open:
  "open_at isn S r e \<Longrightarrow> \<forall>ev \<in> set b. arrival isn S ev \<Longrightarrow> \<exists>e'. arrive b e = Inr e' \<and> open_at isn S r e'"
proof (induction b arbitrary: e)
  case (Cons ev b)
  then obtain w f where "recv_inv isn S w r f e" "length S < 4294967295" by (auto simp: open_at_def)
  then obtain e' w' f' where e': "recv_event_step ev (e, [], False) = Inr (e', [], False)" "recv_inv isn S w' r f' e'"
    using arrival_step Cons.prems(2) by fastforce
  then have "open_at isn S r e'" using Cons.prems(1) by (auto simp: open_at_def)
  then obtain e2 where "arrive b e' = Inr e2" "open_at isn S r e2" using Cons by auto
  then show ?case using e'(1) by (simp add: arrive_def)
qed (simp add: arrive_def)

lemma read_result_serves:
  assumes "read_result S w len r r' res" and "prefix w S" and "0 < len"
  shows "serves S len r r' res"
proof (cases res)
  case (ReadOk d n)
  then have n: "n = min len (length w - r)" "r < length w" "r' = r + n" "take n d = take n (drop r w)"
    using assms(1) by (auto simp: read_result_def)
  obtain z where z: "S = w @ z" using assms(2) by (auto simp: prefix_def)
  have "take n (drop r S) = take n (drop r w)" using n(1,2) z by simp
  then show ?thesis using n assms(3) z ReadOk by (auto simp: serves_def)
qed (use assms(1) in \<open>simp_all add: read_result_def serves_def\<close>)

text \<open>The result of a part of a call that ends in \<open>m\<close>.\<close>

definition serving :: "u32 \<Rightarrow> bytes \<Rightarrow> nat \<Rightarrow> nat \<Rightarrow> go_panic + (vread_result option \<times> table_entry) \<Rightarrow> bool" where
  "serving isn S len r m \<longleftrightarrow> (\<exists>res e' r'. m = Inr (Some res, e') \<and> open_at isn S r' e' \<and> serves S len r r' res)"

lemma serving_read:
  assumes "\<exists>res e' r'. m = Inr (Some res, e') \<and> recv_inv isn S w r' f e' \<and> read_result S w len r r' res"
    and "recv_inv isn S w r f e" and "length S < 4294967295" and "0 < len"
  shows "serving isn S len r m"
  using assms read_result_serves [OF _ conjunct1 [OF recv_inv_prefix [OF assms(2)]] assms(4)]
  unfolding serving_def open_at_def by blast

lemma VRead_serving:
  assumes "open_at isn S r e" and "0 < len" and "len < 4294967296"
  shows "serving isn S len r (VRead 2 (replicate len 0) e)"
proof -
  obtain w f where inv: "recv_inv isn S w r f e" and S: "length S < 4294967295" using assms(1) by (auto simp: open_at_def)
  from VRead_inv [OF inv, of "replicate len 0" 0] assms(3) show ?thesis
    by (intro serving_read [OF _ inv S assms(2)]) (simp add: numeral_2_eq_2)
qed

lemma resume_serving:
  assumes "open_at isn S r e" and "0 < len" and "len < 4294967296"
  shows "serving isn S len r (resume_VRead len e)"
proof -
  obtain w f where inv: "recv_inv isn S w r f e" and S: "length S < 4294967295" using assms(1) by (auto simp: open_at_def)
  from inv obtain rb where rb: "get_recvBuf e = Inr rb" "stream_inv isn S w r f rb"
    "rb_dataToRead rb \<noteq> ChanClosed" "te_state e = CLOSE_WAIT \<longrightarrow> f" by (rule recv_invE)
  show ?thesis
  proof (cases "recv_ready (rb_dataToRead rb)")
    case True
    let ?rb = "rb\<lparr>rb_dataToRead := recv_chan (rb_dataToRead rb)\<rparr>"
    have "get_recvBuf (set_recvBuf ?rb e) = Inr ?rb" using normalSocket_get(1) [OF rb(1)] by simp
    moreover have "stream_inv isn S w r f ?rb" using rb(2) by (simp add: stream_inv_def rb_inv_def)
    moreover have "recv_chan (rb_dataToRead rb) \<noteq> ChanClosed" using rb(3) by (cases "rb_dataToRead rb") simp_all
    ultimately have inv': "recv_inv isn S w r f (set_recvBuf ?rb e)" using rb(4) by (intro recv_invI) auto
    from VRead_loop_inv [OF inv', of "replicate len 0" 0] assms(3) show ?thesis
      using rb(1) True
      by (intro serving_read [OF _ inv' S assms(2)]) (simp add: resume_VRead_def numeral_2_eq_2 del: VRead_loop.simps)
  next
    case False
    then show ?thesis using rb(1) assms(1) by (simp add: resume_VRead_def serving_def serves_def)
  qed
qed

definition served :: "u32 \<Rightarrow> bytes \<Rightarrow> nat \<Rightarrow> nat \<Rightarrow> go_panic + (vread_result \<times> recv_event list list \<times> table_entry) \<Rightarrow> bool" where
  "served isn S len r m \<longleftrightarrow> (\<exists>res bs' e' r'. m = Inr (res, bs', e') \<and> all_arrive isn S bs' \<and> open_at isn S r' e'
     \<and> serves S len r r' res)"

text \<open>After a part of the call the call goes on waiting or is over.\<close>

lemma served_after:
  assumes "serving isn S len r m" and bs: "all_arrive isn S bs"
    and wait: "\<And>e. open_at isn S r e \<Longrightarrow> served isn S len r (await_VRead bs len e)"
  shows "served isn S len r (go_bind m (\<lambda>(res, e2). case res of
        None \<Rightarrow> Inr (ReadParked, bs, e2)
      | Some ReadParked \<Rightarrow> await_VRead bs len e2
      | Some res' \<Rightarrow> Inr (res', bs, e2)))"
proof -
  obtain res e' r' where m: "m = Inr (Some res, e')" "open_at isn S r' e'" "serves S len r r' res"
    using assms(1) by (auto simp: serving_def)
  show ?thesis
  proof (cases res)
    case ReadParked
    then show ?thesis using m wait by (simp add: serves_def)
  qed (use m bs in \<open>auto simp: served_def\<close>)
qed

lemma await_served:
  assumes "0 < len" and "len < 4294967296"
  shows "all_arrive isn S bs \<Longrightarrow> open_at isn S r e \<Longrightarrow> served isn S len r (await_VRead bs len e)"
proof (induction bs arbitrary: e)
  case Nil
  then show ?case by (simp add: served_def serves_def)
next
  case (Cons b bs)
  then obtain e1 where e1: "arrive b e = Inr e1" "open_at isn S r e1" using arrive_open by fastforce
  have "serving isn S len r (resume_VRead len e1)" by (rule resume_serving [OF e1(2) assms])
  then show ?case unfolding await_VRead.simps e1(1) go_bind_Inr
    by (rule served_after) (use Cons in simp_all)
qed

lemma blocking_served:
  assumes "0 < len" and "len < 4294967296" and "all_arrive isn S bs" and "open_at isn S r e"
  shows "served isn S len r (blocking_VRead bs len e)"
proof -
  obtain e1 where e1: "(case bs of [] \<Rightarrow> Inr e | b # _ \<Rightarrow> arrive b e) = Inr e1" "open_at isn S r e1"
    using arrive_open [OF assms(4)] assms(3,4) by (cases bs) auto
  have tl: "all_arrive isn S (tl bs)" using assms(3) by (cases bs) simp_all
  have "serving isn S len r (VRead 2 (replicate len 0) e1)" by (rule VRead_serving [OF e1(2) assms(1,2)])
  then show ?thesis unfolding blocking_VRead_def e1(1) go_bind_Inr
    by (rule served_after [OF _ tl await_served [OF assms(1,2) tl]])
qed

definition source_at :: "u32 \<Rightarrow> bytes \<Rightarrow> nat \<Rightarrow> tcp_source \<Rightarrow> bool" where
  "source_at isn S r s \<longleftrightarrow> all_arrive isn S (ts_arrivals s) \<and> open_at isn S r (ts_entry s)"

interpretation tcp: served_stream S tcp_VRead note_tcp "source_at isn S" ts_history for isn S
proof
  fix isn :: u32 and S :: bytes and r len :: nat and s :: tcp_source
  assume s: "source_at isn S r s" and len: "0 < len" "len < 4294967296"
  have "served isn S len r (blocking_VRead (ts_arrivals s) len (ts_entry s))"
    using s by (intro blocking_served [OF len]) (simp_all add: source_at_def)
  then obtain res bs' e' r' where "blocking_VRead (ts_arrivals s) len (ts_entry s) = Inr (res, bs', e')"
    "all_arrive isn S bs'" "open_at isn S r' e'" "serves S len r r' res"
    unfolding served_def by blast
  then show "\<exists>res s' r'. tcp_VRead len s = Inr (res, s') \<and> source_at isn S r' s' \<and> serves S len r r' res
      \<and> ts_history s' = ts_history s"
    by (auto simp: tcp_VRead_def source_at_def)
next
  fix isn :: u32 and S :: bytes and r :: nat and s :: tcp_source
  assume "source_at isn S r s"
  then show "r \<le> length S" using recv_inv_prefix prefix_length_le
    by (fastforce simp: source_at_def open_at_def)
qed (simp_all add: note_tcp_def source_at_def)

section \<open>No lost wakeup\<close>

text \<open>
  \<open>awake\<close>: when there are bytes to read, or the end of the stream, there is a token for the call that
  waits on \<open>dataToRead\<close>.
\<close>

definition awake :: "table_entry \<Rightarrow> bool" where
  "awake e \<longleftrightarrow> (\<forall>rb. get_recvBuf e = Inr rb \<longrightarrow> cb_currSize (rb_cBuf rb) \<noteq> 0 \<or> te_state e = CLOSE_WAIT \<longrightarrow>
     recv_ready (rb_dataToRead rb))"

lemma awake_signal: "signal_dataToRead e = Inr e' \<Longrightarrow> awake e'"
proof -
  assume s: "signal_dataToRead e = Inr e'"
  then obtain rb where rb: "get_recvBuf e = Inr rb" by (auto simp: signal_dataToRead_def go_bind_eq_Inr)
  then have "rb_dataToRead rb \<noteq> ChanClosed" using s by (auto simp: signal_dataToRead_def)
  then show ?thesis using signal_dataToRead_ok [OF rb] s normalSocket_get(1) [OF rb] by (auto simp: awake_def)
qed

lemma awake_set:
  assumes "awake e" and "get_recvBuf e = Inr rb" and "rb_cBuf rb' = rb_cBuf rb" and "rb_dataToRead rb' = rb_dataToRead rb"
  shows "awake (set_recvBuf rb' e)"
  using assms normalSocket_get(1) [OF assms(2)] by (simp add: awake_def)

lemma awake_ack: "sendPureAck a e = Inr e' \<Longrightarrow> awake e \<Longrightarrow> awake e'"
  by (auto simp: sendPureAck_def go_bind_eq_Inr awake_def)

lemma awake_fin_switch: "fin_switch e = Inr e' \<Longrightarrow> awake e \<Longrightarrow> awake e'"
proof (cases "te_state e = ESTABLISHED")
  case False
  moreover assume "fin_switch e = Inr e'" and "awake e"
  ultimately show ?thesis by (cases "te_state e") (auto simp: fin_switch_def timeWait_def awake_def)
qed (auto simp: fin_switch_def dest: awake_signal)

lemma awake_handleFin:
  assumes "handleFin hdr e = Inr e'" and "awake e"
  shows "awake e'"
proof -
  obtain rb where rb: "get_recvBuf e = Inr rb" using assms(1) by (auto simp: handleFin_def go_bind_eq_Inr)
  have "awake (set_recvBuf rb' e)" if "rb_cBuf rb' = rb_cBuf rb" "rb_dataToRead rb' = rb_dataToRead rb" for rb'
    using awake_set [OF assms(2) rb that] .
  then show ?thesis using assms(1) rb
    by (auto simp: handleFin_def Let_def go_bind_eq_Inr split: if_splits dest!: awake_ack awake_fin_switch)
qed

lemma awake_payload_tail: "payload_tail hdr n rb e = Inr e' \<Longrightarrow> awake e'"
  by (auto simp: payload_tail_def go_bind_eq_Inr dest: awake_signal awake_ack)

lemma awake_handlePayload:
  assumes inv: "recv_inv isn S w r f e" and S: "length S < 4294967295"
    and seg: "stream_segment isn S (SeqNum hdr) payload" and run: "handlePayload coin hdr payload e = Inr e'"
    and aw: "awake e"
  shows "awake e'"
proof (cases "te_dropForRetrans e \<and> coin")
  case True
  then show ?thesis using run aw by (simp add: handlePayload_def)
next
  case keep: False
  from inv obtain rb where rb: "get_recvBuf e = Inr rb" "stream_inv isn S w r f rb" by (rule recv_invE)
  then have rinv: "rb_inv isn w r f rb" and w: "prefix w S" "f \<longrightarrow> w = S" by (auto simp: stream_inv_def)
  show ?thesis
  proof (cases "rb_nxt rb = SeqNum hdr \<and> FreeSpace (rb_cBuf rb) \<noteq> 0")
    case now: True
    define p where "p = take (unat (FreeSpace (rb_cBuf rb))) payload"
    have "SeqNum hdr = isn + of_nat (length w + of_bool f)" using now rb_invD(4) [OF rinv] by simp
    note nx = stream_segment_next [OF seg w this S]
    then have f: "f = False" by simp
    obtain cb where wr: "WriteIntoBuf (rb_cBuf rb) (rb_nxt rb) p = Inr (cb, length p)"
      by (rule rb_inv_write [OF rinv [unfolded f], of p]) (simp_all add: p_def)
    show ?thesis
      using handlePayload_next [OF rb(1) conjunct1 [OF now] keep conjunct2 [OF now] p_def wr] run awake_payload_tail by simp
  next
    case False
    have "awake (set_recvBuf (rb\<lparr>rb_earlyArrivals := h\<rparr>) e)" for h by (rule awake_set [OF aw rb(1)]) simp_all
    then show ?thesis using run False rb(1) aw
      by (auto simp: handlePayload_def if_not_P [OF keep] Let_def unat_eq_0 split: if_splits dest: awake_ack)
  qed
qed

lemma arrive_awake:
  "open_at isn S r e \<Longrightarrow> \<forall>ev \<in> set b. arrival isn S ev \<Longrightarrow> awake e \<Longrightarrow>
   \<exists>e'. arrive b e = Inr e' \<and> open_at isn S r e' \<and> awake e'"
proof (induction b arbitrary: e)
  case (Cons ev b)
  then obtain w f where inv: "recv_inv isn S w r f e" "length S < 4294967295" by (auto simp: open_at_def)
  then obtain e' w' f' where e': "recv_event_step ev (e, [], False) = Inr (e', [], False)" "recv_inv isn S w' r f' e'"
    using arrival_step Cons.prems(2) by fastforce
  have "awake e'"
  proof (cases ev)
    case (SegmentArrives coin hdr payload)
    then show ?thesis using e'(1) awake_handlePayload [OF inv, of hdr payload coin] Cons.prems(2,3)
      by (auto simp: arrival_def go_bind_eq_Inr)
  next
    case (FinArrives hdr)
    then show ?thesis using e'(1) awake_handleFin Cons.prems(3) by (auto simp: go_bind_eq_Inr)
  qed (use Cons.prems(2) in \<open>simp add: arrival_def\<close>)
  moreover have "open_at isn S r e'" using Cons.prems(1) e'(2) by (auto simp: open_at_def)
  ultimately obtain e2 where "arrive b e' = Inr e2" "open_at isn S r e2" "awake e2" using Cons by auto
  then show ?case using e'(1) by (simp add: arrive_def)
qed (simp add: arrive_def)

lemma VRead_loop_parks:
  "VRead_loop fuel dest e = Inr (Some ReadParked, e') \<Longrightarrow> awake e'"
proof (induction fuel arbitrary: e)
  case (Suc fuel)
  then obtain rb where rb: "get_recvBuf e = Inr rb" by (auto simp: go_bind_eq_Inr)
  show ?case
  proof (cases "cb_currSize (rb_cBuf rb) = 0 \<and> te_state e \<noteq> CLOSE_WAIT \<and> recv_ready (rb_dataToRead rb)")
    case True
    then show ?thesis using Suc rb by simp
  next
    case False
    then show ?thesis using Suc.prems rb by (auto simp: go_bind_eq_Inr Let_def awake_def split: if_splits)
  qed
qed simp

lemma VRead_parks: "VRead fuel dest e = Inr (Some ReadParked, e') \<Longrightarrow> awake e'"
  by (auto simp: VRead_def dest: VRead_loop_parks split: if_splits)

text \<open>How a call that waits goes on.\<close>

lemma resume_result:
  assumes inv: "recv_inv isn S w r f e" and aw: "awake e" and len: "0 < len" "len < 4294967296"
    and rb: "get_recvBuf e = Inr rb"
  shows "\<exists>res e'. resume_VRead len e = Inr (Some res, e') \<and>
    (if cb_currSize (rb_cBuf rb) \<noteq> 0 then \<exists>d n. res = ReadOk d n \<and> 0 < n
     else if te_state e = CLOSE_WAIT then res = ReadEOF else res = ReadParked)"
proof (cases "recv_ready (rb_dataToRead rb)")
  case False
  then show ?thesis using aw rb by (auto simp: awake_def resume_VRead_def)
next
  case True
  have inv': "stream_inv isn S w r f rb" "rb_dataToRead rb \<noteq> ChanClosed" "te_state e = CLOSE_WAIT \<longrightarrow> f"
    using inv rb by (auto elim!: recv_invE)
  have full: "rb_dataToRead rb = ChanFull" using True inv'(2) by (cases "rb_dataToRead rb") simp_all
  note st = inv'(1) full inv'(3)
  let ?rb = "rb\<lparr>rb_dataToRead := ChanEmpty\<rparr>"
  let ?e = "set_recvBuf ?rb e"
  have g: "get_recvBuf ?e = Inr ?rb" using normalSocket_get(1) [OF rb] by simp
  have run: "resume_VRead len e = VRead_loop (Suc (Suc 0)) (replicate len 0) ?e"
    using rb st(2) by (simp add: resume_VRead_def numeral_2_eq_2 del: VRead_loop.simps)
  show ?thesis
  proof (cases "cb_currSize (rb_cBuf rb) = 0")
    case True
    then show ?thesis unfolding run using g by simp
  next
    case False
    have "rb_inv isn w r f rb" using st(1) by (simp add: stream_inv_def)
    from rb_invD(7) [OF this] False have data: "r < length w" by (auto simp: unat_eq_0 [symmetric])
    have "stream_inv isn S w r f ?rb" using st(1) by (simp add: stream_inv_def rb_inv_def)
    then have "recv_inv isn S w r f ?e" using g st(3) by (intro recv_invI) auto
    from VRead_loop_data [OF this g data, of "replicate len 0" "Suc 0"] len data False show ?thesis
      unfolding run by (auto simp del: VRead_loop.simps)
  qed
qed

text \<open>
  C10. No wakeup is lost. After any honest history of an established connection, let a call of
  \<open>VRead\<close> find nothing and wait on \<open>dataToRead\<close>, and let any segments of the stream, or its FIN, arrive.
  Then the call returns bytes when the buffer has any, reports the end of the stream when it has none
  and the peer has closed, and otherwise goes on waiting.
\<close>

theorem no_lost_wakeup:
  assumes "get_recvBuf e0 = Inr (newRecvBuf isn)" and "te_state e0 = ESTABLISHED" and "length S < 4294967295"
    and "\<forall>ev \<in> set evs. honest_event isn S ev" and "recv_run evs (e0, [], False) = Inr (e, out, eof)"
    and "0 < len" and "len < 4294967296"
    and "VRead 2 (replicate len 0) e = Inr (Some ReadParked, e1)" and "\<forall>ev \<in> set b. arrival isn S ev"
  shows "\<exists>e2 rb res e3. arrive b e1 = Inr e2 \<and> get_recvBuf e2 = Inr rb \<and> resume_VRead len e2 = Inr (Some res, e3)
    \<and> (if cb_currSize (rb_cBuf rb) \<noteq> 0 then \<exists>d n. res = ReadOk d n \<and> 0 < n
       else if te_state e2 = CLOSE_WAIT then res = ReadEOF else res = ReadParked)"
proof -
  have "run_inv isn S (e0, [], False)" using recv_inv_start [OF assms(1,2), of S] by (auto simp: run_inv_def)
  from recv_run_inv [OF this assms(3,4)] assms(5) obtain w r f where "recv_inv isn S w r f e"
    by (auto simp: run_inv_def)
  then have "open_at isn S r e" using assms(3) by (auto simp: open_at_def)
  from VRead_serving [OF this assms(6,7)] assms(8) have "open_at isn S r e1"
    by (auto simp: serving_def serves_def)
  from arrive_awake [OF this assms(9) VRead_parks [OF assms(8)]] obtain e2 where
    e2: "arrive b e1 = Inr e2" "open_at isn S r e2" "awake e2" by blast
  then obtain w' f' where inv: "recv_inv isn S w' r f' e2" by (auto simp: open_at_def)
  then obtain rb where rb: "get_recvBuf e2 = Inr rb" by (rule recv_invE)
  from resume_result [OF inv e2(3) assms(6,7) rb] e2(1) rb show ?thesis by blast
qed

subsection \<open>An example\<close>

lemma cut_segment:
  assumes "j < length cs" and "\<forall>c \<in> set cs. c \<noteq> []"
  shows "stream_segment isn (concat cs) (isn + of_nat (length (concat (take j cs)))) (cs ! j)"
proof -
  have "concat cs = concat (take j cs) @ cs ! j @ concat (drop (Suc j) cs)"
    using concat_split [of cs "Suc j"] concat_take_Suc [OF assms(1)] by simp
  then show ?thesis unfolding stream_segment_def
    using assms by (intro exI [of _ "length (concat (take j cs))"]) (simp del: length_concat)
qed

text \<open>A record in three segments, cut inside the length and inside the data; the last one arrives first.\<close>

definition sample_cut :: "bytes list" where
  "sample_cut = [[0, 0], [0, 19, 1], [2, 3] @ pad 16 (getNonce 0)]"

definition sample_segment :: "nat \<Rightarrow> tcp_fields" where
  "sample_segment j = sample_hdr (0 + of_nat (length (concat (take j sample_cut)))) 16"

definition sample_batch :: "recv_event list" where
  "sample_batch = map (\<lambda>j. SegmentArrives False (sample_segment j) (sample_cut ! j)) [2, 0, 1]"

lemma sample_cut_facts [simp]:
  "length sample_cut = 3" "\<forall>x \<in> set sample_cut. x \<noteq> []" "length (concat sample_cut) = 23"
  "mset [2, 0, 1] = mset [0..<length sample_cut]" "\<forall>j. SeqNum (sample_segment j) = 0 + of_nat (length (concat (take j sample_cut)))"
  "get_recvBuf (sample_entry 7 0) = Inr (newRecvBuf 0)" "te_state (sample_entry 7 0) = ESTABLISHED"
  "\<not> te_dropForRetrans (sample_entry 7 0)"
  by (simp_all add: sample_cut_def sample_segment_def sample_hdr_def sample_entry_def get_recvBuf_eq pad_def upt_rec zero_entry_def)

lemma sample_batch_arrives: "\<forall>ev \<in> set sample_batch. arrival 0 (concat sample_cut) ev"
proof -
  have "arrival 0 (concat sample_cut) (SegmentArrives False (sample_segment j) (sample_cut ! j))" if "j < 3" for j
    using cut_segment [of j sample_cut 0] that sample_cut_facts(5) by (simp add: arrival_def del: length_concat)
  then show ?thesis by (simp add: sample_batch_def)
qed

text \<open>A call waits, and the first two segments of the record arrive.\<close>

theorem no_lost_wakeup_witness:
  "\<exists>e2 rb res e3. arrive (tl sample_batch) (sample_entry 7 0) = Inr e2 \<and> get_recvBuf e2 = Inr rb
    \<and> resume_VRead 4 e2 = Inr (Some res, e3)
    \<and> (if cb_currSize (rb_cBuf rb) \<noteq> 0 then \<exists>d n. res = ReadOk d n \<and> 0 < n
       else if te_state e2 = CLOSE_WAIT then res = ReadEOF else res = ReadParked)"
proof (rule no_lost_wakeup [where evs = "[]" and isn = 0 and S = "concat sample_cut" and out = "[]" and eof = False])
  show "VRead 2 (replicate 4 0) (sample_entry 7 0) = Inr (Some ReadParked, sample_entry 7 0)"
    by (simp add: VRead_def numeral_2_eq_2 newRecvBuf_def)
  have "sample_batch \<noteq> []" by (simp add: sample_batch_def)
  then show "\<forall>ev \<in> set (tl sample_batch). arrival 0 (concat sample_cut) ev"
    using sample_batch_arrives list.set_sel(2) by fast
qed (simp_all del: length_concat)

end
