(* ===== verification/TlsOverTcp.thy ===== *)
theory TlsOverTcp
  imports TcpSource
begin

text \<open>
  The reading half of the TLS stack on top of the TCP receive path: what \<open>VTLSRead\<close> gives on a socket entry
  of the TCP stack while segments arrive, from the theorems of the TLS stack and of the receive path.
\<close>

section \<open>TLS over TCP\<close>

definition start_source :: "recv_event list list \<Rightarrow> table_entry \<Rightarrow> tcp_source" where
  "start_source bs e = \<lparr>ts_arrivals = bs, ts_entry = e, ts_history = []\<rparr>"

lemma start_source_at:
  assumes "get_recvBuf e = Inr (newRecvBuf isn)" and "te_state e = ESTABLISHED"
    and "length S < 4294967295" and "all_arrive isn S bs"
  shows "source_at isn S 0 (start_source bs e)"
  using assms recv_inv_start [OF assms(1,2)] by (auto simp: source_at_def open_at_def start_source_def)

text \<open>The reads of TLS over the TCP receive path and what they are on the connection of the TLS stack.\<close>

lemma tls_run_over_tcp:
  assumes "source_at isn S 0 (start_source bs e)" and "history_of d = []"
  shows "\<exists>ds d' s' i en fs t'. run_tcp (read_all_client cr lens d) (start_source bs e) = Inr ((ds, d'), s')
    \<and> prefix i S \<and> (en = EndEOF \<longrightarrow> i = S) \<and> vn_history t' = ts_history s'
    \<and> read_all cr lens (d\<lparr>vt_tcpConn := (vt_tcpConn d)\<lparr>vn_in := i, vn_in_end := en, vn_found := fs\<rparr>\<rparr>)
       = (ds, d'\<lparr>vt_tcpConn := t'\<rparr>)"
proof -
  obtain x s' r' en fs stopped where run: "run_tcp (read_all_client cr lens d) (start_source bs e) = Inr (x, s')"
    "tcp.same_run S isn (read_all_client cr lens d) 0 (start_source bs e) x r' s' en fs stopped"
    using tcp.run_same [OF assms(1) proper_read_all] by blast
  let ?c = "vt_tcpConn d" and ?i = "take r' S"
  let ?t' = "?c\<lparr>vn_in := [], vn_in_end := en, vn_found := [], vn_history := ts_history s'\<rparr>"
  have r': "en = EndEOF \<longrightarrow> r' = length S"
    and v: "run_vconn (read_all_client cr lens d) (?c\<lparr>vn_in := ?i, vn_in_end := en, vn_found := fs\<rparr>) = Inr (x, ?t')"
    using run(2) assms(2) spec [of "\<lambda>z. (stopped \<longrightarrow> z = []) \<longrightarrow> run_vconn (read_all_client cr lens d)
        (?c\<lparr>vn_in := ?i @ z, vn_in_end := en, vn_found := fs\<rparr>)
          = Inr (x, ?c\<lparr>vn_in := z, vn_in_end := en, vn_found := [], vn_history := ts_history s'\<rparr>)" "[]"]
    by (simp_all add: tcp.same_run_def start_source_def history_of_def)
  obtain ds d' t' where "x = (ds, d')" "t' = ?t'" "read_all cr lens
      (d\<lparr>vt_tcpConn := ?c\<lparr>vn_in := ?i, vn_in_end := en, vn_found := fs\<rparr>\<rparr>) = (ds, d'\<lparr>vt_tcpConn := t'\<rparr>)"
    using read_all_client_runs [of cr lens d "?c\<lparr>vn_in := ?i, vn_in_end := en, vn_found := fs\<rparr>"] v by auto
  then show ?thesis using run(1) r' take_is_prefix [of r' S]
    by (intro exI [of _ ds] exI [of _ d'] exI [of _ s'] exI [of _ ?i] exI [of _ en] exI [of _ fs] exI [of _ t']) simp
qed

text \<open>
  TLS over TCP is TLS over a stream. On an established TCP connection let the segments of
  the peer's stream arrive in any order, lost, repeated or delayed, before the calls of \<open>VRead\<close> and while
  they wait. The reads of the TLS stack on top of it (each a header, a record and the opening of it, in as
  many calls of \<open>VRead\<close> as it takes) do not panic, and give what they give on a connection that hands over
  some first part of the stream in pieces; the end of the stream is only seen after all of it.
\<close>

theorem tls_reads_over_tcp:
  assumes "get_recvBuf e = Inr (newRecvBuf isn)" and "te_state e = ESTABLISHED" and "length S < 4294967295"
    and "\<forall>b \<in> set bs. \<forall>ev \<in> set b. arrival isn S ev" and "history_of d = []"
  shows "\<exists>ds d' s' i en fs t'. run_tcp (read_all_client cr lens d) (start_source bs e) = Inr ((ds, d'), s')
    \<and> prefix i S \<and> (en = EndEOF \<longrightarrow> i = S) \<and> vn_history t' = ts_history s'
    \<and> read_all cr lens (d\<lparr>vt_tcpConn := (vt_tcpConn d)\<lparr>vn_in := i, vn_in_end := en, vn_found := fs\<rparr>\<rparr>)
       = (ds, d'\<lparr>vt_tcpConn := t'\<rparr>)"
  using start_source_at [OF assms(1-3)] assms(4)
  by (intro tls_run_over_tcp [OF _ assms(5)]) (simp add: all_arrive_def)

text \<open>
  C9. The secure channel over the TCP stack. One end writes messages with TLS; the other end
  reads with buffers of any sizes over its TCP receive path, where the segments of an arbitrary stream \<open>S\<close>
  (what the attacker makes of the records) arrive in any order. If every record that opened had been
  sealed by the writer, what the application reads is a prefix of what the writer wrote.
\<close>

theorem secure_channel_over_tcp:
  assumes "get_recvBuf e = Inr (newRecvBuf isn)" and "te_state e = ESTABLISHED" and "length S < 4294967295"
    and "\<forall>b \<in> set bs. \<forall>ev \<in> set b. arrival isn S ev"
    and "vt_readKey d = vt_writeKey c" and "vt_readSeq d = vt_writeSeq c" and "vt_readBuf d = []"
    and "history_of c = []" and "history_of d = []" and "length ps < 2 ^ 64"
    and "run_tcp (read_all_client cr lens d) (start_source bs e) = Inr ((ds, d'), s')"
    and "\<forall>n p. Opened (vt_readKey d) n p \<in> set (ts_history s') \<longrightarrow>
        Sealed (vt_readKey d) n p \<in> set (history_of (write_all cr ps c))"
  shows "prefix (concat ds) (concat ps)"
proof -
  have "source_at isn S 0 (start_source bs e)"
    using start_source_at [OF assms(1-3)] assms(4) by (simp add: all_arrive_def)
  from tls_run_over_tcp [OF this assms(9), of cr lens] obtain ds0 d0 s0 i en fs t' where
    "run_tcp (read_all_client cr lens d) (start_source bs e) = Inr ((ds0, d0), s0)" "vn_history t' = ts_history s0"
      "read_all cr lens (d\<lparr>vt_tcpConn := (vt_tcpConn d)\<lparr>vn_in := i, vn_in_end := en, vn_found := fs\<rparr>\<rparr>)
       = (ds0, d0\<lparr>vt_tcpConn := t'\<rparr>)" by blast
  with assms(11) have
    run: "vn_history t' = ts_history s'"
      "read_all cr lens (d\<lparr>vt_tcpConn := (vt_tcpConn d)\<lparr>vn_in := i, vn_in_end := en, vn_found := fs\<rparr>\<rparr>)
       = (ds, d'\<lparr>vt_tcpConn := t'\<rparr>)" by simp_all
  let ?d = "d\<lparr>vt_tcpConn := (vt_tcpConn d)\<lparr>vn_in := i, vn_in_end := en, vn_found := fs\<rparr>\<rparr>"
  have h: "history_of ?d = []" "history_of (d'\<lparr>vt_tcpConn := t'\<rparr>) = ts_history s'"
    using assms(9) run(1) by (simp_all add: history_of_def)
  obtain qs where qs: "history_of (d'\<lparr>vt_tcpConn := t'\<rparr>) = numbered (Opened (vt_readKey ?d)) (vt_readSeq ?d) qs"
    "prefix (concat ds) (concat qs)" using read_all_run [OF run(2)] assms(7) h(1) by auto
  have "prefix qs ps"
    by (rule opened_prefix [OF assms(8,10) _ _ qs(1)]) (use assms(5,6,12) h(2) in simp_all)
  then show ?thesis using qs(2) prefix_concat prefix_order.trans by blast
qed

section \<open>Messages cross the stack\<close>

text \<open>A source whose receive buffer has accepted the whole stream.\<close>

definition full_at :: "u32 \<Rightarrow> bytes \<Rightarrow> nat \<Rightarrow> tcp_source \<Rightarrow> bool" where
  "full_at isn S r s \<longleftrightarrow> ts_arrivals s = [] \<and> (\<exists>f. recv_inv isn S S r f (ts_entry s))
     \<and> te_state (ts_entry s) \<notin> {FIN_WAIT_1, FIN_WAIT_2, TIME_WAIT, LAST_ACK, CLOSED}"

lemma VRead_loop_state: "VRead_loop fuel dest e = Inr (res, e') \<Longrightarrow> te_state e' = te_state e"
proof (induction fuel arbitrary: e)
  case (Suc fuel)
  from Suc.prems obtain rb where rb: "get_recvBuf e = Inr rb" by (auto simp: go_bind_eq_Inr)
  show ?case
  proof (cases "cb_currSize (rb_cBuf rb) = 0 \<and> te_state e \<noteq> CLOSE_WAIT \<and> recv_ready (rb_dataToRead rb)")
    case True
    then show ?thesis using Suc.prems rb Suc.IH by fastforce
  next
    case False
    then show ?thesis using Suc.prems rb by (auto simp: go_bind_eq_Inr Let_def split: if_splits)
  qed
qed simp

lemma full_read:
  assumes "full_at isn S r s" and "0 < len" and "len < 4294967296"
  shows "\<exists>res s' r'. tcp_VRead len s = Inr (res, s') \<and> full_at isn S r' s' \<and> serves S len r r' res
    \<and> ts_history s' = ts_history s \<and> (r < length S \<longrightarrow> (\<exists>d n. res = ReadOk d n))"
proof -
  let ?e = "ts_entry s"
  obtain f where inv: "recv_inv isn S S r f ?e" and bs: "ts_arrivals s = []"
    and st: "te_state ?e \<notin> {FIN_WAIT_1, FIN_WAIT_2, TIME_WAIT, LAST_ACK, CLOSED}"
    using assms(1) by (auto simp: full_at_def)
  have V: "VRead 2 (replicate len 0) ?e = VRead_loop (Suc (Suc 0)) (replicate len 0) ?e"
    using st by (simp add: VRead_def numeral_2_eq_2 del: VRead_loop.simps)
  obtain res e' r' where v: "VRead 2 (replicate len 0) ?e = Inr (Some res, e')" "recv_inv isn S S r' f e'"
    "read_result S S len r r' res"
    using VRead_loop_inv [OF inv, of "replicate len 0" 0] assms(3) unfolding V length_replicate by blast
  have sv: "serves S len r r' res" by (rule read_result_serves [OF v(3) _ assms(2)]) simp
  have "te_state e' = te_state ?e" using VRead_loop_state v(1) unfolding V by blast
  then have "full_at isn S r' (s\<lparr>ts_arrivals := [], ts_entry := e'\<rparr>)" using st v(2) by (auto simp: full_at_def)
  moreover have "blocking_VRead [] len ?e = Inr (res, [], e')"
    using v(1) by (cases res) (simp_all add: blocking_VRead_def)
  then have "tcp_VRead len s = Inr (res, s\<lparr>ts_arrivals := [], ts_entry := e'\<rparr>)" using bs by (simp add: tcp_VRead_def)
  moreover have "\<exists>d n. res = ReadOk d n" if data: "r < length S"
  proof -
    obtain rb where "get_recvBuf ?e = Inr rb" using inv by (rule recv_invE)
    from VRead_loop_data [OF inv this data, of "replicate len 0" "Suc 0"] assms(3) v(1) show ?thesis
      unfolding V by (auto simp del: VRead_loop.simps)
  qed
  ultimately show ?thesis using sv by (intro exI conjI) (assumption+, simp, blast)
qed

interpretation full: full_source S tcp_VRead note_tcp "full_at isn S" ts_history for isn S
proof
  fix isn :: u32 and S :: bytes and r :: nat and s :: tcp_source
  assume "full_at isn S r s"
  then show "r \<le> length S" using recv_inv_prefix by (fastforce simp: full_at_def)
next
  fix isn :: u32 and S :: bytes and r len :: nat and s :: tcp_source
  assume "full_at isn S r s" "r < length S" "0 < len" "len < 4294967296"
  then show "\<exists>d n s'. tcp_VRead len s = Inr (ReadOk d n, s')" using full_read by blast
next
  fix isn :: u32 and S :: bytes and r len :: nat and s :: tcp_source
  assume "full_at isn S r s" "0 < len" "len < 4294967296"
  then show "\<exists>res s' r'. tcp_VRead len s = Inr (res, s') \<and> full_at isn S r' s' \<and> serves S len r r' res
      \<and> ts_history s' = ts_history s" using full_read by blast
qed (simp_all add: note_tcp_def full_at_def)

text \<open>Segments do not take an open connection out of the states in which it reads.\<close>

definition can_read :: "table_entry \<Rightarrow> bool" where
  "can_read e \<longleftrightarrow> te_state e \<in> {ESTABLISHED, CLOSE_WAIT}"

lemma can_read_set [simp]: "can_read (set_recvBuf rb e) = can_read e"
  by (simp add: can_read_def)

lemma can_read_ack: "sendPureAck a e = Inr e' \<Longrightarrow> can_read e \<Longrightarrow> can_read e'"
  by (auto simp: sendPureAck_def go_bind_eq_Inr can_read_def)

lemma can_read_signal: "signal_dataToRead e = Inr e' \<Longrightarrow> can_read e \<Longrightarrow> can_read e'"
  by (auto simp: signal_dataToRead_def go_bind_eq_Inr can_read_def)

lemma can_read_fin_switch: "fin_switch e = Inr e' \<Longrightarrow> can_read e \<Longrightarrow> can_read e'"
  by (cases "te_state e") (auto simp: fin_switch_def can_read_def signal_dataToRead_def go_bind_eq_Inr)

lemma can_read_handleEarlyFin: "handleEarlyFin e = Inr e' \<Longrightarrow> can_read e \<Longrightarrow> can_read e'"
  by (auto simp: handleEarlyFin_def Let_def go_bind_eq_Inr split: if_splits dest!: can_read_ack can_read_fin_switch)

lemma can_read_payload_tail: "payload_tail hdr n rb e = Inr e' \<Longrightarrow> can_read e \<Longrightarrow> can_read e'"
  by (auto simp: payload_tail_def go_bind_eq_Inr split: if_splits
      dest!: can_read_ack can_read_signal can_read_handleEarlyFin)

lemma can_read_handlePayload:
  assumes "handlePayload coin hdr payload e = Inr e'" and "can_read e"
  shows "can_read e'"
  using assms unfolding handlePayload_def Let_def payload_tail_def [symmetric]
  by (auto simp: go_bind_eq_Inr split: if_splits dest: can_read_ack can_read_payload_tail)

lemma can_read_segments:
  "recv_run (map (\<lambda>j. SegmentArrives False (h j) (d j)) order) (e, out, eof) = Inr (e', out', eof') \<Longrightarrow>
   can_read e \<Longrightarrow> can_read e'"
proof (induction order arbitrary: e)
  case (Cons j order)
  then obtain e1 where "handlePayload False (h j) (d j) e = Inr e1"
    "recv_run (map (\<lambda>j. SegmentArrives False (h j) (d j)) order) (e1, out, eof) = Inr (e', out', eof')"
    by (auto simp: go_bind_eq_Inr)
  then show ?case using Cons.IH Cons.prems(2) can_read_handlePayload by blast
qed simp

text \<open>All segments of a stream that fits the buffer arrive, in some order.\<close>

lemma all_segments_arrive:
  assumes "get_recvBuf e = Inr (newRecvBuf isn)" and "te_state e = ESTABLISHED" and "\<not> te_dropForRetrans e"
    and small: "small_stream isn cs" and "mset order = mset [0..<length cs]"
    and hdr: "\<forall>j. SeqNum (h j) = isn + of_nat (length (concat (take j cs)))"
  shows "\<exists>e' f. arrive (map (\<lambda>j. SegmentArrives False (h j) (cs ! j)) order) e = Inr e'
    \<and> recv_inv isn (concat cs) (concat cs) 0 f e' \<and> can_read e'"
proof -
  let ?evs = "map (\<lambda>j. SegmentArrives False (h j) (cs ! j)) order" and ?S = "concat cs"
  have order: "distinct order" "set order = {..<length cs}"
    using mset_eq_imp_distinct_iff [OF assms(5)] mset_eq_setD [OF assms(5)] by (simp_all add: atLeast0LessThan)
  have "\<forall>j. SeqNum (h j) = isn + of_nat (seg_start cs j)" using hdr by (simp add: seg_start_def)
  with run_arrived [OF arrived_start [OF assms(1,3)] small order(1), of h "[]" False] order(2) obtain e' where
    run: "recv_run ?evs (e, [], False) = Inr (e', [], False)" and arr: "arrived isn cs {..<length cs} e'" by auto
  from arrived_all [OF arr] obtain rb where rb: "get_recvBuf e' = Inr rb" "cb_content (rb_cBuf rb) = ?S" by blast
  have S: "length ?S < 4294967295" using small by (simp add: small_stream_def del: length_concat)
  have ev: "\<forall>ev \<in> set ?evs. honest_event isn ?S ev"
    using cut_segment small order(2) hdr by (auto simp: small_stream_def)
  have "run_inv isn ?S (e, [], False)" using recv_inv_start [OF assms(1,2), of ?S] by (auto simp: run_inv_def)
  from recv_run_inv [OF this S ev] run obtain w r f where inv: "recv_inv isn ?S w r f e'" "[] = take r w"
    by (auto simp: run_inv_def)
  from inv(1) rb(1) have st: "stream_inv isn ?S w r f rb" by (auto elim: recv_invE)
  then have "cb_content (rb_cBuf rb) = drop r w" "r \<le> length w" by (simp_all add: stream_inv_def rb_inv_def is_window_def)
  then have "w = ?S" "r = 0" using inv(2) rb(2) append_take_drop_id [of r w]
    by (auto simp del: append_take_drop_id)
  moreover have "can_read e'" using can_read_segments [OF run] assms(2) by (simp add: can_read_def)
  ultimately show ?thesis using run inv(1) by (auto simp: arrive_def)
qed

text \<open>The reads of TLS on a connection that has the whole stream.\<close>

lemma tls_run_full:
  assumes "recv_inv isn S S 0 f e" and "can_read e" and "history_of d = []"
  shows "\<exists>ds d' s' en fs t'. run_tcp (read_all_client cr lens d) (start_source [] e) = Inr ((ds, d'), s')
    \<and> vn_history t' = ts_history s'
    \<and> read_all cr lens (d\<lparr>vt_tcpConn := (vt_tcpConn d)\<lparr>vn_in := S, vn_in_end := en, vn_found := fs\<rparr>\<rparr>)
       = (ds, d'\<lparr>vt_tcpConn := t'\<rparr>)"
proof -
  have "full_at isn S 0 (start_source [] e)" using assms(1,2) by (auto simp: full_at_def start_source_def can_read_def)
  from full.run_full [OF this proper_read_all, of cr lens d] obtain x r' s' en fs where
    run: "run_tcp (read_all_client cr lens d) (start_source [] e) = Inr (x, s')"
    and v: "run_vconn (read_all_client cr lens d) ((vt_tcpConn d)\<lparr>vn_in := S, vn_in_end := en, vn_found := fs\<rparr>)
      = Inr (x, (vt_tcpConn d)\<lparr>vn_in := drop r' S, vn_in_end := en, vn_found := [], vn_history := ts_history s'\<rparr>)"
    using assms(3) by (auto simp: start_source_def history_of_def)
  let ?t = "(vt_tcpConn d)\<lparr>vn_in := drop r' S, vn_in_end := en, vn_found := [], vn_history := ts_history s'\<rparr>"
  obtain ds d' where "x = (ds, d')" "read_all cr lens
      (d\<lparr>vt_tcpConn := (vt_tcpConn d)\<lparr>vn_in := S, vn_in_end := en, vn_found := fs\<rparr>\<rparr>) = (ds, d'\<lparr>vt_tcpConn := ?t\<rparr>)"
    using read_all_client_runs [of cr lens d "(vt_tcpConn d)\<lparr>vn_in := S, vn_in_end := en, vn_found := fs\<rparr>"] v by auto
  moreover have "vn_history ?t = ts_history s'" by simp
  ultimately show ?thesis using run by blast
qed

text \<open>
  Messages cross the stack. One end writes messages with TLS; the records are cut into TCP
  segments anywhere, also inside headers and records, and the segments arrive in any order at a
  connection of the other end, where they fit the receive buffer and the sequence numbers do not wrap.
  Then the reads of the other end give the messages, one each.
\<close>

theorem tls_messages_cross_tcp:
  assumes "crypto_ok cr" and "aes_key_ok (vt_writeKey c)" and "vn_writes (vt_tcpConn c) = []"
    and "vt_readKey d = vt_writeKey c" and "vt_readSeq d = vt_writeSeq c" and "vt_readBuf d = []"
    and "\<forall>p \<in> set ps. length p + 16 < 2 ^ 32" and "vn_out (vt_tcpConn c) = []" and "history_of d = []"
    and "concat cs = vn_out (vt_tcpConn (write_all cr ps c))" and "\<forall>x \<in> set cs. x \<noteq> []"
    and "length (concat cs) \<le> 65535" and "unat isn + length (concat cs) < 4294967296"
    and "get_recvBuf e = Inr (newRecvBuf isn)" and "te_state e = ESTABLISHED" and "\<not> te_dropForRetrans e"
    and "mset order = mset [0..<length cs]"
    and "\<forall>j. SeqNum (h j) = isn + of_nat (length (concat (take j cs)))"
  shows "\<exists>e' d' s'. arrive (map (\<lambda>j. SegmentArrives False (h j) (cs ! j)) order) e = Inr e'
    \<and> run_tcp (read_all_client cr (map length ps) d) (start_source [] e') = Inr ((ps, d'), s')"
proof -
  have small: "small_stream isn cs" using assms(11-13) by (simp add: small_stream_def)
  from all_segments_arrive [OF assms(14-16) small assms(17,18)] obtain e' f where
    e': "arrive (map (\<lambda>j. SegmentArrives False (h j) (cs ! j)) order) e = Inr e'"
    "recv_inv isn (concat cs) (concat cs) 0 f e'" "can_read e'" by blast
  from tls_run_full [OF e'(2,3) assms(9), of cr "map length ps"] obtain ds d' s' en fs t' where
    run: "run_tcp (read_all_client cr (map length ps) d) (start_source [] e') = Inr ((ds, d'), s')"
      "read_all cr (map length ps) (d\<lparr>vt_tcpConn := (vt_tcpConn d)\<lparr>vn_in := concat cs, vn_in_end := en, vn_found := fs\<rparr>\<rparr>)
       = (ds, d'\<lparr>vt_tcpConn := t'\<rparr>)" by blast
  have "ds = ps" using write_all_out [OF assms(1-3), of "d\<lparr>vt_tcpConn := (vt_tcpConn d)\<lparr>vn_in := concat cs,
      vn_in_end := en, vn_found := fs\<rparr>\<rparr>" ps "[]"] assms(4-8,10) run(2) by auto
  then show ?thesis using e'(1) run(1) by blast
qed

section \<open>Examples\<close>

lemma sample_bytes: "concat sample_cut = record_bytes sample_crypto sample_key 0 [1, 2, 3]"
  by (simp add: sample_cut_def record_bytes_def be32_def sample_crypto_def)

lemma sample_small: "small_stream 0 sample_cut"
  by (simp add: small_stream_def del: length_concat)

theorem tls_messages_cross_tcp_witness:
  "\<exists>e' d' s'. arrive (map (\<lambda>j. SegmentArrives False (sample_segment j) (sample_cut ! j)) [2, 0, 1]) (sample_entry 7 0) = Inr e'
    \<and> run_tcp (read_all_client sample_crypto (map length [[1, 2, 3 :: u8]]) (sample_reader [])) (start_source [] e')
      = Inr (([[1, 2, 3]], d'), s')"
proof -
  obtain c' where "VTLSWrite sample_crypto [1, 2, 3] sample_writer = (TlsOk 3, c')"
    "vn_out (vt_tcpConn c') = record_bytes sample_crypto sample_key 0 [1, 2, 3]"
    by (rule VTLSWrite_ok [OF sample_crypto_ok, of sample_writer "[1, 2, 3]"]) simp_all
  then have out: "concat sample_cut = vn_out (vt_tcpConn (write_all sample_crypto [[1, 2, 3]] sample_writer))"
    by (simp add: sample_bytes)
  show ?thesis
    by (rule tls_messages_cross_tcp [OF sample_crypto_ok _ _ _ _ _ _ _ _ out sample_cut_facts(2) _ _
          sample_cut_facts(6-8) sample_cut_facts(4,5)]) (simp_all del: length_concat)
qed

theorem tls_reads_over_tcp_witness:
  "\<exists>ds d' s' i en fs t'. run_tcp (read_all_client sample_crypto [3, 3] (sample_reader []))
      (start_source [[], sample_batch] (sample_entry 7 0)) = Inr ((ds, d'), s')
    \<and> prefix i (concat sample_cut) \<and> (en = EndEOF \<longrightarrow> i = concat sample_cut) \<and> vn_history t' = ts_history s'
    \<and> read_all sample_crypto [3, 3] ((sample_reader [])\<lparr>vt_tcpConn := (vt_tcpConn (sample_reader []))\<lparr>vn_in := i, vn_in_end := en, vn_found := fs\<rparr>\<rparr>)
       = (ds, d'\<lparr>vt_tcpConn := t'\<rparr>)"
  by (rule tls_reads_over_tcp [where isn = 0]) (use sample_batch_arrives in \<open>simp_all del: length_concat\<close>)

text \<open>The same record, all of which arrives before the first read, and the message of it.\<close>

lemma first_batch:
  assumes "arrive b e = Inr e'"
  shows "run_tcp (Asks len k) (start_source [b] e) = run_tcp (Asks len k) (start_source [] e')"
proof -
  have "tcp_VRead len (start_source [b] e) = tcp_VRead len (start_source [] e')"
    by (simp only: tcp_VRead_def blocking_VRead_def start_source_def tcp_source.simps list.sel list.case assms go_bind_Inr)
  then show ?thesis by simp
qed

lemma sample_run:
  "\<exists>d' s'. run_tcp (read_all_client sample_crypto [3] (sample_reader [])) (start_source [sample_batch] (sample_entry 7 0))
      = Inr (([[1, 2, 3]], d'), s') \<and> ts_history s' = [Opened sample_key (getNonce 0) [1, 2, 3]]"
proof -
  obtain e' f where e': "arrive sample_batch (sample_entry 7 0) = Inr e'" "recv_inv 0 (concat sample_cut) (concat sample_cut) 0 f e'"
    "can_read e'" using all_segments_arrive [OF sample_cut_facts(6-8) sample_small sample_cut_facts(4,5)]
    unfolding sample_batch_def by blast
  obtain ds d' s' en fs t' where run: "run_tcp (read_all_client sample_crypto [3] (sample_reader [])) (start_source [] e') = Inr ((ds, d'), s')"
    "vn_history t' = ts_history s'" "read_all sample_crypto [3] ((sample_reader [])\<lparr>vt_tcpConn :=
       (vt_tcpConn (sample_reader []))\<lparr>vn_in := concat sample_cut, vn_in_end := en, vn_found := fs\<rparr>\<rparr>) = (ds, d'\<lparr>vt_tcpConn := t'\<rparr>)"
    using tls_run_full [OF e'(2,3), of "sample_reader []" sample_crypto "[3]"] by auto
  let ?d = "(sample_reader [])\<lparr>vt_tcpConn := (vt_tcpConn (sample_reader []))\<lparr>vn_in := concat sample_cut, vn_in_end := en, vn_found := fs\<rparr>\<rparr>"
  obtain d1 where d1: "VTLSRead sample_crypto (length [1, 2, 3 :: u8]) ?d = (TlsOk [1, 2, 3], d1)"
    "history_of d1 = history_of ?d @ [Opened sample_key (getNonce 0) [1, 2, 3]]"
    by (rule VTLSRead_ok [OF sample_crypto_ok, of ?d "[1, 2, 3]" "[]"]) (simp_all add: sample_bytes)
  moreover have "history_of ?d = []" using sample_ends(10) [of "[]"] by (simp add: history_of_def del: sample_ends)
  ultimately have "ds = [[1, 2, 3]]" "ts_history s' = [Opened sample_key (getNonce 0) [1, 2, 3]]"
    using run(2,3) by (auto simp: numeral_3_eq_3 history_of_def)
  moreover obtain len k where "read_all_client sample_crypto [3] (sample_reader []) = Asks len k"
    by (simp add: VTLSRead_client_def read_record_client_def tls_then_def ReadFull_client.simps [of 4 "[]"])
  ultimately show ?thesis using run(1) first_batch [OF e'(1), of len k] by (simp only:) blast
qed

theorem secure_channel_over_tcp_witness:
  "\<exists>ds d' s'. run_tcp (read_all_client sample_crypto [3] (sample_reader [])) (start_source [sample_batch] (sample_entry 7 0))
      = Inr ((ds, d'), s') \<and> ds = [[1, 2, 3]] \<and> prefix (concat ds) (concat [[1, 2, 3], [4]])"
proof -
  obtain d' s' where run: "run_tcp (read_all_client sample_crypto [3] (sample_reader [])) (start_source [sample_batch] (sample_entry 7 0))
      = Inr (([[1, 2, 3]], d'), s')" "ts_history s' = [Opened sample_key (getNonce 0) [1, 2, 3]]"
    using sample_run by blast
  obtain c where c: "VTLSWrite sample_crypto [1, 2, 3] sample_writer = (TlsOk 3, c)"
    by (rule VTLSWrite_ok [OF sample_crypto_ok, of sample_writer "[1, 2, 3]"]) simp_all
  obtain n where "history_of (write_all sample_crypto [[4]] c) = history_of c @ numbered (Sealed (vt_writeKey c)) (vt_writeSeq c) (take n [[4]])"
    using write_all_history by blast
  moreover have "history_of c = [Sealed sample_key (getNonce 0) [1, 2, 3]]" using VTLSWrite_run [OF c] by simp
  ultimately have "Sealed sample_key (getNonce 0) [1, 2, 3] \<in> set (history_of (write_all sample_crypto [[1, 2, 3], [4]] sample_writer))"
    using c by simp
  then have "prefix (concat [[1, 2, 3]]) (concat [[1, 2, 3], [4 :: u8]])"
    using sample_batch_arrives run(2)
    by (intro secure_channel_over_tcp [OF sample_cut_facts(6,7) _ _ _ _ _ _ _ _ run(1), of "concat sample_cut" sample_writer])
      (simp_all del: length_concat write_all.simps)
  then show ?thesis using run(1) by blast
qed


end
