(* ===== verification/TlsEndToEnd.thy ===== *)
theory TlsEndToEnd
  imports TlsOverTcp
begin

text \<open>
  The whole way of a message: \<open>VTLSWrite\<close>, the send machinery of one TCP connection, the network, the receive
  path of the other one, \<open>VTLSRead\<close>. The lemmas say which bytes a writer has handed to TCP, whatever became of
  its calls of \<open>VWrite\<close>, and what a reader makes of any first part of them.
\<close>

section \<open>The bytes of a writer\<close>

text \<open>The records of the messages \<open>ps\<close>, numbered from \<open>seq\<close>.\<close>

fun records :: "crypto \<Rightarrow> bytes \<Rightarrow> u64 \<Rightarrow> bytes list \<Rightarrow> bytes" where
  "records cr key seq [] = []"
| "records cr key seq (p # ps) = record_bytes cr key seq p @ records cr key (seq + 1) ps"

lemma write_record_out:
  assumes run: "on_tcp (write_record c p s) c = (r, c')"
  shows "\<exists>k. vn_out (vt_tcpConn c') = vn_out (vt_tcpConn c) @ take k (be32 (of_nat (length s)) @ s)
    \<and> (r = TlsOk () \<longrightarrow> vn_out (vt_tcpConn c') = vn_out (vt_tcpConn c) @ be32 (of_nat (length s)) @ s)"
proof -
  let ?t = "(vt_tcpConn c)\<lparr>vn_history := history_of c @ [Sealed (vt_writeKey c) (getNonce (vt_writeSeq c)) p]\<rparr>"
  let ?l = "be32 (of_nat (length s)) :: bytes"
  obtain q1 t1 where w1: "WriteFull ?l ?t = (q1, t1)" by force
  have whole: "on_tcp (write_record c p s) c
      = (let (r, t) = tls_bind (WriteFull ?l) (\<lambda>_. WriteFull s) ?t in (r, c\<lparr>vt_tcpConn := t\<rparr>))"
    by (simp add: write_record_def on_tcp_def tls_bind_def [of "tls_note _"] tls_note_def history_of_def Let_def)
  show ?thesis
  proof (cases q1)
    case (TlsOk u)
    have o1: "vn_out t1 = vn_out (vt_tcpConn c) @ ?l" using WriteFull_OkE [OF w1 [unfolded TlsOk]] wroteD(4) by fastforce
    obtain q2 t2 where w2: "WriteFull s t1 = (q2, t2)" by force
    obtain k where "wrote (take k s) t1 t2" by (rule WriteFull_any [OF w2])
    then have o2: "vn_out t2 = vn_out (vt_tcpConn c) @ take (length ?l + k) (?l @ s)" using o1 wroteD(4) by fastforce
    have "vn_out t2 = vn_out (vt_tcpConn c) @ ?l @ s" if "q2 = TlsOk ()"
      using WriteFull_OkE [of s t1 "()" t2] w2 that o1 wroteD(4) by fastforce
    moreover have "r = q2" "vt_tcpConn c' = t2" using run whole w1 w2 TlsOk by (auto simp: tls_bind_def)
    ultimately show ?thesis using o2 by blast
  next
    case (TlsErr e)
    obtain k where "wrote (take k ?l) ?t t1" by (rule WriteFull_any [OF w1])
    then have "vn_out t1 = vn_out (vt_tcpConn c) @ take (min k (length ?l)) (?l @ s)" using wroteD(4) by (fastforce simp: min_def)
    moreover have "r = TlsErr e" "vt_tcpConn c' = t1" using run whole w1 TlsErr by (auto simp: tls_bind_def)
    ultimately show ?thesis by blast
  next
    case TlsWaits
    obtain k where "wrote (take k ?l) ?t t1" by (rule WriteFull_any [OF w1])
    then have "vn_out t1 = vn_out (vt_tcpConn c) @ take (min k (length ?l)) (?l @ s)" using wroteD(4) by (fastforce simp: min_def)
    moreover have "r = TlsWaits" "vt_tcpConn c' = t1" using run whole w1 TlsWaits by (auto simp: tls_bind_def)
    ultimately show ?thesis by blast
  qed
qed

lemma VTLSWrite_out:
  assumes ok: "crypto_ok cr" and run: "VTLSWrite cr p c = (r, c')"
  shows "\<exists>k. vn_out (vt_tcpConn c') = vn_out (vt_tcpConn c) @ take k (record_bytes cr (vt_writeKey c) (vt_writeSeq c) p)
    \<and> (\<forall>n. r = TlsOk n \<longrightarrow> vn_out (vt_tcpConn c') = vn_out (vt_tcpConn c) @ record_bytes cr (vt_writeKey c) (vt_writeSeq c) p)"
proof (cases "SealData cr p c")
  case None
  then show ?thesis using run by (auto simp: VTLSWrite_def intro: exI [of _ 0])
next
  case (Some s)
  have s: "be32 (of_nat (length s)) @ s = record_bytes cr (vt_writeKey c) (vt_writeSeq c) p"
    using Some crypto_okD(8) [OF ok] by (auto simp: SealData_def Let_def record_bytes_def split: if_splits)
  obtain q t where w: "on_tcp (write_record c p s) c = (q, t)" by force
  have "vt_tcpConn c' = vt_tcpConn t" "(\<exists>n. r = TlsOk n) \<longleftrightarrow> q = TlsOk ()"
    using run Some w by (cases q; auto simp: VTLSWrite_def)+
  then show ?thesis using write_record_out [OF w] unfolding s by auto
qed

lemma write_all_prefix:
  assumes ok: "crypto_ok cr"
  shows "prefix (vn_out (vt_tcpConn (write_all cr ps c))) (vn_out (vt_tcpConn c) @ records cr (vt_writeKey c) (vt_writeSeq c) ps)"
proof (induction ps arbitrary: c)
  case (Cons p ps)
  obtain r c1 where r: "VTLSWrite cr p c = (r, c1)" by force
  let ?b = "record_bytes cr (vt_writeKey c) (vt_writeSeq c) p"
  from VTLSWrite_out [OF ok r] obtain k where k: "vn_out (vt_tcpConn c1) = vn_out (vt_tcpConn c) @ take k ?b"
    "\<forall>n. r = TlsOk n \<longrightarrow> vn_out (vt_tcpConn c1) = vn_out (vt_tcpConn c) @ ?b" by blast
  show ?case
  proof (cases r)
    case (TlsOk n)
    then have "vt_writeKey c1 = vt_writeKey c" "vt_writeSeq c1 = vt_writeSeq c + 1" using VTLSWrite_run [OF r] by auto
    then show ?thesis using Cons [of c1] r TlsOk k(2) by simp
  qed (use r k(1) take_is_prefix [of k ?b] in \<open>auto intro: prefix_order.trans\<close>)
qed simp

section \<open>What a reader makes of them\<close>

lemma prefix_cases:
  assumes "prefix i (b @ rest)"
  obtains k where "k < length b" and "i = take k b" | j where "i = b @ j" and "prefix j rest"
proof (cases "length b \<le> length i")
  case True
  then show thesis using that assms by (metis prefix_append not_less order_less_le prefix_length_less prefix_order.antisym prefix_length_prefix prefixI append.right_neutral Nil_prefix)
next
  case False
  then have "prefix i b" using assms by (metis nat_le_linear prefixI prefix_length_prefix)
  then have "i = take (length i) b" by (metis append_eq_conv_conj prefix_def)
  then show thesis using that(1) [of "length i"] False by simp
qed

lemma VTLSRead_records:
  assumes ok: "crypto_ok cr" "aes_key_ok (vt_readKey d)" and buf: "vt_readBuf d = []"
    and ps: "\<forall>p \<in> set ps. length p + 16 < 2 ^ 32"
    and i: "prefix (vn_in (vt_tcpConn d)) (records cr (vt_readKey d) (vt_readSeq d) ps)"
    and run: "VTLSRead cr len d = (TlsOk x, d')"
  obtains p qs where "ps = p # qs" and "x @ vt_readBuf d' = p" and "vt_readKey d' = vt_readKey d"
    and "prefix (vn_in (vt_tcpConn d')) (records cr (vt_readKey d') (vt_readSeq d') qs)"
proof (cases ps)
  case Nil
  then have "vn_in (vt_tcpConn d) = []" using i by simp
  then have "length (vn_in (vt_tcpConn d)) < 4" by simp
  then obtain t' where "ReadFull 4 (vt_tcpConn d) = (end_outcome (vn_in_end (vt_tcpConn d)), t')"
    by (rule ReadFull_short)
  then have "VTLSRead cr len d = (TlsOk x, d') \<Longrightarrow> False"
    using buf by (cases "vn_in_end (vt_tcpConn d)") (simp_all add: VTLSRead_def on_tcp_def read_record_def tls_bind_def)
  then show thesis using run by blast
next
  case (Cons p qs)
  let ?t = "vt_tcpConn d"
  have p: "length p + 16 < 2 ^ 32" using ps Cons by simp
  from i Cons have "prefix (vn_in ?t) (record_bytes cr (vt_readKey d) (vt_readSeq d) p @ records cr (vt_readKey d) (vt_readSeq d + 1) qs)"
    by simp
  then show thesis
  proof (cases rule: prefix_cases)
    case (1 k)
    then obtain t' where "read_record cr d ?t = (end_outcome (vn_in_end ?t), t')" using read_record_short [OF p ok(1)] by blast
    then show thesis using run buf by (cases "vn_in_end ?t") (simp_all add: VTLSRead_def on_tcp_def)
  next
    case (2 j)
    obtain t' where "read_record cr d ?t = (TlsOk p, t')" "vn_in t' = j"
      using read_record_ok [OF ok p 2(1)] by blast
    then show thesis using that [OF Cons] run buf 2(2) by (auto simp: VTLSRead_def on_tcp_def Let_def)
  qed
qed

lemma read_all_records:
  assumes ok: "crypto_ok cr"
  shows "aes_key_ok (vt_readKey d) \<Longrightarrow> \<forall>p \<in> set ps. length p + 16 < 2 ^ 32 \<Longrightarrow>
    prefix (vn_in (vt_tcpConn d)) (records cr (vt_readKey d) (vt_readSeq d) ps) \<Longrightarrow>
    read_all cr lens d = (ds, d') \<Longrightarrow> prefix (concat ds) (vt_readBuf d @ concat ps)"
proof (induction lens arbitrary: d ps ds)
  case (Cons len lens)
  obtain r d1 where r: "VTLSRead cr len d = (r, d1)" by force
  show ?case
  proof (cases r)
    case (TlsOk x)
    then obtain es where es: "read_all cr lens d1 = (es, d')" "ds = x # es"
      using Cons.prems(4) r by (auto simp: Let_def split: prod.splits)
    show ?thesis
    proof (cases "vt_readBuf d = []")
      case True
      from VTLSRead_records [OF ok Cons.prems(1) True Cons.prems(2,3) r [unfolded TlsOk]] obtain p qs where
        q: "ps = p # qs" "x @ vt_readBuf d1 = p" "vt_readKey d1 = vt_readKey d"
          "prefix (vn_in (vt_tcpConn d1)) (records cr (vt_readKey d1) (vt_readSeq d1) qs)" by blast
      have "prefix (concat es) (vt_readBuf d1 @ concat qs)"
        using Cons.IH [OF _ _ q(4) es(1)] Cons.prems(1,2) q(1,3) by simp
      then have "prefix (x @ concat es) (x @ vt_readBuf d1 @ concat qs)" by simp
      then show ?thesis using es(2) q(1,2) True by auto
    next
      case False
      let ?n = "min len (length (vt_readBuf d))"
      have d1: "x = take ?n (vt_readBuf d)" "d1 = d\<lparr>vt_readBuf := drop ?n (vt_readBuf d)\<rparr>"
        using r TlsOk False by (auto simp: VTLSRead_def Let_def)
      then have "prefix (concat es) (drop ?n (vt_readBuf d) @ concat ps)"
        using Cons.IH [of d1 ps es] Cons.prems(1-3) es(1) by simp
      then have "prefix (x @ concat es) (x @ drop ?n (vt_readBuf d) @ concat ps)" by simp
      moreover have "x @ drop ?n (vt_readBuf d) @ concat ps = vt_readBuf d @ concat ps"
        unfolding d1(1) append_assoc [symmetric] append_take_drop_id ..
      ultimately show ?thesis using es(2) by simp
    qed
  qed (use Cons.prems(4) r in auto)
qed auto

section \<open>From writer to reader\<close>

text \<open>What the network delivers of the segments that a sender has handed to it.\<close>

definition network_batches :: "send_request list \<Rightarrow> recv_event list list \<Rightarrow> bool" where
  "network_batches rs bs \<longleftrightarrow> (\<forall>b \<in> set bs. \<forall>ev \<in> set b. network_delivers rs ev \<and> (\<forall>len. ev \<noteq> AppReads len))"

lemma network_batches_arrive:
  "sent_ok isn W e \<Longrightarrow> network_batches (te_sendRequests e) bs \<Longrightarrow> all_arrive isn W bs"
  using delivered_is_honest by (fastforce simp: network_batches_def all_arrive_def arrival_def)


section \<open>All of it\<close>

text \<open>Calls of \<open>VWrite\<close> one after the other, as long as they complete.\<close>

fun tcp_writes :: "bytes list \<Rightarrow> table_entry \<Rightarrow> go_panic + (bool \<times> table_entry)" where
  "tcp_writes [] e = Inr (True, e)"
| "tcp_writes (d # ds) e = go_bind (VWrite 2 d e) (\<lambda>(res, e').
     if res = Some (WriteDone (length d)) then tcp_writes ds e' else Inr (False, e'))"

lemma tcp_writes_ok:
  "sview isn W LoopIdle a n sb rq e \<Longrightarrow> sent_ok isn W e \<Longrightarrow> length (concat ds) \<le> 65535 - (length W - a) \<Longrightarrow> a \<le> length W \<Longrightarrow>
   \<exists>sb' e'. tcp_writes ds e = Inr (True, e') \<and> sview isn (W @ concat ds) LoopIdle a n sb' rq e'
     \<and> sb_otherSideWindow sb' = sb_otherSideWindow sb \<and> sent_ok isn (W @ concat ds) e'"
proof (induction ds arbitrary: W sb e)
  case (Cons d ds)
  have "length d \<le> 65535 - (length W - a)" using Cons.prems(3) by simp
  from VWrite_fits [OF Cons.prems(1,2) this, of 0] obtain sb1 e1 where
    e1: "VWrite_loop 2 d 0 e = Inr (Some (WriteDone (length d)), e1)" "sview isn (W @ d) LoopIdle a n sb1 rq e1"
      "sb_otherSideWindow sb1 = sb_otherSideWindow sb" "sent_ok isn (W @ d) e1" by (auto simp: numeral_2_eq_2)
  have "te_state e \<notin> closing_states" using Cons.prems(1) by (auto simp: sview_def closing_states_def)
  then have w: "VWrite 2 d e = Inr (Some (WriteDone (length d)), e1)" using e1(1) by (simp add: VWrite_def)
  have "length (concat ds) \<le> 65535 - (length (W @ d) - a)" "a \<le> length (W @ d)" using Cons.prems(3,4) by simp_all
  from Cons.IH [OF e1(2,4) this] obtain sb' e' where
    "tcp_writes ds e1 = Inr (True, e')" "sview isn ((W @ d) @ concat ds) LoopIdle a n sb' rq e'"
    "sb_otherSideWindow sb' = sb_otherSideWindow sb1" "sent_ok isn ((W @ d) @ concat ds) e'" by blast
  then show ?case using w e1(3) by (intro exI [of _ sb'] exI [of _ e']) simp
qed auto

text \<open>A fresh connection takes a stream that fits and sends all of it.\<close>

lemma fresh_sends_all:
  assumes "fresh_conn isn e0" and "get_sendBuf e0 = Inr sb0" and "no_wrap isn (concat pieces)"
    and "length (concat pieces) \<le> 65535" and "length (concat pieces) \<le> unat (sb_otherSideWindow sb0)"
    and "length (concat pieces) \<le> fuel * 1360"
  shows "\<exists>e1 e2 rs. tcp_writes pieces e0 = Inr (True, e1) \<and> sendLoop_inner (Suc fuel) now e1 = Inr (Some NoUnsentData, e2)
    \<and> te_sendRequests e2 = te_sendRequests e1 @ rs \<and> concat (map sr_data rs) = concat pieces
    \<and> (\<forall>r \<in> set rs. sr_data r \<noteq> []) \<and> consecutive isn rs"
proof -
  from fresh_send_inv [OF assms(1)] obtain a n rq where v: "sview isn [] LoopIdle a n sb0 rq e0" and s: "sent_ok isn [] e0"
    using assms(2) by (auto simp: send_inv_def sview_def)
  then have "sb_inv isn [] a n sb0" by (simp add: sview_def)
  from sb_invD(6,7) [OF this] have an: "a = 0" "n = 0" by simp_all
  from tcp_writes_ok [OF v s, of pieces] assms(4) an obtain sb1 e1 where
    w: "tcp_writes pieces e0 = Inr (True, e1)" "sview isn (concat pieces) LoopIdle 0 0 sb1 rq e1"
      "sb_otherSideWindow sb1 = sb_otherSideWindow sb0" by auto
  from sendLoop_inner_flush [OF w(2) assms(3), of fuel now] assms(5,6) w(3) obtain e2 rs where
    "sendLoop_inner (Suc fuel) now e1 = Inr (Some NoUnsentData, e2)" "te_sendRequests e2 = te_sendRequests e1 @ rs"
    "concat (map sr_data rs) = concat pieces" "\<forall>r \<in> set rs. 0 < length (sr_data r) \<and> length (sr_data r) \<le> 1360"
    "consecutive isn rs" by auto
  then show ?thesis using w(1) by blast
qed


section \<open>Examples\<close>

lemma sample_written: "vn_out (vt_tcpConn (write_all sample_crypto [[1, 2, 3]] sample_writer)) = concat sample_cut"
proof -
  obtain c' where "VTLSWrite sample_crypto [1, 2, 3] sample_writer = (TlsOk 3, c')"
    "vn_out (vt_tcpConn c') = record_bytes sample_crypto sample_key 0 [1, 2, 3]"
    by (rule VTLSWrite_ok [OF sample_crypto_ok, of sample_writer "[1, 2, 3]"]) simp_all
  then show ?thesis by (simp add: sample_bytes)
qed

lemma sample_stream: "no_wrap 1000 (concat sample_cut)" "concat sample_cut \<noteq> []"
  using sample_cut_facts(3) by (auto simp: no_wrap_def simp del: length_concat sample_cut_facts(3))



end
